(* ===== verification/Prelude.thy ===== *)
theory Prelude
  imports Main "HOL-Library.Word" "HOL-Library.Multiset" "HOL-Library.List_Lexorder"
    "HOL-Library.Char_ord" "HOL-Library.Product_Lexorder"
begin

text \<open>
  Shared vocabulary of the development: the machine integers of the source and their checked and
  saturating arithmetic, \<open>Result\<close> as a sum, UTF-8 strings as byte strings, wall-clock time and
  durations, and the bounded selection loop over a \<open>BinaryHeap\<close> that the outbox and the event store
  both use. Nothing in this theory is specific to one component.
\<close>

unbundle bit_operations_syntax

named_theorems store_inv \<open>preservation of the invariants of the in-memory stores\<close>
named_theorems store_defs \<open>unfolding of one store operation\<close>

section \<open>Machine integers\<close>

type_synonym u8 = "8 word"
type_synonym u16 = "16 word"
type_synonym u32 = "32 word"
type_synonym u64 = "64 word"
type_synonym bytes = "u8 list"

definition checked_add :: "'a::len word \<Rightarrow> 'a word \<Rightarrow> 'a word option" where
  "checked_add a b = (if unat a + unat b < 2 ^ LENGTH('a) then Some (a + b) else None)"

definition checked_sub :: "'a::len word \<Rightarrow> 'a word \<Rightarrow> 'a word option" where
  "checked_sub a b = (if b \<le> a then Some (a - b) else None)"

definition saturating_sub :: "'a::len word \<Rightarrow> 'a word \<Rightarrow> 'a word" where
  "saturating_sub a b = (if b \<le> a then a - b else 0)"

definition saturating_add :: "'a::len word \<Rightarrow> 'a word \<Rightarrow> 'a word" where
  "saturating_add a b = (if unat a + unat b < 2 ^ LENGTH('a) then a + b else - 1)"

text \<open>\<open>u64::try_from\<close> on an unsigned value that may be wider than 64 bits.\<close>

definition u64_try_from :: "nat \<Rightarrow> u64 option" where
  "u64_try_from n = (if n < 2 ^ 64 then Some (word_of_nat n) else None)"

text \<open>\<open>usize\<close> counters and lengths are naturals; \<open>checked_add\<close> leaves the 64-bit range explicitly.\<close>

definition usize_checked_add :: "nat \<Rightarrow> nat \<Rightarrow> nat option" where
  "usize_checked_add a b = (if a + b < 2 ^ 64 then Some (a + b) else None)"

definition usize_saturating_add :: "nat \<Rightarrow> nat \<Rightarrow> nat" where
  "usize_saturating_add a b = min (2 ^ 64 - 1) (a + b)"

text \<open>\<open>i64\<close> values are integers; the checked operations leave the range explicitly.\<close>

definition i64_min :: int where
  "i64_min = - (2 ^ 63)"

definition i64_max :: int where
  "i64_max = 2 ^ 63 - 1"

definition in_i64 :: "int \<Rightarrow> bool" where
  "in_i64 n \<longleftrightarrow> i64_min \<le> n \<and> n \<le> i64_max"

definition i64_try_from :: "int \<Rightarrow> int option" where
  "i64_try_from n = (if in_i64 n then Some n else None)"

definition i64_checked_add :: "int \<Rightarrow> int \<Rightarrow> int option" where
  "i64_checked_add a b = i64_try_from (a + b)"

definition u32_try_from :: "nat \<Rightarrow> u32 option" where
  "u32_try_from n = (if n < 2 ^ 32 then Some (word_of_nat n) else None)"

definition u32_or_max :: "nat \<Rightarrow> u32" where
  "u32_or_max n = (case u32_try_from n of Some v \<Rightarrow> v | None \<Rightarrow> 4294967295)"

definition i64_checked_sub :: "int \<Rightarrow> int \<Rightarrow> int option" where
  "i64_checked_sub a b = i64_try_from (a - b)"

definition i64_saturating_add :: "int \<Rightarrow> int \<Rightarrow> int" where
  "i64_saturating_add a b = max i64_min (min i64_max (a + b))"

lemmas i64_defs = i64_min_def i64_max_def in_i64_def i64_try_from_def i64_checked_add_def
  i64_checked_sub_def i64_saturating_add_def

lemma checked_add_Some_unat:
  fixes a b c :: "'a::len word"
  assumes "checked_add a b = Some c"
  shows "unat c = unat a + unat b"
proof -
  from assms have *: "unat a + unat b < 2 ^ LENGTH('a)" and "c = a + b"
    by (auto simp: checked_add_def split: if_splits)
  then show ?thesis by (simp add: unat_word_ariths)
qed

lemma checked_add_1_less:
  fixes a c :: "'a::len word"
  assumes "checked_add a 1 = Some c"
  shows "a < c"
  using checked_add_Some_unat [OF assms] by (simp add: word_less_nat_alt unat_1)

lemma checked_add_1_neq_0:
  fixes a c :: "'a::len word"
  assumes "checked_add a 1 = Some c"
  shows "c \<noteq> 0"
  using checked_add_Some_unat [OF assms] by (auto simp: unat_1)

lemma checked_add_1_None: "checked_add a (1 :: 'a::len word) = None \<longleftrightarrow> a = - 1"
proof -
  have "unat a < 2 ^ LENGTH('a)" by simp
  then have "unat a + 1 < 2 ^ LENGTH('a) \<longleftrightarrow> unat a \<noteq> 2 ^ LENGTH('a) - 1"
    by linarith
  also have "\<dots> \<longleftrightarrow> a \<noteq> - 1"
    using word_order.extremum_unique [of a] unsigned_minus_1_eq_mask [where 'a = nat and 'b = 'a]
    by (auto simp: mask_eq_exp_minus_1 word_unat_eq_iff)
  finally show ?thesis
    by (simp add: checked_add_def unat_1)
qed

lemma saturating_sub_le: "saturating_sub a b \<le> a"
  by (simp add: saturating_sub_def word_sub_le)

lemma saturating_sub_unat: "unat (saturating_sub a b) = unat a - unat b"
  by (auto simp: saturating_sub_def unat_sub word_le_nat_alt)

lemma u64_try_from_iff: "u64_try_from n = Some w \<longleftrightarrow> unat w = n"
proof
  assume "u64_try_from n = Some w"
  then show "unat w = n"
    by (auto simp: u64_try_from_def unat_of_nat take_bit_nat_eq_self split: if_splits)
next
  assume w: "unat w = n"
  have "unat w < 2 ^ 64" using unsigned_less [where 'b = 64 and 'a = nat, of w] by simp
  moreover have "word_of_nat (unat w) = w" by simp
  ultimately show "u64_try_from n = Some w"
    unfolding u64_try_from_def w by simp
qed

section \<open>Bit fields\<close>

lemma nat_push_or: "y < 2 ^ n \<Longrightarrow> push_bit n x OR y = x * 2 ^ n + (y :: nat)"
proof -
  assume "y < 2 ^ n"
  then have y: "take_bit n y = y" by (simp add: take_bit_nat_eq_self)
  have "push_bit n x AND take_bit n y = 0"
    by (rule bit_eqI) (auto simp: bit_simps)
  then have "push_bit n x + y = push_bit n x OR y"
    unfolding y by (rule disjunctive_add_eq_or)
  then show ?thesis by (simp add: push_bit_eq_mult)
qed

lemma unat_push_or:
  fixes a b :: "'a::len word"
  assumes "unat b < 2 ^ n" "unat a * 2 ^ n < 2 ^ LENGTH('a)"
  shows "unat (push_bit n a OR b) = unat a * 2 ^ n + unat b"
  using assms
  by (simp add: unsigned_or_eq unsigned_push_bit_eq take_bit_nat_eq_self nat_push_or push_bit_eq_mult
      flip: push_bit_eq_mult)

lemma unat_exp:
  assumes "n < LENGTH('a::len)"
  shows "unat (push_bit n (1 :: 'a word)) = 2 ^ n"
  unfolding unsigned_push_bit_eq using assms by (simp add: push_bit_eq_mult take_bit_nat_eq_self)

lemma unat_drop: "unat (drop_bit n a) = unat a div 2 ^ n"
  unfolding unsigned_drop_bit_eq by (simp add: drop_bit_eq_div take_bit_nat_eq_self)

lemma unat_exp_minus_1:
  assumes "n < LENGTH('a::len)"
  shows "unat (push_bit n (1 :: 'a word) - 1) = 2 ^ n - 1"
proof -
  have "1 \<le> push_bit n (1 :: 'a word)" unfolding word_le_nat_alt unat_exp [OF assms] by simp
  then show ?thesis by (simp add: unat_sub unat_exp [OF assms] del: push_bit_of_1)
qed

lemma unat_and_mask:
  fixes a :: "'a::len word"
  assumes "n < LENGTH('a)"
  shows "unat (a AND (push_bit n 1 - 1)) = unat a mod 2 ^ n"
proof -
  have "unat (a AND (push_bit n 1 - 1)) = unat a AND mask n"
    unfolding unsigned_and_eq unat_exp_minus_1 [OF assms] by (simp add: mask_eq_exp_minus_1)
  then show ?thesis by (simp add: take_bit_eq_mod flip: take_bit_eq_mask)
qed

lemma slot_div_mod:
  fixes t x p :: nat
  assumes "x < p"
  shows "(t * p + x) div p = t" "(t * p + x) mod p = x"
  using assms by auto

lemma mod_less_of_div_eq:
  fixes a b p :: nat
  assumes "a div p = b div p" "a < b"
  shows "a mod p < b mod p"
proof -
  have "a = b div p * p + a mod p" unfolding assms(1) [symmetric] by simp
  moreover have "b = b div p * p + b mod p" by simp
  ultimately show ?thesis using assms(2) by linarith
qed

lemma slot_bounded:
  fixes t s tb sb :: nat
  assumes "t < 2 ^ tb" "s < 2 ^ sb"
  shows "t * 2 ^ sb + s < 2 ^ (tb + sb)"
proof -
  from assms(1) have "Suc t * 2 ^ sb \<le> 2 ^ tb * 2 ^ sb" by (intro mult_right_mono) simp_all
  with assms(2) show ?thesis by (simp add: power_add)
qed

section \<open>Results\<close>

text \<open>
  A fallible operation returns a sum: \<^term>\<open>Inl e\<close> is \<open>Err(e)\<close> and \<^term>\<open>Inr v\<close> is \<open>Ok(v)\<close>. The bind is
  the \<open>?\<close> operator of the source.
\<close>

fun bind_r :: "'e + 'a \<Rightarrow> ('a \<Rightarrow> 'e + 'b) \<Rightarrow> 'e + 'b" where
  "bind_r (Inl e) f = Inl e"
| "bind_r (Inr v) f = f v"

fun ok_or :: "'e \<Rightarrow> 'a option \<Rightarrow> 'e + 'a" where
  "ok_or e None = Inl e"
| "ok_or e (Some v) = Inr v"

fun is_ok :: "'e + 'a \<Rightarrow> bool" where
  "is_ok (Inl e) = False"
| "is_ok (Inr v) = True"

lemma bind_r_Inr_iff: "bind_r m f = Inr v \<longleftrightarrow> (\<exists>a. m = Inr a \<and> f a = Inr v)"
  by (cases m) auto

lemma bind_r_Inl_iff: "bind_r m f = Inl e \<longleftrightarrow> m = Inl e \<or> (\<exists>a. m = Inr a \<and> f a = Inl e)"
  by (cases m) auto

lemma ok_or_Inr_iff [simp]: "ok_or e m = Inr v \<longleftrightarrow> m = Some v"
  by (cases m) auto

lemma ok_or_Inl_iff [simp]: "ok_or e m = Inl e' \<longleftrightarrow> m = None \<and> e' = e"
  by (cases m) auto

lemma is_ok_iff: "is_ok r \<longleftrightarrow> (\<exists>v. r = Inr v)"
  by (cases r) auto

lemmas result_iffs = bind_r_Inr_iff bind_r_Inl_iff is_ok_iff

section \<open>Wall-clock time\<close>

text \<open>
  A \<open>SystemTime\<close> is its signed distance from the Unix epoch in nanoseconds, a \<open>Duration\<close> an unsigned
  number of nanoseconds. Operations that read the clock take the value they read as an argument.
\<close>

type_synonym systime = int
type_synonym duration = nat

definition from_secs :: "nat \<Rightarrow> duration" where
  "from_secs s = s * 1000000000"

definition from_millis :: "nat \<Rightarrow> duration" where
  "from_millis m = m * 1000000"

definition as_millis :: "duration \<Rightarrow> nat" where
  "as_millis d = d div 1000000"

definition duration_since_epoch :: "systime \<Rightarrow> duration option" where
  "duration_since_epoch t = (if t < 0 then None else Some (nat t))"

text \<open>
  \<open>SystemTime\<close> holds a signed 64-bit number of seconds, so \<open>checked_add\<close> fails outside that range.
\<close>

definition systime_checked_add :: "systime \<Rightarrow> duration \<Rightarrow> systime option" where
  "systime_checked_add t d =
     (let r = t + int d in if r < 2 ^ 63 * 1000000000 then Some r else None)"

text \<open>
  The conversion \<open>time.duration_since(UNIX_EPOCH)\<close> followed by \<open>u64::try_from(elapsed.as_millis())\<close>, with
  the error each call site reports before the epoch and beyond the range.
\<close>

definition unix_ms_or :: "'e \<Rightarrow> 'e \<Rightarrow> systime \<Rightarrow> 'e + u64" where
  "unix_ms_or before beyond t =
     bind_r (ok_or before (duration_since_epoch t)) (\<lambda>elapsed.
       ok_or beyond (u64_try_from (as_millis elapsed)))"

lemma unix_ms_or_Inr:
  "unix_ms_or eb er t = Inr ms \<longleftrightarrow> 0 \<le> t \<and> uint ms = t div 1000000"
proof (cases "0 \<le> t")
  case True
  then have *: "t div 1000000 = int (nat t div 1000000)" by (simp add: zdiv_int)
  from True have "unix_ms_or eb er t = Inr ms \<longleftrightarrow> unat ms = nat t div 1000000"
    by (simp add: unix_ms_or_def duration_since_epoch_def as_millis_def u64_try_from_iff)
  also have "\<dots> \<longleftrightarrow> uint ms = t div 1000000"
    unfolding * uint_nat by (rule of_nat_eq_iff [symmetric])
  finally show ?thesis using True by simp
next
  case False
  then show ?thesis by (simp add: unix_ms_or_def duration_since_epoch_def)
qed

lemma as_millis_from_millis [simp]: "as_millis (from_millis m) = m"
  by (simp add: as_millis_def from_millis_def)

lemma as_millis_mono: "a \<le> b \<Longrightarrow> as_millis a \<le> as_millis b"
  by (simp add: as_millis_def div_le_mono)

section \<open>Strings\<close>

text \<open>
  A Rust \<open>str\<close> is a sequence of UTF-8 bytes, and its \<open>len\<close> counts bytes; \<^typ>\<open>char\<close> is one byte here.
  \<open>is_char_boundary\<close> holds at both ends and before every byte that is not a continuation byte.
\<close>

definition byte :: "char \<Rightarrow> nat" where
  "byte c = of_char c"

definition is_cont :: "char \<Rightarrow> bool" where
  "is_cont c \<longleftrightarrow> 128 \<le> byte c \<and> byte c < 192"

definition is_char_boundary :: "string \<Rightarrow> nat \<Rightarrow> bool" where
  "is_char_boundary s i \<longleftrightarrow> i = 0 \<or> i = length s \<or> i < length s \<and> \<not> is_cont (s ! i)"

text \<open>The loop \<open>while end > 0 && !s.is_char_boundary(end) { end -= 1 }\<close> of the truncating helpers.\<close>

fun floor_char_boundary :: "string \<Rightarrow> nat \<Rightarrow> nat" where
  "floor_char_boundary s 0 = 0"
| "floor_char_boundary s (Suc n) =
     (if is_char_boundary s (Suc n) then Suc n else floor_char_boundary s n)"

text \<open>
  Well-formed UTF-8: the byte sequences of the Unicode standard's table of well-formed sequences,
  without overlong forms and surrogates.
\<close>

fun utf8_valid :: "string \<Rightarrow> bool" where
  "utf8_valid [] = True"
| "utf8_valid (a # s) =
    (if byte a < 128 then utf8_valid s
     else if 194 \<le> byte a \<and> byte a < 224 then
       (case s of b # s' \<Rightarrow> is_cont b \<and> utf8_valid s' | _ \<Rightarrow> False)
     else if 224 \<le> byte a \<and> byte a < 240 then
       (case s of b # c # s' \<Rightarrow>
          is_cont b \<and> is_cont c \<and> (byte a = 224 \<longrightarrow> 160 \<le> byte b) \<and> (byte a = 237 \<longrightarrow> byte b < 160)
          \<and> utf8_valid s' | _ \<Rightarrow> False)
     else if 240 \<le> byte a \<and> byte a < 245 then
       (case s of b # c # d # s' \<Rightarrow>
          is_cont b \<and> is_cont c \<and> is_cont d \<and> (byte a = 240 \<longrightarrow> 144 \<le> byte b)
          \<and> (byte a = 244 \<longrightarrow> byte b < 144) \<and> utf8_valid s' | _ \<Rightarrow> False)
     else False)"

text \<open>
  \<open>str::trim().is_empty()\<close>: every scalar is in the Unicode \<open>White_Space\<close> class, written out on the
  UTF-8 encodings of that class.
\<close>

fun is_blank :: "string \<Rightarrow> bool" where
  "is_blank [] = True"
| "is_blank (a # s) =
    (if 9 \<le> byte a \<and> byte a \<le> 13 \<or> byte a = 32 then is_blank s
     else if byte a = 194 then
       (case s of b # s' \<Rightarrow> (byte b = 133 \<or> byte b = 160) \<and> is_blank s' | _ \<Rightarrow> False)
     else if byte a = 225 then
       (case s of b # c # s' \<Rightarrow> byte b = 154 \<and> byte c = 128 \<and> is_blank s' | _ \<Rightarrow> False)
     else if byte a = 226 then
       (case s of b # c # s' \<Rightarrow>
          (byte b = 128 \<and> (byte c \<le> 138 \<or> byte c = 168 \<or> byte c = 169 \<or> byte c = 175)
           \<or> byte b = 129 \<and> byte c = 159) \<and> is_blank s' | _ \<Rightarrow> False)
     else if byte a = 227 then
       (case s of b # c # s' \<Rightarrow> byte b = 128 \<and> byte c = 128 \<and> is_blank s' | _ \<Rightarrow> False)
     else False)"

lemma floor_char_boundary_le: "floor_char_boundary s n \<le> n"
  by (induction n) auto

lemma floor_char_boundary_ok: "is_char_boundary s (floor_char_boundary s n)"
  by (induction n) (auto simp: is_char_boundary_def)

lemma floor_char_boundary_id: "is_char_boundary s n \<Longrightarrow> floor_char_boundary s n = n"
  by (cases n) auto

lemma floor_char_boundary_greatest:
  "is_char_boundary s i \<Longrightarrow> i \<le> n \<Longrightarrow> i \<le> floor_char_boundary s n"
  by (induction n) (auto simp: le_Suc_eq)

lemma is_char_boundary_Cons:
  "is_char_boundary (a # s) (Suc i) \<longleftrightarrow>
     i = length s \<or> i < length s \<and> \<not> is_cont (s ! i)"
  by (auto simp: is_char_boundary_def)

lemma is_char_boundary_Suc:
  "is_char_boundary (a # s) (Suc i) \<Longrightarrow> is_char_boundary s i"
  by (auto simp: is_char_boundary_def)

text \<open>Cutting well-formed UTF-8 at a character boundary leaves well-formed UTF-8.\<close>

lemma utf8_valid_take:
  "utf8_valid s \<Longrightarrow> is_char_boundary s n \<Longrightarrow> utf8_valid (take n s)"
proof (induction s arbitrary: n rule: utf8_valid.induct)
  case 1
  then show ?case by simp
next
  case (2 a s)
  show ?case
  proof (cases n)
    case 0
    then show ?thesis by simp
  next
    case (Suc m)
    note B = "2.prems"(2) [unfolded Suc is_char_boundary_Cons]
    consider (1) "byte a < 128" | (2) "194 \<le> byte a \<and> byte a < 224"
      | (3) "224 \<le> byte a \<and> byte a < 240" | (4) "240 \<le> byte a \<and> byte a < 245"
      using "2.prems"(1) by (auto split: if_splits)
    then show ?thesis
    proof cases
      case 1
      with "2.IH"(1) [of m] "2.prems" Suc show ?thesis
        by (simp add: is_char_boundary_Suc)
    next
      case 2
      then obtain b s' where s: "s = b # s'" and v: "is_cont b" "utf8_valid s'"
        using "2.prems"(1) by (auto split: list.splits if_splits)
      with B obtain k where k: "m = Suc k" by (cases m) auto
      from B s k have "is_char_boundary s' k" by (auto simp: is_char_boundary_def)
      with "2.IH"(2) [OF _ _ s] 2 v have "utf8_valid (take k s')" by auto
      with 2 v s k Suc show ?thesis by simp
    next
      case 3
      then obtain b c s' where s: "s = b # c # s'" and v: "is_cont b" "is_cont c" "utf8_valid s'"
          "byte a = 224 \<longrightarrow> 160 \<le> byte b" "byte a = 237 \<longrightarrow> byte b < 160"
        using "2.prems"(1) by (auto split: list.splits if_splits)
      with B obtain k where k: "m = Suc (Suc k)"
        by (cases m; cases "m - 1") auto
      from B s k have "is_char_boundary s' k" by (auto simp: is_char_boundary_def)
      with "2.IH"(3) [of b "c # s'" c s'] 3 v s have "utf8_valid (take k s')" by auto
      with 3 v s k Suc show ?thesis by simp
    next
      case 4
      then obtain b c d s' where s: "s = b # c # d # s'"
          and v: "is_cont b" "is_cont c" "is_cont d" "utf8_valid s'"
          "byte a = 240 \<longrightarrow> 144 \<le> byte b" "byte a = 244 \<longrightarrow> byte b < 144"
        using "2.prems"(1) by (auto split: list.splits if_splits)
      with B obtain k where k: "m = Suc (Suc (Suc k))"
        by (cases m; cases "m - 1"; cases "m - 2") auto
      from B s k have "is_char_boundary s' k" by (auto simp: is_char_boundary_def)
      with "2.IH"(4) [of b "c # d # s'" c "d # s'" d s'] 4 v s have "utf8_valid (take k s')" by auto
      with 4 v s k Suc show ?thesis by simp
    qed
  qed
qed

text \<open>A window of four bytes of well-formed UTF-8 holds a byte that starts a character.\<close>

lemma utf8_valid_boundary_dense:
  "utf8_valid s \<Longrightarrow> i + 3 < length s \<Longrightarrow> \<exists>j. i \<le> j \<and> j \<le> i + 3 \<and> \<not> is_cont (s ! j)"
proof (induction s arbitrary: i rule: utf8_valid.induct)
  case 1
  then show ?case by simp
next
  case (2 a s)
  have head: "\<not> is_cont a"
    using "2.prems"(1) by (auto simp: is_cont_def split: if_splits)
  show ?case
  proof (cases "i = 0")
    case True
    with head show ?thesis by (intro exI [of _ 0]) simp
  next
    case False
    have step: ?thesis if s: "s = p @ t" and IH: "\<And>i. i + 3 < length t \<Longrightarrow> \<exists>j. i \<le> j \<and> j \<le> i + 3 \<and> \<not> is_cont (t ! j)"
      and p: "length p \<le> 3" and t0: "t = [] \<or> \<not> is_cont (t ! 0)" for p t
    proof (cases "i \<le> length p")
      case True
      with p s "2.prems"(2) False have "length t > 0" "Suc (length p) \<le> i + 3" by auto
      with True t0 s show ?thesis
        by (intro exI [of _ "Suc (length p)"]) (auto simp: nth_append)
    next
      case False
      with s "2.prems"(2) have "i - Suc (length p) + 3 < length t" by simp
      from IH [OF this] obtain j
        where "i - Suc (length p) \<le> j" "j \<le> i - Suc (length p) + 3" "\<not> is_cont (t ! j)" by blast
      with False s show ?thesis
        by (intro exI [of _ "Suc (length p) + j"]) (auto simp: nth_append)
    qed
    have start: "t = [] \<or> \<not> is_cont (t ! 0)" if "utf8_valid t" for t
      using that by (cases t) (auto simp: is_cont_def split: if_splits)
    consider (1) "byte a < 128" | (2) "194 \<le> byte a \<and> byte a < 224"
      | (3) "224 \<le> byte a \<and> byte a < 240" | (4) "240 \<le> byte a \<and> byte a < 245"
      using "2.prems"(1) by (auto split: if_splits)
    then show ?thesis
    proof cases
      case 1
      with "2.prems"(1) have v: "utf8_valid s" by simp
      from "2.IH"(1) [OF 1 v] start [OF v] show ?thesis by (intro step [of "[]" s]) auto
    next
      case 2
      then obtain b t where s: "s = b # t" and v: "utf8_valid t"
        using "2.prems"(1) by (auto split: list.splits if_splits)
      with 2 start [OF v] "2.IH"(2) [OF _ _ s] show ?thesis by (intro step [of "[b]" t]) auto
    next
      case 3
      then obtain b c t where s: "s = b # c # t" and v: "utf8_valid t"
        using "2.prems"(1) by (auto split: list.splits if_splits)
      with 3 start [OF v] "2.IH"(3) [of b "c # t" c t] show ?thesis
        by (intro step [of "[b, c]" t]) auto
    next
      case 4
      then obtain b c d t where s: "s = b # c # d # t" and v: "utf8_valid t"
        using "2.prems"(1) by (auto split: list.splits if_splits)
      with 4 start [OF v] "2.IH"(4) [of b "c # d # t" c "d # t" d t] show ?thesis
        by (intro step [of "[b, c, d]" t]) auto
    qed
  qed
qed

lemma floor_char_boundary_near:
  assumes "utf8_valid s" "n < length s" "3 \<le> n"
  shows "n - 3 \<le> floor_char_boundary s n"
proof -
  from utf8_valid_boundary_dense [of s "n - 3"] assms obtain j
    where j: "n - 3 \<le> j" "j \<le> n" "\<not> is_cont (s ! j)" by auto
  with assms(2) have "is_char_boundary s j" by (simp add: is_char_boundary_def)
  with j show ?thesis
    using floor_char_boundary_greatest [of s j n] by simp
qed

text \<open>
  Truncation to at most \<open>n\<close> bytes without splitting a character, the contract shared by the bounded
  error details, outbox failure reasons and dead-letter descriptions of the source.
\<close>

definition truncates :: "nat \<Rightarrow> (string \<Rightarrow> string) \<Rightarrow> bool" where
  "truncates n f \<longleftrightarrow>
     (\<forall>s. f s = take (floor_char_boundary s (min (length s) n)) s)"

lemma truncates_props:
  assumes "truncates n f"
  shows "length (f s) \<le> n" "f s = take (length (f s)) s"
    "length s \<le> n \<Longrightarrow> f s = s"
    "utf8_valid s \<Longrightarrow> utf8_valid (f s)"
    "utf8_valid s \<Longrightarrow> n < length s \<Longrightarrow> 3 \<le> n \<Longrightarrow> n - 3 \<le> length (f s)"
proof -
  let ?e = "floor_char_boundary s (min (length s) n)"
  from assms have f: "f s = take ?e s" by (simp add: truncates_def)
  have e: "?e \<le> length s" "?e \<le> n"
    using floor_char_boundary_le [of s "min (length s) n"] by auto
  then show "length (f s) \<le> n" and "f s = take (length (f s)) s"
    using f by auto
  show "f s = s" if "length s \<le> n"
  proof -
    from that have "?e = length s"
      by (simp add: floor_char_boundary_id is_char_boundary_def)
    with f show ?thesis by simp
  qed
  show "utf8_valid (f s)" if "utf8_valid s"
    using f that by (simp add: utf8_valid_take floor_char_boundary_ok)
  show "n - 3 \<le> length (f s)" if "utf8_valid s" "n < length s" "3 \<le> n"
    using f e floor_char_boundary_near [OF that] that(2) by simp
qed

section \<open>Decimal formatting\<close>

fun dec :: "nat \<Rightarrow> string" where
  "dec n = (if n < 10 then [char_of (48 + n)] else dec (n div 10) @ [char_of (48 + n mod 10)])"

declare dec.simps [simp del]

definition undec :: "string \<Rightarrow> nat" where
  "undec s = foldl (\<lambda>a c. 10 * a + (byte c - 48)) 0 s"

lemma byte_digit: "d < 10 \<Longrightarrow> byte (char_of (48 + d)) = 48 + d"
  by (simp add: byte_def)

lemma undec_dec: "undec (dec n) = n"
proof (induction n rule: dec.induct)
  case (1 n)
  show ?case
  proof (cases "n < 10")
    case True
    then show ?thesis by (subst dec.simps) (simp add: undec_def byte_digit)
  next
    case False
    then have "undec (dec n) = 10 * undec (dec (n div 10)) + n mod 10"
      by (subst dec.simps) (simp add: undec_def byte_digit)
    with 1 False show ?thesis by simp
  qed
qed

lemma dec_inject [simp]: "dec m = dec n \<longleftrightarrow> m = n"
  by (metis undec_dec)

section \<open>Bounded selection\<close>

text \<open>
  The source keeps the \<open>k\<close> smallest keys of an iteration in a \<open>BinaryHeap\<close>: it pushes while the heap
  is not full and afterwards replaces the heap's largest element when a smaller one arrives. A heap is
  represented by the ascending list of its elements, so \<open>push\<close> inserts, \<open>peek\<close> is the last element,
  \<open>pop\<close> drops it and \<open>into_sorted_vec\<close> is the list itself.
\<close>

definition heap_push :: "'a::linorder \<Rightarrow> 'a list \<Rightarrow> 'a list" where
  "heap_push x h = insort x h"

definition heap_peek :: "'a list \<Rightarrow> 'a option" where
  "heap_peek h = (if h = [] then None else Some (last h))"

definition heap_pop :: "'a list \<Rightarrow> 'a list" where
  "heap_pop h = butlast h"

definition heap_offer :: "nat \<Rightarrow> 'a::linorder \<Rightarrow> 'a list \<Rightarrow> 'a list" where
  "heap_offer k x h =
     (if length h < k then heap_push x h
      else case heap_peek h of
        Some latest \<Rightarrow> if x < latest then heap_push x (heap_pop h) else h
      | None \<Rightarrow> h)"

fun keep_smallest :: "nat \<Rightarrow> 'a::linorder list \<Rightarrow> 'a list \<Rightarrow> 'a list" where
  "keep_smallest k [] h = h"
| "keep_smallest k (x # xs) h = keep_smallest k xs (heap_offer k x h)"

lemma insort_take:
  "sorted l \<Longrightarrow> length l \<le> k \<Longrightarrow> take (Suc k) (insort x l) = insort x l"
  by simp

lemma take_insort_replace:
  assumes "sorted l" "k \<le> length l" "0 < k" "x < l ! (k - 1)"
  shows "take k (insort x l) = insort x (take (k - 1) l)"
  using assms
proof (induction l arbitrary: k)
  case Nil
  then show ?case by simp
next
  case (Cons y l)
  show ?case
  proof (cases "x \<le> y")
    case True
    then have "insort x (take (k - 1) (y # l)) = x # take (k - 1) (y # l)"
      by (cases "k - 1") auto
    with True Cons.prems show ?thesis by (cases k) auto
  next
    case False
    with Cons.prems obtain j where j: "k = Suc (Suc j)"
      by (cases k; cases "k - 1") auto
    with Cons.prems have "take (Suc j) (insort x l) = insort x (take j l)"
      using Cons.IH [of "Suc j"] by simp
    with False j show ?thesis by simp
  qed
qed

lemma take_insort_skip:
  assumes "sorted l" "k \<le> length l" "0 < k" "l ! (k - 1) \<le> x"
  shows "take k (insort x l) = take k l"
  using assms
proof (induction l arbitrary: k)
  case Nil
  then show ?case by simp
next
  case (Cons y l)
  show ?case
  proof (cases "k = 1")
    case True
    with Cons.prems show ?thesis
      by (cases "x = y"; cases l) (auto simp: insort_is_Cons)
  next
    case False
    with Cons.prems obtain j where j: "k = Suc (Suc j)"
      by (cases k; cases "k - 1") auto
    with Cons.prems have le: "l ! j \<le> x" and len: "j < length l" by auto
    with Cons.prems(1) have "y \<le> x" by (force dest: nth_mem)
    show ?thesis
    proof (cases "x = y")
      case True
      with Cons.prems(1) have "insort x l = x # l" by (simp add: insort_is_Cons)
      with Cons.IH [of "Suc j"] Cons.prems(1) le len True j show ?thesis by simp
    next
      case False
      with \<open>y \<le> x\<close> have "\<not> x \<le> y" by auto
      with Cons.IH [of "Suc j"] Cons.prems j le len show ?thesis by simp
    qed
  qed
qed

lemma heap_offer_take:
  assumes "sorted l"
  shows "heap_offer k x (take k l) = take k (insort x l)"
proof (cases "length l < k")
  case True
  then show ?thesis by (simp add: heap_offer_def heap_push_def)
next
  case False
  then have len: "k \<le> length l" by simp
  show ?thesis
  proof (cases "k = 0")
    case True
    then show ?thesis by (simp add: heap_offer_def heap_peek_def)
  next
    case False
    then have ne: "take k l \<noteq> []" using len by auto
    then have "last (take k l) = l ! (k - 1)" "butlast (take k l) = take (k - 1) l"
      using len False by (simp_all add: last_conv_nth butlast_take)
    with ne False len assms show ?thesis
      by (auto simp: heap_offer_def heap_peek_def heap_pop_def heap_push_def
          take_insort_replace take_insort_skip)
  qed
qed

text \<open>The loop computes the first \<open>k\<close> keys in ascending order, whatever the iteration order.\<close>

lemma keep_smallest_take_gen:
  "keep_smallest k xs (take k (sort ys)) = take k (sort (xs @ ys))"
proof (induction xs arbitrary: ys)
  case Nil
  then show ?case by simp
next
  case (Cons x xs)
  have "heap_offer k x (take k (sort ys)) = take k (sort (x # ys))"
    by (simp add: heap_offer_take)
  then have "keep_smallest k (x # xs) (take k (sort ys)) = take k (sort (xs @ x # ys))"
    using Cons.IH [of "x # ys"] by simp
  also have "sort (xs @ x # ys) = sort (x # xs @ ys)"
    by (rule properties_for_sort) (auto simp: sorted_insort)
  finally show ?case by simp
qed

lemma keep_smallest_take: "keep_smallest k xs [] = take k (sort xs)"
  using keep_smallest_take_gen [of k xs "[]"] by simp

lemma keep_smallest_order_irrelevant:
  assumes "mset xs = mset ys"
  shows "keep_smallest k xs [] = keep_smallest k ys []"
  using assms by (simp add: keep_smallest_take properties_for_sort [of "sort ys" xs])

lemma sort_eq_of_mset: "mset xs = mset ys \<Longrightarrow> sort xs = sort ys"
  by (simp add: properties_for_sort)

end
