(* ===== verification/Catga_Errors.thy ===== *)
theory Catga_Errors
  imports Prelude
begin

text \<open>
  The failure vocabulary of the framework: \<open>ErrorCode\<close> with its stable names, wire bytes,
  retryability and HTTP status, \<open>CatgaError\<close> with bounded details, and the MemoryPack wire form of an
  error (\<open>crates/catga-core/src/error.rs\<close>, \<open>codec/memorypack/error.rs\<close>).
\<close>

section \<open>Error categories\<close>

datatype error_code =
    Validation | HandlerFailed | HandlerNotFound | PipelineFailed | PersistenceFailed | LockFailed
  | TransportFailed | SerializationFailed | NotFound | Conflict | Unauthorized | Forbidden
  | Cancelled | Timeout | FlowFailed | FlowCancelled | FlowTimeout | FlowCompensating | Unsupported
  | Transient | Unavailable | Internal

fun as_stable_str :: "error_code \<Rightarrow> string" where
  "as_stable_str Validation = ''validation''"
| "as_stable_str HandlerFailed = ''handler_failed''"
| "as_stable_str HandlerNotFound = ''handler_not_found''"
| "as_stable_str PipelineFailed = ''pipeline_failed''"
| "as_stable_str PersistenceFailed = ''persistence_failed''"
| "as_stable_str LockFailed = ''lock_failed''"
| "as_stable_str TransportFailed = ''transport_failed''"
| "as_stable_str SerializationFailed = ''serialization_failed''"
| "as_stable_str NotFound = ''not_found''"
| "as_stable_str Conflict = ''conflict''"
| "as_stable_str Unauthorized = ''unauthorized''"
| "as_stable_str Forbidden = ''forbidden''"
| "as_stable_str Cancelled = ''cancelled''"
| "as_stable_str Timeout = ''timeout''"
| "as_stable_str FlowFailed = ''flow_failed''"
| "as_stable_str FlowCancelled = ''flow_cancelled''"
| "as_stable_str FlowTimeout = ''flow_timeout''"
| "as_stable_str FlowCompensating = ''flow_compensating''"
| "as_stable_str Unsupported = ''unsupported''"
| "as_stable_str Transient = ''transient''"
| "as_stable_str Unavailable = ''unavailable''"
| "as_stable_str Internal = ''internal''"

text \<open>The arms of the \<open>match\<close>, in source order; the first entry for a name decides.\<close>

definition from_stable_str :: "string \<Rightarrow> error_code option" where
  "from_stable_str value =
    map_of
     [(''validation'', Validation), (''handler_failed'', HandlerFailed),
      (''handler_not_found'', HandlerNotFound), (''pipeline_failed'', PipelineFailed),
      (''persistence_failed'', PersistenceFailed), (''lock_failed'', LockFailed),
      (''transport_failed'', TransportFailed), (''serialization_failed'', SerializationFailed),
      (''not_found'', NotFound), (''conflict'', Conflict), (''unauthorized'', Unauthorized),
      (''forbidden'', Forbidden), (''cancelled'', Cancelled), (''timeout'', Timeout),
      (''flow_failed'', FlowFailed), (''flow_cancelled'', FlowCancelled),
      (''flow_timeout'', FlowTimeout), (''flow_compensating'', FlowCompensating),
      (''unsupported'', Unsupported), (''transient'', Transient), (''unavailable'', Unavailable),
      (''internal'', Internal), (''VALIDATION_FAILED'', Validation),
      (''HANDLER_FAILED'', HandlerFailed), (''HANDLER_NOT_FOUND'', HandlerNotFound),
      (''PIPELINE_FAILED'', PipelineFailed), (''PERSISTENCE_FAILED'', PersistenceFailed),
      (''LOCK_FAILED'', LockFailed), (''TRANSPORT_FAILED'', TransportFailed),
      (''SERIALIZATION_FAILED'', SerializationFailed), (''TIMEOUT'', Timeout),
      (''CANCELLED'', Cancelled), (''INTERNAL_ERROR'', Internal), (''NOT_FOUND'', NotFound),
      (''CONFLICT'', Conflict), (''UNAUTHORIZED'', Unauthorized), (''FORBIDDEN'', Forbidden),
      (''FLOW_FAILED'', FlowFailed), (''FLOW_CANCELLED'', FlowCancelled),
      (''FLOW_TIMEOUT'', FlowTimeout), (''FLOW_COMPENSATING'', FlowCompensating)] value"

fun code_is_retryable :: "error_code \<Rightarrow> bool" where
  "code_is_retryable c =
     (case c of TransportFailed \<Rightarrow> True | Timeout \<Rightarrow> True | FlowTimeout \<Rightarrow> True | Transient \<Rightarrow> True
      | Unavailable \<Rightarrow> True | _ \<Rightarrow> False)"

fun http_status_u16 :: "error_code \<Rightarrow> u16" where
  "http_status_u16 c =
     (case c of
        Validation \<Rightarrow> 422
      | HandlerFailed \<Rightarrow> 400 | PipelineFailed \<Rightarrow> 400 | SerializationFailed \<Rightarrow> 400
      | FlowFailed \<Rightarrow> 400 | FlowCompensating \<Rightarrow> 400
      | HandlerNotFound \<Rightarrow> 404 | NotFound \<Rightarrow> 404
      | PersistenceFailed \<Rightarrow> 503 | LockFailed \<Rightarrow> 503 | TransportFailed \<Rightarrow> 503
      | Conflict \<Rightarrow> 409 | Unauthorized \<Rightarrow> 401 | Forbidden \<Rightarrow> 403
      | Cancelled \<Rightarrow> 408 | Timeout \<Rightarrow> 408 | FlowCancelled \<Rightarrow> 408 | FlowTimeout \<Rightarrow> 408
      | Unsupported \<Rightarrow> 501 | Transient \<Rightarrow> 503 | Unavailable \<Rightarrow> 503 | Internal \<Rightarrow> 500)"

section \<open>Structured errors\<close>

text \<open>The process-local source error is kept as its display text.\<close>

record catga_error =
  ce_code :: error_code
  ce_message :: string
  ce_details :: "string option"
  ce_retryable :: "bool option"
  ce_source :: "string option"

type_synonym 'a catga_result = "catga_error + 'a"

definition max_error_details_bytes :: nat where
  "max_error_details_bytes = 1024"

definition bounded_details :: "string \<Rightarrow> string" where
  "bounded_details details =
     (let end = floor_char_boundary details (min (length details) max_error_details_bytes)
      in take end details)"

definition error_new :: "error_code \<Rightarrow> string \<Rightarrow> catga_error" where
  "error_new code message =
     \<lparr>ce_code = code, ce_message = message, ce_details = None,
      ce_retryable = Some (code_is_retryable code), ce_source = None\<rparr>"

definition error_with_source :: "error_code \<Rightarrow> string \<Rightarrow> string \<Rightarrow> catga_error" where
  "error_with_source code message source = (error_new code message)\<lparr>ce_source := Some source\<rparr>"

definition error_transient :: "string \<Rightarrow> catga_error" where
  "error_transient text = error_new Transient text"

definition error_transient_from :: "string \<Rightarrow> catga_error" where
  "error_transient_from text = error_with_source Transient text text"

definition error_with_details :: "catga_error \<Rightarrow> string \<Rightarrow> catga_error" where
  "error_with_details e details = e\<lparr>ce_details := Some (bounded_details details)\<rparr>"

fun error_is_retryable :: "catga_error \<Rightarrow> bool" where
  "error_is_retryable e =
     (case ce_retryable e of Some r \<Rightarrow> r | None \<Rightarrow> code_is_retryable (ce_code e))"

definition error_clone :: "catga_error \<Rightarrow> catga_error" where
  "error_clone e = e\<lparr>ce_source := None\<rparr>"

definition error_eq :: "catga_error \<Rightarrow> catga_error \<Rightarrow> bool" where
  "error_eq a b \<longleftrightarrow>
     ce_code a = ce_code b \<and> ce_message a = ce_message b \<and> ce_details a = ce_details b
     \<and> ce_retryable a = ce_retryable b"

text \<open>The serde wire struct, and the deserializer that bounds the details it receives.\<close>

record serde_error_wire =
  sw_code :: error_code
  sw_message :: string
  sw_details :: "string option"
  sw_retryable :: "bool option"

definition error_deserialize :: "serde_error_wire \<Rightarrow> catga_error" where
  "error_deserialize wire =
     \<lparr>ce_code = sw_code wire, ce_message = sw_message wire,
      ce_details = map_option bounded_details (sw_details wire),
      ce_retryable = sw_retryable wire, ce_source = None\<rparr>"

definition error_serialize :: "catga_error \<Rightarrow> serde_error_wire" where
  "error_serialize e =
     \<lparr>sw_code = ce_code e, sw_message = ce_message e, sw_details = ce_details e,
      sw_retryable = ce_retryable e\<rparr>"

section \<open>The MemoryPack wire form\<close>

datatype io_error = UnexpectedEof

datatype memory_pack_error =
    LimitExceeded string nat
  | InvalidLimit string
  | TrailingBytes
  | Io io_error
  | Utf8Error
  | InvalidUtf8
  | InvalidLength int
  | SerializationError string
  | DeserializationError string
  | BufferTooSmall
  | InvalidCodePoint
  | UnexpectedEnd
  | UnexpectedEndOfBuffer
  | Utf16NotSupportedForZeroCopy

record catga_error_wire =
  wire_code :: u8
  wire_message :: string
  wire_details :: "string option"
  wire_retryable :: bool

fun encode_error_code :: "error_code \<Rightarrow> u8" where
  "encode_error_code Validation = 0"
| "encode_error_code NotFound = 1"
| "encode_error_code Conflict = 2"
| "encode_error_code Unauthorized = 3"
| "encode_error_code Forbidden = 4"
| "encode_error_code Cancelled = 5"
| "encode_error_code Timeout = 6"
| "encode_error_code Unsupported = 7"
| "encode_error_code Transient = 8"
| "encode_error_code Unavailable = 9"
| "encode_error_code Internal = 10"
| "encode_error_code HandlerFailed = 11"
| "encode_error_code HandlerNotFound = 12"
| "encode_error_code PipelineFailed = 13"
| "encode_error_code PersistenceFailed = 14"
| "encode_error_code LockFailed = 15"
| "encode_error_code TransportFailed = 16"
| "encode_error_code SerializationFailed = 17"
| "encode_error_code FlowFailed = 18"
| "encode_error_code FlowCancelled = 19"
| "encode_error_code FlowTimeout = 20"
| "encode_error_code FlowCompensating = 21"

definition decode_error_code :: "u8 \<Rightarrow> memory_pack_error + error_code" where
  "decode_error_code value =
    (case map_of
       [(0, Validation), (1, NotFound), (2, Conflict), (3, Unauthorized), (4, Forbidden),
        (5, Cancelled), (6, Timeout), (7, Unsupported), (8, Transient), (9, Unavailable),
        (10, Internal), (11, HandlerFailed), (12, HandlerNotFound), (13, PipelineFailed),
        (14, PersistenceFailed), (15, LockFailed), (16, TransportFailed),
        (17, SerializationFailed), (18, FlowFailed), (19, FlowCancelled), (20, FlowTimeout),
        (21, FlowCompensating)] value of
       Some code \<Rightarrow> Inr code
     | None \<Rightarrow> Inl (DeserializationError (''invalid Catga error code: '' @ dec (unat value))))"

definition wire_from_error :: "catga_error \<Rightarrow> catga_error_wire" where
  "wire_from_error e =
     \<lparr>wire_code = encode_error_code (ce_code e), wire_message = ce_message e,
      wire_details = ce_details e, wire_retryable = error_is_retryable e\<rparr>"

definition error_try_from_wire :: "catga_error_wire \<Rightarrow> memory_pack_error + catga_error" where
  "error_try_from_wire wire =
     bind_r (decode_error_code (wire_code wire)) (\<lambda>code.
       if wire_retryable wire \<noteq> code_is_retryable code
       then Inl (DeserializationError ''error retryability does not match its error code'')
       else (let error = error_new code (wire_message wire) in
             Inr (case wire_details wire of
                    Some details \<Rightarrow> error_with_details error details
                  | None \<Rightarrow> error)))"

section \<open>Properties\<close>

lemma truncates_bounded_details: "truncates max_error_details_bytes bounded_details"
  by (simp add: truncates_def bounded_details_def)

lemmas bounded_details_props = truncates_props [OF truncates_bounded_details]

lemma bounded_details_idem: "bounded_details (bounded_details s) = bounded_details s"
  by (rule bounded_details_props(3)) (rule bounded_details_props(1))

lemma from_as_stable_str: "from_stable_str (as_stable_str c) = Some c"
  by (cases c) (simp_all add: from_stable_str_def)

lemma decode_encode_error_code: "decode_error_code (encode_error_code c) = Inr c"
  by (cases c) (simp_all add: decode_error_code_def)

lemma decode_error_code_Inr:
  "decode_error_code b = Inr c \<Longrightarrow> b = encode_error_code c"
  by (auto simp: decode_error_code_def split: if_splits option.splits)

lemma decode_error_code_ok_iff: "is_ok (decode_error_code b) \<longleftrightarrow> b \<le> 21"
proof
  assume "is_ok (decode_error_code b)"
  then obtain c where "b = encode_error_code c"
    by (auto simp: is_ok_iff dest: decode_error_code_Inr)
  then show "b \<le> 21" by (cases c) simp_all
next
  assume "b \<le> 21"
  then have "unat b \<in> set [0..<22]" by (simp add: word_le_nat_alt)
  moreover have "list_all (\<lambda>n. is_ok (decode_error_code (word_of_nat n))) [0..<22]"
    by code_simp
  ultimately have "is_ok (decode_error_code (word_of_nat (unat b)))" unfolding list_all_iff by blast
  then show "is_ok (decode_error_code b)" by simp
qed

text \<open>
  Errors that the constructors produce: the retryability assertion is the one of the category and the
  details are within the bound.
\<close>

definition error_wf :: "catga_error \<Rightarrow> bool" where
  "error_wf e \<longleftrightarrow>
     ce_retryable e = Some (code_is_retryable (ce_code e)) \<and>
     (case ce_details e of None \<Rightarrow> True | Some d \<Rightarrow> length d \<le> max_error_details_bytes)"

lemma error_wf_new: "error_wf (error_new c m)"
  by (simp add: error_wf_def error_new_def)

lemma error_wf_with_details: "error_wf e \<Longrightarrow> error_wf (error_with_details e d)"
  by (simp add: error_wf_def error_with_details_def bounded_details_props(1))

lemma error_wire_decode:
  assumes "case ce_details e of None \<Rightarrow> True | Some d \<Rightarrow> length d \<le> max_error_details_bytes"
  shows "error_try_from_wire (wire_from_error e) =
    (if error_is_retryable e = code_is_retryable (ce_code e)
     then Inr (error_clone (e\<lparr>ce_retryable := Some (error_is_retryable e)\<rparr>))
     else Inl (DeserializationError ''error retryability does not match its error code''))"
  using assms
  by (cases e)
    (auto simp: error_try_from_wire_def wire_from_error_def decode_encode_error_code error_new_def
      error_clone_def error_with_details_def bounded_details_props(3)
      split: option.splits)



text \<open>
  The stable names and the wire bytes identify the category. Both encodings are inverted
  by their decoders, so they are injective, and the wire decoder accepts exactly the bytes 0 to 21.
\<close>

theorem error_code_encodings:
  "from_stable_str (as_stable_str c) = Some c \<and>
   decode_error_code (encode_error_code c) = Inr c \<and>
   (decode_error_code b = Inr c \<longleftrightarrow> b = encode_error_code c) \<and>
   (is_ok (decode_error_code b) \<longleftrightarrow> b \<le> 21)"
  using from_as_stable_str decode_encode_error_code decode_error_code_Inr decode_error_code_ok_iff
  by auto

end
