(* ===== verification/Messages.thy ===== *)
theory Messages
  imports Catga_Errors
begin

text \<open>
  What travels between components: the clock conversions (\<open>crates/catga-core/src/time.rs\<close>), message
  metadata and delivery boundaries (\<open>message.rs\<close>), and envelopes with their bounded application headers
  (\<open>store.rs\<close>). The main result is that the header constructor accepts exactly the well-formed header
  sets and that merging overrides keeps them well-formed and deterministic.
\<close>

section \<open>Clock conversions\<close>

definition now_unix_millis_or :: "u64 \<Rightarrow> systime \<Rightarrow> u64" where
  "now_unix_millis_or fallback now =
     (case duration_since_epoch now of
        None \<Rightarrow> fallback
      | Some elapsed \<Rightarrow> (case u64_try_from (as_millis elapsed) of Some ms \<Rightarrow> ms | None \<Rightarrow> - 1))"

definition now_unix_millis :: "systime \<Rightarrow> u64" where
  "now_unix_millis now = now_unix_millis_or 0 now"

datatype unix_millis_error = BeforeEpoch | ExceedsRange

definition checked_unix_millis :: "systime \<Rightarrow> unix_millis_error + u64" where
  "checked_unix_millis t = unix_ms_or BeforeEpoch ExceedsRange t"

definition saturating_unix_millis :: "systime \<Rightarrow> u64" where
  "saturating_unix_millis t =
     (case u64_try_from (as_millis (case duration_since_epoch t of Some d \<Rightarrow> d | None \<Rightarrow> 0)) of
        Some ms \<Rightarrow> ms | None \<Rightarrow> - 1)"

definition signed_unix_millis :: "systime \<Rightarrow> int option" where
  "signed_unix_millis t =
     (case duration_since_epoch t of
        Some d \<Rightarrow> i64_try_from (int (as_millis d))
      | None \<Rightarrow> (case i64_try_from (int (as_millis (nat (- t)))) of
                  Some ms \<Rightarrow> i64_try_from (- ms) | None \<Rightarrow> None))"

lemma now_unix_millis_saturating: "now_unix_millis t = saturating_unix_millis t"
  by (auto simp: now_unix_millis_def now_unix_millis_or_def saturating_unix_millis_def
      u64_try_from_def as_millis_def split: option.splits)

lemma saturating_unix_millis_mono: "s \<le> t \<Longrightarrow> saturating_unix_millis s \<le> saturating_unix_millis t"
proof -
  have *: "(if n < 2 ^ 64 then (word_of_nat n :: u64) else - 1) \<le> (if m < 2 ^ 64 then word_of_nat m else - 1)"
    if "n \<le> m" for n m :: nat
  proof (cases "m < 2 ^ 64")
    case True
    with that show ?thesis by (auto simp: word_le_nat_alt unat_of_nat take_bit_nat_eq_self)
  next
    case False
    then show ?thesis by (simp add: word_order.extremum)
  qed
  show ?thesis if "s \<le> t"
  proof -
    have "as_millis (case duration_since_epoch s of Some d \<Rightarrow> d | None \<Rightarrow> 0)
        \<le> as_millis (case duration_since_epoch t of Some d \<Rightarrow> d | None \<Rightarrow> 0)"
      using that by (intro as_millis_mono) (auto simp: duration_since_epoch_def)
    from * [OF this] show ?thesis
      by (auto simp: saturating_unix_millis_def u64_try_from_def split: if_splits)
  qed
qed

section \<open>Message metadata\<close>

datatype quality_of_service = AtMostOnce | AtLeastOnce | ExactlyOnce
datatype delivery_mode = WaitForResult | AsyncRetry
datatype message_priority = Low | Normal | High | Critical

fun qos_as_tag :: "quality_of_service \<Rightarrow> string" where
  "qos_as_tag AtMostOnce = ''AtMostOnce''"
| "qos_as_tag AtLeastOnce = ''AtLeastOnce''"
| "qos_as_tag ExactlyOnce = ''ExactlyOnce''"

fun requires_ack :: "quality_of_service \<Rightarrow> bool" where
  "requires_ack q = (case q of AtLeastOnce \<Rightarrow> True | ExactlyOnce \<Rightarrow> True | _ \<Rightarrow> False)"

fun requires_deduplication :: "quality_of_service \<Rightarrow> bool" where
  "requires_deduplication q = (case q of ExactlyOnce \<Rightarrow> True | _ \<Rightarrow> False)"

record message_metadata =
  mm_message_id :: u64
  mm_correlation_id :: "u64 option"
  mm_quality_of_service :: quality_of_service
  mm_delivery_mode :: delivery_mode
  mm_priority :: message_priority
  mm_not_before_unix_ms :: "u64 option"

definition metadata_new :: "u64 \<Rightarrow> u64 option \<Rightarrow> message_metadata" where
  "metadata_new message_id correlation_id =
     \<lparr>mm_message_id = message_id, mm_correlation_id = correlation_id,
      mm_quality_of_service = AtLeastOnce, mm_delivery_mode = WaitForResult,
      mm_priority = Normal, mm_not_before_unix_ms = None\<rparr>"

definition not_before :: "message_metadata \<Rightarrow> systime option" where
  "not_before m =
     (case mm_not_before_unix_ms m of
        None \<Rightarrow> None
      | Some ms \<Rightarrow> systime_checked_add 0 (from_millis (unat ms)))"

definition metadata_is_due_at :: "message_metadata \<Rightarrow> systime \<Rightarrow> bool" where
  "metadata_is_due_at m now =
     (case mm_not_before_unix_ms m of
        None \<Rightarrow> True
      | Some boundary \<Rightarrow>
          (case unix_ms_or () () now of Inr ms \<Rightarrow> boundary \<le> ms | Inl _ \<Rightarrow> False))"

definition with_quality_of_service :: "quality_of_service \<Rightarrow> message_metadata \<Rightarrow> message_metadata" where
  "with_quality_of_service q m = m\<lparr>mm_quality_of_service := q\<rparr>"

definition with_delivery_mode :: "delivery_mode \<Rightarrow> message_metadata \<Rightarrow> message_metadata" where
  "with_delivery_mode d m = m\<lparr>mm_delivery_mode := d\<rparr>"

definition with_priority :: "message_priority \<Rightarrow> message_metadata \<Rightarrow> message_metadata" where
  "with_priority p m = m\<lparr>mm_priority := p\<rparr>"

definition with_not_before_unix_ms :: "u64 option \<Rightarrow> message_metadata \<Rightarrow> message_metadata" where
  "with_not_before_unix_ms b m = m\<lparr>mm_not_before_unix_ms := b\<rparr>"

definition with_not_before :: "systime \<Rightarrow> message_metadata \<Rightarrow> message_metadata catga_result" where
  "with_not_before boundary m =
     bind_r (unix_ms_or
         (error_new Validation ''scheduled delivery time precedes the Unix epoch'')
         (error_new Validation ''scheduled delivery time exceeds the supported range'') boundary)
       (\<lambda>ms. Inr (with_not_before_unix_ms (Some ms) m))"

text \<open>\<open>DelayedMessage::deliver_at\<close> for a message's declared boundary and delay.\<close>

definition deliver_at :: "systime option \<Rightarrow> duration option \<Rightarrow> systime \<Rightarrow> systime catga_result" where
  "deliver_at scheduled_at delay now =
     bind_r
       (case scheduled_at of
          Some at \<Rightarrow> Inr at
        | None \<Rightarrow> (case delay of
            Some d \<Rightarrow> ok_or (error_new Validation
                        ''delayed message deadline exceeds the system time range'')
                      (systime_checked_add now d)
          | None \<Rightarrow> Inr now))
       (\<lambda>at. bind_r (unix_ms_or
           (error_new Validation ''delayed message deadline precedes the Unix epoch'')
           (error_new Validation ''delayed message deadline exceeds the supported millisecond range'') at)
         (\<lambda>_. Inr at))"

text \<open>
  A delivery boundary set from a wall-clock time is honoured: the message is not due
  before the boundary's millisecond and is due from it on.
\<close>

theorem not_before_gates_delivery:
  assumes "with_not_before boundary m = Inr m'"
  shows "metadata_is_due_at m' now \<longleftrightarrow> is_ok (checked_unix_millis now) \<and> boundary div 1000000 \<le> now div 1000000"
proof -
  from assms obtain b where b: "0 \<le> boundary" "uint b = boundary div 1000000"
      and m': "mm_not_before_unix_ms m' = Some b"
    by (auto simp: with_not_before_def bind_r_Inr_iff unix_ms_or_Inr with_not_before_unix_ms_def)
  show ?thesis
  proof (cases "unix_ms_or () () now")
    case (Inl e)
    then have "checked_unix_millis now \<noteq> Inr ms" for ms
      using unix_ms_or_Inr [of "()" "()" now ms] unix_ms_or_Inr [of BeforeEpoch ExceedsRange now ms]
      by (auto simp: checked_unix_millis_def)
    with Inl m' show ?thesis by (simp add: metadata_is_due_at_def is_ok_iff)
  next
    case (Inr ms)
    then have ms: "uint ms = now div 1000000" "is_ok (checked_unix_millis now)"
      unfolding unix_ms_or_Inr by (auto simp: checked_unix_millis_def is_ok_iff unix_ms_or_Inr)
    with Inr m' b show ?thesis by (simp add: metadata_is_due_at_def word_le_def)
  qed
qed

theorem not_before_gates_delivery_witness:
  "\<exists>m'. with_not_before 5000000 (metadata_new 1 None) = Inr m' \<and>
     \<not> metadata_is_due_at m' 4999999 \<and> metadata_is_due_at m' 5000000"
proof -
  have ok: "with_not_before 5000000 (metadata_new 1 None) =
      Inr (with_not_before_unix_ms (Some 5) (metadata_new 1 None))"
    by (simp add: with_not_before_def unix_ms_or_def duration_since_epoch_def as_millis_def
        u64_try_from_def)
  have c: "is_ok (checked_unix_millis 4999999)" "is_ok (checked_unix_millis 5000000)"
    by (simp_all add: checked_unix_millis_def unix_ms_or_def duration_since_epoch_def as_millis_def
        u64_try_from_def)
  show ?thesis
    using not_before_gates_delivery [OF ok, of 4999999] not_before_gates_delivery [OF ok, of 5000000]
      ok c by simp
qed

section \<open>Envelope headers\<close>

type_synonym envelope_headers = "(string \<times> string) list"

definition max_envelope_headers :: nat where
  "max_envelope_headers = 64"

definition max_envelope_header_bytes :: nat where
  "max_envelope_header_bytes = 8 * 1024"

definition header_bytes_error :: catga_error where
  "header_bytes_error = error_new Validation ''envelope header bytes exceed the configured limit''"

text \<open>The loop of \<open>EnvelopeHeaders::try_new\<close>: retained entries and their tot byte count.\<close>

fun try_new_loop ::
  "envelope_headers \<Rightarrow> envelope_headers \<Rightarrow> nat \<Rightarrow> envelope_headers catga_result" where
  "try_new_loop [] entries total_bytes = Inr entries"
| "try_new_loop ((key, value) # headers) entries total_bytes =
    (if length entries = max_envelope_headers
     then Inl (error_new Validation ''envelope header count exceeds the configured limit'')
     else if is_blank key
     then Inl (error_new Validation ''envelope header key must not be empty or whitespace-only'')
     else if key \<in> fst ` set entries
     then Inl (error_new Validation ''envelope header keys must be unique'')
     else bind_r (ok_or header_bytes_error (usize_checked_add (length key) (length value)))
       (\<lambda>entry_bytes. bind_r (ok_or header_bytes_error (usize_checked_add total_bytes entry_bytes))
       (\<lambda>tot. if tot > max_envelope_header_bytes then Inl header_bytes_error
                else try_new_loop headers (entries @ [(key, value)]) tot)))"

definition headers_try_new :: "envelope_headers \<Rightarrow> envelope_headers catga_result" where
  "headers_try_new headers = try_new_loop headers [] 0"

fun headers_get :: "envelope_headers \<Rightarrow> string \<Rightarrow> string option" where
  "headers_get [] key = None"
| "headers_get ((k, v) # hs) key = (if k = key then Some v else headers_get hs key)"

text \<open>One step of the override loop: replace the header in place or append it.\<close>

fun override_header :: "envelope_headers \<Rightarrow> string \<times> string \<Rightarrow> envelope_headers" where
  "override_header [] h = [h]"
| "override_header ((k, v) # hs) h = (if k = fst h then h # hs else (k, v) # override_header hs h)"

definition merge_overrides ::
  "envelope_headers \<Rightarrow> envelope_headers \<Rightarrow> envelope_headers catga_result" where
  "merge_overrides self overrides =
     (if self = [] then Inr overrides
      else if overrides = [] then Inr self
      else headers_try_new (foldl override_header self overrides))"

text \<open>The well-formed header sets.\<close>

definition header_size :: "envelope_headers \<Rightarrow> nat" where
  "header_size hs = (\<Sum>(k, v) \<leftarrow> hs. length k + length v)"

definition headers_wf :: "envelope_headers \<Rightarrow> bool" where
  "headers_wf hs \<longleftrightarrow>
     length hs \<le> max_envelope_headers \<and> distinct (map fst hs) \<and>
     list_all (\<lambda>(k, _). \<not> is_blank k) hs \<and> header_size hs \<le> max_envelope_header_bytes"

lemma header_size_simps [simp]:
  "header_size [] = 0"
  "header_size (h # hs) = length (fst h) + length (snd h) + header_size hs"
  "header_size (xs @ ys) = header_size xs + header_size ys"
  by (simp_all add: header_size_def case_prod_beta)

lemma try_new_loop_Inr:
  assumes "tot = header_size entries" "headers_wf entries"
  shows "try_new_loop hs entries tot = Inr r \<longleftrightarrow> headers_wf (entries @ hs) \<and> r = entries @ hs"
  using assms
proof (induction hs entries tot rule: try_new_loop.induct)
  case (1 entries tot)
  then show ?case by auto
next
  case (2 key val hs entries tot)
  let ?e = "entries @ [(key, val)]"
  show ?case
  proof (cases "headers_wf ?e")
    case True
    then have step: "length entries \<noteq> max_envelope_headers" "\<not> is_blank key"
        "key \<notin> fst ` set entries" "header_size ?e \<le> max_envelope_header_bytes"
      by (auto simp: headers_wf_def)
    then have "usize_checked_add (length key) (length val) = Some (length key + length val)"
      and "usize_checked_add tot (length key + length val) = Some (header_size ?e)"
      using "2.prems" by (auto simp: usize_checked_add_def max_envelope_header_bytes_def)
    with step True "2.IH" [of "header_size ?e"] "2.prems"
    show ?thesis by (simp add: max_envelope_header_bytes_def not_less)
  next
    case False
    then have "\<not> headers_wf (entries @ (key, val) # hs)"
      by (auto simp: headers_wf_def)
    moreover have "try_new_loop ((key, val) # hs) entries tot \<noteq> Inr r"
      using False "2.prems"
      by (auto simp: headers_wf_def bind_r_Inr_iff usize_checked_add_def split: if_splits)
    ultimately show ?thesis by simp
  qed
qed

lemma headers_try_new_Inr: "headers_try_new hs = Inr r \<longleftrightarrow> headers_wf hs \<and> r = hs"
  using try_new_loop_Inr [of 0 "[]" hs r] by (simp add: headers_try_new_def headers_wf_def)

lemma try_new_loop_Inl_code: "try_new_loop hs entries tot = Inl e \<Longrightarrow> ce_code e = Validation"
  by (induction hs entries tot rule: try_new_loop.induct)
    (auto simp: bind_r_Inl_iff header_bytes_error_def error_new_def split: if_splits)

lemma headers_get_override:
  "headers_get (override_header hs h) k = (if k = fst h then Some (snd h) else headers_get hs k)"
  by (induction hs h rule: override_header.induct) (auto simp: prod.collapse [symmetric] simp del: prod.collapse)

lemma headers_get_fold_override:
  assumes "distinct (map fst os)"
  shows "headers_get (foldl override_header hs os) k =
    (case headers_get os k of Some v \<Rightarrow> Some v | None \<Rightarrow> headers_get hs k)"
  using assms
proof (induction os arbitrary: hs)
  case Nil
  then show ?case by simp
next
  case (Cons h os)
  have none: "headers_get xs x = None" if "x \<notin> fst ` set xs" for xs x
    using that by (induction xs x rule: headers_get.induct) auto
  from Cons none [of "fst h" os] show ?case
    by (cases h) (auto simp: headers_get_override split: option.splits)
qed

lemma keys_override:
  "map fst (override_header hs h) =
     (if fst h \<in> fst ` set hs then map fst hs else map fst hs @ [fst h])"
  by (induction hs h rule: override_header.induct) auto

lemma keys_fold_override:
  assumes "distinct (map fst os)"
  shows "map fst (foldl override_header hs os) =
    map fst hs @ filter (\<lambda>k. k \<notin> fst ` set hs) (map fst os)"
  using assms
proof (induction os arbitrary: hs)
  case Nil
  then show ?case by simp
next
  case (Cons h os)
  have "fst ` set (override_header hs h) = insert (fst h) (fst ` set hs)"
    using arg_cong [OF keys_override [of hs h], of set] by auto
  with Cons show ?case
    by (auto simp: keys_override intro!: filter_cong)
qed

text \<open>
  The header constructor is exact. It succeeds on precisely the header sets with at most
  64 entries, unique non-blank keys and at most 8192 bytes in all, returns them in the supplied order,
  and every rejection is a validation error.
\<close>

theorem headers_try_new_exact:
  "(headers_try_new hs = Inr r \<longleftrightarrow> headers_wf hs \<and> r = hs) \<and>
   (\<not> headers_wf hs \<longrightarrow> (\<exists>e. headers_try_new hs = Inl e \<and> ce_code e = Validation))"
proof (intro conjI)
  show "headers_try_new hs = Inr r \<longleftrightarrow> headers_wf hs \<and> r = hs"
    by (rule headers_try_new_Inr)
  show "\<not> headers_wf hs \<longrightarrow> (\<exists>e. headers_try_new hs = Inl e \<and> ce_code e = Validation)"
  proof (cases "headers_try_new hs")
    case (Inl e)
    then show ?thesis
      using try_new_loop_Inl_code [of hs "[]" 0 e] by (auto simp: headers_try_new_def)
  next
    case (Inr r)
    then show ?thesis by (simp add: headers_try_new_Inr)
  qed
qed

theorem headers_try_new_exact_witness:
  "headers_try_new [(''tenant'', ''acme'')] = Inr [(''tenant'', ''acme'')] \<and>
   (\<exists>e. headers_try_new [('' '', ''x'')] = Inl e \<and> ce_code e = Validation)"
proof -
  have wf: "headers_wf [(''tenant'', ''acme'')]" and nwf: "\<not> headers_wf [('' '', ''x'')]"
    by (simp_all add: headers_wf_def max_envelope_headers_def max_envelope_header_bytes_def byte_def)
  show ?thesis
    using headers_try_new_exact [of "[(''tenant'', ''acme'')]" "[(''tenant'', ''acme'')]"] wf
      headers_try_new_exact [of "[('' '', ''x'')]"] nwf by blast
qed

text \<open>
  Merging overrides is deterministic and never exceeds the envelope budget. A successful
  merge is well-formed, looks a key up in the overrides first and in the base otherwise, and keeps the
  base keys in place followed by the new override keys in their order.
\<close>

theorem merge_overrides_correct:
  assumes "headers_wf base" "headers_wf os" "merge_overrides base os = Inr r"
  shows "headers_wf r \<and>
    (\<forall>k. headers_get r k = (case headers_get os k of Some v \<Rightarrow> Some v | None \<Rightarrow> headers_get base k)) \<and>
    map fst r = map fst base @ filter (\<lambda>k. k \<notin> fst ` set base) (map fst os)"
proof -
  have d: "distinct (map fst os)" using assms(2) by (simp add: headers_wf_def)
  show ?thesis
  proof (cases "base = [] \<or> os = []")
    case True
    with assms show ?thesis
      unfolding merge_overrides_def by (auto split: option.splits if_splits)
  next
    case False
    with assms(3) have "headers_try_new (foldl override_header base os) = Inr r"
      by (simp add: merge_overrides_def)
    then have "headers_wf r" "r = foldl override_header base os"
      unfolding headers_try_new_Inr by blast+
    then show ?thesis
      using headers_get_fold_override [OF d, of base] keys_fold_override [OF d, of base] by blast
  qed
qed

theorem merge_overrides_correct_witness:
  "merge_overrides [(''a'', ''1''), (''b'', ''2'')] [(''c'', ''3''), (''a'', ''9'')] =
     Inr [(''a'', ''9''), (''b'', ''2''), (''c'', ''3'')] \<and>
   headers_wf [(''a'', ''9''), (''b'', ''2''), (''c'', ''3'')]"
proof -
  have wf: "headers_wf [(''a'', ''1''), (''b'', ''2'')]" "headers_wf [(''c'', ''3''), (''a'', ''9'')]"
      "headers_wf [(''a'', ''9''), (''b'', ''2''), (''c'', ''3'')]"
    by (simp_all add: headers_wf_def max_envelope_headers_def max_envelope_header_bytes_def byte_def)
  then have ok: "merge_overrides [(''a'', ''1''), (''b'', ''2'')] [(''c'', ''3''), (''a'', ''9'')] =
      Inr [(''a'', ''9''), (''b'', ''2''), (''c'', ''3'')]"
    by (simp add: merge_overrides_def headers_try_new_Inr)
  show ?thesis using merge_overrides_correct [OF wf(1,2) ok] ok by simp
qed

section \<open>Envelopes\<close>

record envelope =
  env_id :: u64
  env_message_type :: string
  env_payload :: "u8 list"
  env_metadata :: message_metadata
  env_sent_at_unix_ms :: "u64 option"
  env_schema_version :: u32
  env_reply_to :: "string option"
  env_headers :: "envelope_headers option"

definition envelope_current_unix_ms :: "systime \<Rightarrow> u64 option" where
  "envelope_current_unix_ms now =
     (case duration_since_epoch now of None \<Rightarrow> None | Some elapsed \<Rightarrow> u64_try_from (as_millis elapsed))"

definition envelope_versioned ::
  "u64 \<Rightarrow> string \<Rightarrow> u8 list \<Rightarrow> message_metadata \<Rightarrow> u32 \<Rightarrow> systime \<Rightarrow> envelope" where
  "envelope_versioned ident message_type payload metadata schema_version now =
     \<lparr>env_id = ident, env_message_type = message_type, env_payload = payload, env_metadata = metadata,
      env_sent_at_unix_ms = envelope_current_unix_ms now, env_schema_version = schema_version,
      env_reply_to = None, env_headers = None\<rparr>"

definition envelope_new ::
  "u64 \<Rightarrow> string \<Rightarrow> u8 list \<Rightarrow> message_metadata \<Rightarrow> systime \<Rightarrow> envelope" where
  "envelope_new ident message_type payload metadata now =
     envelope_versioned ident message_type payload metadata 1 now"

definition sent_at :: "envelope \<Rightarrow> systime option" where
  "sent_at e =
     (case env_sent_at_unix_ms e of
        None \<Rightarrow> None | Some ms \<Rightarrow> systime_checked_add 0 (from_millis (unat ms)))"

definition with_reply_to :: "string \<Rightarrow> envelope \<Rightarrow> envelope" where
  "with_reply_to r e = e\<lparr>env_reply_to := Some r\<rparr>"

definition with_headers :: "envelope_headers \<Rightarrow> envelope \<Rightarrow> envelope" where
  "with_headers hs e = e\<lparr>env_headers := (if hs \<noteq> [] then Some hs else None)\<rparr>"

definition with_sent_at :: "systime \<Rightarrow> envelope \<Rightarrow> envelope catga_result" where
  "with_sent_at t e =
     bind_r (unix_ms_or
         (error_new Validation ''envelope sent timestamp precedes the Unix epoch'')
         (error_new Validation ''envelope sent timestamp exceeds the supported range'') t)
       (\<lambda>ms. Inr (e\<lparr>env_sent_at_unix_ms := Some ms\<rparr>))"

definition with_sent_at_unix_ms :: "u64 option \<Rightarrow> envelope \<Rightarrow> envelope" where
  "with_sent_at_unix_ms ms e = e\<lparr>env_sent_at_unix_ms := ms\<rparr>"

definition with_metadata :: "message_metadata \<Rightarrow> envelope \<Rightarrow> envelope" where
  "with_metadata m e = e\<lparr>env_metadata := m\<rparr>"

definition envelope_header :: "envelope \<Rightarrow> string \<Rightarrow> string option" where
  "envelope_header e key = (case env_headers e of None \<Rightarrow> None | Some hs \<Rightarrow> headers_get hs key)"

definition envelope_headers_iter :: "envelope \<Rightarrow> (string \<times> string) list" where
  "envelope_headers_iter e = (case env_headers e of None \<Rightarrow> [] | Some hs \<Rightarrow> hs)"

lemma envelope_header_with_headers: "envelope_header (with_headers hs e) k = headers_get hs k"
  by (auto simp: envelope_header_def with_headers_def)

end
