(* ===== verification/Reliability.thy ===== *)
theory Reliability
  imports Messages
begin

text \<open>
  The shared reliability contracts of \<open>crates/catga-core/src/reliability.rs\<close>: retention and lease
  validation, processing states with their persisted tags, generation-fenced inbox claims and
  dead-letter records with bounded diagnostics; and the in-memory dead-letter queue
  (\<open>memory/dead_letter.rs\<close>).
\<close>

section \<open>Retention and leases\<close>

definition default_inbox_claim_lease :: duration where
  "default_inbox_claim_lease = from_secs (5 * 60)"

definition default_idempotency_retention :: duration where
  "default_idempotency_retention = from_secs (24 * 60 * 60)"

definition max_retention_cleanup_limit :: nat where
  "max_retention_cleanup_limit = 1024"

definition validate_completed_retention :: "duration \<Rightarrow> unit catga_result" where
  "validate_completed_retention retention =
     (if retention = 0
      then Inl (error_new Validation ''completed record retention must be greater than zero'')
      else Inr ())"

definition validate_retention_cleanup_limit :: "nat \<Rightarrow> unit catga_result" where
  "validate_retention_cleanup_limit limit =
     (if limit > max_retention_cleanup_limit
      then Inl (error_new Validation ''retention cleanup limit exceeds the configured memory budget'')
      else Inr ())"

definition validate_inbox_claim_lease :: "duration \<Rightarrow> unit catga_result" where
  "validate_inbox_claim_lease lease =
     (if lease = 0
      then Inl (error_new Validation ''inbox claim lease must be greater than zero'')
      else Inr ())"

definition clock_before_epoch :: catga_error where
  "clock_before_epoch = error_new Internal ''system clock precedes the Unix epoch''"

definition clock_beyond_range :: catga_error where
  "clock_beyond_range = error_new Internal ''system clock exceeds the supported millisecond range''"

definition inbox_claim_expires_at :: "duration \<Rightarrow> systime \<Rightarrow> u64 catga_result" where
  "inbox_claim_expires_at lease now =
     bind_r (validate_inbox_claim_lease lease) (\<lambda>_.
     bind_r (unix_ms_or clock_before_epoch clock_beyond_range now) (\<lambda>now_ms.
     bind_r (ok_or (error_new Validation ''inbox claim lease exceeds the supported millisecond range'')
               (u64_try_from (as_millis lease))) (\<lambda>lease_ms.
     ok_or (error_new Validation ''inbox claim deadline exceeds the supported millisecond range'')
       (checked_add now_ms lease_ms))))"

lemma validations_Inr [simp]:
  "validate_completed_retention r = Inr u \<longleftrightarrow> r \<noteq> 0"
  "validate_retention_cleanup_limit l = Inr u \<longleftrightarrow> l \<le> max_retention_cleanup_limit"
  "validate_inbox_claim_lease d = Inr u \<longleftrightarrow> d \<noteq> 0"
  by (auto simp: validate_completed_retention_def validate_retention_cleanup_limit_def
      validate_inbox_claim_lease_def)

lemma inbox_claim_expires_at_Inr:
  assumes "inbox_claim_expires_at lease now = Inr deadline"
  shows "lease \<noteq> 0 \<and> 0 \<le> now \<and> uint deadline = now div 1000000 + int (as_millis lease)"
proof -
  from assms obtain a b where a: "uint a = now div 1000000" and b: "unat b = as_millis lease"
    and ab: "checked_add a b = Some deadline" and "lease \<noteq> 0" "0 \<le> now"
    by (auto simp: inbox_claim_expires_at_def bind_r_Inr_iff unix_ms_or_Inr u64_try_from_iff)
  then show ?thesis
    using arg_cong [OF checked_add_Some_unat [OF ab], of int] by simp
qed

section \<open>Processing states\<close>

datatype processing_state = PsPending | PsClaimed | PsCompleted | PsFailed

definition from_wire_tag :: "u8 \<Rightarrow> processing_state option" where
  "from_wire_tag tag =
     (if tag = 1 then Some PsClaimed
      else if tag = 2 \<or> tag = 3 then Some PsCompleted
      else if tag = 4 then Some PsFailed
      else None)"

record inbox_claim =
  ic_message_id :: u64
  ic_generation :: u64

definition inbox_claim_new :: "u64 \<Rightarrow> u64 \<Rightarrow> inbox_claim option" where
  "inbox_claim_new message_id generation =
     (if generation = 0 then None
      else Some \<lparr>ic_message_id = message_id, ic_generation = generation\<rparr>)"

section \<open>Dead letters\<close>

definition max_dead_letter_description_bytes :: nat where
  "max_dead_letter_description_bytes = 1024"

definition max_dead_letter_stage_bytes :: nat where
  "max_dead_letter_stage_bytes = 64"

record dead_letter_diagnostics =
  dld_failed_at_unix_ms :: u64
  dld_error_code :: error_code
  dld_stage :: string

record dead_letter =
  dl_envelope :: envelope
  dl_reason :: string
  dl_attempts :: u32
  dl_diagnostics :: dead_letter_diagnostics

definition is_stage_byte :: "char \<Rightarrow> bool" where
  "is_stage_byte c \<longleftrightarrow>
     (48 \<le> byte c \<and> byte c \<le> 57) \<or> (65 \<le> byte c \<and> byte c \<le> 90) \<or> (97 \<le> byte c \<and> byte c \<le> 122)
     \<or> byte c = 46 \<or> byte c = 95 \<or> byte c = 45"

definition diagnostics_try_at ::
  "u64 \<Rightarrow> error_code \<Rightarrow> string \<Rightarrow> dead_letter_diagnostics catga_result" where
  "diagnostics_try_at failed_at code stage =
     (if stage = [] \<or> length stage > max_dead_letter_stage_bytes \<or> \<not> list_all is_stage_byte stage
      then Inl (error_new Validation ''dead-letter stage must be a bounded ASCII identifier'')
      else Inr \<lparr>dld_failed_at_unix_ms = failed_at, dld_error_code = code, dld_stage = stage\<rparr>)"

definition diagnostics_new ::
  "error_code \<Rightarrow> string \<Rightarrow> systime \<Rightarrow> dead_letter_diagnostics catga_result" where
  "diagnostics_new code stage now =
     bind_r (unix_ms_or clock_before_epoch clock_beyond_range now) (\<lambda>ms.
       diagnostics_try_at ms code stage)"

definition truncate_description :: "string \<Rightarrow> string" where
  "truncate_description reason =
     (if length reason \<le> max_dead_letter_description_bytes then reason
      else take (floor_char_boundary reason max_dead_letter_description_bytes) reason)"

definition dead_letter_new :: "envelope \<Rightarrow> string \<Rightarrow> u32 \<Rightarrow> dead_letter" where
  "dead_letter_new env reason attempts =
     \<lparr>dl_envelope = env, dl_reason = truncate_description reason, dl_attempts = attempts,
      dl_diagnostics = \<lparr>dld_failed_at_unix_ms = 0, dld_error_code = Internal, dld_stage = ''legacy''\<rparr>\<rparr>"

definition dead_letter_try_with_diagnostics ::
  "envelope \<Rightarrow> string \<Rightarrow> u32 \<Rightarrow> dead_letter_diagnostics \<Rightarrow> dead_letter catga_result" where
  "dead_letter_try_with_diagnostics env reason attempts diagnostics =
     (if length reason > max_dead_letter_description_bytes
      then Inl (error_new Validation
        ''dead-letter error description exceeds the configured memory budget'')
      else Inr \<lparr>dl_envelope = env, dl_reason = reason, dl_attempts = attempts,
                dl_diagnostics = diagnostics\<rparr>)"

definition dead_letter_from_failure ::
  "envelope \<Rightarrow> catga_error \<Rightarrow> u32 \<Rightarrow> string \<Rightarrow> systime \<Rightarrow> dead_letter catga_result" where
  "dead_letter_from_failure env error attempts stage now =
     bind_r (diagnostics_new (ce_code error) stage now) (\<lambda>diagnostics.
       Inr \<lparr>dl_envelope = env, dl_reason = truncate_description (ce_message error),
            dl_attempts = attempts, dl_diagnostics = diagnostics\<rparr>)"

lemma truncates_truncate_description:
  "truncates max_dead_letter_description_bytes truncate_description"
proof -
  have "floor_char_boundary s (length s) = length s" for s
    by (simp add: floor_char_boundary_id is_char_boundary_def)
  then show ?thesis by (simp add: truncates_def truncate_description_def min_def)
qed

lemmas truncate_description_props = truncates_props [OF truncates_truncate_description]

definition dead_letter_wf :: "dead_letter \<Rightarrow> bool" where
  "dead_letter_wf l \<longleftrightarrow>
     length (dl_reason l) \<le> max_dead_letter_description_bytes \<and>
     dld_stage (dl_diagnostics l) \<noteq> [] \<and>
     length (dld_stage (dl_diagnostics l)) \<le> max_dead_letter_stage_bytes \<and>
     list_all is_stage_byte (dld_stage (dl_diagnostics l))"

lemma diagnostics_try_at_Inr:
  "diagnostics_try_at t c s = Inr d \<longleftrightarrow>
     s \<noteq> [] \<and> length s \<le> max_dead_letter_stage_bytes \<and> list_all is_stage_byte s \<and>
     d = \<lparr>dld_failed_at_unix_ms = t, dld_error_code = c, dld_stage = s\<rparr>"
  by (auto simp: diagnostics_try_at_def not_less)

text \<open>
  Every constructor of a dead letter keeps it within its memory budget, and a dead letter
  made from a framework failure keeps that failure's category, its time in milliseconds and a
  description that is a well-formed UTF-8 prefix of the failure's message.
\<close>

theorem dead_letter_bounded:
  assumes "dead_letter_from_failure env err attempts stage now = Inr l"
  shows "dead_letter_wf l \<and> dead_letter_wf (dead_letter_new env reason attempts) \<and>
    dld_error_code (dl_diagnostics l) = ce_code err \<and>
    uint (dld_failed_at_unix_ms (dl_diagnostics l)) = now div 1000000 \<and>
    dl_reason l = take (length (dl_reason l)) (ce_message err) \<and>
    (utf8_valid (ce_message err) \<longrightarrow> utf8_valid (dl_reason l))"
proof -
  from assms obtain ms where "unix_ms_or clock_before_epoch clock_beyond_range now = Inr ms"
    and l: "stage \<noteq> []" "length stage \<le> max_dead_letter_stage_bytes" "list_all is_stage_byte stage"
      "l = \<lparr>dl_envelope = env, dl_reason = truncate_description (ce_message err),
            dl_attempts = attempts, dl_diagnostics =
              \<lparr>dld_failed_at_unix_ms = ms, dld_error_code = ce_code err, dld_stage = stage\<rparr>\<rparr>"
    by (auto simp: dead_letter_from_failure_def diagnostics_new_def bind_r_Inr_iff diagnostics_try_at_Inr)
  then have "uint ms = now div 1000000" by (simp add: unix_ms_or_Inr)
  moreover have "dead_letter_wf (dead_letter_new env reason attempts)"
    by (simp add: dead_letter_wf_def dead_letter_new_def truncate_description_props(1)
        max_dead_letter_stage_bytes_def is_stage_byte_def byte_def)
  ultimately show ?thesis
    using l truncate_description_props [of "ce_message err"] by (simp add: dead_letter_wf_def)
qed

theorem dead_letter_bounded_witness:
  "\<exists>env l. dead_letter_from_failure env (error_new Timeout ''late'') 3 ''consumer'' 7000000 = Inr l \<and>
     dead_letter_wf l \<and> dld_error_code (dl_diagnostics l) = Timeout"
proof -
  define env where "env = envelope_new 1 ''T'' [] (metadata_new 1 None) 0"
  have "diagnostics_new Timeout ''consumer'' 7000000 =
      Inr \<lparr>dld_failed_at_unix_ms = 7, dld_error_code = Timeout, dld_stage = ''consumer''\<rparr>"
    by (simp add: diagnostics_new_def unix_ms_or_def duration_since_epoch_def as_millis_def
        u64_try_from_def diagnostics_try_at_def max_dead_letter_stage_bytes_def is_stage_byte_def
        byte_def)
  then obtain l where "dead_letter_from_failure env (error_new Timeout ''late'') 3 ''consumer'' 7000000 = Inr l"
    by (simp add: dead_letter_from_failure_def error_new_def)
  with dead_letter_bounded [OF this] show ?thesis by (auto simp: error_new_def)
qed

section \<open>The in-memory dead-letter queue\<close>

text \<open>
  A \<open>DashMap\<close> is a finite map. Its iteration order is not specified, so an operation that iterates takes
  the order as an argument: a duplicate-free list of the keys (\<open>iterates\<close>).
\<close>

definition iterates :: "'k list \<Rightarrow> ('k \<rightharpoonup> 'v) \<Rightarrow> bool" where
  "iterates ks m \<longleftrightarrow> distinct ks \<and> set ks = dom m"

record memory_dead_letters =
  dlq_capacity :: nat
  dlq_used :: nat
  dlq_next_id :: u64
  dlq_letters :: "u64 \<rightharpoonup> dead_letter"

definition dlq_new :: "nat \<Rightarrow> memory_dead_letters catga_result" where
  "dlq_new capacity =
     (if capacity = 0
      then Inl (error_new Validation ''dead-letter capacity must be greater than zero'')
      else Inr \<lparr>dlq_capacity = capacity, dlq_used = 0, dlq_next_id = 0, dlq_letters = Map.empty\<rparr>)"

definition dlq_enqueue ::
  "dead_letter \<Rightarrow> memory_dead_letters \<Rightarrow> memory_dead_letters \<times> unit catga_result" where
  "dlq_enqueue letter q =
     (if dlq_used q < dlq_capacity q
      then (q\<lparr>dlq_used := dlq_used q + 1, dlq_next_id := dlq_next_id q + 1,
              dlq_letters := (dlq_letters q)(dlq_next_id q \<mapsto> letter)\<rparr>, Inr ())
      else (q, Inl (error_new Conflict ''dead-letter capacity is exhausted'')))"

definition dlq_list :: "nat \<Rightarrow> u64 list \<Rightarrow> memory_dead_letters \<Rightarrow> dead_letter list catga_result" where
  "dlq_list limit iter q =
     Inr (map snd (take limit (sort_key fst
       (List.map_filter (\<lambda>k. map_option (Pair k) (dlq_letters q k)) iter))))"

fun dlq_enqueue_all :: "dead_letter list \<Rightarrow> memory_dead_letters \<Rightarrow> memory_dead_letters" where
  "dlq_enqueue_all [] q = q"
| "dlq_enqueue_all (l # ls) q = dlq_enqueue_all ls (fst (dlq_enqueue l q))"

text \<open>The queue represents the list of retained letters, oldest first.\<close>

definition dlq_rep :: "memory_dead_letters \<Rightarrow> dead_letter list \<Rightarrow> bool" where
  "dlq_rep q ls \<longleftrightarrow>
     dlq_used q = length ls \<and> length ls \<le> dlq_capacity q \<and> dlq_capacity q < 2 ^ 64 \<and>
     dlq_next_id q = word_of_nat (length ls) \<and>
     dlq_letters q = (\<lambda>k. if unat k < length ls then Some (ls ! unat k) else None)"

lemma dlq_rep_new: "dlq_new c = Inr q \<Longrightarrow> c < 2 ^ 64 \<Longrightarrow> dlq_rep q []"
  by (auto simp: dlq_new_def dlq_rep_def fun_eq_iff split: if_splits)

lemma unat_word_of_nat_u64: "n < 2 ^ 64 \<Longrightarrow> unat (word_of_nat n :: u64) = n"
  by (simp add: unat_of_nat take_bit_nat_eq_self)

lemma word_of_nat_u64_inject:
  assumes "m < 2 ^ 64" "n < 2 ^ 64"
  shows "(word_of_nat m :: u64) = word_of_nat n \<longleftrightarrow> m = n"
  using unat_word_of_nat_u64 [OF assms(1)] unat_word_of_nat_u64 [OF assms(2)] by metis

lemma dlq_rep_enqueue:
  assumes "dlq_rep q ls"
  shows "if length ls < dlq_capacity q
    then dlq_rep (fst (dlq_enqueue l q)) (ls @ [l]) \<and> snd (dlq_enqueue l q) = Inr ()
    else dlq_enqueue l q = (q, Inl (error_new Conflict ''dead-letter capacity is exhausted''))"
proof (cases "length ls < dlq_capacity q")
  case True
  with assms have n: "unat (word_of_nat (length ls) :: u64) = length ls"
    by (intro unat_word_of_nat_u64) (simp add: dlq_rep_def)
  have "(if unat k < Suc (length ls) then Some ((ls @ [l]) ! unat k) else None) =
      ((\<lambda>k. if unat k < length ls then Some (ls ! unat k) else None)(word_of_nat (length ls) \<mapsto> l)) k"
    for k :: u64
    using n by (auto simp: nth_append less_Suc_eq word_unat_eq_iff)
  with True assms show ?thesis
    by (auto simp: dlq_rep_def dlq_enqueue_def fun_eq_iff add.commute)
next
  case False
  with assms show ?thesis by (simp add: dlq_rep_def dlq_enqueue_def)
qed

lemma dlq_rep_enqueue_all:
  "dlq_rep q ls \<Longrightarrow>
     dlq_rep (dlq_enqueue_all ms q) (take (dlq_capacity q) (ls @ ms)) \<and>
     dlq_capacity (dlq_enqueue_all ms q) = dlq_capacity q"
proof (induction ms arbitrary: q ls)
  case Nil
  then show ?case by (simp add: dlq_rep_def)
next
  case (Cons m ms)
  have cap: "dlq_capacity (fst (dlq_enqueue m q)) = dlq_capacity q"
    by (simp add: dlq_enqueue_def)
  show ?case
  proof (cases "length ls < dlq_capacity q")
    case True
    with dlq_rep_enqueue [OF Cons.prems, of m] Cons.IH [of "fst (dlq_enqueue m q)" "ls @ [m]"] cap
    show ?thesis by simp
  next
    case False
    with Cons.prems have "length ls = dlq_capacity q" by (simp add: dlq_rep_def)
    with False dlq_rep_enqueue [OF Cons.prems, of m] Cons.IH [OF Cons.prems] show ?thesis
      by simp
  qed
qed

lemma insort_key_graph:
  "insort_key fst (k, f k) (map (\<lambda>k. (k, f k)) ks) = map (\<lambda>k. (k, f k)) (insort k ks)"
  by (induction ks) auto

lemma sort_key_graph: "sort_key fst (map (\<lambda>k. (k, f k)) ks) = map (\<lambda>k. (k, f k)) (sort ks)"
  by (induction ks) (simp_all add: insort_key_graph)

lemma dlq_rep_list:
  assumes "dlq_rep q ls" "iterates iter (dlq_letters q)"
  shows "dlq_list limit iter q = Inr (take limit ls)"
proof -
  let ?ids = "map word_of_nat [0..<length ls] :: u64 list"
  have small: "n < length ls \<Longrightarrow> n < 2 ^ 64" for n
    using assms(1) by (simp add: dlq_rep_def)
  have "sorted ?ids"
    using small by (auto simp: sorted_iff_nth_mono word_le_nat_alt unat_word_of_nat_u64)
  moreover have "distinct ?ids"
    unfolding distinct_map inj_on_def using small word_of_nat_u64_inject by auto
  moreover have "set iter = set ?ids"
  proof -
    have "set iter = {k. unat k < length ls}"
      using assms by (auto simp: iterates_def dlq_rep_def split: if_splits)
    also have "\<dots> = set ?ids"
    proof
      show "{k. unat k < length ls} \<subseteq> set ?ids"
      proof
        fix k :: u64
        assume "k \<in> {k. unat k < length ls}"
        moreover have "k = word_of_nat (unat k)" by simp
        ultimately show "k \<in> set ?ids" by (metis atLeastLessThan_upt atLeast_upt image_eqI lessThan_iff
          list.set_map mem_Collect_eq)
      qed
      show "set ?ids \<subseteq> {k. unat k < length ls}"
        using small by (auto simp: unat_word_of_nat_u64)
    qed
    finally show ?thesis .
  qed
  ultimately have iter: "sort iter = ?ids"
    using assms(2) by (intro sorted_distinct_set_unique) (simp_all add: iterates_def)
  have keys: "List.map_filter (\<lambda>k. map_option (Pair k) (dlq_letters q k)) ks =
      map (\<lambda>k. (k, ls ! unat k)) ks" if "set ks \<subseteq> {k. unat k < length ls}" for ks
    using that assms(1) by (induction ks) (auto simp: dlq_rep_def List.map_filter_simps)
  have sub: "set iter \<subseteq> {k. unat k < length ls}"
    using assms by (auto simp: iterates_def dlq_rep_def split: if_splits)
  have "map snd (take limit (map (\<lambda>k. (k, ls ! unat k)) ?ids)) = take limit ls"
    using small by (intro nth_equalityI) (simp_all add: unat_word_of_nat_u64)
  then show ?thesis
    unfolding dlq_list_def keys [OF sub] sort_key_graph iter by simp
qed

text \<open>
  The dead-letter queue is a bounded first-in first-out log. After any letters were
  offered to a fresh queue of capacity \<open>c\<close>, a listing returns the first \<open>limit\<close> of the \<open>c\<close> oldest in the
  order they were offered, whatever order the map iterates in, and a full queue answers a further
  letter with a conflict and stays unchanged.
\<close>

theorem dead_letters_fifo:
  assumes "dlq_new c = Inr q0" "c < 2 ^ 64" "q = dlq_enqueue_all ls q0"
    and "iterates iter (dlq_letters q)"
  shows "dlq_list limit iter q = Inr (take limit (take c ls)) \<and>
    (c \<le> length ls \<longrightarrow>
      dlq_enqueue l q = (q, Inl (error_new Conflict ''dead-letter capacity is exhausted'')))"
proof -
  have c: "dlq_capacity q0 = c" using assms(1) by (auto simp: dlq_new_def split: if_splits)
  have rep: "dlq_rep q (take c ls)" and cap: "dlq_capacity q = c"
    using dlq_rep_enqueue_all [OF dlq_rep_new [OF assms(1,2)], of ls] c assms(3) by auto
  show ?thesis
    using dlq_rep_list [OF rep assms(4)] dlq_rep_enqueue [OF rep, of l] cap by simp
qed

theorem dead_letters_fifo_witness:
  "\<exists>q0 a b. dlq_new 2 = Inr q0 \<and> a \<noteq> b \<and>
     dlq_list 1 [1, 0] (dlq_enqueue_all [a, b] q0) = Inr [a] \<and>
     snd (dlq_enqueue a (dlq_enqueue_all [a, b] q0)) =
       Inl (error_new Conflict ''dead-letter capacity is exhausted'')"
proof -
  define env where "env = envelope_new 1 ''T'' [] (metadata_new 1 None) 0"
  define a b where "a = dead_letter_new env ''x'' 1" and "b = dead_letter_new env ''x'' 2"
  obtain q0 where q0: "dlq_new 2 = Inr q0" by (simp add: dlq_new_def)
  have it: "iterates [1, 0] (dlq_letters (dlq_enqueue_all [a, b] q0))"
    using q0 by (auto simp: iterates_def dlq_new_def dlq_enqueue_def)
  have "a \<noteq> b" by (simp add: a_def b_def dead_letter_new_def)
  then show ?thesis
    using dead_letters_fifo [OF q0 _ refl it, of 1 a] q0
    by (intro exI [of _ q0] exI [of _ a] exI [of _ b]) simp
qed

end
