(* ===== verification/Outbox_Message.thy ===== *)
theory Outbox_Message
  imports Reliability
begin

text \<open>
  The durable outbox record of \<open>crates/catga-core/src/store.rs\<close>: the validations every store runs before
  it works, the claim deadline, and \<open>OutboxMessage\<close> with its life cycle from pending through claims
  to published or failed.
\<close>

section \<open>Validation\<close>

datatype outbox_state = OPending | OClaimed | OFailed | OPublished

definition default_outbox_max_retries :: u32 where
  "default_outbox_max_retries = 3"

definition max_outbox_failure_error_bytes :: nat where
  "max_outbox_failure_error_bytes = 1024"

definition max_outbox_claim_limit :: nat where
  "max_outbox_claim_limit = 1024"

definition default_outbox_claim_lease :: duration where
  "default_outbox_claim_lease = from_secs (5 * 60)"

definition max_outbox_claim_lease :: duration where
  "max_outbox_claim_lease = from_secs (60 * 60)"

definition validate_outbox_message_id :: "u64 \<Rightarrow> unit catga_result" where
  "validate_outbox_message_id mid =
     (if mid = 0
      then Inl (error_new Validation ''outbox message identifier must be greater than zero'')
      else Inr ())"

definition validate_outbox_claim_limit :: "nat \<Rightarrow> unit catga_result" where
  "validate_outbox_claim_limit limit =
     (if limit > max_outbox_claim_limit
      then Inl (error_new Validation ''outbox claim limit exceeds the configured memory budget'')
      else Inr ())"

definition validate_outbox_claim_lease :: "duration \<Rightarrow> unit catga_result" where
  "validate_outbox_claim_lease lease =
     (if as_millis lease = 0 \<or> lease > max_outbox_claim_lease
      then Inl (error_new Validation
        ''outbox claim lease must be at least one millisecond and no longer than the configured maximum'')
      else Inr ())"

definition outbox_claim_expires_at :: "duration \<Rightarrow> systime \<Rightarrow> u64 catga_result" where
  "outbox_claim_expires_at lease now =
     bind_r (validate_outbox_claim_lease lease) (\<lambda>_.
     bind_r (unix_ms_or clock_before_epoch clock_beyond_range now) (\<lambda>now_ms.
     bind_r (ok_or (error_new Validation ''outbox claim lease exceeds the supported millisecond range'')
               (u64_try_from (as_millis lease))) (\<lambda>lease_ms.
     ok_or (error_new Validation ''outbox claim deadline exceeds the supported millisecond range'')
       (checked_add now_ms lease_ms))))"

section \<open>The record\<close>

record outbox_message =
  om_envelope :: envelope
  om_state :: outbox_state
  om_owner :: "string option"
  om_retry_count :: u32
  om_max_retries :: u32
  om_last_error :: "string option"
  om_published_at :: "u64 option"
  om_claimed_until :: "u64 option"
  om_claim_token :: "string option"

definition om_new :: "envelope \<Rightarrow> outbox_message" where
  "om_new env =
     \<lparr>om_envelope = env, om_state = OPending, om_owner = None, om_retry_count = 0,
      om_max_retries = default_outbox_max_retries, om_last_error = None, om_published_at = None,
      om_claimed_until = None, om_claim_token = None\<rparr>"

definition om_scheduled :: "envelope \<Rightarrow> systime \<Rightarrow> outbox_message catga_result" where
  "om_scheduled env boundary =
     bind_r (with_not_before boundary (env_metadata env)) (\<lambda>metadata.
       Inr (om_new (with_metadata metadata env)))"

definition om_id :: "outbox_message \<Rightarrow> u64" where
  "om_id m = env_id (om_envelope m)"

definition with_max_retries :: "u32 \<Rightarrow> outbox_message \<Rightarrow> outbox_message catga_result" where
  "with_max_retries n m =
     (if n = 0 then Inl (error_new Validation ''outbox maximum retries must be greater than zero'')
      else Inr (m\<lparr>om_max_retries := n\<rparr>))"

definition bounded_failure_reason :: "string \<Rightarrow> string" where
  "bounded_failure_reason reason =
     (if length reason \<le> max_outbox_failure_error_bytes then reason
      else take (floor_char_boundary reason max_outbox_failure_error_bytes) reason)"

definition with_retry_history :: "u32 \<Rightarrow> string option \<Rightarrow> outbox_message \<Rightarrow> outbox_message" where
  "with_retry_history n err m =
     m\<lparr>om_retry_count := n, om_last_error := map_option bounded_failure_reason err\<rparr>"

definition om_is_due_at :: "systime \<Rightarrow> outbox_message \<Rightarrow> bool" where
  "om_is_due_at now m = metadata_is_due_at (env_metadata (om_envelope m)) now"

definition is_claimable_at :: "u64 \<Rightarrow> outbox_message \<Rightarrow> bool" where
  "is_claimable_at now_ms m \<longleftrightarrow>
     om_state m = OPending
     \<or> om_state m = OClaimed \<and>
       (case om_claimed_until m of None \<Rightarrow> True | Some deadline \<Rightarrow> deadline \<le> now_ms)"

definition om_claim :: "string \<Rightarrow> outbox_message \<Rightarrow> outbox_message" where
  "om_claim owner m =
     (if om_state m = OFailed \<or> om_state m = OPublished then m
      else m\<lparr>om_state := OClaimed, om_owner := Some owner, om_claimed_until := None,
             om_claim_token := None\<rparr>)"

definition claim_until :: "string \<Rightarrow> u64 \<Rightarrow> outbox_message \<Rightarrow> outbox_message" where
  "claim_until owner deadline m =
     (let m' = om_claim owner m
      in if om_state m' = OClaimed then m'\<lparr>om_claimed_until := Some deadline\<rparr> else m')"

definition claim_until_with_token :: "string \<Rightarrow> string \<Rightarrow> u64 \<Rightarrow> outbox_message \<Rightarrow> outbox_message" where
  "claim_until_with_token owner token deadline m =
     (let m' = om_claim owner m
      in if om_state m' = OClaimed
         then m'\<lparr>om_claim_token := Some token, om_claimed_until := Some deadline\<rparr> else m')"

definition mark_published :: "u64 \<Rightarrow> outbox_message \<Rightarrow> outbox_message" where
  "mark_published at m =
     (if om_state m = OClaimed
      then m\<lparr>om_state := OPublished, om_owner := None, om_published_at := Some at,
             om_claimed_until := None, om_claim_token := None\<rparr>
      else m)"

definition om_release :: "outbox_message \<Rightarrow> outbox_message" where
  "om_release m =
     (if om_state m = OClaimed
      then m\<lparr>om_state := OPending, om_owner := None, om_claimed_until := None,
             om_claim_token := None\<rparr>
      else m)"

definition record_failure :: "string \<Rightarrow> outbox_message \<Rightarrow> outbox_message" where
  "record_failure reason m =
     (let n = saturating_add (om_retry_count m) 1
      in m\<lparr>om_retry_count := n, om_last_error := Some (bounded_failure_reason reason),
           om_owner := None, om_claimed_until := None, om_claim_token := None,
           om_state := (if n \<ge> om_max_retries m then OFailed else OPending)\<rparr>)"

lemmas om_defs = om_claim_def claim_until_def claim_until_with_token_def mark_published_def
  om_release_def record_failure_def Let_def

section \<open>Life cycle\<close>

text \<open>
  The life cycle a store drives: every transition of a record is one of the methods, and a failure is
  recorded only against a claimed record, as the documentation of \<open>record_failure\<close> demands.
\<close>

inductive om_step :: "outbox_message \<Rightarrow> outbox_message \<Rightarrow> bool" where
  step_claim: "om_step m (om_claim owner m)"
| step_claim_until: "om_step m (claim_until owner deadline m)"
| step_claim_token: "om_step m (claim_until_with_token owner token deadline m)"
| step_publish: "om_step m (mark_published at m)"
| step_release: "om_step m (om_release m)"
| step_failure: "om_state m = OClaimed \<Longrightarrow> om_step m (record_failure reason m)"

inductive_cases om_stepE: "om_step m m'"

text \<open>The fields of a record agree with its state, and a failed record has spent its attempts exactly.\<close>

definition om_wf :: "outbox_message \<Rightarrow> bool" where
  "om_wf m \<longleftrightarrow>
     (om_owner m \<noteq> None \<longleftrightarrow> om_state m = OClaimed) \<and>
     (om_claim_token m \<noteq> None \<longrightarrow> om_state m = OClaimed) \<and>
     (om_claimed_until m \<noteq> None \<longrightarrow> om_state m = OClaimed) \<and>
     (om_published_at m \<noteq> None \<longleftrightarrow> om_state m = OPublished) \<and>
     om_retry_count m \<le> om_max_retries m \<and>
     (om_state m = OFailed \<longleftrightarrow> om_retry_count m = om_max_retries m) \<and>
     (\<forall>e. om_last_error m = Some e \<longrightarrow> length e \<le> max_outbox_failure_error_bytes)"

lemma outbox_validations_Inr [simp]:
  "validate_outbox_message_id i = Inr u \<longleftrightarrow> i \<noteq> 0"
  "validate_outbox_claim_limit l = Inr u \<longleftrightarrow> l \<le> max_outbox_claim_limit"
  "validate_outbox_claim_lease d = Inr u \<longleftrightarrow> as_millis d \<noteq> 0 \<and> d \<le> max_outbox_claim_lease"
  by (auto simp: validate_outbox_message_id_def validate_outbox_claim_limit_def
      validate_outbox_claim_lease_def)

lemma outbox_claim_expires_at_Inr:
  assumes "outbox_claim_expires_at lease now = Inr deadline"
  shows "0 < as_millis lease \<and> lease \<le> max_outbox_claim_lease \<and> 0 \<le> now
    \<and> uint deadline = now div 1000000 + int (as_millis lease)"
proof -
  from assms obtain a b where a: "uint a = now div 1000000" and b: "unat b = as_millis lease"
    and ab: "checked_add a b = Some deadline"
    and "0 < as_millis lease" "lease \<le> max_outbox_claim_lease" "0 \<le> now"
    by (auto simp: outbox_claim_expires_at_def bind_r_Inr_iff unix_ms_or_Inr u64_try_from_iff)
  then show ?thesis
    using arg_cong [OF checked_add_Some_unat [OF ab], of int] by simp
qed

lemma bounded_failure_reason_truncates:
  "truncates max_outbox_failure_error_bytes bounded_failure_reason"
  by (auto simp: truncates_def bounded_failure_reason_def min_def
      floor_char_boundary_id is_char_boundary_def)

lemmas bounded_failure_reason_props = truncates_props [OF bounded_failure_reason_truncates]

lemma saturating_succ_bound:
  fixes n k :: "'a::len word"
  assumes "n < k"
  shows "saturating_add n 1 = n + 1" "n + 1 \<le> k" "unat (n + 1) = unat n + 1"
proof -
  from assms have "unat n < unat k" by (simp add: word_less_nat_alt)
  then have "unat n + 1 < 2 ^ LENGTH('a)"
    using unsigned_less [of k, where 'a = nat] by linarith
  then show "saturating_add n 1 = n + 1" and *: "unat (n + 1) = unat n + 1"
    by (simp_all add: saturating_add_def unat_1 unat_word_ariths)
  with \<open>unat n < unat k\<close> show "n + 1 \<le> k" by (simp add: word_le_nat_alt)
qed

lemma om_wf_new: "om_wf (om_new env)"
  by (simp add: om_wf_def om_new_def default_outbox_max_retries_def)

lemma om_wf_pending:
  "om_wf m \<Longrightarrow> om_state m = OPending \<Longrightarrow>
     om_owner m = None \<and> om_claim_token m = None \<and> om_claimed_until m = None \<and> om_published_at m = None"
  by (auto simp: om_wf_def)

lemma om_wf_claims:
  assumes "om_wf m"
  shows "om_wf (om_claim owner m)" "om_wf (claim_until owner deadline m)"
    "om_wf (claim_until_with_token owner token deadline m)" "om_wf (mark_published at m)"
    "om_wf (om_release m)"
  using assms by (auto simp: om_wf_def om_defs)

lemma om_wf_record_failure:
  assumes "om_wf m" "om_state m = OClaimed"
  shows "om_wf (record_failure reason m)"
proof -
  from assms have lt: "om_retry_count m < om_max_retries m" by (auto simp: om_wf_def)
  note sat = saturating_succ_bound [OF lt]
  show ?thesis
    using assms sat(1,2) bounded_failure_reason_props(1) [of reason]
    by (auto simp: om_wf_def om_defs)
qed

lemma om_step_wf: "om_step m m' \<Longrightarrow> om_wf m \<Longrightarrow> om_wf m'"
  by (auto elim!: om_stepE intro: om_wf_claims om_wf_record_failure)

lemma om_step_keeps:
  assumes "om_step m m'"
  shows "om_envelope m' = om_envelope m" "om_max_retries m' = om_max_retries m"
    "om_state m = OFailed \<or> om_state m = OPublished \<Longrightarrow> m' = m"
  using assms by (auto elim!: om_stepE simp: om_defs)

lemma om_steps_wf: "om_step\<^sup>*\<^sup>* m m' \<Longrightarrow> om_wf m \<Longrightarrow> om_wf m'"
  by (induction rule: rtranclp_induct) (auto intro: om_step_wf)

lemma om_steps_terminal:
  "om_step\<^sup>*\<^sup>* m m' \<Longrightarrow> om_state m = OFailed \<or> om_state m = OPublished \<Longrightarrow> m' = m"
  by (induction rule: rtranclp_induct) (auto dest: om_step_keeps(3))

lemma om_steps_keeps:
  "om_step\<^sup>*\<^sup>* m m' \<Longrightarrow> om_envelope m' = om_envelope m \<and> om_max_retries m' = om_max_retries m"
  by (induction rule: rtranclp_induct) (auto dest: om_step_keeps)

text \<open>
  The life cycle of an outbox record. Whatever sequence of claims, releases, failures and
  acknowledgements a record created by \<open>OutboxMessage::new\<close> goes through, its owner, token, deadline and
  publication time agree with its state, the retained error is bounded, it never counts more failures
  than its limit and is failed exactly when it counts that many, and a failed or published record is
  never changed again, so it is never delivered again.
\<close>

theorem outbox_message_lifecycle:
  assumes "with_max_retries n (om_new env) = Inr m0" "om_step\<^sup>*\<^sup>* m0 m" "om_step\<^sup>*\<^sup>* m m'"
  shows "om_wf m \<and> om_id m = env_id env \<and>
    unat (om_retry_count m) \<le> unat n \<and> (om_state m = OFailed \<longleftrightarrow> om_retry_count m = n) \<and>
    (om_state m = OFailed \<or> om_state m = OPublished \<longrightarrow> m' = m \<and> (\<forall>now. \<not> is_claimable_at now m'))"
proof -
  from assms(1) have m0: "m0 = (om_new env)\<lparr>om_max_retries := n\<rparr>" and "n \<noteq> 0"
    by (auto simp: with_max_retries_def split: if_splits)
  then have "om_wf m0" by (auto simp: om_wf_def om_new_def)
  with assms(2) have wf: "om_wf m" by (rule om_steps_wf)
  from om_steps_keeps [OF assms(2)] m0 have "om_max_retries m = n" "om_id m = env_id env"
    by (auto simp: om_id_def om_new_def)
  with wf om_steps_terminal [OF assms(3)] show ?thesis
    by (auto simp: om_wf_def word_le_nat_alt is_claimable_at_def)
qed

theorem outbox_message_lifecycle_witness:
  "\<exists>m0 m. with_max_retries 1 (om_new (envelope_new 7 ''t'' [] (metadata_new 7 None) 0)) = Inr m0 \<and> om_step\<^sup>*\<^sup>* m0 m
     \<and> om_state m = OFailed \<and> \<not> is_claimable_at 9 m"
proof (intro exI conjI)
  let ?m0 = "(om_new (envelope_new 7 ''t'' [] (metadata_new 7 None) 0))\<lparr>om_max_retries := 1\<rparr>"
  let ?m1 = "claim_until_with_token ''w'' ''memory-0'' 5 ?m0"
  let ?m2 = "record_failure ''down'' ?m1"
  show m0: "with_max_retries 1 (om_new (envelope_new 7 ''t'' [] (metadata_new 7 None) 0)) = Inr ?m0"
    by (simp add: with_max_retries_def)
  have "om_state ?m1 = OClaimed" by (simp add: om_defs om_new_def)
  then have "om_step ?m1 ?m2" by (rule step_failure)
  with step_claim_token [of ?m0] show steps: "om_step\<^sup>*\<^sup>* ?m0 ?m2"
    by (meson converse_rtranclp_into_rtranclp r_into_rtranclp)
  show "om_state ?m2 = OFailed"
    by (simp add: om_defs om_new_def saturating_add_def)
  then show "\<not> is_claimable_at 9 ?m2"
    using outbox_message_lifecycle [OF m0 steps rtranclp.rtrancl_refl] by blast
qed

end
