(* ===== verification/Capacity.thy ===== *)
theory Capacity
  imports Reliability
begin

text \<open>
  Record admission of the in-memory stores (\<open>crates/catga-core/src/memory/capacity.rs\<close>): the identity
  sequence, the capacity counter with its sequential meaning, the compare-and-exchange loops of
  \<open>reserve\<close> and \<open>release\<close> as an interleaving transition system, the interface the stores rely on,
  and the retention sweep the outbox, the inbox and the idempotency store share.
\<close>

section \<open>Identities and capacity\<close>

definition default_memory_record_capacity :: nat where
  "default_memory_record_capacity = 65536"

definition opportunistic_cleanup_limit :: nat where
  "opportunistic_cleanup_limit = 64"

type_synonym record_sequence = u64

definition sequence_new :: record_sequence where
  "sequence_new = 1"

definition sequence_next :: "record_sequence \<Rightarrow> record_sequence \<times> u64 catga_result" where
  "sequence_next identity =
     (case checked_add identity 1 of
        Some succ \<Rightarrow> (succ, Inr identity)
      | None \<Rightarrow> (identity, Inl (error_new Internal ''memory record identity space is exhausted'')))"

record record_capacity =
  rc_limit :: nat
  rc_used :: nat

definition capacity_fixed :: "nat \<Rightarrow> record_capacity" where
  "capacity_fixed limit = \<lparr>rc_limit = limit, rc_used = 0\<rparr>"

definition capacity_new :: "nat \<Rightarrow> record_capacity catga_result" where
  "capacity_new limit =
     (if limit = 0
      then Inl (error_new Validation ''memory store record capacity must be greater than zero'')
      else Inr (capacity_fixed limit))"

definition reserve :: "record_capacity \<Rightarrow> record_capacity \<times> bool" where
  "reserve c = (if rc_used c \<ge> rc_limit c then (c, False) else (c\<lparr>rc_used := rc_used c + 1\<rparr>, True))"

definition capacity_release :: "record_capacity \<Rightarrow> record_capacity" where
  "capacity_release c = (if rc_used c = 0 then c else c\<lparr>rc_used := rc_used c - 1\<rparr>)"

section \<open>The compare-and-exchange loops\<close>

text \<open>
  The position of one thread in the two loops. A thread holds a slot from the successful exchange of
  \<open>reserve\<close> to the successful exchange of \<open>release\<close>; \<open>CReserving used\<close> and \<open>CReleasing used\<close> carry the value
  the thread read last. A weak exchange may fail although the counter still has that value.
\<close>

datatype cas_position = CIdle | CReserving nat | CRejected | CHeld | CReleasing nat

record 't cas_state =
  cas_used :: nat
  cas_at :: "'t \<Rightarrow> cas_position"

inductive cas_step :: "nat \<Rightarrow> 't cas_state \<Rightarrow> 't cas_state \<Rightarrow> bool" for limit where
  reserve_load:
    "cas_at s t = CIdle \<Longrightarrow>
     cas_step limit s (s\<lparr>cas_at := (cas_at s)(t := CReserving (cas_used s))\<rparr>)"
| reserve_full:
    "cas_at s t = CReserving used \<Longrightarrow> used \<ge> limit \<Longrightarrow>
     cas_step limit s (s\<lparr>cas_at := (cas_at s)(t := CRejected)\<rparr>)"
| reserve_exchange:
    "cas_at s t = CReserving used \<Longrightarrow> \<not> used \<ge> limit \<Longrightarrow> cas_used s = used \<Longrightarrow>
     cas_step limit s (s\<lparr>cas_used := used + 1, cas_at := (cas_at s)(t := CHeld)\<rparr>)"
| reserve_retry:
    "cas_at s t = CReserving used \<Longrightarrow> \<not> used \<ge> limit \<Longrightarrow>
     cas_step limit s (s\<lparr>cas_at := (cas_at s)(t := CReserving (cas_used s))\<rparr>)"
| give_up:
    "cas_at s t = CRejected \<Longrightarrow> cas_step limit s (s\<lparr>cas_at := (cas_at s)(t := CIdle)\<rparr>)"
| release_load:
    "cas_at s t = CHeld \<Longrightarrow>
     cas_step limit s (s\<lparr>cas_at := (cas_at s)(t := CReleasing (cas_used s))\<rparr>)"
| release_empty:
    "cas_at s t = CReleasing used \<Longrightarrow> used = 0 \<Longrightarrow>
     cas_step limit s (s\<lparr>cas_at := (cas_at s)(t := CIdle)\<rparr>)"
| release_exchange:
    "cas_at s t = CReleasing used \<Longrightarrow> used \<noteq> 0 \<Longrightarrow> cas_used s = used \<Longrightarrow>
     cas_step limit s (s\<lparr>cas_used := used - 1, cas_at := (cas_at s)(t := CIdle)\<rparr>)"
| release_retry:
    "cas_at s t = CReleasing used \<Longrightarrow> used \<noteq> 0 \<Longrightarrow>
     cas_step limit s (s\<lparr>cas_at := (cas_at s)(t := CReleasing (cas_used s))\<rparr>)"



definition cas_init :: "'t cas_state" where
  "cas_init = \<lparr>cas_used = 0, cas_at = (\<lambda>_. CIdle)\<rparr>"

text \<open>The threads that own a slot of the store.\<close>

fun owns_slot :: "cas_position \<Rightarrow> bool" where
  "owns_slot CHeld = True"
| "owns_slot (CReleasing used) = True"
| "owns_slot _ = False"

definition slot_owners :: "'t cas_state \<Rightarrow> 't set" where
  "slot_owners s = {t. owns_slot (cas_at s t)}"

definition cas_inv :: "nat \<Rightarrow> 't cas_state \<Rightarrow> bool" where
  "cas_inv limit s \<longleftrightarrow>
     finite (slot_owners s) \<and> cas_used s = card (slot_owners s) \<and> cas_used s \<le> limit \<and>
     (\<forall>t used. cas_at s t = CReleasing used \<longrightarrow> 0 < used)"

section \<open>The interface of the stores\<close>

text \<open>
  What a store relies on: a reservation succeeds exactly below the limit and counts one record, a
  release gives one back. A store keeps the count equal to the number of its records.
\<close>

locale admission =
  fixes admit :: "'c \<Rightarrow> 'c \<times> bool" and giveback :: "'c \<Rightarrow> 'c"
    and used :: "'c \<Rightarrow> nat" and limit :: "'c \<Rightarrow> nat"
  assumes admit_ok: "snd (admit c) \<longleftrightarrow> used c < limit c"
    and admit_used: "used (fst (admit c)) = (if used c < limit c then used c + 1 else used c)"
    and admit_limit: "limit (fst (admit c)) = limit c"
    and giveback_used: "used (giveback c) = used c - 1"
    and giveback_limit: "limit (giveback c) = limit c"
begin

text \<open>The counter accounts for the records \<open>recs\<close> of a store and stays within the limit.\<close>

definition accounts :: "'c \<Rightarrow> ('k \<rightharpoonup> 'v) \<Rightarrow> bool" where
  "accounts c recs \<longleftrightarrow> finite (dom recs) \<and> used c = card (dom recs) \<and> used c \<le> limit c"

lemma accounts_bound: "accounts c recs \<Longrightarrow> finite (dom recs) \<and> card (dom recs) \<le> limit c"
  by (simp add: accounts_def)

lemma accounts_insert:
  "accounts c recs \<Longrightarrow> snd (admit c) \<Longrightarrow> recs k = None \<Longrightarrow> accounts (fst (admit c)) (recs(k \<mapsto> v))"
  by (auto simp: accounts_def admit_ok admit_used admit_limit domIff)

lemma accounts_reject: "accounts c recs \<Longrightarrow> \<not> snd (admit c) \<Longrightarrow> card (dom recs) = limit c"
  by (simp add: accounts_def admit_ok)

lemma accounts_rejected: "accounts c recs \<Longrightarrow> \<not> snd (admit c) \<Longrightarrow> accounts (fst (admit c)) recs"
  by (simp add: accounts_def admit_ok admit_used admit_limit)

lemma accounts_undo: "accounts c recs \<Longrightarrow> snd (admit c) \<Longrightarrow> accounts (giveback (fst (admit c))) recs"
  by (simp add: accounts_def admit_ok admit_used admit_limit giveback_used giveback_limit)

lemma accounts_remove:
  "accounts c recs \<Longrightarrow> recs k = Some v \<Longrightarrow> accounts (giveback c) (recs(k := None))"
  by (auto simp: accounts_def giveback_used giveback_limit card_Diff_singleton domIff)

lemma accounts_update:
  "accounts c recs \<Longrightarrow> recs k = Some v \<Longrightarrow> accounts c (recs(k \<mapsto> v'))"
  by (auto simp: accounts_def insert_absorb domIff)

end

interpretation cap: admission reserve capacity_release rc_used rc_limit
  by unfold_locales (auto simp: reserve_def capacity_release_def)

lemma sequence_next_Inr:
  "sequence_next n = (n', Inr i) \<longleftrightarrow> checked_add n 1 = Some n' \<and> i = n"
  by (auto simp: sequence_next_def split: option.splits)

lemma sequence_next_Inl: "sequence_next n = (n', Inl e) \<Longrightarrow> n' = n"
  by (auto simp: sequence_next_def split: option.splits)

section \<open>No interleaving overfills a store\<close>

lemma slot_owners_upd:
  "slot_owners (s\<lparr>cas_at := (cas_at s)(t := p)\<rparr>) =
     (if owns_slot p then insert t (slot_owners s) else slot_owners s - {t})"
  "slot_owners (s\<lparr>cas_used := n, cas_at := (cas_at s)(t := p)\<rparr>) =
     (if owns_slot p then insert t (slot_owners s) else slot_owners s - {t})"
  by (auto simp: slot_owners_def)

lemma cas_inv_init: "cas_inv limit cas_init"
  by (simp add: cas_inv_def cas_init_def slot_owners_def)

lemma cas_inv_step:
  assumes "cas_step limit s s'" "cas_inv limit s"
  shows "cas_inv limit s'"
proof -
  from assms(2) have fin: "finite (slot_owners s)" by (simp add: cas_inv_def)
  have owner: "t \<in> slot_owners s \<longleftrightarrow> owns_slot (cas_at s t)" for t by (simp add: slot_owners_def)
  have pos: "0 < cas_used s" if "owns_slot (cas_at s t)" for t
    using that assms(2) fin by (auto simp: cas_inv_def card_gt_0_iff slot_owners_def)
  from assms(1) show ?thesis
  proof cases
    case (reserve_load t)
    then show ?thesis using assms(2) owner [of t] by (auto simp: cas_inv_def slot_owners_upd)
  next
    case (reserve_full t u)
    then show ?thesis using assms(2) owner [of t] by (auto simp: cas_inv_def slot_owners_upd)
  next
    case (reserve_exchange t u)
    then show ?thesis using assms(2) owner [of t] by (auto simp: cas_inv_def slot_owners_upd)
  next
    case (reserve_retry t u)
    then show ?thesis using assms(2) owner [of t] by (auto simp: cas_inv_def slot_owners_upd)
  next
    case (give_up t)
    then show ?thesis using assms(2) owner [of t] by (auto simp: cas_inv_def slot_owners_upd)
  next
    case (release_load t)
    then show ?thesis using assms(2) owner [of t] pos [of t]
      by (auto simp: cas_inv_def slot_owners_upd insert_absorb)
  next
    case (release_empty t u)
    then show ?thesis using assms(2) by (auto simp: cas_inv_def)
  next
    case (release_exchange t u)
    then show ?thesis using assms(2) owner [of t]
      by (auto simp: cas_inv_def slot_owners_upd card_Diff_singleton)
  next
    case (release_retry t u)
    then show ?thesis using assms(2) owner [of t] pos [of t]
      by (auto simp: cas_inv_def slot_owners_upd insert_absorb)
  qed
qed

lemma cas_inv_reachable: "(cas_step limit)\<^sup>*\<^sup>* cas_init s \<Longrightarrow> cas_inv limit s"
  by (induction rule: rtranclp_induct) (auto intro: cas_inv_init cas_inv_step)

text \<open>
  Property C12: record admission is safe under every interleaving. However the loads and exchanges of
  any number of threads interleave in the lock-free loops, the counter always equals the number of
  threads that hold a slot, it never exceeds the limit, so \<open>used + 1\<close> stays in range, and a thread
  that releases its slot always gives exactly one back: it never takes the early return for an empty
  counter.
\<close>

theorem capacity_interleaving_safe:
  assumes "(cas_step limit)\<^sup>*\<^sup>* cas_init s"
  shows "finite (slot_owners s) \<and> cas_used s = card (slot_owners s) \<and> card (slot_owners s) \<le> limit
    \<and> (\<forall>t. cas_at s t \<noteq> CReleasing 0)"
  using cas_inv_reachable [OF assms] by (auto simp: cas_inv_def)

theorem capacity_interleaving_safe_witness:
  "\<exists>s :: nat cas_state. (cas_step 1)\<^sup>*\<^sup>* cas_init s \<and> cas_at s 0 = CHeld \<and> cas_used s = 1
     \<and> card (slot_owners s) \<le> 1"
proof -
  let ?a = "cas_init \<lparr>cas_at := (\<lambda>_. CIdle)(0 := CReserving 0)\<rparr> :: nat cas_state"
  let ?b = "?a\<lparr>cas_used := 0 + 1, cas_at := (cas_at ?a)(0 := CHeld)\<rparr>"
  have "cas_step 1 cas_init ?a"
    using reserve_load [of cas_init "0 :: nat" 1] by (simp add: cas_init_def)
  moreover have "cas_step 1 ?a ?b"
    by (rule reserve_exchange) (simp_all add: cas_init_def)
  ultimately have "(cas_step 1)\<^sup>*\<^sup>* cas_init ?b"
    by (meson converse_rtranclp_into_rtranclp r_into_rtranclp)
  then show ?thesis
    using capacity_interleaving_safe [of 1 ?b] by (intro exI [of _ ?b]) simp
qed

end
