(* ===== verification/Retention.thy ===== *)
theory Retention
  imports Capacity
begin

text \<open>
  The retention sweep of the in-memory stores. \<open>MemoryOutbox::cleanup_published\<close>,
  \<open>MemoryInbox::cleanup_completed\<close> and \<open>MemoryIdempotency::cleanup_completed\<close> run the same two phases: they
  snapshot up to \<open>limit\<close> entries of an index of finished records and keep the ones older than the
  retention, then they remove each snapshot entry from the records, provided the record still is the
  incarnation the snapshot saw and still is finished, and from the index, provided the entry is
  unchanged. Both phases are written once here, over the identity and the finished test of a record.
\<close>

record retired_record =
  rr_at :: u64
  rr_identity :: u64

definition cleanup_candidates ::
  "u64 \<Rightarrow> u64 \<Rightarrow> nat \<Rightarrow> 'k list \<Rightarrow> ('k \<rightharpoonup> retired_record) \<Rightarrow> ('k \<times> retired_record) list" where
  "cleanup_candidates now retention limit iter index =
     filter (\<lambda>(k, c). saturating_sub now (rr_at c) \<ge> retention)
       (take limit (List.map_filter (\<lambda>k. map_option (Pair k) (index k)) iter))"

definition remove_if :: "'k \<Rightarrow> ('v \<Rightarrow> bool) \<Rightarrow> ('k \<rightharpoonup> 'v) \<Rightarrow> ('k \<rightharpoonup> 'v) \<times> bool" where
  "remove_if k p m = (case m k of Some v \<Rightarrow> if p v then (m(k := None), True) else (m, False)
                                | None \<Rightarrow> (m, False))"

fun sweep ::
  "('r \<Rightarrow> u64) \<Rightarrow> ('r \<Rightarrow> bool) \<Rightarrow> ('k \<times> retired_record) list
   \<Rightarrow> ('k \<rightharpoonup> 'r) \<times> ('k \<rightharpoonup> retired_record) \<times> record_capacity \<times> nat
   \<Rightarrow> ('k \<rightharpoonup> 'r) \<times> ('k \<rightharpoonup> retired_record) \<times> record_capacity \<times> nat" where
  "sweep identity finished [] (records, index, cap, removed) = (records, index, cap, removed)"
| "sweep identity finished ((k, candidate) # cs) (records, index, cap, removed) =
     (let (records', hit) = remove_if k (\<lambda>r. identity r = rr_identity candidate \<and> finished r) records;
          cap' = (if hit then capacity_release cap else cap);
          removed' = (if hit then removed + 1 else removed);
          (index', _) = remove_if k (\<lambda>current. current = candidate) index
      in sweep identity finished cs (records', index', cap', removed'))"

text \<open>
  The records and the index agree key by key: a key is in the index exactly when its record is
  finished, and then the entry names that incarnation of the record.
\<close>

fun entry_ok :: "('r \<Rightarrow> u64) \<Rightarrow> ('r \<Rightarrow> bool) \<Rightarrow> 'r option \<Rightarrow> retired_record option \<Rightarrow> bool" where
  "entry_ok identity finished None c \<longleftrightarrow> c = None"
| "entry_ok identity finished (Some r) None \<longleftrightarrow> \<not> finished r"
| "entry_ok identity finished (Some r) (Some c) \<longleftrightarrow> finished r \<and> identity r = rr_identity c"

definition indexed ::
  "('r \<Rightarrow> u64) \<Rightarrow> ('r \<Rightarrow> bool) \<Rightarrow> ('k \<rightharpoonup> 'r) \<Rightarrow> ('k \<rightharpoonup> retired_record) \<Rightarrow> bool" where
  "indexed identity finished records index \<longleftrightarrow>
     (\<forall>k. entry_ok identity finished (records k) (index k))"

lemma indexed_entry: "indexed identity finished records index \<Longrightarrow> entry_ok identity finished (records k) (index k)"
  by (simp add: indexed_def)

lemma entry_ok_Some:
  "entry_ok identity finished r (Some c) \<longleftrightarrow> (\<exists>v. r = Some v \<and> finished v \<and> identity v = rr_identity c)"
  by (cases r) auto

lemma entry_ok_None: "entry_ok identity finished r None \<longleftrightarrow> (\<forall>v. r = Some v \<longrightarrow> \<not> finished v)"
  by (cases r) auto

lemma indexed_update:
  assumes "indexed identity finished records index" "\<not> finished r"
    "records k = None \<or> records k = Some r' \<and> \<not> finished r'"
  shows "indexed identity finished (records(k \<mapsto> r)) index"
proof -
  have "index k = None" using indexed_entry [OF assms(1), of k] assms(3) by (cases "index k") auto
  with assms(1,2) show ?thesis by (simp add: indexed_def)
qed

lemma indexed_finish:
  assumes "indexed identity finished records index" "finished r" "identity r = rr_identity c"
  shows "indexed identity finished (records(k \<mapsto> r)) (index(k \<mapsto> c))"
  using assms by (simp add: indexed_def)

lemma indexed_delete:
  assumes "indexed identity finished records index" "records k = Some r" "\<not> finished r"
  shows "indexed identity finished (records(k := None)) index"
proof -
  have "index k = None" using indexed_entry [OF assms(1), of k] assms(2,3) by (cases "index k") auto
  with assms(1) show ?thesis by (simp add: indexed_def)
qed

lemma cleanup_candidates_mem:
  "(k, c) \<in> set (cleanup_candidates now retention limit iter index) \<Longrightarrow>
     k \<in> set iter \<and> index k = Some c \<and> retention \<le> saturating_sub now (rr_at c)"
  by (auto simp: cleanup_candidates_def List.map_filter_def dest!: in_set_takeD)

lemma cleanup_candidates_length:
  "length (cleanup_candidates now retention limit iter index) \<le> limit"
  unfolding cleanup_candidates_def by (rule order_trans [OF length_filter_le]) simp

lemma map_filter_graph:
  "map fst (List.map_filter (\<lambda>k. map_option (Pair k) (m k)) ks) = filter (\<lambda>k. m k \<noteq> None) ks"
  by (induction ks) (auto simp: List.map_filter_def)

lemma distinct_map_fst_filter: "distinct (map fst xs) \<Longrightarrow> distinct (map fst (filter P xs))"
  by (induction xs) auto

lemma cleanup_candidates_distinct:
  assumes "distinct iter"
  shows "distinct (map fst (cleanup_candidates now retention limit iter index))"
proof -
  have "map fst (take limit (List.map_filter (\<lambda>k. map_option (Pair k) (index k)) iter)) =
      take limit (filter (\<lambda>k. index k \<noteq> None) iter)"
    by (simp only: take_map [symmetric] map_filter_graph)
  with assms have "distinct (map fst (take limit
      (List.map_filter (\<lambda>k. map_option (Pair k) (index k)) iter)))"
    by (simp del: not_None_eq)
  then show ?thesis
    unfolding cleanup_candidates_def by (rule distinct_map_fst_filter)
qed

lemma sweep_safe:
  assumes "sweep identity finished cs (records, index, cap, n) = (records', index', cap', n')"
    and "cap.accounts cap records"
  shows "cap.accounts cap' records' \<and> rc_limit cap' = rc_limit cap \<and>
    n' + card (dom records') = n + card (dom records) \<and> n' \<le> n + length cs \<and>
    (\<forall>k. records' k = records k \<or> records' k = None \<and>
       (\<exists>c r. (k, c) \<in> set cs \<and> records k = Some r \<and> identity r = rr_identity c \<and> finished r)) \<and>
    (\<forall>k. index' k = index k \<or> index' k = None \<and> (\<exists>c. (k, c) \<in> set cs \<and> index k = Some c))"
  using assms
proof (induction cs arbitrary: records index cap n)
  case Nil
  then show ?case by simp
next
  case (Cons p cs)
  obtain k c where p: "p = (k, c)" by (cases p)
  define hit where "hit \<longleftrightarrow> (\<exists>r. records k = Some r \<and> identity r = rr_identity c \<and> finished r)"
  let ?recs = "if hit then records(k := None) else records"
  let ?idx = "if index k = Some c then index(k := None) else index"
  let ?cap = "if hit then capacity_release cap else cap"
  have step: "sweep identity finished cs (?recs, ?idx, ?cap, if hit then n + 1 else n) =
      (records', index', cap', n')"
    using Cons.prems(1) unfolding p
    by (auto simp: remove_if_def hit_def Let_def split: option.splits if_splits)
  have acc: "cap.accounts ?cap ?recs"
    using Cons.prems(2) by (auto simp: hit_def intro: cap.accounts_remove)
  have card: "card (dom ?recs) + (if hit then 1 else 0) = card (dom records)"
    using Cons.prems(2) card_Suc_Diff1 [of "dom records" k]
    by (auto simp: hit_def cap.accounts_def domIff)
  note IH = Cons.IH [OF step acc]
  from IH have "n' + card (dom records') = (if hit then n + 1 else n) + card (dom ?recs)"
    and "n' \<le> (if hit then n + 1 else n) + length cs" by blast+
  with card have "n' + card (dom records') = n + card (dom records)" and "n' \<le> n + length (p # cs)"
    by (simp_all split: if_splits)
  moreover from IH have "cap.accounts cap' records'" "rc_limit cap' = rc_limit cap"
    by (auto simp: cap.giveback_limit split: if_splits)
  moreover have "records' j = records j \<or> records' j = None \<and>
       (\<exists>c r. (j, c) \<in> set (p # cs) \<and> records j = Some r \<and> identity r = rr_identity c \<and> finished r)"
    for j
  proof -
    from IH have "records' j = ?recs j \<or> records' j = None \<and>
       (\<exists>c r. (j, c) \<in> set cs \<and> ?recs j = Some r \<and> identity r = rr_identity c \<and> finished r)" by blast
    moreover have "\<exists>r. records k = Some r \<and> identity r = rr_identity c \<and> finished r" if hit
      using that by (simp add: hit_def)
    ultimately show ?thesis unfolding p by (cases "j = k"; cases hit) auto
  qed
  moreover have "index' j = index j \<or> index' j = None \<and> (\<exists>c. (j, c) \<in> set (p # cs) \<and> index j = Some c)"
    for j
  proof -
    from IH have "index' j = ?idx j \<or> index' j = None \<and> (\<exists>c. (j, c) \<in> set cs \<and> ?idx j = Some c)"
      by blast
    then show ?thesis unfolding p by (cases "j = k"; cases "index k = Some c") auto
  qed
  ultimately show ?case by blast
qed

text \<open>
  Run on its own snapshot, a sweep removes exactly the snapshot keys, and leaves an index that still
  agrees with the records.
\<close>

lemma sweep_exact:
  assumes "sweep identity finished cs (records, index, cap, n) = (records', index', cap', n')"
    and "indexed identity finished records index"
    and "\<forall>(k, c) \<in> set cs. index k = Some c \<or> index k = None \<and> records k = None"
  shows "records' = records |` (- fst ` set cs) \<and> index' = index |` (- fst ` set cs) \<and>
    indexed identity finished records' index'"
  using assms
proof (induction cs arbitrary: records index cap n)
  case Nil
  then show ?case by simp
next
  case (Cons p cs)
  obtain k c where p: "p = (k, c)" by (cases p)
  let ?recs = "records(k := None)" and ?idx = "index(k := None)"
  have k: "index k = Some c \<and> (\<exists>r. records k = Some r \<and> identity r = rr_identity c \<and> finished r)
      \<or> index k = None \<and> records k = None"
    using Cons.prems(3) indexed_entry [OF Cons.prems(2), of k] by (auto simp: p entry_ok_Some)
  then have recs: "fst (remove_if k (\<lambda>r. identity r = rr_identity c \<and> finished r) records) = ?recs"
    and idx: "fst (remove_if k (\<lambda>current. current = c) index) = ?idx"
    by (auto simp: remove_if_def fun_eq_iff)
  obtain cap1 n1 where step:
    "sweep identity finished cs (?recs, ?idx, cap1, n1) = (records', index', cap', n')"
    using Cons.prems(1) recs idx unfolding p by (auto simp: Let_def split: prod.splits)
  have "indexed identity finished ?recs ?idx"
    using Cons.prems(2) by (auto simp: indexed_def)
  moreover have "\<forall>(j, d) \<in> set cs. ?idx j = Some d \<or> ?idx j = None \<and> ?recs j = None"
  proof clarify
    fix j d
    assume "(j, d) \<in> set cs" and none: "\<not> (?idx j = None \<and> ?recs j = None)"
    with Cons.prems(3) have "index j = Some d \<or> index j = None \<and> records j = None" by fastforce
    with none show "?idx j = Some d" by (auto split: if_splits)
  qed
  ultimately have "records' = ?recs |` (- fst ` set cs)" "index' = ?idx |` (- fst ` set cs)"
    "indexed identity finished records' index'"
    using Cons.IH [OF step] by blast+
  moreover have "m(k := None) |` (- fst ` set cs) = m |` (- fst ` set (p # cs))" for m :: "'a \<rightharpoonup> 'x"
    by (auto simp: restrict_map_def fun_eq_iff p)
  ultimately show ?case by metis
qed

text \<open>
  A sweep only ever removes what its snapshot entitles it to. Whatever other tasks did to
  the records and the index since the snapshot was taken, the sweep removes a record only if it is the
  incarnation the snapshot saw and is still finished, it reports exactly the records it removed, at
  most as many as the snapshot has, and gives exactly their capacity back.
\<close>

theorem sweep_respects_stale_snapshot:
  assumes "sweep identity finished cs (records, index, cap, 0) = (records', index', cap', removed)"
    and "finite (dom records)" "rc_used cap = card (dom records)" "rc_used cap \<le> rc_limit cap"
  shows "(\<forall>k r. records k = Some r \<longrightarrow> records' k \<noteq> Some r \<longrightarrow>
       finished r \<and> (\<exists>c. (k, c) \<in> set cs \<and> identity r = rr_identity c)) \<and>
    (\<forall>k. records' k \<noteq> None \<longrightarrow> records' k = records k) \<and>
    removed = card (dom records) - card (dom records') \<and> removed \<le> length cs \<and>
    rc_used cap' = rc_used cap - removed \<and> rc_used cap' = card (dom records')"
proof -
  have "cap.accounts cap records" using assms(2-4) by (simp add: cap.accounts_def)
  note S = sweep_safe [OF assms(1) this]
  from S have a: "\<And>k. records' k = records k \<or> records' k = None \<and>
       (\<exists>c r. (k, c) \<in> set cs \<and> records k = Some r \<and> identity r = rr_identity c \<and> finished r)"
    and b: "removed + card (dom records') = card (dom records)"
    and c: "rc_used cap' = card (dom records')" "removed \<le> length cs"
    by (simp_all add: cap.accounts_def)
  have "finished r \<and> (\<exists>c. (k, c) \<in> set cs \<and> identity r = rr_identity c)"
    if "records k = Some r" "records' k \<noteq> Some r" for k r
    using a [of k] that by auto
  moreover have "records' k = records k" if "records' k \<noteq> None" for k
    using a [of k] that by auto
  ultimately show ?thesis using b c assms(3) by auto
qed

theorem sweep_respects_stale_snapshot_witness:
  "\<exists>records' index' cap'. sweep (fst :: u64 \<times> bool \<Rightarrow> u64) snd
       [(''a'', \<lparr>rr_at = 0, rr_identity = 1\<rparr>), (''b'', \<lparr>rr_at = 0, rr_identity = 2\<rparr>)]
       ([''a'' \<mapsto> (1, True), ''b'' \<mapsto> (9, True)], [''a'' \<mapsto> \<lparr>rr_at = 0, rr_identity = 1\<rparr>],
        \<lparr>rc_limit = 4, rc_used = 2\<rparr>, 0) = (records', index', cap', 1)
     \<and> records' ''b'' = Some (9, True) \<and> records' ''a'' = None \<and> rc_used cap' = 1"
proof -
  obtain records' index' cap' removed where sw: "sweep (fst :: u64 \<times> bool \<Rightarrow> u64) snd
       [(''a'', \<lparr>rr_at = 0, rr_identity = 1\<rparr>), (''b'', \<lparr>rr_at = 0, rr_identity = 2\<rparr>)]
       ([''a'' \<mapsto> (1, True), ''b'' \<mapsto> (9, True)], [''a'' \<mapsto> \<lparr>rr_at = 0, rr_identity = 1\<rparr>],
        \<lparr>rc_limit = 4, rc_used = 2\<rparr>, 0) = (records', index', cap', removed)"
    by (metis prod_cases4)
  then have "removed = 1" "records' ''b'' = Some (9, True)" "records' ''a'' = None"
    by (auto simp: remove_if_def)
  with sw sweep_respects_stale_snapshot [OF sw] show ?thesis by auto
qed

end
