(* ===== verification/Outbox.thy ===== *)
theory Outbox
  imports Outbox_Message Retention
begin

text \<open>
  The in-memory outbox (\<open>crates/catga-core/src/memory/outbox.rs\<close>). Every method of \<open>MemoryOutbox\<close> is one
  function on the store state; the clock values a method reads, in the order it reads them, and the
  order in which a \<open>DashMap\<close> is iterated are arguments. A method runs without interleaving here: the
  source holds the entry lock of a message around every read-modify-write of it.
\<close>

section \<open>State and operations\<close>

record stored_message =
  sm_identity :: u64
  sm_message :: outbox_message

record memory_outbox =
  ob_messages :: "u64 \<rightharpoonup> stored_message"
  ob_published :: "u64 \<rightharpoonup> retired_record"
  ob_claim_sequence :: u64
  ob_record_sequence :: record_sequence
  ob_capacity :: record_capacity
  ob_retention :: duration

definition outbox_default :: memory_outbox where
  "outbox_default =
     \<lparr>ob_messages = Map.empty, ob_published = Map.empty, ob_claim_sequence = 0,
      ob_record_sequence = sequence_new, ob_capacity = capacity_fixed default_memory_record_capacity,
      ob_retention = default_idempotency_retention\<rparr>"

definition with_published_retention_and_capacity ::
  "duration \<Rightarrow> nat \<Rightarrow> memory_outbox catga_result" where
  "with_published_retention_and_capacity retention capacity =
     bind_r (validate_completed_retention retention) (\<lambda>_.
     bind_r (capacity_new capacity) (\<lambda>cap.
       Inr \<lparr>ob_messages = Map.empty, ob_published = Map.empty, ob_claim_sequence = 0,
            ob_record_sequence = sequence_new, ob_capacity = cap, ob_retention = retention\<rparr>))"

definition outbox_new :: "nat \<Rightarrow> memory_outbox catga_result" where
  "outbox_new capacity = with_published_retention_and_capacity default_idempotency_retention capacity"

definition claim_token :: "u64 \<Rightarrow> string" where
  "claim_token n = ''memory-'' @ dec (unat n)"

definition next_claim_token :: "memory_outbox \<Rightarrow> memory_outbox \<times> string" where
  "next_claim_token s =
     (s\<lparr>ob_claim_sequence := ob_claim_sequence s + 1\<rparr>, claim_token (ob_claim_sequence s))"

definition outbox_current_unix_ms :: "systime \<Rightarrow> u64 catga_result" where
  "outbox_current_unix_ms now = unix_ms_or clock_before_epoch clock_beyond_range now"

definition message_published :: "stored_message \<Rightarrow> bool" where
  "message_published m \<longleftrightarrow> om_state (sm_message m) = OPublished"

definition cleanup_published ::
  "duration \<Rightarrow> nat \<Rightarrow> systime \<Rightarrow> u64 list \<Rightarrow> memory_outbox \<Rightarrow> memory_outbox \<times> nat catga_result" where
  "cleanup_published retention limit now iter s =
     (case
        bind_r (validate_retention_cleanup_limit limit) (\<lambda>_.
        bind_r (ok_or (error_new Validation ''outbox retention exceeds the supported millisecond range'')
                  (u64_try_from (as_millis retention))) (\<lambda>retention_ms.
        bind_r (outbox_current_unix_ms now) (\<lambda>now_ms.
          Inr (cleanup_candidates now_ms retention_ms limit iter (ob_published s))))) of
        Inl e \<Rightarrow> (s, Inl e)
      | Inr candidates \<Rightarrow>
          (case sweep sm_identity message_published candidates
                  (ob_messages s, ob_published s, ob_capacity s, 0) of
             (messages, published, cap, removed) \<Rightarrow>
               (s\<lparr>ob_messages := messages, ob_published := published, ob_capacity := cap\<rparr>,
                Inr removed)))"

definition outbox_full :: catga_error where
  "outbox_full = error_new Unavailable ''memory outbox record capacity is exhausted''"

definition outbox_duplicate :: catga_error where
  "outbox_duplicate = error_new Conflict ''an outbox message with this identifier already exists''"

text \<open>The part of \<open>enqueue\<close> after a slot was reserved.\<close>

definition insert_message ::
  "outbox_message \<Rightarrow> memory_outbox \<Rightarrow> memory_outbox \<times> unit catga_result" where
  "insert_message message s =
     (case ob_messages s (om_id message) of
        None \<Rightarrow>
          (case sequence_next (ob_record_sequence s) of
             (sq, Inr identity) \<Rightarrow>
               (s\<lparr>ob_record_sequence := sq,
                  ob_messages := (ob_messages s)(om_id message \<mapsto>
                    \<lparr>sm_identity = identity, sm_message = message\<rparr>)\<rparr>, Inr ())
           | (sq, Inl e) \<Rightarrow> (s\<lparr>ob_capacity := capacity_release (ob_capacity s)\<rparr>, Inl e))
      | Some _ \<Rightarrow>
          (s\<lparr>ob_capacity := capacity_release (ob_capacity s)\<rparr>, Inl outbox_duplicate))"

definition outbox_enqueue ::
  "outbox_message \<Rightarrow> systime \<Rightarrow> u64 list \<Rightarrow> memory_outbox \<Rightarrow> memory_outbox \<times> unit catga_result" where
  "outbox_enqueue message now iter s =
     (case validate_outbox_message_id (om_id message) of
        Inl e \<Rightarrow> (s, Inl e)
      | Inr _ \<Rightarrow>
          (case reserve (ob_capacity s) of
             (cap, True) \<Rightarrow> insert_message message (s\<lparr>ob_capacity := cap\<rparr>)
           | (cap, False) \<Rightarrow>
               (case cleanup_published (ob_retention s) opportunistic_cleanup_limit now iter s of
                  (s', Inl e) \<Rightarrow> (s', Inl e)
                | (s', Inr _) \<Rightarrow>
                    (case reserve (ob_capacity s') of
                       (cap, True) \<Rightarrow> insert_message message (s'\<lparr>ob_capacity := cap\<rparr>)
                     | (cap, False) \<Rightarrow> (s', Inl outbox_full)))))"

text \<open>A message may be claimed at this instant; the key of its place in the delivery order.\<close>

definition eligible :: "u64 \<Rightarrow> systime \<Rightarrow> outbox_message \<Rightarrow> bool" where
  "eligible now_ms now m \<longleftrightarrow> is_claimable_at now_ms m \<and> om_is_due_at now m"

definition delivery_order :: "outbox_message \<Rightarrow> u64 \<times> u64" where
  "delivery_order m = (case env_sent_at_unix_ms (om_envelope m) of None \<Rightarrow> 0 | Some t \<Rightarrow> t, om_id m)"

definition claim_keys :: "u64 \<Rightarrow> systime \<Rightarrow> u64 list \<Rightarrow> memory_outbox \<Rightarrow> (u64 \<times> u64) list" where
  "claim_keys now_ms now iter s =
     List.map_filter (\<lambda>k. case ob_messages s k of
         Some sm \<Rightarrow> if \<not> is_claimable_at now_ms (sm_message sm) \<or> \<not> om_is_due_at now (sm_message sm)
                    then None else Some (delivery_order (sm_message sm))
       | None \<Rightarrow> None) iter"

fun claim_loop ::
  "string \<Rightarrow> u64 \<Rightarrow> systime \<Rightarrow> u64 \<Rightarrow> (u64 \<times> u64) list \<Rightarrow> memory_outbox
   \<Rightarrow> memory_outbox \<times> outbox_message list" where
  "claim_loop owner now_ms now expires_at [] s = (s, [])"
| "claim_loop owner now_ms now expires_at ((_, mid) # ks) s =
     (case ob_messages s mid of
        None \<Rightarrow> claim_loop owner now_ms now expires_at ks s
      | Some sm \<Rightarrow>
          if is_claimable_at now_ms (sm_message sm) \<and> om_is_due_at now (sm_message sm)
          then (let (s', token) = next_claim_token s;
                    m' = claim_until_with_token owner token expires_at (sm_message sm);
                    (s'', claimed) = claim_loop owner now_ms now expires_at ks
                      (s'\<lparr>ob_messages := (ob_messages s')(mid \<mapsto> sm\<lparr>sm_message := m'\<rparr>)\<rparr>)
                in (s'', m' # claimed))
          else claim_loop owner now_ms now expires_at ks s)"

definition claim_for ::
  "string \<Rightarrow> nat \<Rightarrow> duration \<Rightarrow> systime \<Rightarrow> systime \<Rightarrow> systime \<Rightarrow> u64 list
   \<Rightarrow> memory_outbox \<Rightarrow> memory_outbox \<times> outbox_message list catga_result" where
  "claim_for owner limit lease t_lease now t_ms iter s =
     (case
        bind_r (validate_outbox_claim_limit limit) (\<lambda>_. outbox_claim_expires_at lease t_lease) of
        Inl e \<Rightarrow> (s, Inl e)
      | Inr expires_at \<Rightarrow>
          if limit = 0 then (s, Inr [])
          else (case outbox_current_unix_ms t_ms of
            Inl e \<Rightarrow> (s, Inl e)
          | Inr now_ms \<Rightarrow>
              (case claim_loop owner now_ms now expires_at
                  (keep_smallest limit (claim_keys now_ms now iter s) []) s of
                 (s', claimed) \<Rightarrow> (s', Inr claimed))))"

definition outbox_claim ::
  "string \<Rightarrow> nat \<Rightarrow> systime \<Rightarrow> systime \<Rightarrow> systime \<Rightarrow> u64 list
   \<Rightarrow> memory_outbox \<Rightarrow> memory_outbox \<times> outbox_message list catga_result" where
  "outbox_claim owner limit = claim_for owner limit default_outbox_claim_lease"

text \<open>The guard of the completing operations: the presented owner and token hold the message.\<close>

definition holds_claim :: "string \<Rightarrow> string \<Rightarrow> outbox_message \<Rightarrow> bool" where
  "holds_claim owner token m \<longleftrightarrow> om_owner m = Some owner \<and> om_claim_token m = Some token"

definition outbox_ack ::
  "string \<Rightarrow> u64 \<Rightarrow> string \<Rightarrow> systime \<Rightarrow> memory_outbox \<Rightarrow> memory_outbox \<times> unit catga_result" where
  "outbox_ack owner mid token now s =
     (case outbox_current_unix_ms now of
        Inl e \<Rightarrow> (s, Inl e)
      | Inr published_at \<Rightarrow>
          (case ob_messages s mid of
             Some sm \<Rightarrow>
               if holds_claim owner token (sm_message sm)
               then (s\<lparr>ob_messages := (ob_messages s)(mid \<mapsto>
                         sm\<lparr>sm_message := mark_published published_at (sm_message sm)\<rparr>),
                       ob_published := (ob_published s)(mid \<mapsto>
                         \<lparr>rr_at = published_at, rr_identity = sm_identity sm\<rparr>)\<rparr>, Inr ())
               else (s, Inr ())
           | None \<Rightarrow> (s, Inr ())))"

definition outbox_release ::
  "string \<Rightarrow> u64 \<Rightarrow> string \<Rightarrow> memory_outbox \<Rightarrow> memory_outbox \<times> unit catga_result" where
  "outbox_release owner mid token s =
     (case ob_messages s mid of
        Some sm \<Rightarrow>
          if holds_claim owner token (sm_message sm)
          then (s\<lparr>ob_messages := (ob_messages s)(mid \<mapsto>
                    sm\<lparr>sm_message := om_release (sm_message sm)\<rparr>)\<rparr>, Inr ())
          else (s, Inr ())
      | None \<Rightarrow> (s, Inr ()))"

definition outbox_record_failure ::
  "string \<Rightarrow> u64 \<Rightarrow> string \<Rightarrow> string \<Rightarrow> memory_outbox \<Rightarrow> memory_outbox \<times> unit catga_result" where
  "outbox_record_failure owner mid token reason s =
     (case ob_messages s mid of
        Some sm \<Rightarrow>
          if holds_claim owner token (sm_message sm)
          then (s\<lparr>ob_messages := (ob_messages s)(mid \<mapsto>
                    sm\<lparr>sm_message := record_failure reason (sm_message sm)\<rparr>)\<rparr>, Inr ())
          else (s, Inr ())
      | None \<Rightarrow> (s, Inr ()))"

definition outbox_cancel :: "u64 \<Rightarrow> memory_outbox \<Rightarrow> memory_outbox \<times> bool catga_result" where
  "outbox_cancel mid s =
     (case ob_messages s mid of
        None \<Rightarrow> (s, Inr False)
      | Some sm \<Rightarrow>
          if om_state (sm_message sm) \<noteq> OPending then (s, Inr False)
          else (s\<lparr>ob_messages := (ob_messages s)(mid := None),
                  ob_capacity := capacity_release (ob_capacity s)\<rparr>, Inr True))"

text \<open>The derived order of \<open>Option<u64>\<close> puts \<open>None\<close> first.\<close>

definition option_u64_key :: "u64 option \<Rightarrow> nat" where
  "option_u64_key v = (case v of None \<Rightarrow> 0 | Some w \<Rightarrow> Suc (unat w))"

definition list_published ::
  "nat \<Rightarrow> u64 list \<Rightarrow> memory_outbox \<Rightarrow> outbox_message list catga_result" where
  "list_published limit iter s =
     bind_r (validate_outbox_claim_limit limit) (\<lambda>_.
       Inr (sort_key (\<lambda>m. option_u64_key (om_published_at m))
         (List.map_filter (\<lambda>k. map_option sm_message (ob_messages s k))
           (take limit (filter (\<lambda>k. ob_published s k \<noteq> None) iter)))))"

lemmas ob_defs = outbox_ack_def outbox_release_def outbox_record_failure_def outbox_cancel_def
  holds_claim_def

section \<open>Invariant\<close>

text \<open>
  The capacity counter accounts for the messages; every message is stored under its nonzero
  identifier, well formed, with an identity the sequence has already passed; the index of published
  messages agrees with their states and records their publication time.
\<close>

definition message_ok :: "record_sequence \<Rightarrow> u64 \<Rightarrow> stored_message \<Rightarrow> bool" where
  "message_ok sq k sm \<longleftrightarrow> om_id (sm_message sm) = k \<and> k \<noteq> 0 \<and> om_wf (sm_message sm) \<and> sm_identity sm < sq"

definition ob_inv :: "memory_outbox \<Rightarrow> bool" where
  "ob_inv s \<longleftrightarrow>
     cap.accounts (ob_capacity s) (ob_messages s) \<and>
     (\<forall>k sm. ob_messages s k = Some sm \<longrightarrow> message_ok (ob_record_sequence s) k sm) \<and>
     indexed sm_identity message_published (ob_messages s) (ob_published s)"

text \<open>The operations as steps of a run; \<open>list_published\<close> changes nothing.\<close>

datatype outbox_op =
    OpEnqueue outbox_message systime "u64 list"
  | OpClaim string nat duration systime systime systime "u64 list"
  | OpAck string u64 string systime
  | OpRelease string u64 string
  | OpFail string u64 string string
  | OpCancel u64
  | OpCleanup duration nat systime "u64 list"

fun ob_exec :: "outbox_op \<Rightarrow> memory_outbox \<Rightarrow> memory_outbox" where
  "ob_exec (OpEnqueue m now iter) s = fst (outbox_enqueue m now iter s)"
| "ob_exec (OpClaim owner limit lease t1 t2 t3 iter) s = fst (claim_for owner limit lease t1 t2 t3 iter s)"
| "ob_exec (OpAck owner mid token now) s = fst (outbox_ack owner mid token now s)"
| "ob_exec (OpRelease owner mid token) s = fst (outbox_release owner mid token s)"
| "ob_exec (OpFail owner mid token reason) s = fst (outbox_record_failure owner mid token reason s)"
| "ob_exec (OpCancel mid) s = fst (outbox_cancel mid s)"
| "ob_exec (OpCleanup retention limit now iter) s = fst (cleanup_published retention limit now iter s)"

fun ob_run :: "outbox_op list \<Rightarrow> memory_outbox \<Rightarrow> memory_outbox" where
  "ob_run [] s = s"
| "ob_run (x # xs) s = ob_run xs (ob_exec x s)"

text \<open>\<open>OutboxStore::enqueue\<close> adds a message in the pending state.\<close>

fun enqueues_pending :: "outbox_op \<Rightarrow> bool" where
  "enqueues_pending (OpEnqueue m now iter) \<longleftrightarrow> om_wf m \<and> om_state m = OPending"
| "enqueues_pending _ \<longleftrightarrow> True"

section \<open>Preservation of the invariant\<close>

lemma ob_inv_claim_sequence [simp]: "ob_inv (s\<lparr>ob_claim_sequence := n\<rparr>) = ob_inv s"
  by (simp add: ob_inv_def)

lemma ob_inv_new:
  "with_published_retention_and_capacity retention capacity = Inr s \<Longrightarrow> ob_inv s"
  by (auto simp: with_published_retention_and_capacity_def bind_r_Inr_iff capacity_new_def
      capacity_fixed_def ob_inv_def cap.accounts_def indexed_def split: if_splits)

lemma ob_inv_message:
  "ob_inv s \<Longrightarrow> ob_messages s k = Some sm \<Longrightarrow> message_ok (ob_record_sequence s) k sm"
  by (simp add: ob_inv_def)

lemma ob_inv_update:
  assumes "ob_inv s" "ob_messages s k = Some sm" "om_state (sm_message sm) \<noteq> OPublished"
    "om_id m = k" "om_wf m" "om_state m \<noteq> OPublished"
  shows "ob_inv (s\<lparr>ob_messages := (ob_messages s)(k \<mapsto> sm\<lparr>sm_message := m\<rparr>)\<rparr>)"
proof -
  have "indexed sm_identity message_published ((ob_messages s)(k \<mapsto> sm\<lparr>sm_message := m\<rparr>)) (ob_published s)"
    using assms by (intro indexed_update [where r' = sm]) (simp_all add: ob_inv_def message_published_def)
  with assms show ?thesis
    by (auto simp: ob_inv_def message_ok_def intro: cap.accounts_update)
qed

lemma ob_inv_publish:
  assumes "ob_inv s" "ob_messages s k = Some sm" "om_state (sm_message sm) = OClaimed"
  shows "ob_inv (s\<lparr>ob_messages := (ob_messages s)(k \<mapsto> sm\<lparr>sm_message := mark_published at (sm_message sm)\<rparr>),
      ob_published := (ob_published s)(k \<mapsto> \<lparr>rr_at = at, rr_identity = sm_identity sm\<rparr>)\<rparr>)"
proof -
  have "om_state (mark_published at (sm_message sm)) = OPublished"
    using assms(3) by (simp add: mark_published_def)
  with assms have "indexed sm_identity message_published
      ((ob_messages s)(k \<mapsto> sm\<lparr>sm_message := mark_published at (sm_message sm)\<rparr>))
      ((ob_published s)(k \<mapsto> \<lparr>rr_at = at, rr_identity = sm_identity sm\<rparr>))"
    by (intro indexed_finish) (simp_all add: ob_inv_def message_published_def)
  moreover have "om_id (mark_published at (sm_message sm)) = om_id (sm_message sm)"
    by (simp add: mark_published_def om_id_def)
  ultimately show ?thesis
    using assms by (auto simp: ob_inv_def message_ok_def om_wf_claims intro: cap.accounts_update)
qed

lemma holds_claim_state: "om_wf m \<Longrightarrow> holds_claim owner token m \<Longrightarrow> om_state m = OClaimed"
  by (auto simp: om_wf_def holds_claim_def)

lemma om_id_steps [simp]:
  "om_id (claim_until_with_token owner token deadline m) = om_id m"
  "om_id (om_release m) = om_id m" "om_id (record_failure reason m) = om_id m"
  "om_id (mark_published at m) = om_id m"
  by (simp_all add: om_id_def om_defs)

lemma ob_inv_holds:
  assumes "ob_inv s" "ob_messages s k = Some sm" "holds_claim owner token (sm_message sm)"
  shows "om_state (sm_message sm) = OClaimed" "om_wf (sm_message sm)" "om_id (sm_message sm) = k"
  using ob_inv_message [OF assms(1,2)] holds_claim_state [OF _ assms(3)] by (auto simp: message_ok_def)

lemma ob_inv_ack [store_inv]: "ob_inv s \<Longrightarrow> ob_inv (fst (outbox_ack owner mid token now s))"
  by (auto simp: outbox_ack_def intro: ob_inv_publish ob_inv_holds split: sum.splits option.splits)

lemma ob_inv_release [store_inv]: "ob_inv s \<Longrightarrow> ob_inv (fst (outbox_release owner mid token s))"
proof -
  assume inv: "ob_inv s"
  have "ob_inv (s\<lparr>ob_messages := (ob_messages s)(mid \<mapsto> sm\<lparr>sm_message := om_release (sm_message sm)\<rparr>)\<rparr>)"
    if sm: "ob_messages s mid = Some sm" and own: "holds_claim owner token (sm_message sm)" for sm
    using ob_inv_holds [OF inv sm own]
    by (intro ob_inv_update [OF inv sm]) (simp_all add: om_wf_claims, simp add: om_release_def)
  with inv show ?thesis by (auto simp: outbox_release_def split: option.splits)
qed

lemma ob_inv_record_failure [store_inv]:
  "ob_inv s \<Longrightarrow> ob_inv (fst (outbox_record_failure owner mid token reason s))"
proof -
  assume inv: "ob_inv s"
  have "ob_inv (s\<lparr>ob_messages := (ob_messages s)(mid \<mapsto>
      sm\<lparr>sm_message := record_failure reason (sm_message sm)\<rparr>)\<rparr>)"
    if sm: "ob_messages s mid = Some sm" and own: "holds_claim owner token (sm_message sm)" for sm
    using ob_inv_holds [OF inv sm own]
    by (intro ob_inv_update [OF inv sm])
      (simp_all add: om_wf_record_failure, simp add: record_failure_def Let_def)
  with inv show ?thesis by (auto simp: outbox_record_failure_def split: option.splits)
qed

lemma ob_inv_cancel [store_inv]: "ob_inv s \<Longrightarrow> ob_inv (fst (outbox_cancel mid s))"
proof -
  assume "ob_inv s"
  then show ?thesis
    by (auto simp: outbox_cancel_def ob_inv_def message_published_def
        intro: cap.accounts_remove indexed_delete split: option.splits)
qed

lemma cleanup_published_cases:
  assumes "cleanup_published retention limit now iter s = (s', r)" "ob_inv s"
  obtains (error) e where "r = Inl e" "s' = s"
  | (swept) cs removed now_ms ret where "r = Inr removed" "ob_inv s'" "limit \<le> max_retention_cleanup_limit"
      "unat ret = as_millis retention" "0 \<le> now" "uint now_ms = now div 1000000"
      "cs = cleanup_candidates now_ms ret limit iter (ob_published s)"
      "ob_messages s' = ob_messages s |` (- fst ` set cs)"
      "ob_published s' = ob_published s |` (- fst ` set cs)"
      "removed + card (dom (ob_messages s')) = card (dom (ob_messages s))" "removed \<le> length cs"
      "rc_limit (ob_capacity s') = rc_limit (ob_capacity s)"
      "ob_claim_sequence s' = ob_claim_sequence s" "ob_record_sequence s' = ob_record_sequence s"
      "ob_retention s' = ob_retention s"
proof (cases r)
  case (Inl e)
  then show ?thesis using assms(1) error by (auto simp: cleanup_published_def split: sum.splits prod.splits)
next
  case (Inr removed)
  then obtain now_ms ret messages published cp where
    ok: "limit \<le> max_retention_cleanup_limit" "unat ret = as_millis retention" "0 \<le> now"
      "uint now_ms = now div 1000000"
    and sw: "sweep sm_identity message_published
        (cleanup_candidates now_ms ret limit iter (ob_published s))
        (ob_messages s, ob_published s, ob_capacity s, 0) = (messages, published, cp, removed)"
    and s': "s' = s\<lparr>ob_messages := messages, ob_published := published, ob_capacity := cp\<rparr>"
    using assms(1) by (auto simp: cleanup_published_def outbox_current_unix_ms_def bind_r_Inr_iff
        unix_ms_or_Inr u64_try_from_iff split: sum.splits prod.splits)
  let ?cs = "cleanup_candidates now_ms ret limit iter (ob_published s)"
  from assms(2) have inv: "cap.accounts (ob_capacity s) (ob_messages s)"
    "indexed sm_identity message_published (ob_messages s) (ob_published s)"
    "\<forall>k sm. ob_messages s k = Some sm \<longrightarrow> message_ok (ob_record_sequence s) k sm"
    by (auto simp: ob_inv_def)
  have "\<forall>(k, c) \<in> set ?cs. ob_published s k = Some c \<or> ob_published s k = None \<and> ob_messages s k = None"
    using cleanup_candidates_mem by fastforce
  note ex = sweep_exact [OF sw inv(2) this] and sf = sweep_safe [OF sw inv(1)]
  have "ob_inv s'"
    using ex sf inv(3) by (auto simp: ob_inv_def s' restrict_map_def)
  with Inr ok ex sf s' show ?thesis by (intro swept [OF _ _ _ _ _ _ refl]) auto
qed

lemma ob_inv_cleanup [store_inv]:
  assumes "ob_inv s"
  shows "ob_inv (fst (cleanup_published retention limit now iter s))"
proof -
  obtain s' r where c: "cleanup_published retention limit now iter s = (s', r)" by fastforce
  from c assms show ?thesis
    by (rule cleanup_published_cases) (use c assms in auto)
qed

lemma ob_inv_insert:
  assumes "ob_inv s" "reserve (ob_capacity s) = (cp, True)" "om_id m \<noteq> 0" "om_wf m" "om_state m = OPending"
  shows "ob_inv (fst (insert_message m (s\<lparr>ob_capacity := cp\<rparr>)))"
proof -
  let ?k = "om_id m"
  from assms(1) have acc: "cap.accounts (ob_capacity s) (ob_messages s)"
    and idx: "indexed sm_identity message_published (ob_messages s) (ob_published s)"
    and ok: "\<And>k sm. ob_messages s k = Some sm \<Longrightarrow> message_ok (ob_record_sequence s) k sm"
    by (auto simp: ob_inv_def)
  have undo: "cap.accounts (capacity_release cp) (ob_messages s)"
    using cap.accounts_undo [OF acc] assms(2) by simp
  show ?thesis
  proof (cases "ob_messages s ?k = None \<and> (\<exists>sq. checked_add (ob_record_sequence s) 1 = Some sq)")
    case True
    then obtain sq where free: "ob_messages s ?k = None" and sq: "checked_add (ob_record_sequence s) 1 = Some sq"
      by blast
    let ?r = "\<lparr>sm_identity = ob_record_sequence s, sm_message = m\<rparr>"
    have "ob_record_sequence s < sq" using checked_add_1_less [OF sq] .
    with ok assms(3,4) have "message_ok sq k sm"
      if "((ob_messages s)(?k \<mapsto> ?r)) k = Some sm" for k sm
      using that by (fastforce simp: message_ok_def split: if_splits)
    moreover have "cap.accounts cp ((ob_messages s)(?k \<mapsto> ?r))"
      using cap.accounts_insert [OF acc _ free] assms(2) by simp
    moreover have "indexed sm_identity message_published ((ob_messages s)(?k \<mapsto> ?r)) (ob_published s)"
      using idx free assms(5) by (intro indexed_update) (simp_all add: message_published_def)
    ultimately show ?thesis
      using free sq by (simp add: insert_message_def sequence_next_def ob_inv_def)
  next
    case False
    then show ?thesis using undo idx ok
      by (auto simp: insert_message_def sequence_next_def ob_inv_def split: option.splits)
  qed
qed

lemma ob_inv_enqueue [store_inv]:
  assumes "ob_inv s" "om_wf m" "om_state m = OPending"
  shows "ob_inv (fst (outbox_enqueue m now iter s))"
proof -
  have "ob_inv (fst (cleanup_published (ob_retention s) opportunistic_cleanup_limit now iter s))"
    using assms(1) by (rule ob_inv_cleanup)
  with assms show ?thesis
    by (auto simp: outbox_enqueue_def intro: ob_inv_insert split: sum.splits prod.splits bool.splits)
qed

section \<open>Claiming\<close>

text \<open>What a claimed batch looks like: consecutive tokens from the claim sequence, in order.\<close>

fun claim_all :: "string \<Rightarrow> u64 \<Rightarrow> u64 \<Rightarrow> outbox_message list \<Rightarrow> outbox_message list" where
  "claim_all owner expires_at sq [] = []"
| "claim_all owner expires_at sq (m # ms) =
     claim_until_with_token owner (claim_token sq) expires_at m
     # claim_all owner expires_at (sq + 1) ms"

definition stored :: "memory_outbox \<Rightarrow> u64 \<Rightarrow> outbox_message" where
  "stored s k = sm_message (the (ob_messages s k))"

lemma claim_all_ids [simp]: "map om_id (claim_all owner expires_at sq ms) = map om_id ms"
  by (induction ms arbitrary: sq) auto

lemma stored_ids:
  assumes "\<forall>k \<in> set ids. \<exists>sm. ob_messages s k = Some sm \<and> Q sm \<and> om_id (sm_message sm) = k"
  shows "map om_id (map (stored s) ids) = ids"
proof -
  have "om_id (stored s k) = k" if "k \<in> set ids" for k
    using bspec [OF assms that] by (auto simp: stored_def)
  then show ?thesis by (simp add: map_idI)
qed

lemma claim_loop_exact:
  assumes "distinct (map snd ks)"
    "\<forall>k \<in> set (map snd ks). \<exists>sm. ob_messages s k = Some sm \<and> eligible now_ms now (sm_message sm)
       \<and> om_id (sm_message sm) = k"
    "claim_loop owner now_ms now expires_at ks s = (s', claimed)"
  shows "claimed = claim_all owner expires_at (ob_claim_sequence s) (map (stored s) (map snd ks)) \<and>
    s' = s\<lparr>ob_claim_sequence := ob_claim_sequence s + of_nat (length ks), ob_messages := ob_messages s'\<rparr> \<and>
    (\<forall>k. k \<notin> snd ` set ks \<longrightarrow> ob_messages s' k = ob_messages s k) \<and>
    (\<forall>m \<in> set claimed. \<exists>sm. ob_messages s (om_id m) = Some sm \<and>
       ob_messages s' (om_id m) = Some (sm\<lparr>sm_message := m\<rparr>))"
  using assms
proof (induction ks arbitrary: s claimed)
  case Nil
  then show ?case by simp
next
  case (Cons p ks)
  obtain x k where p: "p = (x, k)" by (cases p)
  from Cons.prems(1,2) obtain sm where sm: "ob_messages s k = Some sm" "om_id (sm_message sm) = k"
    and el: "is_claimable_at now_ms (sm_message sm)" "om_is_due_at now (sm_message sm)"
    and new: "k \<notin> set (map snd ks)" "distinct (map snd ks)"
    by (auto simp: p eligible_def)
  let ?m = "claim_until_with_token owner (claim_token (ob_claim_sequence s)) expires_at (sm_message sm)"
  let ?s = "s\<lparr>ob_claim_sequence := ob_claim_sequence s + 1,
      ob_messages := (ob_messages s)(k \<mapsto> sm\<lparr>sm_message := ?m\<rparr>)\<rparr>"
  obtain rest where rest: "claim_loop owner now_ms now expires_at ks ?s = (s', rest)"
    and cl: "claimed = ?m # rest"
    using Cons.prems(3) sm el by (auto simp: p next_claim_token_def Let_def split: prod.splits)
  have keep: "\<forall>j \<in> set (map snd ks). \<exists>sm. ob_messages ?s j = Some sm \<and> eligible now_ms now (sm_message sm)
       \<and> om_id (sm_message sm) = j"
  proof
    fix j assume j: "j \<in> set (map snd ks)"
    with new have "j \<noteq> k" by blast
    moreover have "j \<in> set (map snd (p # ks))" using j by auto
    note bspec [OF Cons.prems(2) this]
    ultimately show "\<exists>sm. ob_messages ?s j = Some sm \<and> eligible now_ms now (sm_message sm)
       \<and> om_id (sm_message sm) = j" by simp
  qed
  note IH = Cons.IH [OF new(2) keep rest]
  have same: "map (stored ?s) (map snd ks) = map (stored s) (map snd ks)"
    using new(1) by (auto simp: stored_def)
  from IH have rest_eq: "rest = claim_all owner expires_at (ob_claim_sequence ?s) (map (stored ?s) (map snd ks))"
    by blast
  then have "rest = claim_all owner expires_at (ob_claim_sequence s + 1) (map (stored s) (map snd ks))"
    unfolding same by simp
  moreover have "stored s k = sm_message sm" by (simp add: stored_def sm)
  ultimately have "claimed = claim_all owner expires_at (ob_claim_sequence s) (map (stored s) (map snd (p # ks)))"
    using cl by (simp add: p)
  moreover from IH have "s' = s\<lparr>ob_claim_sequence := ob_claim_sequence s + of_nat (length (p # ks)),
      ob_messages := ob_messages s'\<rparr>"
    by (simp add: add.assoc)
  moreover from IH have "\<forall>j. j \<notin> snd ` set (p # ks) \<longrightarrow> ob_messages s' j = ob_messages s j"
    by (auto simp: p)
  moreover have "\<exists>sm. ob_messages s (om_id m) = Some sm \<and> ob_messages s' (om_id m) = Some (sm\<lparr>sm_message := m\<rparr>)"
    if "m \<in> set claimed" for m
  proof (cases "m = ?m")
    case True
    then show ?thesis using IH new(1) sm by simp
  next
    case False
    with that cl have m: "m \<in> set rest" by simp
    have "map om_id rest = map snd ks"
      unfolding rest_eq claim_all_ids using keep by (rule stored_ids)
    with m have "om_id m \<in> set (map snd ks)" by (metis image_eqI list.set_map)
    with new(1) have "om_id m \<noteq> k" by blast
    with IH m show ?thesis by fastforce
  qed
  ultimately show ?case by blast
qed

lemma ob_inv_claim_loop:
  "ob_inv s \<Longrightarrow> claim_loop owner now_ms now expires_at ks s = (s', claimed) \<Longrightarrow> ob_inv s'"
proof (induction ks arbitrary: s claimed)
  case Nil
  then show ?case by simp
next
  case (Cons p ks)
  obtain x k where p: "p = (x, k)" by (cases p)
  show ?case
  proof (cases "\<exists>sm. ob_messages s k = Some sm \<and> is_claimable_at now_ms (sm_message sm)
      \<and> om_is_due_at now (sm_message sm)")
    case True
    then obtain sm where sm: "ob_messages s k = Some sm" and cl: "is_claimable_at now_ms (sm_message sm)"
      and due: "om_is_due_at now (sm_message sm)" by blast
    note ok = ob_inv_message [OF Cons.prems(1) sm, unfolded message_ok_def]
    let ?m = "claim_until_with_token owner (claim_token (ob_claim_sequence s)) expires_at (sm_message sm)"
    have "om_state ?m = OClaimed" "om_state (sm_message sm) \<noteq> OPublished"
      using cl by (auto simp: is_claimable_at_def om_defs)
    then have "ob_inv (s\<lparr>ob_claim_sequence := ob_claim_sequence s + 1,
        ob_messages := (ob_messages s)(k \<mapsto> sm\<lparr>sm_message := ?m\<rparr>)\<rparr>)"
      using ob_inv_update [of "s\<lparr>ob_claim_sequence := ob_claim_sequence s + 1\<rparr>" k sm ?m] sm ok Cons.prems(1)
      by (simp add: om_wf_claims)
    then show ?thesis using Cons.IH Cons.prems(2) sm cl due
      by (auto simp: p next_claim_token_def Let_def split: prod.splits)
  next
    case False
    then show ?thesis using Cons.IH [OF Cons.prems(1)] Cons.prems(2)
      by (auto simp: p split: option.splits if_splits)
  qed
qed

lemma claim_for_cases:
  assumes "claim_for owner limit lease t_lease now t_ms iter s = (s', r)"
  obtains (error) e where "r = Inl e" "s' = s"
  | (none) "limit = 0" "r = Inr []" "s' = s"
  | (batch) now_ms expires_at claimed where "r = Inr claimed" "0 < limit" "limit \<le> max_outbox_claim_limit"
      "outbox_claim_expires_at lease t_lease = Inr expires_at" "outbox_current_unix_ms t_ms = Inr now_ms"
      "claim_loop owner now_ms now expires_at (keep_smallest limit (claim_keys now_ms now iter s) []) s
         = (s', claimed)"
proof (cases "bind_r (validate_outbox_claim_limit limit) (\<lambda>_. outbox_claim_expires_at lease t_lease)")
  case (Inl e)
  then show ?thesis using assms error [of e] by (simp add: claim_for_def)
next
  case (Inr expires_at)
  then have ok: "limit \<le> max_outbox_claim_limit" "outbox_claim_expires_at lease t_lease = Inr expires_at"
    by (auto simp: bind_r_Inr_iff)
  show ?thesis
  proof (cases "limit = 0")
    case True
    then show ?thesis using assms Inr none by (simp add: claim_for_def)
  next
    case False
    show ?thesis
    proof (cases "outbox_current_unix_ms t_ms")
      case (Inl e)
      then show ?thesis using assms Inr False error [of e] by (simp add: claim_for_def)
    next
      case ms: (Inr now_ms)
      with assms Inr False obtain claimed where "r = Inr claimed" and
        "claim_loop owner now_ms now expires_at (keep_smallest limit (claim_keys now_ms now iter s) []) s
           = (s', claimed)"
        by (auto simp: claim_for_def split: prod.splits)
      with False ok ms show ?thesis by (intro batch) simp_all
    qed
  qed
qed

lemma ob_inv_claim_for [store_inv]:
  assumes "ob_inv s"
  shows "ob_inv (fst (claim_for owner limit lease t_lease now t_ms iter s))"
proof -
  obtain s' r where c: "claim_for owner limit lease t_lease now t_ms iter s = (s', r)" by fastforce
  then show ?thesis
    by (cases rule: claim_for_cases) (use assms c in \<open>auto dest: ob_inv_claim_loop\<close>)
qed

lemma ob_inv_exec: "ob_inv s \<Longrightarrow> enqueues_pending x \<Longrightarrow> ob_inv (ob_exec x s)"
  by (cases x) (auto intro: store_inv)

lemma ob_inv_run: "ob_inv s \<Longrightarrow> list_all enqueues_pending xs \<Longrightarrow> ob_inv (ob_run xs s)"
  by (induction xs arbitrary: s) (auto intro: ob_inv_exec)

text \<open>The keys of the messages that may be claimed now, as a set: no iteration order is left in it.\<close>

definition eligible_keys :: "u64 \<Rightarrow> systime \<Rightarrow> memory_outbox \<Rightarrow> (u64 \<times> u64) set" where
  "eligible_keys now_ms now s =
     {delivery_order (sm_message sm) | k sm. ob_messages s k = Some sm \<and> eligible now_ms now (sm_message sm)}"

lemma claim_keys_set:
  assumes "iterates iter (ob_messages s)"
  shows "set (claim_keys now_ms now iter s) = eligible_keys now_ms now s"
  using assms unfolding claim_keys_def eligible_keys_def eligible_def iterates_def
  by (fastforce simp: List.map_filter_def image_iff split: option.splits if_splits)

lemma distinct_map_filter:
  assumes "distinct xs" "\<And>x y. f x = Some y \<Longrightarrow> g y = x"
  shows "distinct (List.map_filter f xs)"
  using assms
proof (induction xs)
  case Nil
  then show ?case by simp
next
  case (Cons x xs)
  have "y \<notin> set (List.map_filter f xs)" if "f x = Some y" for y
  proof
    assume "y \<in> set (List.map_filter f xs)"
    then obtain x' where "x' \<in> set xs" "f x' = Some y" by (auto simp: List.map_filter_def)
    with Cons.prems(2) [of x' y] Cons.prems(2) [of x y] that Cons.prems(1) show False by simp
  qed
  with Cons show ?case by (auto simp: List.map_filter_simps split: option.splits)
qed

lemma claim_keys_distinct:
  assumes "ob_inv s" "iterates iter (ob_messages s)"
  shows "distinct (claim_keys now_ms now iter s)" "distinct (map snd (claim_keys now_ms now iter s))"
proof -
  have "snd y = k" if "(case ob_messages s k of
         Some sm \<Rightarrow> if \<not> is_claimable_at now_ms (sm_message sm) \<or> \<not> om_is_due_at now (sm_message sm)
                    then None else Some (delivery_order (sm_message sm))
       | None \<Rightarrow> None) = Some y" for k y
    using that ob_inv_message [OF assms(1), of k]
    by (auto simp: delivery_order_def message_ok_def split: option.splits if_splits)
  note D = distinct_map_filter [OF _ this]
  show d: "distinct (claim_keys now_ms now iter s)"
    unfolding claim_keys_def by (rule D) (use assms(2) in \<open>auto simp: iterates_def\<close>)
  have "inj_on snd (set (claim_keys now_ms now iter s))"
  proof (rule inj_onI)
    fix a b assume "a \<in> set (claim_keys now_ms now iter s)" "b \<in> set (claim_keys now_ms now iter s)"
      and ab: "snd a = snd b"
    then obtain j k x y where "ob_messages s j = Some x" "ob_messages s k = Some y"
      and *: "a = delivery_order (sm_message x)" "b = delivery_order (sm_message y)"
      unfolding claim_keys_set [OF assms(2)] eligible_keys_def by blast
    with ob_inv_message [OF assms(1)] ab have "j = k"
      by (auto simp: message_ok_def delivery_order_def)
    with * \<open>ob_messages s j = Some x\<close> \<open>ob_messages s k = Some y\<close> show "a = b" by simp
  qed
  with d show "distinct (map snd (claim_keys now_ms now iter s))" by (simp add: distinct_map)
qed

section \<open>Token fencing and leases\<close>

definition token_of :: "memory_outbox \<Rightarrow> u64 \<Rightarrow> string option" where
  "token_of s k = (case ob_messages s k of None \<Rightarrow> None | Some sm \<Rightarrow> om_claim_token (sm_message sm))"

text \<open>
  The tokens of \<open>s'\<close> are tokens of \<open>s\<close> at the same message or were drawn from the claim sequence in
  between, at most \<open>n\<close> of them.
\<close>

definition tokens_advance :: "nat \<Rightarrow> memory_outbox \<Rightarrow> memory_outbox \<Rightarrow> bool" where
  "tokens_advance n s s' \<longleftrightarrow>
     unat (ob_claim_sequence s) \<le> unat (ob_claim_sequence s') \<and>
     unat (ob_claim_sequence s') \<le> unat (ob_claim_sequence s) + n \<and>
     (\<forall>k t. token_of s' k = Some t \<longrightarrow> token_of s k = Some t \<or>
        (\<exists>i. unat (ob_claim_sequence s) \<le> i \<and> i < unat (ob_claim_sequence s') \<and> t = ''memory-'' @ dec i))"

lemma tokens_advance_refl: "tokens_advance n s s"
  by (simp add: tokens_advance_def)

lemma tokens_advance_same:
  assumes "ob_claim_sequence s' = ob_claim_sequence s" "\<And>k. token_of s' k = token_of s k \<or> token_of s' k = None"
  shows "tokens_advance n s s'"
proof -
  have "token_of s k = Some t" if "token_of s' k = Some t" for k t
    using assms(2) [of k] that by auto
  with assms(1) show ?thesis by (simp add: tokens_advance_def)
qed

lemma tokens_advance_trans:
  assumes "tokens_advance m s s1" "tokens_advance n s1 s2"
  shows "tokens_advance (m + n) s s2"
proof -
  let ?n = "\<lambda>s. unat (ob_claim_sequence s)"
  have le: "?n s \<le> ?n s1" "?n s1 \<le> ?n s2" "?n s2 \<le> ?n s + (m + n)"
    using assms by (simp_all add: tokens_advance_def)
  have "token_of s k = Some t \<or> (\<exists>i. ?n s \<le> i \<and> i < ?n s2 \<and> t = ''memory-'' @ dec i)"
    if "token_of s2 k = Some t" for k t
  proof -
    from that assms(2) consider "token_of s1 k = Some t" | i where "?n s1 \<le> i" "i < ?n s2" "t = ''memory-'' @ dec i"
      unfolding tokens_advance_def by blast
    then show ?thesis
    proof cases
      case 1
      with assms(1) consider "token_of s k = Some t" | i where "?n s \<le> i" "i < ?n s1" "t = ''memory-'' @ dec i"
        unfolding tokens_advance_def by blast
      then show ?thesis using le(2) by cases auto
    next
      case 2
      then show ?thesis using le(1) by auto
    qed
  qed
  with le show ?thesis unfolding tokens_advance_def by simp
qed

lemma claim_loop_tokens:
  "unat (ob_claim_sequence s) + length ks < 2 ^ 64 \<Longrightarrow>
   claim_loop owner now_ms now expires_at ks s = (s', claimed) \<Longrightarrow> tokens_advance (length ks) s s'"
proof (induction ks arbitrary: s claimed)
  case Nil
  then show ?case by (simp add: tokens_advance_refl)
next
  case (Cons p ks)
  obtain x k where p: "p = (x, k)" by (cases p)
  from Cons.prems(1) have wrap: "unat (ob_claim_sequence s + 1) = unat (ob_claim_sequence s) + 1"
    by (simp add: unat_word_ariths unat_1)
  show ?case
  proof (cases "\<exists>sm. ob_messages s k = Some sm \<and> is_claimable_at now_ms (sm_message sm)
      \<and> om_is_due_at now (sm_message sm)")
    case True
    then obtain sm where sm: "ob_messages s k = Some sm" and cl: "is_claimable_at now_ms (sm_message sm)"
      and due: "om_is_due_at now (sm_message sm)" by blast
    let ?m = "claim_until_with_token owner (claim_token (ob_claim_sequence s)) expires_at (sm_message sm)"
    let ?s = "s\<lparr>ob_claim_sequence := ob_claim_sequence s + 1,
        ob_messages := (ob_messages s)(k \<mapsto> sm\<lparr>sm_message := ?m\<rparr>)\<rparr>"
    have "om_claim_token ?m = Some (claim_token (ob_claim_sequence s))"
      using cl by (auto simp: is_claimable_at_def om_defs)
    then have "tokens_advance 1 s ?s"
      using wrap by (auto simp: tokens_advance_def token_of_def claim_token_def)
    moreover obtain rest where "claim_loop owner now_ms now expires_at ks ?s = (s', rest)"
      using Cons.prems(2) sm cl due by (auto simp: p next_claim_token_def Let_def split: prod.splits)
    then have "tokens_advance (length ks) ?s s'"
      using Cons.IH [of ?s rest] Cons.prems(1) wrap by simp
    ultimately show ?thesis using tokens_advance_trans by fastforce
  next
    case False
    with Cons.prems have "claim_loop owner now_ms now expires_at ks s = (s', claimed)"
      by (auto simp: p split: option.splits if_splits)
    then have "tokens_advance (length ks) s s'" using Cons.IH Cons.prems(1) by simp
    then show ?thesis by (auto simp: tokens_advance_def)
  qed
qed

lemma tokens_advance_cleanup:
  assumes "ob_inv s"
  shows "tokens_advance n s (fst (cleanup_published retention limit now iter s))"
proof -
  obtain s' r where c: "cleanup_published retention limit now iter s = (s', r)" by fastforce
  from c assms show ?thesis
  proof (cases rule: cleanup_published_cases)
    case (error e)
    then show ?thesis using c by (simp add: tokens_advance_refl)
  next
    case (swept cs removed now_ms ret)
    then have "tokens_advance n s s'"
      by (intro tokens_advance_same) (auto simp: token_of_def restrict_map_def)
    then show ?thesis using c by simp
  qed
qed

lemma tokens_advance_insert:
  assumes "om_wf m" "om_state m = OPending"
  shows "tokens_advance n s (fst (insert_message m (s\<lparr>ob_capacity := cp\<rparr>)))"
  using om_wf_pending [OF assms]
  by (intro tokens_advance_same)
    (auto simp: insert_message_def token_of_def split: option.splits prod.splits sum.splits)

lemma tokens_advance_enqueue:
  assumes "ob_inv s" "om_wf m" "om_state m = OPending"
  shows "tokens_advance 0 s (fst (outbox_enqueue m now iter s))"
proof -
  obtain s1 r where c: "cleanup_published (ob_retention s) opportunistic_cleanup_limit now iter s = (s1, r)"
    by fastforce
  with tokens_advance_cleanup [OF assms(1)] have a: "tokens_advance 0 s s1" by (metis fst_conv)
  have "tokens_advance 0 s (fst (insert_message m (s1\<lparr>ob_capacity := cp\<rparr>)))" for cp
    using tokens_advance_trans [OF a tokens_advance_insert [OF assms(2,3), of 0]] by simp
  then show ?thesis using a c tokens_advance_insert [OF assms(2,3)]
    by (auto simp: outbox_enqueue_def tokens_advance_refl split: sum.splits prod.splits bool.splits)
qed

lemma tokens_advance_claim:
  assumes "unat (ob_claim_sequence s) + max_outbox_claim_limit < 2 ^ 64"
  shows "tokens_advance max_outbox_claim_limit s (fst (claim_for owner limit lease t_lease now t_ms iter s))"
proof -
  obtain s' r where c: "claim_for owner limit lease t_lease now t_ms iter s = (s', r)" by fastforce
  then show ?thesis
  proof (cases rule: claim_for_cases)
    case (batch now_ms expires_at claimed)
    let ?ks = "keep_smallest limit (claim_keys now_ms now iter s) []"
    have len: "length ?ks \<le> max_outbox_claim_limit" using batch(3) by (simp add: keep_smallest_take)
    with assms have "tokens_advance (length ?ks) s s'" by (intro claim_loop_tokens [OF _ batch(6)]) simp
    with len show ?thesis using c by (auto simp: tokens_advance_def)
  qed (use c in \<open>simp_all add: tokens_advance_refl\<close>)
qed

lemma tokens_advance_complete:
  "tokens_advance n s (fst (outbox_ack owner mid token now s))"
  "tokens_advance n s (fst (outbox_release owner mid token s))"
  "tokens_advance n s (fst (outbox_record_failure owner mid token reason s))"
  "tokens_advance n s (fst (outbox_cancel mid s))"
  by (intro tokens_advance_same;
      auto simp: ob_defs token_of_def om_defs split: sum.splits option.splits)+

end
