(* ===== verification/Outbox_Correct.thy ===== *)
theory Outbox_Correct
  imports Outbox
begin

text \<open>
  The contract of the in-memory outbox: which messages a claim returns, that a lease excludes every
  other worker until it expires, that a token is worthless once the claim it was issued for is over,
  that an undelivered message is never lost, and that the store stays within its capacity.
\<close>

section \<open>Runs\<close>

lemma tokens_advance_exec:
  assumes "ob_inv s" "enqueues_pending x" "unat (ob_claim_sequence s) + max_outbox_claim_limit < 2 ^ 64"
  shows "tokens_advance max_outbox_claim_limit s (ob_exec x s)"
proof (cases x)
  case (OpEnqueue m now iter)
  have "tokens_advance (0 + max_outbox_claim_limit) s (ob_exec x s)"
    using tokens_advance_trans [OF tokens_advance_enqueue tokens_advance_refl] assms(1,2) OpEnqueue by simp
  then show ?thesis by simp
qed (simp_all add: tokens_advance_claim [OF assms(3)] tokens_advance_complete
    tokens_advance_cleanup [OF assms(1)])

lemma tokens_advance_run:
  assumes "ob_inv s" "list_all enqueues_pending xs"
    "unat (ob_claim_sequence s) + max_outbox_claim_limit * length xs < 2 ^ 64"
  shows "tokens_advance (max_outbox_claim_limit * length xs) s (ob_run xs s)"
  using assms
proof (induction xs arbitrary: s)
  case Nil
  then show ?case by (simp add: tokens_advance_refl)
next
  case (Cons x xs)
  have a: "tokens_advance max_outbox_claim_limit s (ob_exec x s)"
    using Cons.prems by (intro tokens_advance_exec) simp_all
  then have "unat (ob_claim_sequence (ob_exec x s)) \<le> unat (ob_claim_sequence s) + max_outbox_claim_limit"
    by (simp add: tokens_advance_def)
  with Cons have "tokens_advance (max_outbox_claim_limit * length xs) (ob_exec x s) (ob_run xs (ob_exec x s))"
    by (intro Cons.IH) (auto intro: ob_inv_exec)
  from tokens_advance_trans [OF a this] show ?case by simp
qed

lemma not_holding_noop:
  assumes "token_of s k \<noteq> Some token"
  shows "fst (outbox_ack owner k token now s) = s" "outbox_release owner k token s = (s, Inr ())"
    "outbox_record_failure owner k token reason s = (s, Inr ())"
  using assms by (auto simp: ob_defs token_of_def split: sum.splits option.splits)

section \<open>The claimed batch\<close>

lemma sort_distinct_set: "distinct xs \<Longrightarrow> sort xs = sorted_list_of_set (set xs)"
  by (simp add: sorted_list_of_set_sort_remdups distinct_remdups_id)

lemma claim_batch_exact:
  assumes "ob_inv s" "iterates iter (ob_messages s)" "0 < limit"
    "claim_for owner limit lease t_lease now t_ms iter s = (s', Inr claimed)"
  shows "\<exists>now_ms expires_at. outbox_current_unix_ms t_ms = Inr now_ms \<and>
    outbox_claim_expires_at lease t_lease = Inr expires_at \<and>
    (let chosen = map snd (take limit (sorted_list_of_set (eligible_keys now_ms now s)))
     in claimed = claim_all owner expires_at (ob_claim_sequence s) (map (stored s) chosen) \<and>
        map om_id claimed = chosen \<and>
        (\<forall>k. k \<notin> set chosen \<longrightarrow> ob_messages s' k = ob_messages s k) \<and>
        (\<forall>m \<in> set claimed. \<exists>sm. ob_messages s (om_id m) = Some sm \<and>
           ob_messages s' (om_id m) = Some (sm\<lparr>sm_message := m\<rparr>)))"
  using assms(4)
proof (cases rule: claim_for_cases)
  case (batch now_ms expires_at cl)
  let ?ks = "keep_smallest limit (claim_keys now_ms now iter s) []"
  note keys = claim_keys_distinct [OF assms(1,2), of now_ms now]
  have ks: "?ks = take limit (sorted_list_of_set (eligible_keys now_ms now s))"
    by (simp add: keep_smallest_take sort_distinct_set [OF keys(1)] claim_keys_set [OF assms(2)])
  have sub: "set ?ks \<subseteq> eligible_keys now_ms now s"
    unfolding keep_smallest_take claim_keys_set [OF assms(2), symmetric] by (auto dest: in_set_takeD)
  have "distinct (map snd ?ks)"
  proof -
    have "distinct (map snd (sort (claim_keys now_ms now iter s)))"
      using keys by (simp add: distinct_map)
    then show ?thesis by (simp add: keep_smallest_take take_map [symmetric])
  qed
  moreover have stored: "\<forall>k \<in> set (map snd ?ks). \<exists>sm. ob_messages s k = Some sm \<and>
      eligible now_ms now (sm_message sm) \<and> om_id (sm_message sm) = k"
  proof
    fix k assume "k \<in> set (map snd ?ks)"
    with sub obtain j sm where "ob_messages s j = Some sm" "eligible now_ms now (sm_message sm)"
      "k = snd (delivery_order (sm_message sm))" unfolding eligible_keys_def by auto
    then show "\<exists>sm. ob_messages s k = Some sm \<and> eligible now_ms now (sm_message sm) \<and> om_id (sm_message sm) = k"
      using ob_inv_message [OF assms(1), of j sm] by (auto simp: delivery_order_def message_ok_def)
  qed
  ultimately have ex: "cl = claim_all owner expires_at (ob_claim_sequence s) (map (stored s) (map snd ?ks)) \<and>
      (\<forall>k. k \<notin> snd ` set ?ks \<longrightarrow> ob_messages s' k = ob_messages s k) \<and>
      (\<forall>m \<in> set cl. \<exists>sm. ob_messages s (om_id m) = Some sm \<and>
       ob_messages s' (om_id m) = Some (sm\<lparr>sm_message := m\<rparr>))"
    using claim_loop_exact [OF _ _ batch(6)] by blast
  then have "map om_id cl = map snd ?ks" using stored_ids [OF stored] by simp
  with ex batch(1,4,5) show ?thesis unfolding Let_def ks by auto
qed (use assms(3) in auto)

text \<open>
  Property C3: a claim takes the oldest work, whatever order the map iterates in. A successful claim of
  a positive batch size returns exactly the first \<open>limit\<close> claimable and due messages in the order of
  sending time and identifier, each owned by the caller until the deadline under a fresh consecutive
  token; the store records exactly these claims and leaves every other message alone.
\<close>

theorem outbox_claim_oldest:
  assumes "ob_inv s" "iterates iter (ob_messages s)" "0 < limit"
    "claim_for owner limit lease t_lease now t_ms iter s = (s', Inr claimed)"
  shows "\<exists>now_ms expires_at. outbox_current_unix_ms t_ms = Inr now_ms \<and>
    outbox_claim_expires_at lease t_lease = Inr expires_at \<and>
    (let chosen = map snd (take limit (sorted_list_of_set (eligible_keys now_ms now s)))
     in claimed = claim_all owner expires_at (ob_claim_sequence s) (map (stored s) chosen) \<and>
        map om_id claimed = chosen \<and>
        (\<forall>k. k \<notin> set chosen \<longrightarrow> ob_messages s' k = ob_messages s k) \<and>
        (\<forall>m \<in> set claimed. \<exists>sm. ob_messages s (om_id m) = Some sm \<and>
           ob_messages s' (om_id m) = Some (sm\<lparr>sm_message := m\<rparr>)))"
  using assms by (rule claim_batch_exact)

section \<open>Exclusive leases\<close>

text \<open>
  What another worker may do while the lease of message \<open>k\<close> runs until \<open>d\<close>: claim while its clock
  shows less than \<open>d\<close>, complete with any other owner or token, enqueue, cancel and clean up freely.
\<close>

fun within_lease :: "u64 \<Rightarrow> string \<Rightarrow> string \<Rightarrow> u64 \<Rightarrow> outbox_op \<Rightarrow> bool" where
  "within_lease k owner token d (OpClaim _ _ _ _ _ t_ms _) \<longleftrightarrow>
     (case outbox_current_unix_ms t_ms of Inl _ \<Rightarrow> True | Inr ms \<Rightarrow> ms < d)"
| "within_lease k owner token d (OpAck o' k' t' _) \<longleftrightarrow> (o', k', t') \<noteq> (owner, k, token)"
| "within_lease k owner token d (OpRelease o' k' t') \<longleftrightarrow> (o', k', t') \<noteq> (owner, k, token)"
| "within_lease k owner token d (OpFail o' k' t' _) \<longleftrightarrow> (o', k', t') \<noteq> (owner, k, token)"
| "within_lease k owner token d _ \<longleftrightarrow> True"

definition leased :: "u64 \<Rightarrow> string \<Rightarrow> string \<Rightarrow> u64 \<Rightarrow> outbox_message \<Rightarrow> bool" where
  "leased k owner token d m \<longleftrightarrow> om_state m = OClaimed \<and> om_owner m = Some owner \<and>
     om_claim_token m = Some token \<and> om_claimed_until m = Some d"

lemma claim_loop_skips:
  "claim_loop owner now_ms now expires_at ks s = (s', claimed) \<Longrightarrow> ob_messages s k = Some sm \<Longrightarrow>
   \<not> is_claimable_at now_ms (sm_message sm) \<Longrightarrow> ob_messages s' k = Some sm"
proof (induction ks arbitrary: s claimed)
  case Nil
  then show ?case by simp
next
  case (Cons p ks)
  note IH = Cons.IH [OF _ _ Cons.prems(3)]
  obtain x j where p: "p = (x, j)" by (cases p)
  show ?case
  proof (cases "j = k")
    case True
    with Cons.prems show ?thesis by (auto simp: p intro: IH)
  next
    case False
    with Cons.prems show ?thesis
      by (auto simp: p next_claim_token_def Let_def elim!: IH split: option.splits if_splits prod.splits)
  qed
qed

lemma cleanup_keeps:
  assumes "ob_inv s" "ob_messages s k = Some sm" "om_state (sm_message sm) \<noteq> OPublished"
  shows "ob_messages (fst (cleanup_published retention limit now iter s)) k = Some sm"
proof -
  obtain s' r where c: "cleanup_published retention limit now iter s = (s', r)" by fastforce
  from c assms(1) show ?thesis
  proof (cases rule: cleanup_published_cases)
    case (error e)
    then show ?thesis using c assms(2) by simp
  next
    case (swept cs removed now_ms ret)
    have "ob_published s k = None"
      using indexed_entry [of sm_identity message_published "ob_messages s" "ob_published s" k] assms
      by (cases "ob_published s k") (auto simp: ob_inv_def message_published_def)
    then have "k \<notin> fst ` set cs" using swept(7) cleanup_candidates_mem by fastforce
    then show ?thesis using c swept(8) assms(2) by (simp add: restrict_map_def)
  qed
qed

lemma insert_keeps:
  "ob_messages s k = Some sm \<Longrightarrow> ob_messages (fst (insert_message m s)) k = Some sm"
  by (auto simp: insert_message_def split: option.splits prod.splits sum.splits)

lemma lease_step:
  assumes inv: "ob_inv s" and sm: "ob_messages s k = Some sm"
    and leased: "leased k owner token d (sm_message sm)" and x: "within_lease k owner token d x"
  shows "ob_messages (ob_exec x s) k = Some sm"
proof -
  have st: "om_state (sm_message sm) = OClaimed" using leased by (simp add: leased_def)
  note clean = cleanup_keeps [OF inv sm, unfolded st, simplified]
  show ?thesis
  proof (cases x)
    case (OpEnqueue m now iter)
    obtain s1 r where c: "cleanup_published (ob_retention s) opportunistic_cleanup_limit now iter s = (s1, r)"
      by fastforce
    with clean have "ob_messages s1 k = Some sm" by (metis fst_conv)
    with OpEnqueue c sm show ?thesis
      by (auto simp: outbox_enqueue_def insert_keeps split: sum.splits prod.splits bool.splits)
  next
    case (OpClaim o' limit lease t1 t2 t3 iter)
    obtain s' r where c: "claim_for o' limit lease t1 t2 t3 iter s = (s', r)" by fastforce
    then show ?thesis
    proof (cases rule: claim_for_cases)
      case (batch now_ms expires_at claimed)
      with x OpClaim leased have "\<not> is_claimable_at now_ms (sm_message sm)"
        by (simp add: leased_def is_claimable_at_def)
      from claim_loop_skips [OF batch(6) sm this] OpClaim c show ?thesis by simp
    qed (use OpClaim c sm in simp_all)
  qed (use x sm st leased clean in \<open>auto simp: ob_defs leased_def split: sum.splits option.splits\<close>)
qed

text \<open>
  Property C1: a lease is exclusive. Once a worker holds message \<open>k\<close> until \<open>d\<close>, no sequence of operations
  of other workers, whatever they enqueue, complete, cancel or clean up, and however often they claim
  while the clock shows less than \<open>d\<close>, changes anything about that message.
\<close>

theorem outbox_lease_exclusive:
  assumes "ob_inv s" "ob_messages s k = Some sm" "leased k owner token d (sm_message sm)"
    "list_all enqueues_pending xs" "list_all (within_lease k owner token d) xs"
  shows "ob_messages (ob_run xs s) k = Some sm"
  using assms
proof (induction xs arbitrary: s)
  case Nil
  then show ?case by simp
next
  case (Cons x xs)
  then have "ob_messages (ob_exec x s) k = Some sm"
    using lease_step [OF Cons.prems(1-3), of x] by simp
  with Cons show ?case by (simp add: ob_inv_exec)
qed

section \<open>Fencing\<close>

text \<open>
  Property C2: an ended claim stays ended. In a store built by the constructor and driven by any
  operations that draw fewer than \<open>2^64\<close> tokens, take any token the store has already issued which is
  not the current token of message \<open>k\<close>. After any further operations, presenting that token to
  acknowledge, release or fail \<open>k\<close> changes nothing: a worker whose lease expired cannot complete the
  delivery attempt of the worker that recovered the message, even under the same owner name.
\<close>

theorem outbox_stale_token_fenced:
  assumes "with_published_retention_and_capacity retention capacity = Inr s0"
    "list_all enqueues_pending (xs @ ys)" "max_outbox_claim_limit * length (xs @ ys) < 2 ^ 64"
    "s1 = ob_run xs s0" "s2 = ob_run ys s1"
    "i < unat (ob_claim_sequence s1)" "token_of s1 k \<noteq> Some (''memory-'' @ dec i)"
  shows "fst (outbox_ack owner k (''memory-'' @ dec i) now s2) = s2 \<and>
    outbox_release owner k (''memory-'' @ dec i) s2 = (s2, Inr ()) \<and>
    outbox_record_failure owner k (''memory-'' @ dec i) reason s2 = (s2, Inr ())"
proof -
  have inv0: "ob_inv s0" using assms(1) by (rule ob_inv_new)
  have seq0: "ob_claim_sequence s0 = 0"
    using assms(1) by (auto simp: with_published_retention_and_capacity_def bind_r_Inr_iff)
  have inv1: "ob_inv s1" using inv0 assms(2,4) by (simp add: ob_inv_run)
  have "tokens_advance (max_outbox_claim_limit * length xs) s0 s1"
    unfolding assms(4) by (rule tokens_advance_run [OF inv0]) (use assms(2,3) seq0 in \<open>simp_all add: distrib_left\<close>)
  then have "unat (ob_claim_sequence s1) \<le> max_outbox_claim_limit * length xs"
    by (simp add: tokens_advance_def seq0)
  then have "tokens_advance (max_outbox_claim_limit * length ys) s1 s2"
    unfolding assms(5) using assms(2,3)
    by (intro tokens_advance_run [OF inv1]) (simp_all add: algebra_simps)
  with assms(6,7) have "token_of s2 k \<noteq> Some (''memory-'' @ dec i)"
    unfolding tokens_advance_def by fastforce
  then show ?thesis by (simp add: not_holding_noop)
qed

section \<open>No message is lost\<close>

lemma insert_outcome:
  assumes "insert_message m s = (s', r)"
  shows "r = Inr () \<and> map_option sm_message (ob_messages s' (om_id m)) = Some m \<and> ob_messages s (om_id m) = None
    \<or> (\<exists>e. r = Inl e) \<and> ob_messages s' = ob_messages s"
  using assms by (auto simp: insert_message_def split: option.splits prod.splits sum.splits)

text \<open>
  Enqueueing never loses or replaces an undelivered message. Whatever the outcome, every
  message that is not yet published is kept unchanged; on success the new message is stored under its
  identifier, which no undelivered message had; on an error nothing is added; and a message with the
  identifier zero is refused before anything else happens.
\<close>

theorem outbox_enqueue_keeps:
  assumes "ob_inv s" "outbox_enqueue m now iter s = (s', r)"
  shows "(\<forall>k sm. ob_messages s k = Some sm \<longrightarrow> om_state (sm_message sm) \<noteq> OPublished \<longrightarrow>
       ob_messages s' k = Some sm) \<and>
    (r = Inr () \<longrightarrow> map_option sm_message (ob_messages s' (om_id m)) = Some m \<and>
       (\<forall>sm. ob_messages s (om_id m) = Some sm \<longrightarrow> om_state (sm_message sm) = OPublished)) \<and>
    (\<forall>e. r = Inl e \<longrightarrow> (\<forall>k. ob_messages s' k = ob_messages s k \<or> ob_messages s' k = None)) \<and>
    (om_id m = 0 \<longrightarrow> s' = s \<and> r \<noteq> Inr ())"
proof -
  obtain s1 rc where c: "cleanup_published (ob_retention s) opportunistic_cleanup_limit now iter s = (s1, rc)"
    by fastforce
  have keep: "ob_messages s1 k = Some sm" if "ob_messages s k = Some sm" "om_state (sm_message sm) \<noteq> OPublished" for k sm
    using cleanup_keeps [OF assms(1) that] c by (metis fst_conv)
  have less: "ob_messages s1 k = ob_messages s k \<or> ob_messages s1 k = None" for k
    using c assms(1) by (cases rule: cleanup_published_cases) (auto simp: restrict_map_def)
  consider (zero) "om_id m = 0" "s' = s" "r \<noteq> Inr ()"
    | (direct) cp where "om_id m \<noteq> 0" "insert_message m (s\<lparr>ob_capacity := cp\<rparr>) = (s', r)"
    | (refused) e where "om_id m \<noteq> 0" "s' = s1" "r = Inl e"
    | (cleaned) cp where "om_id m \<noteq> 0" "insert_message m (s1\<lparr>ob_capacity := cp\<rparr>) = (s', r)"
    using assms(2) c by (auto simp: outbox_enqueue_def validate_outbox_message_id_def
        split: sum.splits prod.splits bool.splits if_splits)
  then show ?thesis
  proof cases
    case zero
    then show ?thesis using assms(1) by (cases r) (auto dest: ob_inv_message)
  next
    case (direct cp)
    then show ?thesis using insert_outcome [OF direct(2)] insert_keeps [of "s\<lparr>ob_capacity := cp\<rparr>" _ _ m]
      by auto
  next
    case (refused e)
    then show ?thesis using keep less by auto
  next
    case (cleaned cp)
    have "ob_messages s' k = Some sm" if "ob_messages s k = Some sm" "om_state (sm_message sm) \<noteq> OPublished" for k sm
      using insert_keeps [of "s1\<lparr>ob_capacity := cp\<rparr>" k sm m] keep [OF that] cleaned(2) by simp
    moreover have "om_state (sm_message sm) = OPublished"
      if "ob_messages s (om_id m) = Some sm" "r = Inr ()" for sm
      using insert_outcome [OF cleaned(2)] keep [OF that(1)] that(2) by auto
    moreover have "ob_messages s' k = ob_messages s k \<or> ob_messages s' k = None" if "r = Inl e" for e k
      using insert_outcome [OF cleaned(2)] that less [of k] by auto
    moreover have "map_option sm_message (ob_messages s' (om_id m)) = Some m" if "r = Inr ()"
      using insert_outcome [OF cleaned(2)] that by auto
    ultimately show ?thesis using cleaned(1) by (intro conjI allI impI) simp_all
  qed
qed

section \<open>Capacity and consistency\<close>

lemma cleanup_limit: "ob_inv s \<Longrightarrow>
    rc_limit (ob_capacity (fst (cleanup_published r l now iter s))) = rc_limit (ob_capacity s)"
proof -
  assume inv: "ob_inv s"
  obtain s' rs where c: "cleanup_published r l now iter s = (s', rs)" by fastforce
  from c inv show ?thesis by (cases rule: cleanup_published_cases) (use c in auto)
qed

lemma insert_limit: "rc_limit (ob_capacity (fst (insert_message m s))) = rc_limit (ob_capacity s)"
  by (auto simp: insert_message_def cap.giveback_limit split: option.splits prod.splits sum.splits)

lemma reserve_limit: "reserve c = (c', b) \<Longrightarrow> rc_limit c' = rc_limit c"
  by (auto simp: reserve_def split: if_splits)

lemma enqueue_limit:
  assumes "ob_inv s"
  shows "rc_limit (ob_capacity (fst (outbox_enqueue m now iter s))) = rc_limit (ob_capacity s)"
proof -
  obtain s1 r where c: "cleanup_published (ob_retention s) opportunistic_cleanup_limit now iter s = (s1, r)"
    by fastforce
  with cleanup_limit [OF assms] have "rc_limit (ob_capacity s1) = rc_limit (ob_capacity s)"
    by (metis fst_conv)
  with c show ?thesis
    by (auto simp: outbox_enqueue_def insert_limit dest: reserve_limit
        split: sum.splits prod.splits bool.splits)
qed

lemma claim_loop_capacity:
  "claim_loop owner now_ms now d ks s = (s', cl) \<Longrightarrow> ob_capacity s' = ob_capacity s"
proof (induction ks arbitrary: s cl)
  case (Cons p ks)
  then show ?case
    by (cases p) (fastforce simp: next_claim_token_def Let_def split: option.splits if_splits prod.splits)
qed simp

lemma exec_limit:
  assumes "ob_inv s"
  shows "rc_limit (ob_capacity (ob_exec x s)) = rc_limit (ob_capacity s)"
proof (cases x)
  case (OpClaim owner limit lease t1 t2 t3 iter)
  obtain s' r where c: "claim_for owner limit lease t1 t2 t3 iter s = (s', r)" by fastforce
  then show ?thesis
    by (cases rule: claim_for_cases) (use OpClaim c in \<open>auto dest: claim_loop_capacity\<close>)
qed (auto simp: enqueue_limit [OF assms] cleanup_limit [OF assms] ob_defs cap.giveback_limit
    split: sum.splits option.splits)

lemma run_limit:
  "ob_inv s \<Longrightarrow> list_all enqueues_pending xs \<Longrightarrow>
   rc_limit (ob_capacity (ob_run xs s)) = rc_limit (ob_capacity s)"
  by (induction xs arbitrary: s) (simp_all add: exec_limit ob_inv_exec)

text \<open>
  Property C4: the store invariant holds in every reachable state. A store built for \<open>capacity\<close> records
  and driven by any operations never holds more than that many; its counter equals the number of
  records; every record is well formed and stored under its own nonzero identifier; and the index of
  published records lists exactly the published ones.
\<close>

theorem outbox_invariant:
  assumes "with_published_retention_and_capacity retention capacity = Inr s0"
    "list_all enqueues_pending xs" "s = ob_run xs s0"
  shows "card (dom (ob_messages s)) \<le> capacity \<and> rc_used (ob_capacity s) = card (dom (ob_messages s)) \<and>
    (\<forall>k sm. ob_messages s k = Some sm \<longrightarrow> om_id (sm_message sm) = k \<and> k \<noteq> 0 \<and> om_wf (sm_message sm)) \<and>
    dom (ob_published s) = {k. \<exists>sm. ob_messages s k = Some sm \<and> om_state (sm_message sm) = OPublished}"
proof -
  have inv0: "ob_inv s0" using assms(1) by (rule ob_inv_new)
  then have inv: "ob_inv s" unfolding assms(3) using assms(2) by (rule ob_inv_run)
  have "rc_limit (ob_capacity s0) = capacity"
    using assms(1) by (auto simp: with_published_retention_and_capacity_def bind_r_Inr_iff
        capacity_new_def capacity_fixed_def split: if_splits)
  then have "rc_limit (ob_capacity s) = capacity"
    using run_limit [OF inv0 assms(2)] assms(3) by simp
  moreover have "ob_published s k \<noteq> None \<longleftrightarrow> (\<exists>sm. ob_messages s k = Some sm \<and> message_published sm)" for k
    using inv indexed_entry [of sm_identity message_published "ob_messages s" "ob_published s" k]
    by (cases "ob_published s k"; cases "ob_messages s k") (auto simp: ob_inv_def)
  ultimately show ?thesis using inv
    by (auto simp: ob_inv_def cap.accounts_def message_ok_def message_published_def dom_def)
qed

section \<open>A worked run\<close>

text \<open>
  A worker claims message 7 for one second, loses the lease, and a worker of the same name recovers
  the message two seconds later.
\<close>

definition demo_message :: outbox_message where
  "demo_message = om_new (envelope_new 7 ''t'' [] (metadata_new 7 None) 0)"

definition demo_store :: memory_outbox where
  "demo_store =
     \<lparr>ob_messages = Map.empty, ob_published = Map.empty, ob_claim_sequence = 0,
      ob_record_sequence = sequence_new, ob_capacity = capacity_fixed 2, ob_retention = from_secs 60\<rparr>"

definition demo_ops :: "outbox_op list" where
  "demo_ops = [OpEnqueue demo_message 0 [], OpClaim ''w'' 1 (from_secs 1) 0 0 0 [7],
     OpClaim ''w'' 1 (from_secs 1) 2000000000 2000000000 2000000000 [7]]"

lemma demo_store_new: "with_published_retention_and_capacity (from_secs 60) 2 = Inr demo_store"
  by (simp add: with_published_retention_and_capacity_def demo_store_def capacity_new_def
      validate_completed_retention_def from_secs_def)

lemma demo_pending: "list_all enqueues_pending demo_ops"
  by (simp add: demo_ops_def demo_message_def om_wf_new) (simp add: om_new_def)

lemma demo_dec: "dec 0 = ''0''" "dec 1 = ''1''"
  by (simp_all add: dec.simps) (code_simp, code_simp)

lemma demo_clock:
  "outbox_current_unix_ms 0 = Inr 0" "outbox_current_unix_ms 2000000000 = Inr 2000"
  "outbox_claim_expires_at (from_secs 1) 0 = Inr 1000"
  "outbox_claim_expires_at (from_secs 1) 2000000000 = Inr 3000"
  by (simp_all add: outbox_current_unix_ms_def outbox_claim_expires_at_def unix_ms_or_def
      duration_since_epoch_def as_millis_def u64_try_from_def from_secs_def checked_add_def
      validate_outbox_claim_lease_def max_outbox_claim_lease_def)

definition demo_claimed :: "string \<Rightarrow> u64 \<Rightarrow> u64 \<Rightarrow> memory_outbox" where
  "demo_claimed token deadline sq = demo_store\<lparr>ob_claim_sequence := sq, ob_record_sequence := 2,
     ob_capacity := \<lparr>rc_limit = 2, rc_used = 1\<rparr>,
     ob_messages := [7 \<mapsto> \<lparr>sm_identity = 1,
       sm_message = claim_until_with_token ''w'' token deadline demo_message\<rparr>]\<rparr>"

lemmas demo_simps = demo_store_def demo_message_def om_new_def om_id_def envelope_new_def
  envelope_versioned_def metadata_new_def om_defs token_of_def

lemma demo_enqueue:
  "ob_exec (OpEnqueue demo_message 0 []) demo_store = demo_store\<lparr>ob_record_sequence := 2,
     ob_capacity := \<lparr>rc_limit = 2, rc_used = 1\<rparr>,
     ob_messages := [7 \<mapsto> \<lparr>sm_identity = 1, sm_message = demo_message\<rparr>]\<rparr>"
  by (simp add: demo_simps outbox_enqueue_def validate_outbox_message_id_def reserve_def capacity_fixed_def
      insert_message_def sequence_next_def sequence_new_def checked_add_def)

lemma demo_due: "om_is_due_at now demo_message" "om_is_due_at now (claim_until_with_token w t d demo_message)"
  by (simp_all add: om_is_due_at_def metadata_is_due_at_def not_before_def demo_simps)

lemma demo_claimable:
  "is_claimable_at ms demo_message"
  "is_claimable_at ms (claim_until_with_token w t d demo_message) \<longleftrightarrow> d \<le> ms"
  by (simp_all add: is_claimable_at_def demo_simps)

lemma demo_order:
  "snd (delivery_order demo_message) = 7" "snd (delivery_order (claim_until_with_token w t d demo_message)) = 7"
  by (simp_all add: delivery_order_def demo_simps)

lemma demo_reclaim:
  "claim_until_with_token w t d (claim_until_with_token w' t' d' demo_message) = claim_until_with_token w t d demo_message"
  by (simp add: demo_simps)

lemma demo_claim_loop:
  assumes "ob_messages s = [7 \<mapsto> sm]" "eligible now_ms now (sm_message sm)"
    "snd (delivery_order (sm_message sm)) = 7"
  shows "claim_loop owner now_ms now d (keep_smallest 1 (claim_keys now_ms now [7] s) []) s =
     (let m = claim_until_with_token owner (claim_token (ob_claim_sequence s)) d (sm_message sm)
      in (s\<lparr>ob_claim_sequence := ob_claim_sequence s + 1, ob_messages := [7 \<mapsto> sm\<lparr>sm_message := m\<rparr>]\<rparr>, [m]))"
proof -
  obtain x where x: "delivery_order (sm_message sm) = (x, 7)"
    using assms(3) by (cases "delivery_order (sm_message sm)") simp
  show ?thesis using assms(1,2) x
    by (simp add: eligible_def claim_keys_def List.map_filter_simps keep_smallest_take next_claim_token_def Let_def)
qed

lemma demo_claim1:
  "claim_for ''w'' 1 (from_secs 1) 0 0 0 [7] (ob_exec (OpEnqueue demo_message 0 []) demo_store) =
     (demo_claimed ''memory-0'' 1000 1, Inr [claim_until_with_token ''w'' ''memory-0'' 1000 demo_message])"
  by (simp add: claim_for_def validate_outbox_claim_limit_def max_outbox_claim_limit_def demo_clock
      demo_claim_loop demo_enqueue eligible_def demo_claimable demo_due demo_order claim_token_def
      demo_dec demo_claimed_def Let_def del: One_nat_def ob_exec.simps(1))
    (simp add: demo_store_def demo_dec)

lemma demo_claim2:
  "claim_for ''w'' 1 (from_secs 1) 2000000000 2000000000 2000000000 [7] (demo_claimed ''memory-0'' 1000 1) =
     (demo_claimed ''memory-1'' 3000 2, Inr [claim_until_with_token ''w'' ''memory-1'' 3000 demo_message])"
  by (simp add: claim_for_def validate_outbox_claim_limit_def max_outbox_claim_limit_def demo_clock
      demo_claim_loop eligible_def demo_claimable demo_due demo_order claim_token_def
      demo_dec demo_claimed_def Let_def demo_reclaim del: One_nat_def)

lemma demo_run: "ob_run demo_ops demo_store = demo_claimed ''memory-1'' 3000 2"
  by (simp only: demo_ops_def ob_run.simps ob_exec.simps(2) demo_claim1 demo_claim2 fst_conv)

theorem outbox_stale_token_fenced_witness:
  "outbox_release ''w'' 7 ''memory-0'' (ob_run demo_ops demo_store) = (ob_run demo_ops demo_store, Inr ())"
proof -
  have "token_of (ob_run demo_ops demo_store) 7 = Some ''memory-1''" "ob_claim_sequence (ob_run demo_ops demo_store) = 2"
    unfolding demo_run by (simp_all add: demo_claimed_def demo_simps)
  then show ?thesis
    using outbox_stale_token_fenced [OF demo_store_new, of demo_ops "[]", OF _ _ refl refl, of 0 7] demo_pending
    by (simp add: demo_dec demo_ops_def max_outbox_claim_limit_def)
qed

theorem outbox_lease_exclusive_witness:
  "ob_messages (ob_run [OpClaim ''other'' 1 (from_secs 1) 0 0 0 [7], OpRelease ''w'' 7 ''guess'', OpCancel 7]
     (demo_claimed ''memory-0'' 1000 1)) 7 = ob_messages (demo_claimed ''memory-0'' 1000 1) 7"
proof -
  let ?s = "demo_claimed ''memory-0'' 1000 1"
  let ?sm = "\<lparr>sm_identity = 1, sm_message = claim_until_with_token ''w'' ''memory-0'' 1000 demo_message\<rparr>"
  have "?s = ob_run (take 2 demo_ops) demo_store"
    by (simp add: demo_ops_def demo_claim1 del: ob_exec.simps(1) One_nat_def)
  then have "ob_inv ?s"
    using ob_inv_run [OF ob_inv_new [OF demo_store_new], of "take 2 demo_ops"] demo_pending
    by (simp add: list_all_iff) (metis in_set_takeD)
  moreover have "ob_messages ?s 7 = Some ?sm" by (simp add: demo_claimed_def)
  moreover have "leased 7 ''w'' ''memory-0'' 1000 (sm_message ?sm)"
    by (simp add: leased_def demo_simps)
  ultimately have "ob_messages (ob_run [OpClaim ''other'' 1 (from_secs 1) 0 0 0 [7],
      OpRelease ''w'' 7 ''guess'', OpCancel 7] ?s) 7 = Some ?sm"
    by (rule outbox_lease_exclusive) (simp_all add: demo_clock)
  then show ?thesis by (simp add: demo_claimed_def)
qed

theorem outbox_claim_oldest_witness:
  "map om_id [claim_until_with_token ''w'' ''memory-0'' 1000 demo_message] =
     map snd (take 1 (sorted_list_of_set
       (eligible_keys 0 0 (ob_exec (OpEnqueue demo_message 0 []) demo_store))))"
proof -
  have "ob_inv (ob_exec (OpEnqueue demo_message 0 []) demo_store)"
    by (rule ob_inv_exec [OF ob_inv_new [OF demo_store_new]]) (use demo_pending in \<open>simp add: demo_ops_def\<close>)
  moreover have "iterates [7] (ob_messages (ob_exec (OpEnqueue demo_message 0 []) demo_store))"
    unfolding demo_enqueue by (simp add: iterates_def)
  ultimately obtain now_ms where "outbox_current_unix_ms 0 = Inr now_ms" and
    "map om_id [claim_until_with_token ''w'' ''memory-0'' 1000 demo_message] =
       map snd (take 1 (sorted_list_of_set
         (eligible_keys now_ms 0 (ob_exec (OpEnqueue demo_message 0 []) demo_store))))"
    using outbox_claim_oldest [OF _ _ zero_less_one demo_claim1] unfolding Let_def by blast
  then show ?thesis unfolding demo_clock(1) by blast
qed

theorem outbox_enqueue_keeps_witness:
  "ob_messages (ob_exec (OpEnqueue demo_message 0 []) demo_store) 7 =
     Some \<lparr>sm_identity = 1, sm_message = demo_message\<rparr> \<and>
   ob_messages (fst (outbox_enqueue demo_message 5 [] (ob_exec (OpEnqueue demo_message 0 []) demo_store))) 7 =
     Some \<lparr>sm_identity = 1, sm_message = demo_message\<rparr>"
proof -
  let ?s = "ob_exec (OpEnqueue demo_message 0 []) demo_store"
  have inv: "ob_inv ?s"
    by (rule ob_inv_exec [OF ob_inv_new [OF demo_store_new]]) (use demo_pending in \<open>simp add: demo_ops_def\<close>)
  have 7: "ob_messages ?s 7 = Some \<lparr>sm_identity = 1, sm_message = demo_message\<rparr>"
    unfolding demo_enqueue by simp
  obtain s' r where e: "outbox_enqueue demo_message 5 [] ?s = (s', r)" by fastforce
  have "om_state demo_message \<noteq> OPublished" by (simp add: demo_simps)
  with 7 outbox_enqueue_keeps [OF inv e] have "ob_messages s' 7 = Some \<lparr>sm_identity = 1, sm_message = demo_message\<rparr>"
    by fastforce
  with 7 e show ?thesis by simp
qed

theorem outbox_invariant_witness:
  "card (dom (ob_messages (demo_claimed ''memory-1'' 3000 2))) \<le> 2 \<and>
   dom (ob_published (demo_claimed ''memory-1'' 3000 2)) = {}"
  using outbox_invariant [OF demo_store_new demo_pending demo_run [symmetric]]
  by (auto simp: demo_claimed_def demo_store_def)

end
