(* ===== verification/Outbox_Processor.thy ===== *)
theory Outbox_Processor
  imports Outbox_Correct
begin

text \<open>
  The outbox processor (\<open>crates/catga-core/src/outbox_processor.rs\<close>): it claims a batch, publishes each
  message and acknowledges it or records the failure. The store is behind the \<open>OutboxStore\<close> trait and
  the transport behind \<open>MessageTransport\<close>; both are arguments. The transport acts on a world of its own.
  With \<open>buffer_unordered\<close> the deliveries of one batch finish in an order the runtime chooses; the order
  is an argument, and one delivery runs at a time.
\<close>

section \<open>The processor\<close>

record outbox_run =
  or_published :: nat
  or_failed :: nat

definition run_default :: outbox_run where
  "run_default = \<lparr>or_published = 0, or_failed = 0\<rparr>"

definition run_combine :: "outbox_run \<Rightarrow> outbox_run \<Rightarrow> outbox_run" where
  "run_combine r other =
     \<lparr>or_published = usize_saturating_add (or_published r) (or_published other),
      or_failed = usize_saturating_add (or_failed r) (or_failed other)\<rparr>"

definition record_loop_failure :: "outbox_run \<Rightarrow> outbox_run" where
  "record_loop_failure r = r\<lparr>or_failed := usize_saturating_add (or_failed r) 1\<rparr>"

record outbox_loop_options =
  ol_scan_interval :: duration
  ol_error_delay :: duration

definition loop_options_new :: "duration \<Rightarrow> duration \<Rightarrow> outbox_loop_options catga_result" where
  "loop_options_new scan_interval error_delay =
     (if scan_interval = 0
      then Inl (error_new Validation ''outbox scan interval must be greater than zero'')
      else if error_delay = 0
      then Inl (error_new Validation ''outbox error delay must be greater than zero'')
      else Inr \<lparr>ol_scan_interval = scan_interval, ol_error_delay = error_delay\<rparr>)"

definition loop_options_default :: outbox_loop_options where
  "loop_options_default = \<lparr>ol_scan_interval = from_secs 1, ol_error_delay = from_secs 1\<rparr>"

text \<open>The store and transport operations the processor calls, with what they observe of the clock.\<close>

record ('e, 's, 'w) delivery_ops =
  do_claim :: "'e \<Rightarrow> string \<Rightarrow> nat \<Rightarrow> 's \<Rightarrow> 's \<times> outbox_message list catga_result"
  do_ack :: "'e \<Rightarrow> string \<Rightarrow> u64 \<Rightarrow> string \<Rightarrow> 's \<Rightarrow> 's \<times> unit catga_result"
  do_record_failure :: "string \<Rightarrow> u64 \<Rightarrow> string \<Rightarrow> string \<Rightarrow> 's \<Rightarrow> 's \<times> unit catga_result"
  do_publish :: "envelope \<Rightarrow> 'w \<Rightarrow> 'w \<times> unit catga_result"

record processor =
  pr_owner :: string
  pr_batch_size :: nat
  pr_concurrency_limit :: nat

definition processor_new_with_concurrency :: "string \<Rightarrow> nat \<Rightarrow> nat \<Rightarrow> processor catga_result" where
  "processor_new_with_concurrency owner batch_size concurrency_limit =
     (if batch_size = 0
      then Inl (error_new Validation ''outbox batch size must be greater than zero'')
      else bind_r (validate_outbox_claim_limit batch_size) (\<lambda>_.
        if concurrency_limit = 0
        then Inl (error_new Validation ''outbox concurrency limit must be greater than zero'')
        else Inr \<lparr>pr_owner = owner, pr_batch_size = batch_size, pr_concurrency_limit = concurrency_limit\<rparr>))"

definition processor_new :: "string \<Rightarrow> nat \<Rightarrow> processor catga_result" where
  "processor_new owner batch_size = processor_new_with_concurrency owner batch_size 1"

text \<open>The longest prefix of the message that fits beside the context and ends between characters.\<close>

definition failure_reason :: "string \<Rightarrow> catga_error \<Rightarrow> string" where
  "failure_reason context err =
     (let available = max_outbox_failure_error_bytes - length context;
          message = ce_message err
      in context @ take (floor_char_boundary message (min (length message) available)) message)"

definition deliver ::
  "('e, 's, 'w) delivery_ops \<Rightarrow> string \<Rightarrow> 'e \<Rightarrow> outbox_message \<Rightarrow> 's \<times> 'w \<Rightarrow> ('s \<times> 'w) \<times> outbox_run catga_result" where
  "deliver ops owner e m sw =
     (case sw of (s, w) \<Rightarrow>
      case om_claim_token m of
        None \<Rightarrow> ((s, w), Inl (error_new Internal ''outbox store returned a claimed message without a claim token''))
      | Some token \<Rightarrow>
          (case do_publish ops (om_envelope m) w of
             (w', Inr _) \<Rightarrow>
               (case do_ack ops e owner (om_id m) token s of
                  (s', Inr _) \<Rightarrow> ((s', w'), Inr \<lparr>or_published = 1, or_failed = 0\<rparr>)
                | (s', Inl err) \<Rightarrow>
                    (case do_record_failure ops owner (om_id m) token
                            (failure_reason ''outbox acknowledgement failed: '' err) s' of
                       (s'', Inl err') \<Rightarrow> ((s'', w'), Inl err')
                     | (s'', Inr _) \<Rightarrow> ((s'', w'), Inr \<lparr>or_published = 0, or_failed = 1\<rparr>)))
           | (w', Inl err) \<Rightarrow>
               (case do_record_failure ops owner (om_id m) token
                       (failure_reason ''outbox publication failed: '' err) s of
                  (s', Inl err') \<Rightarrow> ((s', w'), Inl err')
                | (s', Inr _) \<Rightarrow> ((s', w'), Inr \<lparr>or_published = 0, or_failed = 1\<rparr>))))"

text \<open>The loop over the finished deliveries; an error ends the scan. Each delivery has its environment.\<close>

fun deliver_loop ::
  "('e, 's, 'w) delivery_ops \<Rightarrow> string \<Rightarrow> ('e \<times> outbox_message) list \<Rightarrow> outbox_run \<Rightarrow> 's \<times> 'w
   \<Rightarrow> ('s \<times> 'w) \<times> outbox_run catga_result" where
  "deliver_loop ops owner [] run sw = (sw, Inr run)"
| "deliver_loop ops owner ((e, m) # ms) run sw =
     (case deliver ops owner e m sw of
        (sw', Inl err) \<Rightarrow> (sw', Inl err)
      | (sw', Inr one) \<Rightarrow> deliver_loop ops owner ms (run_combine run one) sw')"

text \<open>
  One scan. \<open>schedule\<close> is the runtime's choice: it arranges the claimed messages in the order in which
  their deliveries run and gives each the instant it observes.
\<close>

definition flush_once ::
  "('e, 's, 'w) delivery_ops \<Rightarrow> processor \<Rightarrow> 'e \<Rightarrow> (outbox_message list \<Rightarrow> ('e \<times> outbox_message) list)
   \<Rightarrow> 's \<times> 'w \<Rightarrow> ('s \<times> 'w) \<times> outbox_run catga_result" where
  "flush_once ops p e schedule sw =
     (case sw of (s, w) \<Rightarrow>
      case do_claim ops e (pr_owner p) (pr_batch_size p) s of
        (s', Inl err) \<Rightarrow> ((s', w), Inl err)
      | (s', Inr messages) \<Rightarrow> deliver_loop ops (pr_owner p) (schedule messages) run_default (s', w))"

text \<open>
  The scan loop. One element of the list is one iteration that found the token not cancelled, with
  what the scan observes; the flag tells whether the token is cancelled during the following delay.
  The second result is the delays the loop slept.
\<close>

fun run_until_cancelled ::
  "('e, 's, 'w) delivery_ops \<Rightarrow> processor \<Rightarrow> outbox_loop_options
   \<Rightarrow> ('e \<times> (outbox_message list \<Rightarrow> ('e \<times> outbox_message) list) \<times> bool) list
   \<Rightarrow> outbox_run \<Rightarrow> 's \<times> 'w \<Rightarrow> ('s \<times> 'w) \<times> outbox_run \<times> duration list" where
  "run_until_cancelled ops p opts [] total_run sw = (sw, total_run, [])"
| "run_until_cancelled ops p opts ((e, schedule, cancelled) # rest) total_run sw =
     (case flush_once ops p e schedule sw of
        (sw', r) \<Rightarrow>
          (let (total', delay) =
             (case r of Inr run \<Rightarrow> (run_combine total_run run, ol_scan_interval opts)
                      | Inl _ \<Rightarrow> (record_loop_failure total_run, ol_error_delay opts))
           in if cancelled then (sw', total', [delay])
              else (case run_until_cancelled ops p opts rest total' sw' of
                      (sw'', tot, ds) \<Rightarrow> (sw'', tot, delay # ds))))"

section \<open>The contract of an outbox store\<close>

text \<open>
  \<open>holds s k = Some m\<close>: the store has message \<open>m\<close> under \<open>k\<close>. A claim returns distinct stored messages owned
  by the caller; the owner of a message publishes it or records its failure, and touches no other.
  \<open>valid e s\<close>: the claim iterates over the records the store really has.
\<close>

locale delivery_store =
  fixes ops :: "('e, 's, 'w) delivery_ops"
    and inv :: "'s \<Rightarrow> bool"
    and at :: "'s \<Rightarrow> u64 \<Rightarrow> outbox_message option"
    and valid :: "'e \<Rightarrow> 's \<Rightarrow> bool"
  assumes claim_laws: "inv s \<Longrightarrow> valid e s \<Longrightarrow> do_claim ops e owner n s = (s', Inr ms) \<Longrightarrow>
        inv s' \<and> distinct (map om_id ms) \<and> length ms \<le> n \<and>
        (\<forall>m \<in> set ms. at s' (om_id m) = Some m \<and> om_owner m = Some owner \<and> om_claim_token m \<noteq> None)"
    and ack_laws: "inv s \<Longrightarrow> at s (om_id m) = Some m \<Longrightarrow> om_owner m = Some owner \<Longrightarrow>
        om_claim_token m = Some token \<Longrightarrow> do_ack ops e owner (om_id m) token s = (s', r) \<Longrightarrow>
        inv s' \<and> (\<forall>k. k \<noteq> om_id m \<longrightarrow> at s' k = at s k) \<and>
        ((\<exists>t. r = Inr () \<and> at s' (om_id m) = Some (mark_published t m)) \<or>
         (\<exists>err. r = Inl err \<and> at s' (om_id m) = Some m))"
    and failure_laws: "inv s \<Longrightarrow> at s (om_id m) = Some m \<Longrightarrow> om_owner m = Some owner \<Longrightarrow>
        om_claim_token m = Some token \<Longrightarrow>
        \<exists>s'. do_record_failure ops owner (om_id m) token reason s = (s', Inr ()) \<and> inv s' \<and>
          (\<forall>k. k \<noteq> om_id m \<longrightarrow> at s' k = at s k) \<and> at s' (om_id m) = Some (record_failure reason m)"
begin

text \<open>What a delivery leaves of its message: published, or with one more failure.\<close>

definition settled :: "'s \<Rightarrow> outbox_message \<Rightarrow> bool \<Rightarrow> bool" where
  "settled s m ok \<longleftrightarrow>
     (if ok then \<exists>t. at s (om_id m) = Some (mark_published t m)
      else \<exists>reason. at s (om_id m) = Some (record_failure reason m))"

lemma deliver_settles:
  assumes "inv s" "at s (om_id m) = Some m" "om_owner m = Some owner" "om_claim_token m \<noteq> None"
  shows "\<exists>s' w' ok. deliver ops owner e m (s, w) =
      ((s', w'), Inr \<lparr>or_published = (if ok then 1 else 0), or_failed = (if ok then 0 else 1)\<rparr>) \<and>
    inv s' \<and> settled s' m ok \<and> (\<forall>k. k \<noteq> om_id m \<longrightarrow> at s' k = at s k) \<and>
    (ok \<longrightarrow> snd (do_publish ops (om_envelope m) w) = Inr ())"
proof -
  obtain token where tok: "om_claim_token m = Some token" using assms(4) by blast
  obtain w' pr where pub: "do_publish ops (om_envelope m) w = (w', pr)" by fastforce
  show ?thesis
  proof (cases pr)
    case (Inl err)
    obtain s' where s': "do_record_failure ops owner (om_id m) token (failure_reason ''outbox publication failed: '' err) s
        = (s', Inr ())" "inv s'" "\<forall>k. k \<noteq> om_id m \<longrightarrow> at s' k = at s k"
      "at s' (om_id m) = Some (record_failure (failure_reason ''outbox publication failed: '' err) m)"
      using failure_laws [OF assms(1-3) tok] by blast
    then show ?thesis
      using tok pub Inl by (intro exI [of _ s'] exI [of _ w'] exI [of _ False]) (auto simp: deliver_def settled_def)
  next
    case (Inr u)
    obtain s1 ar where ack: "do_ack ops e owner (om_id m) token s = (s1, ar)" by fastforce
    note A = ack_laws [OF assms(1-3) tok ack]
    show ?thesis
    proof (cases ar)
      case (Inr v)
      then show ?thesis
        using tok pub \<open>pr = Inr u\<close> ack A
        by (intro exI [of _ s1] exI [of _ w'] exI [of _ True]) (auto simp: deliver_def settled_def)
    next
      case (Inl err)
      with A have s1: "inv s1" "at s1 (om_id m) = Some m" "\<forall>k. k \<noteq> om_id m \<longrightarrow> at s1 k = at s k" by auto
      obtain s' where s': "do_record_failure ops owner (om_id m) token (failure_reason ''outbox acknowledgement failed: '' err) s1
          = (s', Inr ())" "inv s'" "\<forall>k. k \<noteq> om_id m \<longrightarrow> at s' k = at s1 k"
        "at s' (om_id m) = Some (record_failure (failure_reason ''outbox acknowledgement failed: '' err) m)"
        using failure_laws [OF s1(1,2) assms(3) tok] by blast
      then show ?thesis
        using tok pub \<open>pr = Inr u\<close> ack Inl s1(3)
        by (intro exI [of _ s'] exI [of _ w'] exI [of _ False]) (auto simp: deliver_def settled_def)
    qed
  qed
qed

lemma deliver_loop_settles:
  assumes "inv s" "distinct (map (om_id \<circ> snd) ems)"
    "\<forall>(e, m) \<in> set ems. at s (om_id m) = Some m \<and> om_owner m = Some owner \<and> om_claim_token m \<noteq> None"
    "or_published run + or_failed run + length ems < 2 ^ 64"
  shows "\<exists>s' w' run'. deliver_loop ops owner ems run (s, w) = ((s', w'), Inr run') \<and> inv s' \<and>
    or_published run' + or_failed run' = or_published run + or_failed run + length ems \<and>
    (\<forall>(e, m) \<in> set ems. \<exists>ok. settled s' m ok) \<and>
    (\<forall>k. k \<notin> (om_id \<circ> snd) ` set ems \<longrightarrow> at s' k = at s k)"
  using assms
proof (induction ems arbitrary: s w run)
  case Nil
  then show ?case by simp
next
  case (Cons em ems)
  obtain e m where em: "em = (e, m)" by (cases em)
  from Cons.prems(3) have m: "at s (om_id m) = Some m" "om_owner m = Some owner" "om_claim_token m \<noteq> None"
    by (auto simp: em)
  obtain s1 w1 ok where d: "deliver ops owner e m (s, w) =
      ((s1, w1), Inr \<lparr>or_published = (if ok then 1 else 0), or_failed = (if ok then 0 else 1)\<rparr>)"
    and s1: "inv s1" "settled s1 m ok" "\<forall>k. k \<noteq> om_id m \<longrightarrow> at s1 k = at s k"
    using deliver_settles [OF Cons.prems(1) m] by blast
  let ?run = "run_combine run \<lparr>or_published = (if ok then 1 else 0), or_failed = (if ok then 0 else 1)\<rparr>"
  have run: "or_published ?run + or_failed ?run = or_published run + or_failed run + 1"
    using Cons.prems(4) by (auto simp: run_combine_def usize_saturating_add_def)
  have "at s1 (om_id m') = Some m' \<and> om_owner m' = Some owner \<and> om_claim_token m' \<noteq> None"
    if "(e', m') \<in> set ems" for e' m'
  proof -
    from that Cons.prems(2) have "om_id m' \<noteq> om_id m" by (force simp: em)
    then show ?thesis using bspec [OF Cons.prems(3), of "(e', m')"] that s1(3) by simp
  qed
  then have "\<forall>(e', m') \<in> set ems. at s1 (om_id m') = Some m' \<and> om_owner m' = Some owner \<and> om_claim_token m' \<noteq> None"
    by blast
  with Cons.IH [of s1 ?run w1] s1(1) Cons.prems(2,4) run
  obtain s' w' run' where IH: "deliver_loop ops owner ems ?run (s1, w1) = ((s', w'), Inr run')" "inv s'"
    "or_published run' + or_failed run' = or_published ?run + or_failed ?run + length ems"
    "\<forall>(e, m) \<in> set ems. \<exists>ok. settled s' m ok" "\<forall>k. k \<notin> (om_id \<circ> snd) ` set ems \<longrightarrow> at s' k = at s1 k"
    by auto
  have "om_id m \<notin> (om_id \<circ> snd) ` set ems" using Cons.prems(2) by (auto simp: em)
  with IH(5) s1(2) have "settled s' m ok" by (simp add: settled_def)
  moreover have "at s' k = at s k" if "k \<notin> (om_id \<circ> snd) ` set (em # ems)" for k
    using that IH(5) s1(3) by (simp add: em)
  ultimately show ?case
    using d IH(1-4) run by (intro exI [of _ s'] exI [of _ w'] exI [of _ run']) (auto simp: em)
qed

lemma flush_settles:
  assumes "inv s" "valid e s" "do_claim ops e (pr_owner p) (pr_batch_size p) s = (s1, Inr ms)"
    "mset (map snd (schedule ms)) = mset ms" "pr_batch_size p < 2 ^ 64"
  shows "\<exists>s' w' run. flush_once ops p e schedule (s, w) = ((s', w'), Inr run) \<and> inv s' \<and>
    or_published run + or_failed run = length ms \<and> (\<forall>m \<in> set ms. \<exists>ok. settled s' m ok) \<and>
    (\<forall>k. k \<notin> om_id ` set ms \<longrightarrow> at s' k = at s1 k)"
proof -
  note C = claim_laws [OF assms(1-3)]
  have set: "snd ` set (schedule ms) = set ms"
    using arg_cong [OF assms(4), of set_mset] by simp
  have len: "length (schedule ms) = length ms" using arg_cong [OF assms(4), of size] by simp
  have "mset (map om_id (map snd (schedule ms))) = mset (map om_id ms)"
    using arg_cong [OF assms(4), of "image_mset om_id"] by (simp only: mset_map)
  from mset_eq_imp_distinct_iff [OF this] have dist: "distinct (map (om_id \<circ> snd) (schedule ms))"
    using C by simp
  have mem: "m \<in> set ms" if "(e, m) \<in> set (schedule ms)" for e m
    using that set by (metis image_eqI snd_conv)
  have "\<forall>(e, m) \<in> set (schedule ms). at s1 (om_id m) = Some m \<and> om_owner m = Some (pr_owner p) \<and> om_claim_token m \<noteq> None"
    using C mem by blast
  moreover have "or_published run_default + or_failed run_default + length (schedule ms) < 2 ^ 64"
    using C assms(5) len by (simp add: run_default_def)
  ultimately obtain s' w' run where D: "deliver_loop ops (pr_owner p) (schedule ms) run_default (s1, w) = ((s', w'), Inr run)"
    "inv s'" "or_published run + or_failed run = length (schedule ms)"
    "\<forall>(e, m) \<in> set (schedule ms). \<exists>ok. settled s' m ok"
    "\<forall>k. k \<notin> (om_id \<circ> snd) ` set (schedule ms) \<longrightarrow> at s' k = at s1 k"
    using deliver_loop_settles [OF C [THEN conjunct1] dist, of "pr_owner p" run_default w]
    by (auto simp: run_default_def)
  have "\<exists>ok. settled s' m ok" if "m \<in> set ms" for m
  proof -
    from that have "m \<in> snd ` set (schedule ms)" by (simp add: set)
    then obtain e where "(e, m) \<in> set (schedule ms)" by (metis imageE prod.collapse)
    then show ?thesis using D(4) by blast
  qed
  moreover have "(om_id \<circ> snd) ` set (schedule ms) = om_id ` set ms" using set by (metis image_comp)
  ultimately show ?thesis
    using D len assms(3) by (intro exI [of _ s'] exI [of _ w'] exI [of _ run]) (auto simp: flush_once_def)
qed

end

section \<open>The in-memory outbox fulfils the contract\<close>

type_synonym outbox_env = "(systime \<times> systime \<times> systime) \<times> u64 list"

definition memory_delivery ::
  "(envelope \<Rightarrow> 'w \<Rightarrow> 'w \<times> unit catga_result) \<Rightarrow> (outbox_env, memory_outbox, 'w) delivery_ops" where
  "memory_delivery publish =
     \<lparr>do_claim = (\<lambda>((t1, t2, t3), iter) owner limit. outbox_claim owner limit t1 t2 t3 iter),
      do_ack = (\<lambda>((t1, _), _) owner mid token. outbox_ack owner mid token t1),
      do_record_failure = outbox_record_failure,
      do_publish = publish\<rparr>"

definition message_at :: "memory_outbox \<Rightarrow> u64 \<Rightarrow> outbox_message option" where
  "message_at s k = map_option sm_message (ob_messages s k)"

definition env_iterates :: "outbox_env \<Rightarrow> memory_outbox \<Rightarrow> bool" where
  "env_iterates e s \<longleftrightarrow> iterates (snd e) (ob_messages s)"

lemma claim_all_owned:
  assumes "m \<in> set (claim_all owner d sq ms)" "\<forall>x \<in> set ms. is_claimable_at now x"
  shows "om_owner m = Some owner \<and> om_claim_token m \<noteq> None"
  using assms
proof (induction ms arbitrary: sq)
  case (Cons x ms)
  then show ?case by (auto simp: is_claimable_at_def om_defs)
qed simp

lemma sorted_list_of_set_finite_sub: "set (take n (sorted_list_of_set A)) \<subseteq> A"
proof (cases "finite A")
  case True
  then show ?thesis by (metis set_take_subset set_sorted_list_of_set)
next
  case False
  then show ?thesis by (simp add: sorted_list_of_set.fold_insort_key.infinite)
qed

lemma memory_claim_laws:
  assumes "ob_inv s" "env_iterates e s" "do_claim (memory_delivery publish) e owner n s = (s', Inr ms)"
  shows "ob_inv s' \<and> distinct (map om_id ms) \<and> length ms \<le> n \<and>
    (\<forall>m \<in> set ms. message_at s' (om_id m) = Some m \<and> om_owner m = Some owner \<and> om_claim_token m \<noteq> None)"
proof -
  obtain t1 t2 t3 iter where e: "e = ((t1, t2, t3), iter)" by (metis prod.exhaust)
  from assms(3) have c: "claim_for owner n default_outbox_claim_lease t1 t2 t3 iter s = (s', Inr ms)"
    by (simp add: memory_delivery_def e outbox_claim_def)
  have inv: "ob_inv s'" using ob_inv_claim_for [OF assms(1), of owner n default_outbox_claim_lease t1 t2 t3 iter] c by simp
  show ?thesis
  proof (cases "n = 0")
    case True
    then show ?thesis using c inv by (auto simp: claim_for_def split: sum.splits)
  next
    case False
    obtain now_ms d where B:
      "ms = claim_all owner d (ob_claim_sequence s) (map (stored s) (map snd (take n (sorted_list_of_set (eligible_keys now_ms t2 s)))))"
      "map om_id ms = map snd (take n (sorted_list_of_set (eligible_keys now_ms t2 s)))"
      "\<forall>m \<in> set ms. \<exists>sm. ob_messages s (om_id m) = Some sm \<and> ob_messages s' (om_id m) = Some (sm\<lparr>sm_message := m\<rparr>)"
      using claim_batch_exact [OF assms(1) _ _ c] assms(2) False
      unfolding Let_def e env_iterates_def by auto
    let ?K = "take n (sorted_list_of_set (eligible_keys now_ms t2 s))"
    have key: "\<exists>sm. ob_messages s (snd x) = Some sm \<and> is_claimable_at now_ms (sm_message sm) \<and> x = delivery_order (sm_message sm)"
      if "x \<in> set ?K" for x
    proof -
      have "x \<in> eligible_keys now_ms t2 s" using that sorted_list_of_set_finite_sub by blast
      then obtain k sm where "ob_messages s k = Some sm" "eligible now_ms t2 (sm_message sm)" "x = delivery_order (sm_message sm)"
        by (auto simp: eligible_keys_def)
      then show ?thesis using ob_inv_message [OF assms(1), of k sm]
        by (auto simp: message_ok_def delivery_order_def eligible_def)
    qed
    have "inj_on snd (set ?K)" by (rule inj_onI) (metis key option.inject)
    moreover have "distinct ?K" by simp
    ultimately have "distinct (map om_id ms)" unfolding B(2) by (simp add: distinct_map)
    moreover have "length ms \<le> n" using arg_cong [OF B(2), of length] by simp
    moreover have "\<forall>x \<in> set (map (stored s) (map snd ?K)). is_claimable_at now_ms x"
      using key by (auto simp: stored_def dest!: key)
    then have "om_owner m = Some owner \<and> om_claim_token m \<noteq> None" if "m \<in> set ms" for m
      using claim_all_owned that unfolding B(1) by blast
    ultimately show ?thesis using inv B(3) by (auto simp: message_at_def)
  qed
qed

lemma memory_ack_laws:
  assumes "ob_inv s" "message_at s (om_id m) = Some m" "om_owner m = Some owner" "om_claim_token m = Some token"
    "do_ack (memory_delivery publish) e owner (om_id m) token s = (s', r)"
  shows "ob_inv s' \<and> (\<forall>k. k \<noteq> om_id m \<longrightarrow> message_at s' k = message_at s k) \<and>
    ((\<exists>t. r = Inr () \<and> message_at s' (om_id m) = Some (mark_published t m)) \<or>
     (\<exists>err. r = Inl err \<and> message_at s' (om_id m) = Some m))"
proof -
  have a: "outbox_ack owner (om_id m) token (fst (fst e)) s = (s', r)"
    using assms(5) by (simp add: memory_delivery_def split_def)
  moreover have "ob_inv s'" using ob_inv_ack [OF assms(1)] a by (metis fst_conv)
  ultimately show ?thesis
    using assms(2-4)
    by (auto simp: outbox_ack_def message_at_def holds_claim_def split: sum.splits option.splits)
qed

lemma memory_failure_laws:
  assumes "ob_inv s" "message_at s (om_id m) = Some m" "om_owner m = Some owner" "om_claim_token m = Some token"
  shows "\<exists>s'. do_record_failure (memory_delivery publish) owner (om_id m) token reason s = (s', Inr ()) \<and> ob_inv s' \<and>
    (\<forall>k. k \<noteq> om_id m \<longrightarrow> message_at s' k = message_at s k) \<and> message_at s' (om_id m) = Some (record_failure reason m)"
  using assms ob_inv_record_failure [OF assms(1), of owner "om_id m" token reason]
  by (auto simp: memory_delivery_def outbox_record_failure_def message_at_def holds_claim_def)

interpretation mem: delivery_store "memory_delivery publish" ob_inv message_at env_iterates for publish
  by unfold_locales (fact memory_claim_laws memory_ack_laws memory_failure_laws)+

section \<open>A scan settles what it claims\<close>


lemma demo_claim_default:
  "outbox_claim ''w'' 1 0 0 0 [7] (ob_exec (OpEnqueue demo_message 0 []) demo_store) =
     (demo_claimed ''memory-0'' 300000 1, Inr [claim_until_with_token ''w'' ''memory-0'' 300000 demo_message])"
proof -
  have "outbox_claim_expires_at default_outbox_claim_lease 0 = Inr 300000"
    by (simp add: outbox_claim_expires_at_def unix_ms_or_def default_outbox_claim_lease_def
      duration_since_epoch_def as_millis_def u64_try_from_def from_secs_def checked_add_def
      validate_outbox_claim_lease_def max_outbox_claim_lease_def)
  then show ?thesis
  by (simp add: outbox_claim_def claim_for_def validate_outbox_claim_limit_def max_outbox_claim_limit_def demo_clock
      demo_claim_loop demo_enqueue eligible_def demo_claimable demo_due demo_order claim_token_def
      demo_dec demo_claimed_def Let_def del: One_nat_def ob_exec.simps(1))
    (simp add: demo_store_def demo_dec)
qed


end
