(* ===== verification/Claims.thy ===== *)
theory Claims
  imports Reliability
begin

text \<open>
  The claim record of the in-memory inbox and idempotency stores
  (\<open>crates/catga-core/src/memory/claim.rs\<close>): its operations run to completion, and the same operations
  as interleaved atomic loads, stores and exchanges of any number of threads. The state byte is a
  datatype with one constructor per constant of the source.
\<close>

section \<open>Sequential operations\<close>

datatype claim_state = CPending | CClaimed | CCompleted | CFailed | CCompleting | CClaiming

record claim_record =
  cr_identity :: u64
  cr_state :: claim_state
  cr_expires_at :: u64
  cr_generation :: u64
  cr_result :: "bytes option option"

definition claimed :: "u64 \<Rightarrow> claim_record" where
  "claimed identity =
     \<lparr>cr_identity = identity, cr_state = CClaimed, cr_expires_at = 0, cr_generation = 0, cr_result = None\<rparr>"

definition try_claim_generation_until ::
  "u64 \<Rightarrow> u64 \<Rightarrow> claim_record \<Rightarrow> claim_record \<times> u64 option" where
  "try_claim_generation_until expires_at now r =
     (if \<not> (cr_state r = CPending \<or> cr_state r = CFailed
             \<or> cr_state r = CClaimed \<and> cr_expires_at r \<le> now)
      then (r, None)
      else case checked_add (cr_generation r) 1 of
             None \<Rightarrow> (r\<lparr>cr_state := CFailed\<rparr>, None)
           | Some generation \<Rightarrow>
               (r\<lparr>cr_generation := generation, cr_expires_at := expires_at, cr_state := CClaimed\<rparr>,
                Some generation))"

definition try_claim_inner :: "(u64 \<times> u64) option \<Rightarrow> claim_record \<Rightarrow> claim_record \<times> bool" where
  "try_claim_inner lease r =
     (if \<not> (cr_state r = CPending \<or> cr_state r = CFailed
             \<or> cr_state r = CClaimed \<and> (case lease of None \<Rightarrow> False | Some (_, now) \<Rightarrow> cr_expires_at r \<le> now))
      then (r, False)
      else (r\<lparr>cr_expires_at := (case lease of None \<Rightarrow> 0 | Some (expires_at, _) \<Rightarrow> expires_at),
              cr_state := CClaimed\<rparr>, True))"

definition cr_try_claim :: "claim_record \<Rightarrow> claim_record \<times> bool" where
  "cr_try_claim r = try_claim_inner None r"

definition cr_complete :: "bytes option \<Rightarrow> claim_record \<Rightarrow> claim_record \<times> bool" where
  "cr_complete res r =
     (if cr_state r \<noteq> CClaimed then (r, False)
      else if cr_result r \<noteq> None then (r\<lparr>cr_state := CFailed\<rparr>, False)
      else (r\<lparr>cr_result := Some res, cr_state := CCompleted\<rparr>, True))"

definition complete_for :: "u64 \<Rightarrow> bytes option \<Rightarrow> claim_record \<Rightarrow> claim_record \<times> bool" where
  "complete_for generation res r =
     (if cr_generation r \<noteq> generation \<or> cr_state r \<noteq> CClaimed then (r, False)
      else if cr_result r \<noteq> None then (r\<lparr>cr_state := CFailed\<rparr>, False)
      else (r\<lparr>cr_result := Some res, cr_state := CCompleted\<rparr>, True))"

definition cr_fail :: "claim_record \<Rightarrow> claim_record \<times> bool" where
  "cr_fail r = (if cr_state r = CClaimed then (r\<lparr>cr_state := CFailed\<rparr>, True) else (r, False))"

definition fail_for :: "u64 \<Rightarrow> claim_record \<Rightarrow> claim_record \<times> bool" where
  "fail_for generation r =
     (if cr_generation r = generation \<and> cr_state r = CClaimed
      then (r\<lparr>cr_state := CFailed\<rparr>, True) else (r, False))"

definition record_result :: "claim_record \<Rightarrow> bytes option" where
  "record_result r =
     (if cr_state r = CCompleted then (case cr_result r of None \<Rightarrow> None | Some v \<Rightarrow> v) else None)"

definition record_state :: "claim_record \<Rightarrow> processing_state" where
  "record_state r =
     (case cr_state r of CPending \<Rightarrow> PsPending | CClaimed \<Rightarrow> PsClaimed | CCompleted \<Rightarrow> PsCompleted
      | CFailed \<Rightarrow> PsFailed | CCompleting \<Rightarrow> PsClaimed | CClaiming \<Rightarrow> PsClaimed)"

lemmas cr_defs = claimed_def try_claim_generation_until_def try_claim_inner_def cr_try_claim_def
  cr_complete_def complete_for_def cr_fail_def fail_for_def

text \<open>
  Between operations the two transient states are never visible, and the result is set exactly when
  the record is completed.
\<close>

definition cr_wf :: "claim_record \<Rightarrow> bool" where
  "cr_wf r \<longleftrightarrow> cr_state r \<noteq> CCompleting \<and> cr_state r \<noteq> CClaiming \<and>
     (cr_result r \<noteq> None \<longleftrightarrow> cr_state r = CCompleted)"

lemma cr_wf_claimed: "cr_wf (claimed identity)"
  by (simp add: cr_wf_def claimed_def)

lemma cr_wf_ops:
  assumes "cr_wf r"
  shows "cr_wf (fst (try_claim_generation_until e n r))" "cr_wf (fst (try_claim_inner l r))"
    "cr_wf (fst (cr_complete res r))" "cr_wf (fst (complete_for g res r))"
    "cr_wf (fst (cr_fail r))" "cr_wf (fst (fail_for g r))"
  using assms by (auto simp: cr_wf_def cr_defs split: option.splits)

lemma cr_identity_ops:
  "cr_identity (fst (try_claim_generation_until e n r)) = cr_identity r"
  "cr_identity (fst (try_claim_inner l r)) = cr_identity r"
  "cr_identity (fst (cr_complete res r)) = cr_identity r"
  "cr_identity (fst (complete_for g res r)) = cr_identity r"
  "cr_identity (fst (cr_fail r)) = cr_identity r" "cr_identity (fst (fail_for g r)) = cr_identity r"
  by (auto simp: cr_defs split: option.splits)

lemma completed_terminal:
  assumes "cr_state r = CCompleted"
  shows "try_claim_generation_until e n r = (r, None)" "try_claim_inner l r = (r, False)"
    "cr_complete res r = (r, False)" "complete_for g res r = (r, False)"
    "cr_fail r = (r, False)" "fail_for g r = (r, False)"
  using assms by (simp_all add: cr_defs)

lemma claim_generation:
  assumes "try_claim_generation_until e n r = (r', Some g)"
  shows "unat g = unat (cr_generation r) + 1" "cr_generation r' = g" "cr_state r' = CClaimed"
    "cr_expires_at r' = e" "cr_result r' = cr_result r"
    "cr_state r = CPending \<or> cr_state r = CFailed \<or> cr_state r = CClaimed \<and> cr_expires_at r \<le> n"
  using assms checked_add_Some_unat [of "cr_generation r" 1 g]
  by (auto simp: try_claim_generation_until_def unat_1 split: if_splits option.splits)

lemma complete_for_success:
  "snd (complete_for g res r) \<longleftrightarrow> cr_generation r = g \<and> cr_state r = CClaimed \<and> cr_result r = None"
  by (auto simp: complete_for_def)

section \<open>Interleaved operations\<close>

text \<open>
  The position of a thread: before each atomic access of \<open>try_claim_generation_until\<close>, \<open>complete_for\<close> and
  \<open>fail_for\<close>, with the values it holds there; \<open>POwner g\<close> between a claim and its completion, and
  \<open>PDone ok\<close> after \<open>complete_for\<close> or \<open>fail_for\<close> returned.
\<close>

datatype claim_position =
    PIdle
  | PClaimExpiry u64 u64
  | PClaimExchange claim_state u64 u64
  | PClaimGeneration u64
  | PClaimStoreGeneration u64 u64
  | PClaimStoreExpiry u64 u64
  | PClaimStoreState u64
  | POwner u64
  | PCompleteExchange u64 "bytes option"
  | PCompleteSet "bytes option"
  | PCompleteStore
  | PFailExchange u64
  | PDone bool

record 't claim_system =
  cs_record :: claim_record
  cs_at :: "'t \<Rightarrow> claim_position"

definition moves :: "'t claim_system \<Rightarrow> 't \<Rightarrow> claim_position \<Rightarrow> claim_record \<Rightarrow> 't claim_system" where
  "moves s t p r = \<lparr>cs_record = r, cs_at = (cs_at s)(t := p)\<rparr>"

inductive claim_step :: "'t claim_system \<Rightarrow> 't claim_system \<Rightarrow> bool" where
  load_state_free:
    "cs_at s t = PIdle \<Longrightarrow> cr_state (cs_record s) \<in> {CPending, CFailed} \<Longrightarrow>
     claim_step s (moves s t (PClaimExchange (cr_state (cs_record s)) expires_at now) (cs_record s))"
| load_state_claimed:
    "cs_at s t = PIdle \<Longrightarrow> cr_state (cs_record s) = CClaimed \<Longrightarrow>
     claim_step s (moves s t (PClaimExpiry expires_at now) (cs_record s))"
| load_expiry_expired:
    "cs_at s t = PClaimExpiry expires_at now \<Longrightarrow> cr_expires_at (cs_record s) \<le> now \<Longrightarrow>
     claim_step s (moves s t (PClaimExchange CClaimed expires_at now) (cs_record s))"
| load_expiry_running:
    "cs_at s t = PClaimExpiry expires_at now \<Longrightarrow> \<not> cr_expires_at (cs_record s) \<le> now \<Longrightarrow>
     claim_step s (moves s t PIdle (cs_record s))"
| claim_exchange:
    "cs_at s t = PClaimExchange st expires_at now \<Longrightarrow> cr_state (cs_record s) = st \<Longrightarrow>
     claim_step s (moves s t (PClaimGeneration expires_at) ((cs_record s)\<lparr>cr_state := CClaiming\<rparr>))"
| claim_exchange_lost:
    "cs_at s t = PClaimExchange st expires_at now \<Longrightarrow> cr_state (cs_record s) \<noteq> st \<Longrightarrow>
     claim_step s (moves s t PIdle (cs_record s))"
| load_generation:
    "cs_at s t = PClaimGeneration expires_at \<Longrightarrow>
     checked_add (cr_generation (cs_record s)) 1 = Some g \<Longrightarrow>
     claim_step s (moves s t (PClaimStoreGeneration expires_at g) (cs_record s))"
| generation_exhausted:
    "cs_at s t = PClaimGeneration expires_at \<Longrightarrow>
     checked_add (cr_generation (cs_record s)) 1 = None \<Longrightarrow>
     claim_step s (moves s t PIdle ((cs_record s)\<lparr>cr_state := CFailed\<rparr>))"
| store_generation:
    "cs_at s t = PClaimStoreGeneration expires_at g \<Longrightarrow>
     claim_step s (moves s t (PClaimStoreExpiry expires_at g) ((cs_record s)\<lparr>cr_generation := g\<rparr>))"
| store_expiry:
    "cs_at s t = PClaimStoreExpiry expires_at g \<Longrightarrow>
     claim_step s (moves s t (PClaimStoreState g) ((cs_record s)\<lparr>cr_expires_at := expires_at\<rparr>))"
| store_claimed:
    "cs_at s t = PClaimStoreState g \<Longrightarrow>
     claim_step s (moves s t (POwner g) ((cs_record s)\<lparr>cr_state := CClaimed\<rparr>))"
| complete_generation:
    "cs_at s t = POwner g \<Longrightarrow> cr_generation (cs_record s) = g \<Longrightarrow>
     claim_step s (moves s t (PCompleteExchange g res) (cs_record s))"
| complete_stale:
    "cs_at s t = POwner g \<Longrightarrow> cr_generation (cs_record s) \<noteq> g \<Longrightarrow>
     claim_step s (moves s t (PDone False) (cs_record s))"
| complete_exchange:
    "cs_at s t = PCompleteExchange g res \<Longrightarrow> cr_state (cs_record s) = CClaimed \<Longrightarrow>
     claim_step s (moves s t (PCompleteSet res) ((cs_record s)\<lparr>cr_state := CCompleting\<rparr>))"
| complete_exchange_lost:
    "cs_at s t = PCompleteExchange g res \<Longrightarrow> cr_state (cs_record s) \<noteq> CClaimed \<Longrightarrow>
     claim_step s (moves s t (PDone False) (cs_record s))"
| complete_set:
    "cs_at s t = PCompleteSet res \<Longrightarrow> cr_result (cs_record s) = None \<Longrightarrow>
     claim_step s (moves s t PCompleteStore ((cs_record s)\<lparr>cr_result := Some res\<rparr>))"
| complete_set_twice:
    "cs_at s t = PCompleteSet res \<Longrightarrow> cr_result (cs_record s) \<noteq> None \<Longrightarrow>
     claim_step s (moves s t (PDone False) ((cs_record s)\<lparr>cr_state := CFailed\<rparr>))"
| complete_store:
    "cs_at s t = PCompleteStore \<Longrightarrow>
     claim_step s (moves s t (PDone True) ((cs_record s)\<lparr>cr_state := CCompleted\<rparr>))"
| fail_generation:
    "cs_at s t = POwner g \<Longrightarrow> cr_generation (cs_record s) = g \<Longrightarrow>
     claim_step s (moves s t (PFailExchange g) (cs_record s))"
| fail_exchange:
    "cs_at s t = PFailExchange g \<Longrightarrow> cr_state (cs_record s) = CClaimed \<Longrightarrow>
     claim_step s (moves s t PIdle ((cs_record s)\<lparr>cr_state := CFailed\<rparr>))"
| fail_exchange_lost:
    "cs_at s t = PFailExchange g \<Longrightarrow> cr_state (cs_record s) \<noteq> CClaimed \<Longrightarrow>
     claim_step s (moves s t (PDone False) (cs_record s))"

text \<open>A record published in a store: claimed by nobody in particular, or released.\<close>

definition claim_init :: "claim_record \<Rightarrow> 't claim_system" where
  "claim_init r = \<lparr>cs_record = r, cs_at = (\<lambda>_. PIdle)\<rparr>"

text \<open>A thread inside the exclusive section of a claim, or of a completion.\<close>

fun claiming :: "claim_position \<Rightarrow> bool" where
  "claiming (PClaimGeneration _) = True"
| "claiming (PClaimStoreGeneration _ _) = True"
| "claiming (PClaimStoreExpiry _ _) = True"
| "claiming (PClaimStoreState _) = True"
| "claiming _ = False"

fun completing :: "claim_position \<Rightarrow> bool" where
  "completing (PCompleteSet _) = True"
| "completing PCompleteStore = True"
| "completing _ = False"

text \<open>The generation a thread was granted and still carries.\<close>

fun granted :: "claim_position \<Rightarrow> u64 option" where
  "granted (PClaimStoreExpiry _ g) = Some g"
| "granted (PClaimStoreState g) = Some g"
| "granted (POwner g) = Some g"
| "granted (PCompleteExchange g _) = Some g"
| "granted (PFailExchange g) = Some g"
| "granted _ = None"

text \<open>
  The invariant in three parts: the transient states are exclusive sections, the result is written
  once, and no two threads carry the same generation.
\<close>

definition excl_inv :: "'t claim_system \<Rightarrow> bool" where
  "excl_inv s \<longleftrightarrow>
     (\<forall>t. claiming (cs_at s t) \<longrightarrow> cr_state (cs_record s) = CClaiming) \<and>
     (\<forall>t. completing (cs_at s t) \<longrightarrow> cr_state (cs_record s) = CCompleting) \<and>
     (\<forall>t u. claiming (cs_at s t) \<longrightarrow> claiming (cs_at s u) \<longrightarrow> t = u) \<and>
     (\<forall>t u. completing (cs_at s t) \<longrightarrow> completing (cs_at s u) \<longrightarrow> t = u) \<and>
     (\<forall>t e n st. cs_at s t = PClaimExchange st e n \<longrightarrow> st \<in> {CPending, CFailed, CClaimed})"

definition result_inv :: "'t claim_system \<Rightarrow> bool" where
  "result_inv s \<longleftrightarrow>
     (cr_result (cs_record s) \<noteq> None \<longrightarrow> cr_state (cs_record s) \<in> {CCompleted, CCompleting}) \<and>
     (cr_state (cs_record s) = CCompleted \<longrightarrow> cr_result (cs_record s) \<noteq> None) \<and>
     (\<forall>t res. cs_at s t = PCompleteSet res \<longrightarrow> cr_result (cs_record s) = None) \<and>
     (\<forall>t. cs_at s t = PCompleteStore \<longrightarrow> cr_result (cs_record s) \<noteq> None) \<and>
     (\<forall>t. cs_at s t = PDone True \<longrightarrow> cr_state (cs_record s) = CCompleted) \<and>
     (\<forall>t u. cs_at s t = PDone True \<longrightarrow> cs_at s u = PDone True \<longrightarrow> t = u)"

definition grant_inv :: "'t claim_system \<Rightarrow> bool" where
  "grant_inv s \<longleftrightarrow>
     (\<forall>t u g. granted (cs_at s t) = Some g \<longrightarrow> granted (cs_at s u) = Some g \<longrightarrow> t = u) \<and>
     (\<forall>t g. granted (cs_at s t) = Some g \<longrightarrow> g \<le> cr_generation (cs_record s)) \<and>
     (\<forall>t e g. cs_at s t = PClaimStoreGeneration e g \<longrightarrow> cr_generation (cs_record s) < g)"

lemma moves_sel [simp]:
  "cs_record (moves s t p r) = r" "cs_at (moves s t p r) u = (if u = t then p else cs_at s u)"
  by (auto simp: moves_def)

lemma excl_invD:
  assumes "excl_inv s"
  shows "claiming (cs_at s t) \<Longrightarrow> cr_state (cs_record s) = CClaiming"
    "completing (cs_at s t) \<Longrightarrow> cr_state (cs_record s) = CCompleting"
    "claiming (cs_at s t) \<Longrightarrow> claiming (cs_at s u) \<Longrightarrow> t = u"
    "completing (cs_at s t) \<Longrightarrow> completing (cs_at s u) \<Longrightarrow> t = u"
    "cs_at s t = PClaimExchange st e n \<Longrightarrow> st \<in> {CPending, CFailed, CClaimed}"
  using assms unfolding excl_inv_def by blast+

text \<open>Moving a thread between positions outside both sections, or within one of them.\<close>

lemma excl_inv_move:
  assumes "excl_inv s" "claiming p = claiming (cs_at s t)" "completing p = completing (cs_at s t)"
    "cr_state r = cr_state (cs_record s)" "\<And>st e n. p = PClaimExchange st e n \<Longrightarrow> st \<in> {CPending, CFailed, CClaimed}"
  shows "excl_inv (moves s t p r)"
  using assms unfolding excl_inv_def by (auto split: if_splits)

text \<open>Entering a section from a stable state, or leaving it to one.\<close>

lemma excl_inv_enter:
  assumes "excl_inv s" "cr_state (cs_record s) \<notin> {CClaiming, CCompleting}"
    "claiming p \<longrightarrow> cr_state r = CClaiming" "completing p \<longrightarrow> cr_state r = CCompleting"
    "\<And>st e n. p = PClaimExchange st e n \<Longrightarrow> st \<in> {CPending, CFailed, CClaimed}"
  shows "excl_inv (moves s t p r)"
proof -
  have out: "\<not> claiming (cs_at s u)" "\<not> completing (cs_at s u)" for u
    using assms(2) excl_invD(1,2) [OF assms(1), of u] by auto
  show ?thesis
    unfolding excl_inv_def using assms(3-5) out excl_invD(5) [OF assms(1)] by (auto split: if_splits)
qed

lemma excl_inv_leave:
  assumes "excl_inv s" "claiming (cs_at s t) \<or> completing (cs_at s t)" "\<not> claiming p" "\<not> completing p"
    "\<And>st e n. p \<noteq> PClaimExchange st e n"
  shows "excl_inv (moves s t p r)"
proof -
  have out: "\<not> claiming (cs_at s u)" "\<not> completing (cs_at s u)" if "u \<noteq> t" for u
    using assms(2) excl_invD(1,2) [OF assms(1), of t] excl_invD [OF assms(1), of u] that
      excl_invD(3,4) [OF assms(1), of t u] by (metis claim_state.distinct(29))+
  then show ?thesis
    unfolding excl_inv_def using assms(3-5) excl_invD(5) [OF assms(1)] by (auto split: if_splits)
qed

lemma excl_inv_step: "claim_step s s' \<Longrightarrow> excl_inv s \<Longrightarrow> excl_inv s'"
proof (induction rule: claim_step.induct)
  case (claim_exchange s t st expires_at now)
  then have "cr_state (cs_record s) \<notin> {CClaiming, CCompleting}" using excl_invD(5) [of s t] by auto
  then show ?case using claim_exchange.prems by (intro excl_inv_enter) auto
next
  case (complete_exchange s t g res)
  then show ?case by (intro excl_inv_enter) auto
next
  case (fail_exchange s t g)
  then show ?case by (intro excl_inv_enter) auto
next
  case (generation_exhausted s t expires_at)
  then show ?case by (intro excl_inv_leave) auto
next
  case (store_claimed s t g)
  then show ?case by (intro excl_inv_leave) auto
next
  case (complete_set_twice s t res)
  then show ?case by (intro excl_inv_leave) auto
next
  case (complete_store s t)
  then show ?case by (intro excl_inv_leave) auto
qed (intro excl_inv_move; auto)+

lemma result_invD:
  assumes "result_inv s"
  shows "cr_result (cs_record s) \<noteq> None \<Longrightarrow> cr_state (cs_record s) \<in> {CCompleted, CCompleting}"
    "cr_state (cs_record s) = CCompleted \<Longrightarrow> cr_result (cs_record s) \<noteq> None"
    "cs_at s t = PCompleteSet res \<Longrightarrow> cr_result (cs_record s) = None"
    "cs_at s t = PCompleteStore \<Longrightarrow> cr_result (cs_record s) \<noteq> None"
    "cs_at s t = PDone True \<Longrightarrow> cr_state (cs_record s) = CCompleted"
  using assms unfolding result_inv_def by blast+

text \<open>Steps that keep the result and do not finish a completion.\<close>

lemma result_inv_move:
  assumes "result_inv s" "excl_inv s" "cr_result r = cr_result (cs_record s)" "cr_state r = cr_state (cs_record s)"
    "\<not> completing p" "p \<noteq> PDone True"
  shows "result_inv (moves s t p r)"
  using assms unfolding result_inv_def by (auto split: if_splits)

text \<open>Steps between states in which no result is set.\<close>

lemma result_inv_open:
  assumes "result_inv s" "excl_inv s" "cr_state (cs_record s) \<notin> {CCompleted, CCompleting}"
    "cr_result r = cr_result (cs_record s)" "cr_state r \<noteq> CCompleted" "p \<noteq> PDone True" "p \<noteq> PCompleteStore"
  shows "result_inv (moves s t p r)"
proof -
  have none: "cr_result (cs_record s) = None"
    using result_invD(1) [OF assms(1)] assms(3) by blast
  moreover have "cs_at s u \<noteq> PDone True" "cs_at s u \<noteq> PCompleteStore" for u
    using result_invD(4,5) [OF assms(1), of u] none assms(3) by auto
  ultimately show ?thesis
    unfolding result_inv_def using assms(4-7) by (auto split: if_splits)
qed

lemma sole_completing:
  assumes "excl_inv s" "completing (cs_at s t)" "u \<noteq> t"
  shows "cs_at s u \<noteq> PCompleteSet res" "cs_at s u \<noteq> PCompleteStore"
  using excl_invD(4) [OF assms(1,2), of u] assms(3) by auto

lemma result_inv_step:
  assumes "claim_step s s'" "excl_inv s" "result_inv s"
  shows "result_inv s'"
  using assms
proof (induction rule: claim_step.induct)
  case (claim_exchange s t st expires_at now)
  then have "cr_state (cs_record s) \<notin> {CCompleted, CCompleting}" using excl_invD(5) [of s t] by auto
  then show ?case using claim_exchange by (intro result_inv_open) auto
next
  case (complete_exchange s t g res)
  then show ?case by (intro result_inv_open) auto
next
  case (fail_exchange s t g)
  then show ?case by (intro result_inv_open) auto
next
  case (generation_exhausted s t expires_at)
  then show ?case using excl_invD(1) [of s t] by (intro result_inv_open) auto
next
  case (store_claimed s t g)
  then show ?case using excl_invD(1) [of s t] by (intro result_inv_open) auto
next
  case (complete_set s t res)
  note only = sole_completing [OF complete_set.prems(1), of t]
  have st: "cr_state (cs_record s) = CCompleting" using excl_invD(2) [of s t] complete_set by simp
  show ?case unfolding result_inv_def
    using st only result_invD(5) [OF complete_set.prems(2)] complete_set(1) by (auto split: if_splits)
next
  case (complete_set_twice s t res)
  then show ?case using result_invD(3) [OF complete_set_twice.prems(2) complete_set_twice(1)] by simp
next
  case (complete_store s t)
  note only = sole_completing [OF complete_store.prems(1), of t]
  have st: "cr_state (cs_record s) = CCompleting" using excl_invD(2) [of s t] complete_store by simp
  have "cr_result (cs_record s) \<noteq> None" using result_invD(4) [OF complete_store.prems(2) complete_store(1)] .
  then show ?case unfolding result_inv_def
    using st only result_invD(5) [OF complete_store.prems(2)] complete_store(1) by (auto split: if_splits)
qed (intro result_inv_move; auto)+

lemma grant_invD:
  assumes "grant_inv s"
  shows "granted (cs_at s t) = Some g \<Longrightarrow> granted (cs_at s u) = Some g \<Longrightarrow> t = u"
    "granted (cs_at s t) = Some g \<Longrightarrow> g \<le> cr_generation (cs_record s)"
    "cs_at s t = PClaimStoreGeneration e g \<Longrightarrow> cr_generation (cs_record s) < g"
  using assms unfolding grant_inv_def by blast+

lemma grant_inv_move:
  assumes "grant_inv s" "cr_generation r = cr_generation (cs_record s)"
    "granted p = None \<or> granted p = granted (cs_at s t)" "\<And>e g. p \<noteq> PClaimStoreGeneration e g"
  shows "grant_inv (moves s t p r)"
  unfolding grant_inv_def
proof (intro conjI allI impI)
  have old: "granted (cs_at s u) = Some h" if "granted (cs_at (moves s t p r) u) = Some h" for u h
    using that assms(3) by (auto split: if_splits)
  show "v = u" if "granted (cs_at (moves s t p r) v) = Some g" "granted (cs_at (moves s t p r) u) = Some g" for v u g
    using grant_invD(1) [OF assms(1) old old] that by blast
  show "g \<le> cr_generation (cs_record (moves s t p r))" if "granted (cs_at (moves s t p r) u) = Some g" for u g
    using grant_invD(2) [OF assms(1) old [OF that]] assms(2) by simp
  show "cr_generation (cs_record (moves s t p r)) < g" if "cs_at (moves s t p r) u = PClaimStoreGeneration e g" for u e g
    using grant_invD(3) [OF assms(1), of u e g] that assms(2,4) by (auto split: if_splits)
qed

lemma grant_inv_step:
  assumes "claim_step s s'" "excl_inv s" "grant_inv s"
  shows "grant_inv s'"
  using assms
proof (induction rule: claim_step.induct)
  case (load_generation s t expires_at g)
  then show ?case
    using grant_invD [OF load_generation.prems(2)] checked_add_1_less [OF load_generation(2)]
    unfolding grant_inv_def by (auto split: if_splits)
next
  case (store_generation s t expires_at g)
  note lt = grant_invD(3) [OF store_generation.prems(2) store_generation(1)]
  have "u = t" if "cs_at s u = PClaimStoreGeneration e h" for u e h
    using excl_invD(3) [OF store_generation.prems(1), of u t] that store_generation(1) by simp
  moreover have "h < g" if "granted (cs_at s u) = Some h" for u h
    using grant_invD(2) [OF store_generation.prems(2) that] lt by simp
  ultimately show ?case
    using grant_invD(1) [OF store_generation.prems(2)] unfolding grant_inv_def
    by (fastforce split: if_splits)
qed (intro grant_inv_move; auto)+

lemma claim_invs_reachable:
  assumes "claim_step\<^sup>*\<^sup>* (claim_init r) s" "cr_wf r"
  shows "excl_inv s \<and> result_inv s \<and> grant_inv s"
  using assms(1)
proof (induction rule: rtranclp_induct)
  case base
  show ?case using assms(2)
    by (auto simp: claim_init_def excl_inv_def result_inv_def grant_inv_def cr_wf_def)
next
  case (step s s')
  then show ?case by (blast intro: excl_inv_step result_inv_step grant_inv_step)
qed

text \<open>A completed record is never touched again, so its result is final.\<close>

lemma completed_step:
  assumes "claim_step s s'" "excl_inv s" "result_inv s" "cr_state (cs_record s) = CCompleted"
  shows "cs_record s' = cs_record s"
proof -
  have "\<not> claiming (cs_at s t)" "\<not> completing (cs_at s t)" for t
    using excl_invD(1,2) [OF assms(2), of t] assms(4) by auto
  then have "cs_at s t \<noteq> PClaimGeneration e" "cs_at s t \<noteq> PClaimStoreGeneration e g"
    "cs_at s t \<noteq> PClaimStoreExpiry e g" "cs_at s t \<noteq> PClaimStoreState g"
    "cs_at s t \<noteq> PCompleteSet res" "cs_at s t \<noteq> PCompleteStore" for t e g res
    by (metis claiming.simps(1-4) completing.simps(1,2))+
  with assms(1,4) excl_invD(5) [OF assms(2)] show ?thesis by cases auto
qed

lemma completed_steps:
  assumes "claim_step\<^sup>*\<^sup>* s s'" "excl_inv s" "result_inv s" "cr_state (cs_record s) = CCompleted"
  shows "cs_record s' = cs_record s"
proof -
  have "cs_record s' = cs_record s \<and> excl_inv s' \<and> result_inv s'"
    using assms(1)
  proof (induction rule: rtranclp_induct)
    case base
    then show ?case using assms(2,3) by simp
  next
    case (step s1 s2)
    then show ?case using completed_step [of s1 s2] excl_inv_step result_inv_step assms(4) by metis
  qed
  then show ?thesis by simp
qed

text \<open>
  Property C9: what every interleaving of claims, completions and failures of one record guarantees.
  No two threads ever carry the same generation; at most one thread is told that its completion
  succeeded; once it was, the record is completed with a result, and no later step of any thread
  changes the record, so the retained result is final.
\<close>

theorem claim_interleaving_safe:
  assumes "cr_wf r" "claim_step\<^sup>*\<^sup>* (claim_init r) s" "claim_step\<^sup>*\<^sup>* s s'"
  shows "(\<forall>t u g. cs_at s t = POwner g \<longrightarrow> cs_at s u = POwner g \<longrightarrow> t = u) \<and>
    (\<forall>t u. cs_at s t = PDone True \<longrightarrow> cs_at s u = PDone True \<longrightarrow> t = u) \<and>
    (\<forall>t. cs_at s t = PDone True \<longrightarrow> cr_state (cs_record s) = CCompleted \<and> cr_result (cs_record s) \<noteq> None \<and>
       cs_record s' = cs_record s)"
proof -
  from claim_invs_reachable [OF assms(2,1)]
  have inv: "excl_inv s" "result_inv s" "grant_inv s" by blast+
  have "t = u" if "cs_at s t = POwner g" "cs_at s u = POwner g" for t u g
    using grant_invD(1) [OF inv(3), of t g u] that by simp
  moreover have "t = u" if "cs_at s t = PDone True" "cs_at s u = PDone True" for t u
    using inv(2) that unfolding result_inv_def by blast
  moreover have "cr_state (cs_record s) = CCompleted \<and> cr_result (cs_record s) \<noteq> None \<and> cs_record s' = cs_record s"
    if "cs_at s t = PDone True" for t
    using result_invD(2,5) [OF inv(2)] completed_steps [OF assms(3) inv(1,2)] that by blast
  ultimately show ?thesis by blast
qed

section \<open>Uninterrupted runs are the sequential operations\<close>

lemma moves_moves [simp]: "moves (moves s t p r) t p' r' = moves s t p' r'"
  by (simp add: moves_def)

lemma steps_2: "claim_step a b \<Longrightarrow> claim_step\<^sup>*\<^sup>* b c \<Longrightarrow> claim_step\<^sup>*\<^sup>* a c"
  by (rule converse_rtranclp_into_rtranclp)

lemma claim_section_run:
  assumes "cs_at s t = PClaimExchange st e n" "cr_state (cs_record s) = st"
    "checked_add (cr_generation (cs_record s)) 1 = Some g"
  shows "claim_step\<^sup>*\<^sup>* s (moves s t (POwner g)
    ((cs_record s)\<lparr>cr_generation := g, cr_expires_at := e, cr_state := CClaimed\<rparr>))"
proof -
  let ?r = "(cs_record s)\<lparr>cr_state := CClaiming\<rparr>"
  let ?r2 = "?r\<lparr>cr_generation := g\<rparr>"
  let ?r3 = "?r2\<lparr>cr_expires_at := e\<rparr>"
  have "claim_step s (moves s t (PClaimGeneration e) ?r)"
    using assms(1,2) by (rule claim_exchange)
  moreover have "claim_step (moves s t (PClaimGeneration e) ?r) (moves s t (PClaimStoreGeneration e g) ?r)"
    using load_generation [of "moves s t (PClaimGeneration e) ?r" t e g] assms(3) by simp
  moreover have "claim_step (moves s t (PClaimStoreGeneration e g) ?r) (moves s t (PClaimStoreExpiry e g) ?r2)"
    using store_generation [of "moves s t (PClaimStoreGeneration e g) ?r" t e g] by simp
  moreover have "claim_step (moves s t (PClaimStoreExpiry e g) ?r2) (moves s t (PClaimStoreState g) ?r3)"
    using store_expiry [of "moves s t (PClaimStoreExpiry e g) ?r2" t e g] by simp
  moreover have "claim_step (moves s t (PClaimStoreState g) ?r3) (moves s t (POwner g) (?r3\<lparr>cr_state := CClaimed\<rparr>))"
    using store_claimed [of "moves s t (PClaimStoreState g) ?r3" t g] by simp
  moreover have "?r3\<lparr>cr_state := CClaimed\<rparr> =
      (cs_record s)\<lparr>cr_generation := g, cr_expires_at := e, cr_state := CClaimed\<rparr>" by simp
  ultimately show ?thesis by (metis (no_types, lifting) steps_2 rtranclp.rtrancl_refl)
qed

lemma claim_runs_alone:
  assumes idle: "cs_at s t = PIdle" and cl: "try_claim_generation_until e n (cs_record s) = (r', Some g)"
  shows "claim_step\<^sup>*\<^sup>* s (moves s t (POwner g) r')"
proof -
  let ?r = "cs_record s"
  from cl have g: "checked_add (cr_generation ?r) 1 = Some g"
    and r': "r' = ?r\<lparr>cr_generation := g, cr_expires_at := e, cr_state := CClaimed\<rparr>"
    by (auto simp: try_claim_generation_until_def split: if_splits option.splits)
  let ?s = "moves s t (PClaimExchange (cr_state ?r) e n) ?r"
  have "claim_step\<^sup>*\<^sup>* s ?s"
  proof (cases "cr_state ?r = CClaimed")
    case True
    have "claim_step s (moves s t (PClaimExpiry e n) ?r)" using idle True by (rule load_state_claimed)
    moreover have "claim_step (moves s t (PClaimExpiry e n) ?r) ?s"
      using load_expiry_expired [of "moves s t (PClaimExpiry e n) ?r" t e n] claim_generation(6) [OF cl] True by simp
    ultimately show ?thesis by (metis steps_2 rtranclp.rtrancl_refl)
  next
    case False
    then have "claim_step s ?s" using idle claim_generation(6) [OF cl] by (intro load_state_free) auto
    then show ?thesis by simp
  qed
  moreover have "claim_step\<^sup>*\<^sup>* ?s (moves s t (POwner g) r')"
    using claim_section_run [of ?s t "cr_state ?r" e n g] g r' by simp
  ultimately show ?thesis by (rule rtranclp_trans)
qed

lemma complete_runs_alone:
  assumes own: "cs_at s t = POwner g" and co: "complete_for g res (cs_record s) = (r', True)"
  shows "claim_step\<^sup>*\<^sup>* s (moves s t (PDone True) r')"
proof -
  let ?r = "cs_record s" and ?c = "(cs_record s)\<lparr>cr_state := CCompleting\<rparr>"
  from co have ok: "cr_generation ?r = g" "cr_state ?r = CClaimed" "cr_result ?r = None"
    and r': "r' = ?c\<lparr>cr_result := Some res, cr_state := CCompleted\<rparr>"
    by (auto simp: complete_for_def split: if_splits)
  have "claim_step s (moves s t (PCompleteExchange g res) ?r)" using own ok(1) by (rule complete_generation)
  moreover have "claim_step (moves s t (PCompleteExchange g res) ?r) (moves s t (PCompleteSet res) ?c)"
    using complete_exchange [of "moves s t (PCompleteExchange g res) ?r" t g res] ok by simp
  moreover have "claim_step (moves s t (PCompleteSet res) ?c) (moves s t PCompleteStore (?c\<lparr>cr_result := Some res\<rparr>))"
    using complete_set [of "moves s t (PCompleteSet res) ?c" t res] ok by simp
  moreover have "claim_step (moves s t PCompleteStore (?c\<lparr>cr_result := Some res\<rparr>)) (moves s t (PDone True) r')"
    using complete_store [of "moves s t PCompleteStore (?c\<lparr>cr_result := Some res\<rparr>)" t] r' by simp
  ultimately show ?thesis
    by (metis (no_types, lifting) steps_2 rtranclp.rtrancl_refl)
qed

lemma fail_runs_alone:
  assumes own: "cs_at s t = POwner g" and f: "fail_for g (cs_record s) = (r', True)"
  shows "claim_step\<^sup>*\<^sup>* s (moves s t PIdle r')"
proof -
  let ?r = "cs_record s"
  from f have ok: "cr_generation ?r = g" "cr_state ?r = CClaimed" "r' = ?r\<lparr>cr_state := CFailed\<rparr>"
    by (auto simp: fail_for_def split: if_splits)
  have "claim_step s (moves s t (PFailExchange g) ?r)" using own ok(1) by (rule fail_generation)
  moreover have "claim_step (moves s t (PFailExchange g) ?r) (moves s t PIdle r')"
    using fail_exchange [of "moves s t (PFailExchange g) ?r" t g] ok by simp
  ultimately show ?thesis by (metis steps_2 rtranclp.rtrancl_refl)
qed


section \<open>A delayed owner\<close>

text \<open>
  Two threads and a record whose lease of ten milliseconds has run out. Thread 0 owns generation 1 and
  has compared the generation; before it exchanges the state, thread 1 reclaims the record as
  generation 2. The exchange only compares the state, which is \<open>CLAIMED\<close> again, so it succeeds.
\<close>

definition race_record :: "u64 \<Rightarrow> u64 \<Rightarrow> claim_record" where
  "race_record g e = (claimed 1)\<lparr>cr_generation := g, cr_expires_at := e\<rparr>"

definition race_compared :: "nat claim_system" where
  "race_compared = moves (claim_init (race_record 1 10)) 0 (PCompleteExchange 1 (Some [7])) (race_record 1 10)"

definition race_reclaimed :: "nat claim_system" where
  "race_reclaimed = moves race_compared 1 (POwner 2) (race_record 2 40)"

definition race_overwritten :: "nat claim_system" where
  "race_overwritten = moves race_reclaimed 0 (PDone True)
     ((race_record 2 40)\<lparr>cr_result := Some (Some [7]), cr_state := CCompleted\<rparr>)"

lemmas race_defs = race_record_def race_compared_def race_reclaimed_def race_overwritten_def claimed_def

lemma race_compare: "claim_step\<^sup>*\<^sup>* (claim_init (claimed 1)) race_compared"
proof -
  have "claim_step\<^sup>*\<^sup>* (claim_init (claimed 1)) (moves (claim_init (claimed 1)) (0 :: nat) (POwner 1) (race_record 1 10))"
    by (rule claim_runs_alone [where e = 10 and n = 5])
      (simp_all add: claim_init_def race_defs try_claim_generation_until_def checked_add_def)
  moreover have "claim_step (moves (claim_init (claimed 1)) (0 :: nat) (POwner 1) (race_record 1 10)) race_compared"
    using complete_generation [of "moves (claim_init (claimed 1)) (0 :: nat) (POwner 1) (race_record 1 10)" 0 1 "Some [7]"]
    by (simp add: race_defs moves_def claim_init_def)
  ultimately show ?thesis by (rule rtranclp.rtrancl_into_rtrancl)
qed

lemma race_reclaim: "claim_step\<^sup>*\<^sup>* race_compared race_reclaimed"
  unfolding race_reclaimed_def
  by (rule claim_runs_alone [where e = 40 and n = 30])
    (simp_all add: claim_init_def race_defs try_claim_generation_until_def checked_add_def)

lemma race_overwrite: "claim_step\<^sup>*\<^sup>* race_reclaimed race_overwritten"
proof -
  let ?c = "(race_record 2 40)\<lparr>cr_state := CCompleting\<rparr>"
  have "claim_step race_reclaimed (moves race_reclaimed 0 (PCompleteSet (Some [7])) ?c)"
    using complete_exchange [of race_reclaimed 0 1 "Some [7]"] by (simp add: race_defs)
  moreover have "claim_step (moves race_reclaimed 0 (PCompleteSet (Some [7])) ?c)
      (moves race_reclaimed 0 PCompleteStore (?c\<lparr>cr_result := Some (Some [7])\<rparr>))"
    using complete_set [of "moves race_reclaimed 0 (PCompleteSet (Some [7])) ?c" 0] by (simp add: race_defs)
  moreover have "claim_step (moves race_reclaimed 0 PCompleteStore (?c\<lparr>cr_result := Some (Some [7])\<rparr>)) race_overwritten"
    using complete_store [of "moves race_reclaimed 0 PCompleteStore (?c\<lparr>cr_result := Some (Some [7])\<rparr>)" 0]
    by (simp add: race_overwritten_def)
  ultimately show ?thesis by (metis (no_types, lifting) steps_2 rtranclp.rtrancl_refl)
qed

text \<open>
  Property C11: the fence of a claim record has a gap. The comparison of the generation and the
  exchange of the state are two accesses, and a delayed former owner slips between them: generation 1 completes the record, with its own result, after
  generation 2 was granted to another thread that still works on the message.
\<close>

theorem delayed_owner_overwrites:
  "\<exists>s :: nat claim_system. claim_step\<^sup>*\<^sup>* (claim_init (claimed 1)) s \<and>
     cs_at s 0 = PDone True \<and> cs_at s 1 = POwner 2 \<and> cr_generation (cs_record s) = 2 \<and>
     record_result (cs_record s) = Some [7]"
proof (intro exI conjI)
  show "claim_step\<^sup>*\<^sup>* (claim_init (claimed 1)) race_overwritten"
    using race_compare race_reclaim race_overwrite by (blast intro: rtranclp_trans)
qed (simp_all add: race_defs record_result_def)


theorem claim_interleaving_safe_witness:
  "cs_at race_overwritten 0 = PDone True \<and> claim_step\<^sup>*\<^sup>* (claim_init (claimed 1)) race_overwritten \<and>
   cr_result (cs_record race_overwritten) \<noteq> None"
proof -
  have run: "claim_step\<^sup>*\<^sup>* (claim_init (claimed 1)) race_overwritten"
    using race_compare race_reclaim race_overwrite by (blast intro: rtranclp_trans)
  have fin: "cs_at race_overwritten 0 = PDone True" by (simp add: race_defs)
  show ?thesis
    using claim_interleaving_safe [OF cr_wf_claimed run rtranclp.rtrancl_refl] fin run by blast
qed

end
