(* ===== verification/Claim_Table.thy ===== *)
theory Claim_Table
  imports Claims Retention
begin

text \<open>
  What \<open>MemoryInbox\<close> and \<open>MemoryIdempotency\<close> have in common: both structs hold claim records and an index
  of the completed ones under the same keys, a capacity, an identity sequence and a retention; the
  inbox keys them by message identifier, the idempotency store by string. The theory has the shared
  struct, the invariant and its preservation by the four ways the stores change the table.
\<close>

record 'k claim_table =
  ct_records :: "'k \<rightharpoonup> claim_record"
  ct_completed :: "'k \<rightharpoonup> retired_record"
  ct_capacity :: record_capacity
  ct_sequence :: record_sequence
  ct_retention :: duration

definition ct_completed_record :: "claim_record \<Rightarrow> bool" where
  "ct_completed_record r \<longleftrightarrow> record_state r = PsCompleted"

text \<open>The removal loop of both \<open>cleanup_completed\<close> methods, on the candidates of the snapshot.\<close>

definition ct_remove :: "('k \<times> retired_record) list \<Rightarrow> 'k claim_table \<Rightarrow> 'k claim_table \<times> nat" where
  "ct_remove candidates s =
     (case sweep cr_identity ct_completed_record candidates
             (ct_records s, ct_completed s, ct_capacity s, 0) of
        (records, index, cap, removed) \<Rightarrow>
          (s\<lparr>ct_records := records, ct_completed := index, ct_capacity := cap\<rparr>, removed))"

definition ct_inv :: "'k claim_table \<Rightarrow> bool" where
  "ct_inv s \<longleftrightarrow>
     cap.accounts (ct_capacity s) (ct_records s) \<and>
     (\<forall>k r. ct_records s k = Some r \<longrightarrow> cr_wf r \<and> cr_identity r < ct_sequence s) \<and>
     indexed cr_identity ct_completed_record (ct_records s) (ct_completed s)"

text \<open>A completed record of the key is retained.\<close>

definition key_finished :: "'k claim_table \<Rightarrow> 'k \<Rightarrow> bool" where
  "key_finished s k \<longleftrightarrow> (\<exists>r. ct_records s k = Some r \<and> cr_state r = CCompleted)"

lemma ct_completed_record_iff [simp]: "ct_completed_record r \<longleftrightarrow> cr_state r = CCompleted"
  by (simp add: ct_completed_record_def record_state_def split: claim_state.splits)

lemma ct_inv_record: "ct_inv s \<Longrightarrow> ct_records s k = Some r \<Longrightarrow> cr_wf r"
  by (simp add: ct_inv_def)

lemma ct_inv_update:
  assumes "ct_inv s" "ct_records s k = Some r" "cr_state r \<noteq> CCompleted" "cr_wf r'"
    "cr_identity r' = cr_identity r" "cr_state r' \<noteq> CCompleted"
  shows "ct_inv (s\<lparr>ct_records := (ct_records s)(k \<mapsto> r')\<rparr>)"
proof -
  have "indexed cr_identity ct_completed_record ((ct_records s)(k \<mapsto> r')) (ct_completed s)"
    using assms by (intro indexed_update [where r' = r]) (simp_all add: ct_inv_def)
  with assms show ?thesis by (auto simp: ct_inv_def intro: cap.accounts_update)
qed

lemma ct_inv_complete:
  assumes "ct_inv s" "ct_records s k = Some r" "cr_wf r'" "cr_identity r' = cr_identity r"
    "cr_state r' = CCompleted"
  shows "ct_inv (s\<lparr>ct_records := (ct_records s)(k \<mapsto> r'),
     ct_completed := (ct_completed s)(k \<mapsto> \<lparr>rr_at = at, rr_identity = cr_identity r\<rparr>)\<rparr>)"
proof -
  have "indexed cr_identity ct_completed_record ((ct_records s)(k \<mapsto> r'))
      ((ct_completed s)(k \<mapsto> \<lparr>rr_at = at, rr_identity = cr_identity r\<rparr>))"
    using assms by (intro indexed_finish) (simp_all add: ct_inv_def)
  with assms show ?thesis by (auto simp: ct_inv_def intro: cap.accounts_update)
qed

lemma ct_inv_insert:
  assumes "ct_inv s" "reserve (ct_capacity s) = (cp, True)" "ct_records s k = None"
    "sequence_next (ct_sequence s) = (sq, Inr identity)"
    "cr_wf r" "cr_identity r = identity" "cr_state r \<noteq> CCompleted"
  shows "ct_inv (s\<lparr>ct_capacity := cp, ct_sequence := sq, ct_records := (ct_records s)(k \<mapsto> r)\<rparr>)"
proof -
  from assms(4) have sq: "checked_add (ct_sequence s) 1 = Some sq" "identity = ct_sequence s"
    by (simp_all add: sequence_next_Inr)
  have lt: "ct_sequence s < sq" using sq(1) by (rule checked_add_1_less)
  have "cap.accounts cp ((ct_records s)(k \<mapsto> r))"
    using cap.accounts_insert [of "ct_capacity s" "ct_records s" k r] assms(1,2,3) by (simp add: ct_inv_def)
  moreover have "indexed cr_identity ct_completed_record ((ct_records s)(k \<mapsto> r)) (ct_completed s)"
    using assms by (intro indexed_update) (simp_all add: ct_inv_def)
  moreover have "cr_wf r0 \<and> cr_identity r0 < sq" if "((ct_records s)(k \<mapsto> r)) j = Some r0" for j r0
    using that assms(1,5,6) sq(2) lt by (fastforce simp: ct_inv_def split: if_splits)
  ultimately show ?thesis by (simp add: ct_inv_def)
qed

lemma ct_inv_unreserve:
  assumes "ct_inv s" "reserve (ct_capacity s) = (cp, True)"
  shows "ct_inv (s\<lparr>ct_capacity := capacity_release cp\<rparr>)"
  using cap.accounts_undo [of "ct_capacity s" "ct_records s"] assms by (simp add: ct_inv_def)

lemma ct_remove_exact:
  assumes "ct_remove cs s = (s', removed)" "ct_inv s" "cs = cleanup_candidates now ret limit iter (ct_completed s)"
  shows "ct_inv s'" "ct_records s' = ct_records s |` (- fst ` set cs)"
    "ct_completed s' = ct_completed s |` (- fst ` set cs)"
    "removed + card (dom (ct_records s')) = card (dom (ct_records s))" "removed \<le> limit"
    "rc_limit (ct_capacity s') = rc_limit (ct_capacity s)" "ct_retention s' = ct_retention s"
    "\<forall>k r. ct_records s k = Some r \<longrightarrow> cr_state r \<noteq> CCompleted \<longrightarrow> ct_records s' k = Some r"
proof -
  obtain records index cp where sw: "sweep cr_identity ct_completed_record cs
      (ct_records s, ct_completed s, ct_capacity s, 0) = (records, index, cp, removed)"
    and s': "s' = s\<lparr>ct_records := records, ct_completed := index, ct_capacity := cp\<rparr>"
    using assms(1) by (auto simp: ct_remove_def split: prod.splits)
  from assms(2) have inv: "cap.accounts (ct_capacity s) (ct_records s)"
    "indexed cr_identity ct_completed_record (ct_records s) (ct_completed s)"
    "\<forall>k r. ct_records s k = Some r \<longrightarrow> cr_wf r \<and> cr_identity r < ct_sequence s"
    by (auto simp: ct_inv_def)
  have "\<forall>(k, c) \<in> set cs. ct_completed s k = Some c \<or> ct_completed s k = None \<and> ct_records s k = None"
    unfolding assms(3) using cleanup_candidates_mem by fastforce
  note ex = sweep_exact [OF sw inv(2) this] and sf = sweep_safe [OF sw inv(1)]
  have "length cs \<le> limit" unfolding assms(3) by (rule cleanup_candidates_length)
  with ex sf inv(3) show "ct_inv s'" "ct_records s' = ct_records s |` (- fst ` set cs)"
    "ct_completed s' = ct_completed s |` (- fst ` set cs)"
    "removed + card (dom (ct_records s')) = card (dom (ct_records s))" "removed \<le> limit"
    "rc_limit (ct_capacity s') = rc_limit (ct_capacity s)" "ct_retention s' = ct_retention s"
    by (auto simp: s' ct_inv_def restrict_map_def)
  from sf show "\<forall>k r. ct_records s k = Some r \<longrightarrow> cr_state r \<noteq> CCompleted \<longrightarrow> ct_records s' k = Some r"
    by (simp add: s') (metis option.inject)
qed

end
