(* ===== verification/Processing.thy ===== *)
theory Processing
  imports Reliability
begin

text \<open>
  The two pipeline behaviors that suppress duplicate execution:
  \<open>IdempotencyBehavior\<close> (\<open>crates/catga-core/src/behaviors/idempotency.rs\<close>) and \<open>InboxBehavior\<close>
  (\<open>behaviors/inbox.rs\<close>). Both drive a store behind a trait, so the store's operations are an argument
  here, and what the behaviors rely on is the locale \<open>processing_store\<close>. The response codec and the rest
  of the pipeline are arguments too; the pipeline acts on a world of its own, which shows whether it
  ran.
\<close>

section \<open>The behaviors\<close>

text \<open>
  The operations of \<open>IdempotencyStore\<close> and \<open>InboxStore\<close> the behaviors call. A claim yields the handle that
  completes or fails it; the idempotency store answers with a boolean and its handle is the key. The
  first argument of the operations that read the clock or iterate is what they observe.
\<close>

record ('e, 'k, 'c, 's) store_ops =
  so_claim :: "'e \<Rightarrow> 'k \<Rightarrow> 's \<Rightarrow> 's \<times> 'c option catga_result"
  so_result :: "'k \<Rightarrow> 's \<Rightarrow> bytes option catga_result"
  so_complete :: "'e \<Rightarrow> 'c \<Rightarrow> bytes option \<Rightarrow> 's \<Rightarrow> 's \<times> unit catga_result"
  so_fail :: "'c \<Rightarrow> 's \<Rightarrow> 's \<times> unit catga_result"

text \<open>\<open>CachedResultCodec\<close>, supplied by the application.\<close>

record 'r cached_codec =
  cc_encode :: "'r \<Rightarrow> bytes catga_result"
  cc_decode :: "bytes \<Rightarrow> 'r catga_result"

text \<open>The outcome of polling the rest of the pipeline under \<open>catch_unwind\<close>.\<close>

datatype 'r outcome = Returned "'r catga_result" | Panicked

fun next_result :: "string \<Rightarrow> 'r outcome \<Rightarrow> 'r catga_result" where
  "next_result panicked (Returned r) = r"
| "next_result panicked Panicked = Inl (error_new Internal panicked)"

definition fail_claim :: "('e, 'k, 'c, 's) store_ops \<Rightarrow> 'c \<Rightarrow> 's \<Rightarrow> 's" where
  "fail_claim store c s = fst (so_fail store c s)"

text \<open>
  The common body of both \<open>handle\<close> methods: claim, otherwise answer from the cache; run the pipeline,
  then complete with the encoded response, or fail the claim.
\<close>

definition guarded_handle ::
  "('e, 'k, 'c, 's) store_ops \<Rightarrow> 'r cached_codec \<Rightarrow> string \<Rightarrow> string \<Rightarrow> 'e \<Rightarrow> 'e \<Rightarrow> 'k
   \<Rightarrow> ('w \<Rightarrow> 'w \<times> 'r outcome) \<Rightarrow> 's \<times> 'w \<Rightarrow> ('s \<times> 'w) \<times> 'r catga_result" where
  "guarded_handle store codec panicked conflict e1 e2 key run sw =
     (case sw of (s, w) \<Rightarrow>
      case so_claim store e1 key s of
        (s1, Inl err) \<Rightarrow> ((s1, w), Inl err)
      | (s1, Inr None) \<Rightarrow>
          ((s1, w),
           (case so_result store key s1 of
              Inl err \<Rightarrow> Inl err
            | Inr None \<Rightarrow> Inl (error_new Conflict conflict)
            | Inr (Some cached) \<Rightarrow> cc_decode codec cached))
      | (s1, Inr (Some c)) \<Rightarrow>
          (case run w of
             (w', out) \<Rightarrow>
               (case next_result panicked out of
                  Inl err \<Rightarrow> ((fail_claim store c s1, w'), Inl err)
                | Inr response \<Rightarrow>
                    (case cc_encode codec response of
                       Inl err \<Rightarrow> ((fail_claim store c s1, w'), Inl err)
                     | Inr cached \<Rightarrow>
                         (case so_complete store e2 c (Some cached) s1 of
                            (s2, Inl err) \<Rightarrow> ((s2, w'), Inl err)
                          | (s2, Inr _) \<Rightarrow> ((s2, w'), Inr response))))))"

definition idempotency_handle ::
  "('e, string, 'c, 's) store_ops \<Rightarrow> 'r cached_codec \<Rightarrow> 'e \<Rightarrow> 'e \<Rightarrow> string
   \<Rightarrow> ('w \<Rightarrow> 'w \<times> 'r outcome) \<Rightarrow> 's \<times> 'w \<Rightarrow> ('s \<times> 'w) \<times> 'r catga_result" where
  "idempotency_handle store codec =
     guarded_handle store codec ''idempotency pipeline processing panicked''
       ''idempotency key is already claimed''"

definition inbox_handle ::
  "('e, u64, 'c, 's) store_ops \<Rightarrow> 'r cached_codec \<Rightarrow> 'e \<Rightarrow> 'e \<Rightarrow> u64
   \<Rightarrow> ('w \<Rightarrow> 'w \<times> 'r outcome) \<Rightarrow> 's \<times> 'w \<Rightarrow> ('s \<times> 'w) \<times> 'r catga_result" where
  "inbox_handle store codec e1 e2 message_id run sw =
     (if message_id = 0
      then (case sw of (s, w) \<Rightarrow> case run w of
              (w', out) \<Rightarrow> ((s, w'), next_result ''inbox pipeline processing panicked'' out))
      else guarded_handle store codec ''inbox pipeline processing panicked''
             ''inbox message is already claimed'' e1 e2 message_id run sw)"

section \<open>The contract of a processing store\<close>

text \<open>
  \<open>finished s k\<close>: a completed record of \<open>k\<close> is retained. \<open>holds s k c\<close>: the handle \<open>c\<close> owns \<open>k\<close>.
  \<open>exclusive e s k\<close>: at the instant of \<open>e\<close> the claim on \<open>k\<close> has not run out.
\<close>

locale processing_store =
  fixes store :: "('e, 'k, 'c, 's) store_ops"
    and inv :: "'s \<Rightarrow> bool"
    and finished :: "'s \<Rightarrow> 'k \<Rightarrow> bool"
    and holds :: "'s \<Rightarrow> 'k \<Rightarrow> 'c \<Rightarrow> bool"
    and exclusive :: "'e \<Rightarrow> 's \<Rightarrow> 'k \<Rightarrow> bool"
  assumes claim_inv: "inv s \<Longrightarrow> so_claim store e k s = (s', r) \<Longrightarrow> inv s'"
    and claim_granted: "inv s \<Longrightarrow> so_claim store e k s = (s', Inr (Some c)) \<Longrightarrow> holds s' k c \<and> \<not> finished s k"
    and claim_finished: "inv s \<Longrightarrow> finished s k \<Longrightarrow> so_claim store e k s = (s', r) \<Longrightarrow>
          s' = s \<and> (r = Inr None \<or> (\<exists>err. r = Inl err))"
    and claim_held: "inv s \<Longrightarrow> holds s k c \<Longrightarrow> exclusive e s k \<Longrightarrow> so_claim store e k s = (s', r) \<Longrightarrow>
          s' = s \<and> (r = Inr None \<or> (\<exists>err. r = Inl err))"
    and result_held: "inv s \<Longrightarrow> holds s k c \<Longrightarrow> so_result store k s = Inr None"
    and complete_held: "inv s \<Longrightarrow> holds s k c \<Longrightarrow>
          \<exists>s'. so_complete store e c res s = (s', Inr ()) \<and> inv s' \<and> finished s' k \<and>
            so_result store k s' = Inr res"
    and fail_held: "inv s \<Longrightarrow> holds s k c \<Longrightarrow> \<exists>s'. so_fail store c s = (s', Inr ()) \<and> inv s' \<and> \<not> finished s' k"
begin

text \<open>Every outcome of a call, with the state it leaves.\<close>

lemma handle_cases:
  assumes "inv s" "guarded_handle store codec p q e1 e2 k run (s, w) = ((s', w'), r)"
  obtains (refused) err where "so_claim store e1 k s = (s', Inl err)" "w' = w" "r = Inl err" "inv s'"
  | (cached) "so_claim store e1 k s = (s', Inr None)" "w' = w" "inv s'"
      "r = (case so_result store k s' of Inl err \<Rightarrow> Inl err | Inr None \<Rightarrow> Inl (error_new Conflict q)
            | Inr (Some b) \<Rightarrow> cc_decode codec b)"
  | (completed) s1 c out response b where "so_claim store e1 k s = (s1, Inr (Some c))" "\<not> finished s k"
      "run w = (w', out)" "next_result p out = Inr response" "cc_encode codec response = Inr b"
      "r = Inr response" "inv s'" "finished s' k" "so_result store k s' = Inr (Some b)"
  | (failed) s1 c out err where "so_claim store e1 k s = (s1, Inr (Some c))" "\<not> finished s k"
      "run w = (w', out)" "r = Inl err" "inv s'" "\<not> finished s' k"
proof -
  obtain s1 cr where cl: "so_claim store e1 k s = (s1, cr)" by fastforce
  have inv1: "inv s1" using claim_inv [OF assms(1) cl] .
  show thesis
  proof (cases cr)
    case (Inl err)
    then show thesis using assms(2) cl inv1 by (intro refused [of err]) (auto simp: guarded_handle_def)
  next
    case (Inr co)
    show thesis
    proof (cases co)
      case None
      then show thesis using Inr assms(2) cl inv1 by (intro cached) (auto simp: guarded_handle_def)
    next
      case (Some c)
      then have cl': "so_claim store e1 k s = (s1, Inr (Some c))" using cl Inr by simp
      note own = claim_granted [OF assms(1) cl']
      obtain sf where sf: "so_fail store c s1 = (sf, Inr ())" "inv sf" "\<not> finished sf k"
        using fail_held [OF inv1] own by blast
      obtain w1 out where run: "run w = (w1, out)" by fastforce
      show thesis
      proof (cases "\<exists>response b. next_result p out = Inr response \<and> cc_encode codec response = Inr b")
        case True
        then obtain response b where ok: "next_result p out = Inr response" "cc_encode codec response = Inr b"
          by blast
        obtain sc where sc: "so_complete store e2 c (Some b) s1 = (sc, Inr ())" "inv sc" "finished sc k"
          "so_result store k sc = Inr (Some b)" using complete_held [OF inv1] own by blast
        show thesis using assms(2) cl' own run ok sc by (intro completed) (auto simp: guarded_handle_def)
      next
        case False
        have "\<exists>err. s' = sf \<and> w' = w1 \<and> r = Inl err"
        proof (cases "next_result p out")
          case (Inl err)
          then show ?thesis using assms(2) cl' run sf
            by (intro exI [of _ err]) (simp add: guarded_handle_def fail_claim_def)
        next
          case (Inr response)
          with False obtain err where "cc_encode codec response = Inl err"
            by (cases "cc_encode codec response") auto
          then show ?thesis using Inr assms(2) cl' run sf
            by (intro exI [of _ err]) (simp add: guarded_handle_def fail_claim_def)
        qed
        then show thesis using cl' own run sf by (auto intro: failed)
      qed
    qed
  qed
qed

lemma handle_inv:
  "inv s \<Longrightarrow> guarded_handle store codec p q e1 e2 k run (s, w) = ((s', w'), r) \<Longrightarrow> inv s'"
  by (erule (1) handle_cases) auto

text \<open>A finished key is answered from its retained result, and the pipeline does not run.\<close>

lemma handle_finished:
  assumes "inv s" "finished s k" "so_result store k s = Inr (Some b)"
    "guarded_handle store codec p q e1 e2 k run (s, w) = ((s', w'), r)"
  shows "s' = s \<and> w' = w \<and> (r = cc_decode codec b \<or> (\<exists>err. so_claim store e1 k s = (s, Inl err) \<and> r = Inl err))"
  using assms(1,4)
proof (cases rule: handle_cases)
  case (refused err)
  then show ?thesis using claim_finished [OF assms(1,2) refused(1)] by auto
next
  case cached
  then show ?thesis using claim_finished [OF assms(1,2) cached(1)] assms(3) by auto
qed (use assms(2) in auto)

text \<open>While another call holds the claim, the pipeline does not run either.\<close>

lemma handle_held:
  assumes "inv s" "holds s k c" "exclusive e1 s k"
    "guarded_handle store codec p q e1 e2 k run (s, w) = ((s', w'), r)"
  shows "s' = s \<and> w' = w \<and> (\<exists>err. r = Inl err)"
  using assms(1,4)
proof (cases rule: handle_cases)
  case (refused err)
  then show ?thesis using claim_held [OF assms(1-3) refused(1)] by auto
next
  case cached
  then show ?thesis using claim_held [OF assms(1-3) cached(1)] result_held [OF assms(1,2)] by auto
qed (use claim_held [OF assms(1-3)] in force)+

text \<open>The first successful execution is the only one: later calls repeat its response.\<close>

lemma handle_once:
  assumes "inv s" "\<forall>resp b. cc_encode codec resp = Inr b \<longrightarrow> cc_decode codec b = Inr resp"
    "\<not> finished s k" "so_claim store e1 k s = (s1, Inr (Some c))"
    "guarded_handle store codec p q e1 e2 k run (s, w) = ((s', w'), Inr response)"
    "guarded_handle store codec p q e3 e4 k run' (s', v) = ((s'', v'), r)"
  shows "fst (run w) = w' \<and> s'' = s' \<and> v' = v \<and>
    (r = Inr response \<or> (\<exists>err. so_claim store e3 k s' = (s', Inl err) \<and> r = Inl err))"
  using assms(1,5)
proof (cases rule: handle_cases)
  case (completed s1' c' out response' b)
  then show ?thesis
    using handle_finished [OF completed(7,8,9) assms(6)] assms(2) by auto
qed (use assms(4) in auto)

end

end
