(* ===== verification/Idempotency.thy ===== *)
theory Idempotency
  imports Claim_Table Processing
begin

text \<open>
  The in-memory idempotency store (\<open>crates/catga-core/src/memory/idempotency.rs\<close>) and the idempotency
  behavior on top of it. Claims of this store do not expire: a key stays claimed until the caller
  completes or fails it.
\<close>

section \<open>Operations\<close>

type_synonym memory_idempotency = "string claim_table"

definition idempotency_default :: memory_idempotency where
  "idempotency_default =
     \<lparr>ct_records = Map.empty, ct_completed = Map.empty,
      ct_capacity = capacity_fixed default_memory_record_capacity, ct_sequence = sequence_new,
      ct_retention = default_idempotency_retention\<rparr>"

definition idempotency_with_retention_and_capacity ::
  "duration \<Rightarrow> nat \<Rightarrow> memory_idempotency catga_result" where
  "idempotency_with_retention_and_capacity retention capacity =
     bind_r (validate_completed_retention retention) (\<lambda>_.
     bind_r (capacity_new capacity) (\<lambda>cap.
       Inr \<lparr>ct_records = Map.empty, ct_completed = Map.empty, ct_capacity = cap,
            ct_sequence = sequence_new, ct_retention = retention\<rparr>))"

definition idempotency_new :: "nat \<Rightarrow> memory_idempotency catga_result" where
  "idempotency_new capacity =
     idempotency_with_retention_and_capacity default_idempotency_retention capacity"

definition idempotency_with_retention :: "duration \<Rightarrow> memory_idempotency catga_result" where
  "idempotency_with_retention retention =
     idempotency_with_retention_and_capacity retention default_memory_record_capacity"

definition idempotency_cleanup_completed ::
  "nat \<Rightarrow> systime \<Rightarrow> string list \<Rightarrow> memory_idempotency \<Rightarrow> memory_idempotency \<times> nat catga_result" where
  "idempotency_cleanup_completed limit now iter s =
     (case
        bind_r (validate_retention_cleanup_limit limit) (\<lambda>_.
        bind_r (ok_or (error_new Validation ''idempotency retention exceeds the supported millisecond range'')
                  (u64_try_from (as_millis (ct_retention s)))) (\<lambda>retention.
          Inr (cleanup_candidates (now_unix_millis now) retention limit iter (ct_completed s)))) of
        Inl e \<Rightarrow> (s, Inl e)
      | Inr candidates \<Rightarrow> (case ct_remove candidates s of (s', removed) \<Rightarrow> (s', Inr removed)))"

text \<open>The part of \<open>try_claim\<close> after a slot was reserved.\<close>

definition idempotency_insert :: "string \<Rightarrow> memory_idempotency \<Rightarrow> memory_idempotency \<times> bool catga_result" where
  "idempotency_insert key s =
     (case ct_records s key of
        Some r \<Rightarrow>
          (case cr_try_claim r of
             (r', ok) \<Rightarrow>
               (s\<lparr>ct_capacity := capacity_release (ct_capacity s),
                  ct_records := (ct_records s)(key \<mapsto> r')\<rparr>, Inr ok))
      | None \<Rightarrow>
          (case sequence_next (ct_sequence s) of
             (sq, Inr identity) \<Rightarrow>
               (s\<lparr>ct_sequence := sq, ct_records := (ct_records s)(key \<mapsto> claimed identity)\<rparr>, Inr True)
           | (sq, Inl e) \<Rightarrow> (s\<lparr>ct_capacity := capacity_release (ct_capacity s)\<rparr>, Inl e)))"

definition idempotency_try_claim ::
  "string \<Rightarrow> systime \<Rightarrow> string list \<Rightarrow> memory_idempotency \<Rightarrow> memory_idempotency \<times> bool catga_result" where
  "idempotency_try_claim key now iter s =
     (case ct_records s key of
        Some r \<Rightarrow>
          (case cr_try_claim r of (r', ok) \<Rightarrow> (s\<lparr>ct_records := (ct_records s)(key \<mapsto> r')\<rparr>, Inr ok))
      | None \<Rightarrow>
          (case reserve (ct_capacity s) of
             (cap, True) \<Rightarrow> idempotency_insert key (s\<lparr>ct_capacity := cap\<rparr>)
           | (cap, False) \<Rightarrow>
               (case idempotency_cleanup_completed opportunistic_cleanup_limit now iter s of
                  (s', Inl e) \<Rightarrow> (s', Inl e)
                | (s', Inr _) \<Rightarrow>
                    (case reserve (ct_capacity s') of
                       (cap, True) \<Rightarrow> idempotency_insert key (s'\<lparr>ct_capacity := cap\<rparr>)
                     | (cap, False) \<Rightarrow>
                         (s', Inl (error_new Unavailable ''memory idempotency record capacity is exhausted''))))))"

definition idempotency_complete ::
  "string \<Rightarrow> bytes option \<Rightarrow> systime \<Rightarrow> memory_idempotency \<Rightarrow> memory_idempotency \<times> unit catga_result" where
  "idempotency_complete key res now s =
     (case ct_records s key of
        None \<Rightarrow> (s, Inl (error_new NotFound ''idempotency key is not claimed''))
      | Some r \<Rightarrow>
          (case cr_complete res r of
             (r', True) \<Rightarrow>
               (s\<lparr>ct_records := (ct_records s)(key \<mapsto> r'),
                  ct_completed := (ct_completed s)(key \<mapsto>
                    \<lparr>rr_at = now_unix_millis now, rr_identity = cr_identity r\<rparr>)\<rparr>, Inr ())
           | (r', False) \<Rightarrow>
               (s\<lparr>ct_records := (ct_records s)(key \<mapsto> r')\<rparr>,
                Inl (error_new Conflict ''idempotency key is not currently claimed''))))"

definition idempotency_fail :: "string \<Rightarrow> memory_idempotency \<Rightarrow> memory_idempotency \<times> unit catga_result" where
  "idempotency_fail key s =
     (case ct_records s key of
        None \<Rightarrow> (s, Inl (error_new NotFound ''idempotency key is not claimed''))
      | Some r \<Rightarrow>
          (case cr_fail r of
             (r', True) \<Rightarrow> (s\<lparr>ct_records := (ct_records s)(key \<mapsto> r')\<rparr>, Inr ())
           | (r', False) \<Rightarrow> (s, Inl (error_new Conflict ''idempotency key is not currently claimed''))))"

definition idempotency_state :: "string \<Rightarrow> memory_idempotency \<Rightarrow> processing_state option catga_result" where
  "idempotency_state key s = Inr (map_option record_state (ct_records s key))"

definition idempotency_result :: "string \<Rightarrow> memory_idempotency \<Rightarrow> bytes option catga_result" where
  "idempotency_result key s = Inr (Option.bind (ct_records s key) record_result)"

text \<open>The store behind the behavior: the environment is the clock and the iteration order.\<close>

definition idempotency_ops ::
  "(systime \<times> string list, string, string, memory_idempotency) store_ops" where
  "idempotency_ops =
     \<lparr>so_claim = (\<lambda>(now, iter) key s.
        case idempotency_try_claim key now iter s of
          (s', Inr ok) \<Rightarrow> (s', Inr (if ok then Some key else None))
        | (s', Inl e) \<Rightarrow> (s', Inl e)),
      so_result = idempotency_result,
      so_complete = (\<lambda>(now, _) key res. idempotency_complete key res now),
      so_fail = idempotency_fail\<rparr>"

section \<open>Preservation of the invariant\<close>

lemma ct_inv_idempotency_new:
  "idempotency_with_retention_and_capacity retention capacity = Inr s \<Longrightarrow> ct_inv s"
  by (auto simp: idempotency_with_retention_and_capacity_def bind_r_Inr_iff capacity_new_def
      capacity_fixed_def ct_inv_def cap.accounts_def indexed_def split: if_splits)

lemma idempotency_cleanup_cases:
  assumes "idempotency_cleanup_completed limit now iter s = (s', r)" "ct_inv s"
  obtains (error) e where "r = Inl e" "s' = s"
  | (swept) removed where "r = Inr removed" "ct_inv s'"
      "\<forall>k r. ct_records s k = Some r \<longrightarrow> cr_state r \<noteq> CCompleted \<longrightarrow> ct_records s' k = Some r"
      "\<forall>k. ct_records s' k = ct_records s k \<or> ct_records s' k = None"
proof (cases r)
  case (Inl e)
  then show ?thesis using assms(1) error
    by (auto simp: idempotency_cleanup_completed_def split: sum.splits prod.splits)
next
  case (Inr removed)
  then obtain ret where rm: "ct_remove (cleanup_candidates (now_unix_millis now) ret limit iter (ct_completed s)) s
      = (s', removed)"
    using assms(1) by (auto simp: idempotency_cleanup_completed_def bind_r_Inr_iff
        split: sum.splits prod.splits)
  note E = ct_remove_exact [OF rm assms(2) refl]
  show ?thesis using Inr E(1,2,8) by (intro swept [OF Inr]) (auto simp: restrict_map_def)
qed

lemma idempotency_cleanup_props:
  assumes "idempotency_cleanup_completed limit now iter s = (s', r)" "ct_inv s"
  shows "ct_inv s'" "ct_records s key = None \<Longrightarrow> ct_records s' key = None"
proof -
  have "ct_inv s' \<and> (ct_records s key = None \<longrightarrow> ct_records s' key = None)"
    using assms
  proof (cases rule: idempotency_cleanup_cases)
    case (swept removed)
    then show ?thesis by metis
  qed (use assms(2) in simp)
  then show "ct_inv s'" "ct_records s key = None \<Longrightarrow> ct_records s' key = None" by blast+
qed

lemma ct_inv_try_claim_record:
  assumes "ct_inv s" "ct_records s k = Some r" "cr_try_claim r = (r', ok)"
  shows "ct_inv (s\<lparr>ct_records := (ct_records s)(k \<mapsto> r')\<rparr>)"
proof (cases "cr_state r = CCompleted")
  case True
  then have "r' = r" using completed_terminal(2) [of r None] assms(3) by (simp add: cr_try_claim_def)
  then show ?thesis using assms(1,2) by (simp add: fun_upd_idem)
next
  case False
  have "r' = fst (try_claim_inner None r)" using assms(3) by (simp add: cr_try_claim_def)
  moreover have "cr_state (fst (try_claim_inner None r)) \<noteq> CCompleted"
    using False by (auto simp: try_claim_inner_def)
  ultimately show ?thesis
    using ct_inv_update [OF assms(1,2) False] ct_inv_record [OF assms(1,2)] by (simp add: cr_wf_ops cr_identity_ops)
qed

lemma ct_inv_idempotency_insert:
  assumes "ct_inv s" "reserve (ct_capacity s) = (cp, True)" "ct_records s key = None"
  shows "ct_inv (fst (idempotency_insert key (s\<lparr>ct_capacity := cp\<rparr>)))"
proof (cases "sequence_next (ct_sequence s)")
  case (Pair sq i)
  show ?thesis
  proof (cases i)
    case (Inl e)
    then show ?thesis using ct_inv_unreserve [OF assms(1,2)] assms(3) Pair by (simp add: idempotency_insert_def)
  next
    case (Inr identity)
    then show ?thesis
      using ct_inv_insert [OF assms, of sq identity "claimed identity"] assms(3) Pair
      by (simp add: idempotency_insert_def cr_wf_claimed) (simp add: claimed_def)
  qed
qed

text \<open>Every outcome of \<open>try_claim\<close>.\<close>

lemma idempotency_try_claim_cases:
  assumes "idempotency_try_claim key now iter s = (s', r)" "ct_inv s"
  obtains (known) rec rec' ok where "ct_records s key = Some rec" "cr_try_claim rec = (rec', ok)"
      "s' = s\<lparr>ct_records := (ct_records s)(key \<mapsto> rec')\<rparr>" "r = Inr ok"
  | (fresh) identity where "ct_records s key = None" "ct_records s' key = Some (claimed identity)" "r = Inr True"
  | (refused) e where "ct_records s key = None" "r = Inl e"
proof (cases "ct_records s key")
  case (Some rec)
  then show ?thesis using assms(1) known by (auto simp: idempotency_try_claim_def split: prod.splits)
next
  case None
  have ins: "\<exists>identity. r = Inr True \<and> ct_records s' key = Some (claimed identity) \<or> (\<exists>e. r = Inl e)"
    if "idempotency_insert key s1 = (s', r)" "ct_records s1 key = None" for s1
    using that by (auto simp: idempotency_insert_def split: prod.splits sum.splits)
  obtain s1 rc where c: "idempotency_cleanup_completed opportunistic_cleanup_limit now iter s = (s1, rc)"
    by fastforce
  have "ct_records s1 key = None" using idempotency_cleanup_props(2) [OF c assms(2) None] .
  then have "\<exists>identity. r = Inr True \<and> ct_records s' key = Some (claimed identity) \<or> (\<exists>e. r = Inl e)"
    using assms(1) None c ins
    by (auto simp: idempotency_try_claim_def split: prod.splits bool.splits sum.splits)
  then show ?thesis using None fresh refused by blast
qed

lemma ct_inv_idempotency_try_claim:
  assumes "ct_inv s"
  shows "ct_inv (fst (idempotency_try_claim key now iter s))"
proof (cases "ct_records s key")
  case (Some rec)
  obtain rec' ok where t: "cr_try_claim rec = (rec', ok)" by fastforce
  from ct_inv_try_claim_record [OF assms Some t] show ?thesis
    using Some t by (simp add: idempotency_try_claim_def)
next
  case None
  obtain s1 rc where c: "idempotency_cleanup_completed opportunistic_cleanup_limit now iter s = (s1, rc)"
    by fastforce
  note s1 = idempotency_cleanup_props(1) [OF c assms] idempotency_cleanup_props(2) [OF c assms None]
  then show ?thesis
    using assms None c ct_inv_idempotency_insert
    by (auto simp: idempotency_try_claim_def split: prod.splits bool.splits sum.splits)
qed

lemma cr_complete_cases:
  assumes "cr_wf r"
  shows "cr_complete res r = (if cr_state r = CClaimed
    then (r\<lparr>cr_result := Some res, cr_state := CCompleted\<rparr>, True) else (r, False))"
  using assms by (auto simp: cr_complete_def cr_wf_def)

lemma ct_inv_idempotency_complete:
  assumes "ct_inv s"
  shows "ct_inv (fst (idempotency_complete key res now s))"
proof (cases "ct_records s key")
  case None
  then show ?thesis using assms by (simp add: idempotency_complete_def)
next
  case (Some r)
  note wf = ct_inv_record [OF assms Some]
  show ?thesis
    using ct_inv_complete [OF assms Some, of "r\<lparr>cr_result := Some res, cr_state := CCompleted\<rparr>"] assms wf Some
    by (simp add: idempotency_complete_def cr_complete_cases [OF wf] fun_upd_idem)
      (simp add: cr_wf_def)
qed

lemma ct_inv_idempotency_fail:
  assumes "ct_inv s"
  shows "ct_inv (fst (idempotency_fail key s))"
proof (cases "ct_records s key")
  case None
  then show ?thesis using assms by (simp add: idempotency_fail_def)
next
  case (Some r)
  have "ct_inv (s\<lparr>ct_records := (ct_records s)(key \<mapsto> r\<lparr>cr_state := CFailed\<rparr>)\<rparr>)" if "cr_state r = CClaimed"
    using that ct_inv_record [OF assms Some] by (intro ct_inv_update [OF assms Some]) (auto simp: cr_wf_def)
  then show ?thesis using assms Some by (auto simp: idempotency_fail_def cr_fail_def)
qed

section \<open>The store fulfils the contract of the behavior\<close>

definition idempotency_holds :: "memory_idempotency \<Rightarrow> string \<Rightarrow> string \<Rightarrow> bool" where
  "idempotency_holds s k c \<longleftrightarrow> c = k \<and> (\<exists>r. ct_records s k = Some r \<and> cr_state r = CClaimed)"

lemma cr_try_claim_eq:
  "cr_try_claim r = (if cr_state r = CPending \<or> cr_state r = CFailed
     then (r\<lparr>cr_expires_at := 0, cr_state := CClaimed\<rparr>, True) else (r, False))"
  by (simp add: cr_try_claim_def try_claim_inner_def)

lemma idempotency_so_claim:
  assumes "so_claim idempotency_ops e k s = (s', r)"
  obtains q where "idempotency_try_claim k (fst e) (snd e) s = (s', q)"
    "r = (case q of Inl err \<Rightarrow> Inl err | Inr ok \<Rightarrow> Inr (if ok then Some k else None))"
proof -
  obtain s1 q where q: "idempotency_try_claim k (fst e) (snd e) s = (s1, q)" by fastforce
  with assms have "s1 = s'" "r = (case q of Inl err \<Rightarrow> Inl err | Inr ok \<Rightarrow> Inr (if ok then Some k else None))"
    by (cases q; simp add: idempotency_ops_def split_def)+
  with q that show thesis by blast
qed

lemma idempotency_law_inv:
  "ct_inv s \<Longrightarrow> so_claim idempotency_ops e k s = (s', r) \<Longrightarrow> ct_inv s'"
  using ct_inv_idempotency_try_claim [of s k "fst e" "snd e"] by (elim idempotency_so_claim) simp

lemma idempotency_law_granted:
  assumes "ct_inv s" "so_claim idempotency_ops e k s = (s', Inr (Some c))"
  shows "idempotency_holds s' k c \<and> \<not> key_finished s k"
proof -
  from assms(2) have "idempotency_try_claim k (fst e) (snd e) s = (s', Inr True) \<and> c = k"
    by (elim idempotency_so_claim) (auto split: sum.splits if_splits)
  then have t: "idempotency_try_claim k (fst e) (snd e) s = (s', Inr True)" and c: "c = k" by simp_all
  from t assms(1) show ?thesis
    by (cases rule: idempotency_try_claim_cases)
      (use c in \<open>auto simp: idempotency_holds_def key_finished_def cr_try_claim_eq claimed_def split: if_splits\<close>)
qed

lemma idempotency_law_refused:
  assumes "ct_inv s" "key_finished s k \<or> idempotency_holds s k c" "so_claim idempotency_ops e k s = (s', r)"
  shows "s' = s \<and> (r = Inr None \<or> (\<exists>err. r = Inl err))"
proof -
  from assms(3) obtain q where t: "idempotency_try_claim k (fst e) (snd e) s = (s', q)"
    and r: "r = (case q of Inl err \<Rightarrow> Inl err | Inr ok \<Rightarrow> Inr (if ok then Some k else None))"
    by (rule idempotency_so_claim)
  from t assms(1) show ?thesis
    by (cases rule: idempotency_try_claim_cases)
      (use assms(2) r in \<open>auto simp: key_finished_def idempotency_holds_def cr_try_claim_eq fun_upd_idem
        split: if_splits\<close>)
qed

lemma idempotency_law_complete:
  assumes "ct_inv s" "idempotency_holds s k c"
  shows "so_result idempotency_ops k s = Inr None"
    "\<exists>s'. so_complete idempotency_ops e c res s = (s', Inr ()) \<and> ct_inv s' \<and> key_finished s' k \<and>
      so_result idempotency_ops k s' = Inr res"
    "\<exists>s'. so_fail idempotency_ops c s = (s', Inr ()) \<and> ct_inv s' \<and> \<not> key_finished s' k"
proof -
  obtain now iter where e: "e = (now, iter)" by fastforce
  from assms(2) obtain rec where rec: "c = k" "ct_records s k = Some rec" "cr_state rec = CClaimed"
    by (auto simp: idempotency_holds_def)
  show "so_result idempotency_ops k s = Inr None"
    using rec by (simp add: idempotency_ops_def idempotency_result_def record_result_def)
  show "\<exists>s'. so_complete idempotency_ops e c res s = (s', Inr ()) \<and> ct_inv s' \<and> key_finished s' k \<and>
      so_result idempotency_ops k s' = Inr res"
    using ct_inv_idempotency_complete [OF assms(1), of k res now] rec
      cr_complete_cases [OF ct_inv_record [OF assms(1) rec(2)]]
    by (simp add: idempotency_ops_def e idempotency_complete_def key_finished_def idempotency_result_def record_result_def)
  show "\<exists>s'. so_fail idempotency_ops c s = (s', Inr ()) \<and> ct_inv s' \<and> \<not> key_finished s' k"
    using ct_inv_idempotency_fail [OF assms(1), of k] rec
    by (simp add: idempotency_ops_def idempotency_fail_def cr_fail_def key_finished_def)
qed

interpretation idem: processing_store idempotency_ops ct_inv key_finished idempotency_holds "\<lambda>_ _ _. True"
  by unfold_locales
    (blast intro: idempotency_law_inv idempotency_law_complete dest: idempotency_law_granted idempotency_law_refused)+

section \<open>At most one successful execution per key\<close>

lemma idempotency_claim_finished:
  assumes "key_finished s k"
  shows "so_claim idempotency_ops e k s = (s, Inr None)"
  using assms by (cases e)
    (auto simp: key_finished_def idempotency_ops_def idempotency_try_claim_def cr_try_claim_eq fun_upd_idem)

lemma idempotency_result_finished:
  "so_result idempotency_ops k s = Inr (Some b) \<Longrightarrow> key_finished s k"
  by (auto simp: idempotency_ops_def idempotency_result_def record_result_def key_finished_def
      split: option.splits if_splits Option.bind_splits)

lemma idempotency_repeat:
  assumes "ct_inv s" "so_result idempotency_ops k s = Inr (Some b)" "cc_decode codec b = Inr response"
  shows "idempotency_handle idempotency_ops codec e1 e2 k run (s, w) = ((s, w), Inr response)"
  using assms(2,3) idempotency_claim_finished [OF idempotency_result_finished [OF assms(2)], of e1]
  by (simp add: idempotency_handle_def guarded_handle_def)


text \<open>
  Concurrent duplicates do not execute. While one call holds a key, every other call under
  it answers a conflict, leaves the store unchanged and does not run its pipeline.
\<close>

theorem idempotency_excludes_duplicates:
  assumes "ct_inv s" "so_claim idempotency_ops e key s = (s1, Inr (Some c))"
  shows "idempotency_handle idempotency_ops codec e1 e2 key run (s1, w) =
    ((s1, w), Inl (error_new Conflict ''idempotency key is already claimed''))"
proof -
  from idempotency_law_granted [OF assms] obtain r where r: "ct_records s1 key = Some r" "cr_state r = CClaimed"
    by (auto simp: idempotency_holds_def)
  then have "so_claim idempotency_ops e1 key s1 = (s1, Inr None)"
    by (cases e1) (simp add: idempotency_ops_def idempotency_try_claim_def cr_try_claim_eq fun_upd_idem)
  moreover have "so_result idempotency_ops key s1 = Inr None"
    using r by (simp add: idempotency_ops_def idempotency_result_def record_result_def)
  ultimately show ?thesis by (simp add: idempotency_handle_def guarded_handle_def)
qed

text \<open>
  A failed execution can be retried. If a call was granted the key but its pipeline
  returned an error, panicked, or produced a response that could not be encoded, the next call under
  the key runs its pipeline, and if that succeeds, so does the call.
\<close>

theorem idempotency_failure_retries:
  assumes "ct_inv s" "so_claim idempotency_ops e1 key s = (s1, Inr (Some c))"
    "idempotency_handle idempotency_ops codec e1 e2 key run (s, w) = ((s', w'), Inl err)"
    "run' w' = (w'', Returned (Inr response))" "cc_encode codec response = Inr b"
  shows "snd (idempotency_handle idempotency_ops codec e3 e4 key run' (s', w')) = Inr response \<and>
    snd (fst (idempotency_handle idempotency_ops codec e3 e4 key run' (s', w'))) = w''"
proof -
  have inv1: "ct_inv s1" using idempotency_law_inv [OF assms(1,2)] .
  note own = idempotency_law_granted [OF assms(1,2), THEN conjunct1]
  then obtain r where r: "ct_records s1 key = Some r" "cr_state r = CClaimed" and c: "c = key"
    by (auto simp: idempotency_holds_def)
  have sc: "so_complete idempotency_ops e2 key (Some d) s1 \<noteq> (x, Inl y)" for d x y
    using idempotency_law_complete(2) [OF inv1 own, of e2 "Some d"] c by auto
  have "s' = fail_claim idempotency_ops c s1"
    using assms(2,3) sc c
    by (auto simp: idempotency_handle_def guarded_handle_def split: prod.splits sum.splits)
  then have s': "s' = s1\<lparr>ct_records := (ct_records s1)(key \<mapsto> r\<lparr>cr_state := CFailed\<rparr>)\<rparr>"
    using r c by (simp add: fail_claim_def idempotency_ops_def idempotency_fail_def cr_fail_def)
  have inv': "ct_inv s'"
    using idem.handle_inv [OF assms(1) assms(3) [unfolded idempotency_handle_def]] .
  obtain s2 where s2: "so_claim idempotency_ops e3 key s' = (s2, Inr (Some key))"
    by (cases e3) (simp add: idempotency_ops_def idempotency_try_claim_def s' cr_try_claim_eq)
  obtain s3 where "so_complete idempotency_ops e4 key (Some b) s2 = (s3, Inr ())"
    using idempotency_law_complete(2) [OF idempotency_law_inv [OF inv' s2]
        idempotency_law_granted [OF inv' s2, THEN conjunct1]] by blast
  then show ?thesis using s2 assms(4,5) by (simp add: idempotency_handle_def guarded_handle_def)
qed

section \<open>A worked call\<close>

definition plain_codec :: "bytes cached_codec" where
  "plain_codec = \<lparr>cc_encode = Inr, cc_decode = Inr\<rparr>"

definition empty_idempotency :: memory_idempotency where
  "empty_idempotency =
     \<lparr>ct_records = Map.empty, ct_completed = Map.empty, ct_capacity = capacity_fixed 2,
      ct_sequence = sequence_new, ct_retention = from_secs 60\<rparr>"

lemma empty_idempotency_inv: "ct_inv empty_idempotency"
  by (rule ct_inv_idempotency_new [of "from_secs 60" 2])
    (simp add: idempotency_with_retention_and_capacity_def empty_idempotency_def capacity_new_def
      validate_completed_retention_def from_secs_def)

lemma plain_codec_inverse:
  "\<forall>resp b. cc_encode plain_codec resp = Inr b \<longrightarrow> cc_decode plain_codec b = Inr resp"
  by (simp add: plain_codec_def)

lemma empty_claim:
  "so_claim idempotency_ops e ''k'' empty_idempotency =
     (empty_idempotency\<lparr>ct_capacity := \<lparr>rc_limit = 2, rc_used = 1\<rparr>, ct_sequence := 2,
        ct_records := [''k'' \<mapsto> claimed 1]\<rparr>, Inr (Some ''k''))"
  by (cases e) (simp add: idempotency_ops_def idempotency_try_claim_def empty_idempotency_def reserve_def
      capacity_fixed_def idempotency_insert_def sequence_next_def sequence_new_def checked_add_def)

lemma empty_handle:
  "\<exists>s'. idempotency_handle idempotency_ops plain_codec e1 (5, []) ''k'' (\<lambda>w. (w + 1, Returned (Inr [1])))
     (empty_idempotency, 0 :: nat) = ((s', 1), Inr [1])"
  by (simp add: idempotency_handle_def guarded_handle_def empty_claim plain_codec_def)
    (simp add: idempotency_ops_def idempotency_complete_def cr_complete_def claimed_def)


theorem idempotency_excludes_duplicates_witness:
  "\<exists>s1. so_claim idempotency_ops (0, []) ''k'' empty_idempotency = (s1, Inr (Some ''k'')) \<and>
     idempotency_handle idempotency_ops plain_codec (3, []) (4, []) ''k'' (\<lambda>w. (w + 1, Returned (Inr [2])))
       (s1, 0 :: nat) = ((s1, 0), Inl (error_new Conflict ''idempotency key is already claimed''))"
  by (intro exI conjI, rule empty_claim, rule idempotency_excludes_duplicates [OF empty_idempotency_inv empty_claim])

theorem idempotency_failure_retries_witness:
  "\<exists>s'. idempotency_handle idempotency_ops plain_codec (0, []) (5, []) ''k'' (\<lambda>w. (w + 1, Panicked))
       (empty_idempotency, 0 :: nat) =
         ((s', 1), Inl (error_new Internal ''idempotency pipeline processing panicked'')) \<and>
     snd (idempotency_handle idempotency_ops plain_codec (6, []) (7, []) ''k'' (\<lambda>w. (w + 1, Returned (Inr [2])))
       (s', 1 :: nat)) = Inr [2]"
proof -
  obtain s' where f: "idempotency_handle idempotency_ops plain_codec (0, []) (5, []) ''k'' (\<lambda>w. (w + 1, Panicked))
       (empty_idempotency, 0 :: nat) =
         ((s', 1), Inl (error_new Internal ''idempotency pipeline processing panicked''))"
    by (simp add: idempotency_handle_def guarded_handle_def empty_claim)
  have enc: "cc_encode plain_codec [2] = Inr [2]" by (simp add: plain_codec_def)
  have "snd (idempotency_handle idempotency_ops plain_codec (6, []) (7, []) ''k'' (\<lambda>w. (w + 1, Returned (Inr [2])))
       (s', 1 :: nat)) = Inr [2]"
    using idempotency_failure_retries [OF empty_idempotency_inv empty_claim f _ enc,
        of "\<lambda>w. (w + 1, Returned (Inr [2]))" 2 "(6, [])" "(7, [])"] by simp
  with f show ?thesis by (intro exI [of _ s'] conjI)
qed

end
