(* ===== verification/Inbox.thy ===== *)
theory Inbox
  imports Claim_Table Processing
begin

text \<open>
  The in-memory inbox (\<open>crates/catga-core/src/memory/inbox.rs\<close>) and the inbox behavior on top of it.
  A claim carries a lease and a generation; an expired claim may be taken over by another worker,
  which receives the next generation.
\<close>

section \<open>Operations\<close>

type_synonym memory_inbox = "u64 claim_table"

definition inbox_default :: memory_inbox where
  "inbox_default =
     \<lparr>ct_records = Map.empty, ct_completed = Map.empty,
      ct_capacity = capacity_fixed default_memory_record_capacity, ct_sequence = sequence_new,
      ct_retention = default_idempotency_retention\<rparr>"

definition inbox_with_retention_and_capacity :: "duration \<Rightarrow> nat \<Rightarrow> memory_inbox catga_result" where
  "inbox_with_retention_and_capacity retention capacity =
     bind_r (validate_completed_retention retention) (\<lambda>_.
     bind_r (capacity_new capacity) (\<lambda>cap.
       Inr \<lparr>ct_records = Map.empty, ct_completed = Map.empty, ct_capacity = cap,
            ct_sequence = sequence_new, ct_retention = retention\<rparr>))"

definition inbox_new :: "nat \<Rightarrow> memory_inbox catga_result" where
  "inbox_new capacity = inbox_with_retention_and_capacity default_idempotency_retention capacity"

definition inbox_cleanup_completed ::
  "duration \<Rightarrow> nat \<Rightarrow> systime \<Rightarrow> u64 list \<Rightarrow> memory_inbox \<Rightarrow> memory_inbox \<times> nat catga_result" where
  "inbox_cleanup_completed retention limit now iter s =
     (case
        bind_r (validate_retention_cleanup_limit limit) (\<lambda>_.
        bind_r (ok_or (error_new Validation ''inbox retention exceeds the supported millisecond range'')
                  (u64_try_from (as_millis retention))) (\<lambda>retention_ms.
          Inr (cleanup_candidates (now_unix_millis now) retention_ms limit iter (ct_completed s)))) of
        Inl e \<Rightarrow> (s, Inl e)
      | Inr candidates \<Rightarrow> (case ct_remove candidates s of (s', removed) \<Rightarrow> (s', Inr removed)))"

text \<open>\<open>record.try_claim_generation_until(..).and_then(|generation| InboxClaim::new(message_id, generation))\<close>\<close>

definition claim_record_for ::
  "u64 \<Rightarrow> u64 \<Rightarrow> u64 \<Rightarrow> claim_record \<Rightarrow> claim_record \<times> inbox_claim option" where
  "claim_record_for message_id expires_at now r =
     (case try_claim_generation_until expires_at now r of
        (r', g) \<Rightarrow> (r', Option.bind g (inbox_claim_new message_id)))"

text \<open>The part of \<open>try_claim_for\<close> after a slot was reserved.\<close>

definition inbox_insert ::
  "u64 \<Rightarrow> u64 \<Rightarrow> u64 \<Rightarrow> memory_inbox \<Rightarrow> memory_inbox \<times> inbox_claim option catga_result" where
  "inbox_insert message_id expires_at now s =
     (case ct_records s message_id of
        Some r \<Rightarrow>
          (case claim_record_for message_id expires_at now r of
             (r', c) \<Rightarrow>
               (s\<lparr>ct_capacity := capacity_release (ct_capacity s),
                  ct_records := (ct_records s)(message_id \<mapsto> r')\<rparr>, Inr c))
      | None \<Rightarrow>
          (case sequence_next (ct_sequence s) of
             (sq, Inr identity) \<Rightarrow>
               (case claim_record_for message_id expires_at now (claimed identity) of
                  (r', c) \<Rightarrow>
                    (s\<lparr>ct_sequence := sq, ct_records := (ct_records s)(message_id \<mapsto> r')\<rparr>, Inr c))
           | (sq, Inl e) \<Rightarrow> (s\<lparr>ct_capacity := capacity_release (ct_capacity s)\<rparr>, Inl e)))"

definition inbox_try_claim_for ::
  "u64 \<Rightarrow> duration \<Rightarrow> systime \<Rightarrow> systime \<Rightarrow> systime \<Rightarrow> u64 list
   \<Rightarrow> memory_inbox \<Rightarrow> memory_inbox \<times> inbox_claim option catga_result" where
  "inbox_try_claim_for message_id lease t_lease t_now t_clean iter s =
     (case inbox_claim_expires_at lease t_lease of
        Inl e \<Rightarrow> (s, Inl e)
      | Inr expires_at \<Rightarrow>
          (let now = now_unix_millis t_now in
           case ct_records s message_id of
             Some r \<Rightarrow>
               (case claim_record_for message_id expires_at now r of
                  (r', c) \<Rightarrow> (s\<lparr>ct_records := (ct_records s)(message_id \<mapsto> r')\<rparr>, Inr c))
           | None \<Rightarrow>
               (case reserve (ct_capacity s) of
                  (cap, True) \<Rightarrow> inbox_insert message_id expires_at now (s\<lparr>ct_capacity := cap\<rparr>)
                | (cap, False) \<Rightarrow>
                    (case inbox_cleanup_completed (ct_retention s) opportunistic_cleanup_limit t_clean iter s of
                       (s', Inl e) \<Rightarrow> (s', Inl e)
                     | (s', Inr _) \<Rightarrow>
                         (case reserve (ct_capacity s') of
                            (cap, True) \<Rightarrow> inbox_insert message_id expires_at now (s'\<lparr>ct_capacity := cap\<rparr>)
                          | (cap, False) \<Rightarrow>
                              (s', Inl (error_new Unavailable ''memory inbox record capacity is exhausted'')))))))"

definition inbox_try_claim ::
  "u64 \<Rightarrow> systime \<Rightarrow> systime \<Rightarrow> systime \<Rightarrow> u64 list
   \<Rightarrow> memory_inbox \<Rightarrow> memory_inbox \<times> inbox_claim option catga_result" where
  "inbox_try_claim message_id = inbox_try_claim_for message_id default_inbox_claim_lease"

definition inbox_complete ::
  "inbox_claim \<Rightarrow> bytes option \<Rightarrow> systime \<Rightarrow> memory_inbox \<Rightarrow> memory_inbox \<times> unit catga_result" where
  "inbox_complete c res now s =
     (case ct_records s (ic_message_id c) of
        None \<Rightarrow> (s, Inl (error_new NotFound ''inbox message is not claimed''))
      | Some r \<Rightarrow>
          (case complete_for (ic_generation c) res r of
             (r', True) \<Rightarrow>
               (s\<lparr>ct_records := (ct_records s)(ic_message_id c \<mapsto> r'),
                  ct_completed := (ct_completed s)(ic_message_id c \<mapsto>
                    \<lparr>rr_at = now_unix_millis now, rr_identity = cr_identity r\<rparr>)\<rparr>, Inr ())
           | (r', False) \<Rightarrow>
               (s\<lparr>ct_records := (ct_records s)(ic_message_id c \<mapsto> r')\<rparr>,
                Inl (error_new Conflict ''inbox message is not currently claimed''))))"

definition inbox_fail :: "inbox_claim \<Rightarrow> memory_inbox \<Rightarrow> memory_inbox \<times> unit catga_result" where
  "inbox_fail c s =
     (case ct_records s (ic_message_id c) of
        None \<Rightarrow> (s, Inl (error_new NotFound ''inbox message is not claimed''))
      | Some r \<Rightarrow>
          (case fail_for (ic_generation c) r of
             (r', True) \<Rightarrow> (s\<lparr>ct_records := (ct_records s)(ic_message_id c \<mapsto> r')\<rparr>, Inr ())
           | (r', False) \<Rightarrow> (s, Inl (error_new Conflict ''inbox message is not currently claimed''))))"

definition inbox_state :: "u64 \<Rightarrow> memory_inbox \<Rightarrow> processing_state option catga_result" where
  "inbox_state message_id s = Inr (map_option record_state (ct_records s message_id))"

definition inbox_result :: "u64 \<Rightarrow> memory_inbox \<Rightarrow> bytes option catga_result" where
  "inbox_result message_id s = Inr (Option.bind (ct_records s message_id) record_result)"

text \<open>\<open>InboxBehavior::with_claim_lease\<close>\<close>

definition with_claim_lease :: "duration \<Rightarrow> duration catga_result" where
  "with_claim_lease lease = bind_r (validate_inbox_claim_lease lease) (\<lambda>_. Inr lease)"

text \<open>
  The store behind the behavior, with the behavior's lease. The environment of an operation is the
  three clock values \<open>try_claim_for\<close> may read, and the iteration order.
\<close>

type_synonym inbox_env = "(systime \<times> systime \<times> systime) \<times> u64 list"

definition inbox_ops :: "duration \<Rightarrow> (inbox_env, u64, inbox_claim, memory_inbox) store_ops" where
  "inbox_ops lease =
     \<lparr>so_claim = (\<lambda>((t1, t2, t3), iter) message_id. inbox_try_claim_for message_id lease t1 t2 t3 iter),
      so_result = inbox_result,
      so_complete = (\<lambda>((t1, _), _) c res. inbox_complete c res t1),
      so_fail = inbox_fail\<rparr>"

section \<open>Preservation of the invariant\<close>

lemma ct_inv_inbox_new: "inbox_with_retention_and_capacity retention capacity = Inr s \<Longrightarrow> ct_inv s"
  by (auto simp: inbox_with_retention_and_capacity_def bind_r_Inr_iff capacity_new_def
      capacity_fixed_def ct_inv_def cap.accounts_def indexed_def split: if_splits)

lemma inbox_cleanup_props:
  assumes "inbox_cleanup_completed retention limit now iter s = (s', r)" "ct_inv s"
  shows "ct_inv s'" "ct_records s key = None \<Longrightarrow> ct_records s' key = None"
    "ct_records s' key = ct_records s key \<or> ct_records s' key = None"
    "ct_records s key = Some rec \<Longrightarrow> cr_state rec \<noteq> CCompleted \<Longrightarrow> ct_records s' key = Some rec"
    "ct_sequence s' = ct_sequence s"
proof -
  have "ct_inv s' \<and> (\<forall>k. ct_records s' k = ct_records s k \<or> ct_records s' k = None) \<and>
      (\<forall>k r. ct_records s k = Some r \<longrightarrow> cr_state r \<noteq> CCompleted \<longrightarrow> ct_records s' k = Some r)
      \<and> ct_sequence s' = ct_sequence s"
  proof (cases r)
    case (Inl e)
    then show ?thesis using assms
      by (auto simp: inbox_cleanup_completed_def split: sum.splits prod.splits)
  next
    case (Inr removed)
    then obtain ret where rm: "ct_remove (cleanup_candidates (now_unix_millis now) ret limit iter (ct_completed s)) s
        = (s', removed)"
      using assms(1) by (auto simp: inbox_cleanup_completed_def bind_r_Inr_iff split: sum.splits prod.splits)
    then have "ct_sequence s' = ct_sequence s" by (auto simp: ct_remove_def split: prod.splits)
    with ct_remove_exact [OF rm assms(2) refl] show ?thesis by (auto simp: restrict_map_def)
  qed
  then have *: "ct_inv s'" "\<And>k. ct_records s' k = ct_records s k \<or> ct_records s' k = None"
    "\<And>k r. ct_records s k = Some r \<Longrightarrow> cr_state r \<noteq> CCompleted \<Longrightarrow> ct_records s' k = Some r"
    "ct_sequence s' = ct_sequence s"
    by simp_all
  then show "ct_inv s'" "ct_records s' key = ct_records s key \<or> ct_records s' key = None"
    "ct_records s key = Some rec \<Longrightarrow> cr_state rec \<noteq> CCompleted \<Longrightarrow> ct_records s' key = Some rec"
    "ct_sequence s' = ct_sequence s" by simp_all
  show "ct_records s key = None \<Longrightarrow> ct_records s' key = None" using *(2) [of key] by metis
qed

lemma claim_record_for_props:
  assumes "claim_record_for k e n r = (r', c)"
  shows "cr_wf r \<Longrightarrow> cr_wf r'" "cr_identity r' = cr_identity r"
    "cr_state r = CCompleted \<Longrightarrow> r' = r \<and> c = None" "cr_state r \<noteq> CCompleted \<Longrightarrow> cr_state r' \<noteq> CCompleted"
    "cr_state r = CClaimed \<Longrightarrow> n < cr_expires_at r \<Longrightarrow> r' = r \<and> c = None"
    "c = Some x \<Longrightarrow> cr_state r' = CClaimed \<and> x = \<lparr>ic_message_id = k, ic_generation = cr_generation r'\<rparr>
       \<and> cr_generation r < cr_generation r'"
    "cr_generation r \<le> cr_generation r'"
proof -
  obtain g where t: "try_claim_generation_until e n r = (r', g)" and c: "c = Option.bind g (inbox_claim_new k)"
    using assms by (auto simp: claim_record_for_def split: prod.splits)
  show "cr_wf r \<Longrightarrow> cr_wf r'" using cr_wf_ops(1) [of r e n] t by simp
  show "cr_identity r' = cr_identity r" using cr_identity_ops(1) [of e n r] t by simp
  show "cr_state r = CCompleted \<Longrightarrow> r' = r \<and> c = None" using completed_terminal(1) [of r e n] t c by auto
  show "cr_state r \<noteq> CCompleted \<Longrightarrow> cr_state r' \<noteq> CCompleted"
    "cr_state r = CClaimed \<Longrightarrow> n < cr_expires_at r \<Longrightarrow> r' = r \<and> c = None"
    using t c by (auto simp: try_claim_generation_until_def split: if_splits option.splits)
  show "c = Some x \<Longrightarrow> cr_state r' = CClaimed \<and> x = \<lparr>ic_message_id = k, ic_generation = cr_generation r'\<rparr>
       \<and> cr_generation r < cr_generation r'"
  proof -
    assume "c = Some x"
    with c obtain h where h: "g = Some h" "inbox_claim_new k h = Some x" by (cases g) auto
    then have "x = \<lparr>ic_message_id = k, ic_generation = h\<rparr>" by (simp add: inbox_claim_new_def split: if_splits)
    moreover note claim_generation(1,2,3) [OF t [unfolded h(1)]]
    ultimately show ?thesis by (simp add: word_less_nat_alt)
  qed
  show "cr_generation r \<le> cr_generation r'"
  proof (cases g)
    case None
    then have "cr_generation r' = cr_generation r"
      using t by (auto simp: try_claim_generation_until_def split: if_splits option.splits)
    then show ?thesis by simp
  next
    case (Some h)
    then show ?thesis using claim_generation(1,2) [OF t [unfolded Some]] by (simp add: word_le_nat_alt)
  qed
qed

lemma ct_inv_claim_record:
  assumes "ct_inv s" "ct_records s k = Some r" "claim_record_for k e n r = (r', c)"
  shows "ct_inv (s\<lparr>ct_records := (ct_records s)(k \<mapsto> r')\<rparr>)"
proof (cases "cr_state r = CCompleted")
  case True
  then show ?thesis using claim_record_for_props(3) [OF assms(3)] assms(1,2) by (simp add: fun_upd_idem)
next
  case False
  then show ?thesis
    using claim_record_for_props [OF assms(3)] ct_inv_record [OF assms(1,2)]
    by (intro ct_inv_update [OF assms(1,2)]) auto
qed

text \<open>
  How a table may evolve: a record keeps its identity and never lowers its generation, or it is a new
  record with an identity the sequence had not handed out before.
\<close>

definition evolves :: "'k claim_table \<Rightarrow> 'k claim_table \<Rightarrow> bool" where
  "evolves s s' \<longleftrightarrow> ct_sequence s \<le> ct_sequence s' \<and>
     (\<forall>k r'. ct_records s' k = Some r' \<longrightarrow>
        (\<exists>r. ct_records s k = Some r \<and> cr_identity r' = cr_identity r \<and> cr_generation r \<le> cr_generation r') \<or>
        ct_sequence s \<le> cr_identity r')"

lemma evolves_refl [simp]: "evolves s s"
  by (auto simp: evolves_def)

lemma evolves_sequence: "evolves s s' \<Longrightarrow> ct_sequence s \<le> ct_sequence s'"
  by (simp add: evolves_def)

lemma evolves_cases:
  assumes "evolves s s'" "ct_records s' k = Some r'"
  obtains r where "ct_records s k = Some r" "cr_identity r' = cr_identity r" "cr_generation r \<le> cr_generation r'"
  | "ct_sequence s \<le> cr_identity r'"
  using assms unfolding evolves_def by blast

lemma evolves_trans:
  assumes "evolves s s1" "evolves s1 s2"
  shows "evolves s s2"
  unfolding evolves_def
proof (intro conjI allI impI)
  show "ct_sequence s \<le> ct_sequence s2"
    using evolves_sequence [OF assms(1)] evolves_sequence [OF assms(2)] by (rule order_trans)
  fix k r2 assume r2: "ct_records s2 k = Some r2"
  from assms(2) r2 show "(\<exists>r. ct_records s k = Some r \<and> cr_identity r2 = cr_identity r \<and>
      cr_generation r \<le> cr_generation r2) \<or> ct_sequence s \<le> cr_identity r2"
  proof (cases rule: evolves_cases)
    case (1 r1)
    from assms(1) 1(1) show ?thesis by (cases rule: evolves_cases) (use 1 in auto)
  next
    case 2
    then show ?thesis using evolves_sequence [OF assms(1)] by auto
  qed
qed

lemma evolves_update:
  assumes "ct_records s k = Some r" "cr_identity r' = cr_identity r" "cr_generation r \<le> cr_generation r'"
    "ct_records s' = (ct_records s)(k \<mapsto> r')" "ct_sequence s' = ct_sequence s"
  shows "evolves s s'"
  using assms by (auto simp: evolves_def)

lemma evolves_fewer:
  assumes "\<And>k. ct_records s' k = ct_records s k \<or> ct_records s' k = None" "ct_sequence s' = ct_sequence s"
  shows "evolves s s'"
proof -
  have "\<exists>r. ct_records s k = Some r \<and> cr_identity r' = cr_identity r \<and> cr_generation r \<le> cr_generation r'"
    if "ct_records s' k = Some r'" for k r'
    using assms(1) [of k] that by (intro exI [of _ r']) auto
  with assms(2) show ?thesis by (auto simp: evolves_def)
qed

section \<open>The outcome of a claim\<close>

lemma inbox_insert_props:
  assumes "inbox_insert k e n (s\<lparr>ct_capacity := cp\<rparr>) = (s', r)" "ct_inv s" "ct_records s k = None"
    "reserve (ct_capacity s) = (cp, True)"
  shows "ct_inv s' \<and> evolves s s' \<and>
    ((\<exists>err. r = Inl err) \<or> (\<exists>identity rec c. claim_record_for k e n (claimed identity) = (rec, c) \<and>
       ct_records s' k = Some rec \<and> r = Inr c))"
proof -
  obtain sq i where sq: "sequence_next (ct_sequence s) = (sq, i)" by fastforce
  show ?thesis
  proof (cases i)
    case (Inl err)
    then have s': "s' = s\<lparr>ct_capacity := capacity_release cp\<rparr>" "r = Inl err"
      using assms(1,3) sq by (auto simp: inbox_insert_def)
    then show ?thesis using ct_inv_unreserve [OF assms(2,4)] evolves_fewer [of s' s] by simp
  next
    case (Inr identity)
    obtain rec c where rec: "claim_record_for k e n (claimed identity) = (rec, c)" by fastforce
    then have s': "s' = s\<lparr>ct_capacity := cp, ct_sequence := sq, ct_records := (ct_records s)(k \<mapsto> rec)\<rparr>"
      and r: "r = Inr c" using assms(1,3) sq Inr by (auto simp: inbox_insert_def)
    note P = claim_record_for_props [OF rec]
    have st: "cr_state (claimed identity) \<noteq> CCompleted" "cr_identity (claimed identity) = identity"
      by (simp_all add: claimed_def)
    have "ct_inv s'" unfolding s'
      using P st cr_wf_claimed by (intro ct_inv_insert [OF assms(2,4,3) sq [unfolded Inr]]) auto
    moreover have "checked_add (ct_sequence s) 1 = Some sq" "identity = ct_sequence s"
      using sq Inr by (simp_all add: sequence_next_Inr)
    then have "evolves s s'"
      using P(2) st(2) checked_add_1_less [of "ct_sequence s" sq] by (auto simp: evolves_def s' less_imp_le)
    ultimately show ?thesis using rec r s' by auto
  qed
qed

lemma inbox_try_claim_cases:
  assumes "inbox_try_claim_for k lease t1 t2 t3 iter s = (s', r)" "ct_inv s"
  obtains (refused) err where "r = Inl err" "ct_inv s'" "evolves s s'" "ct_records s k \<noteq> None \<Longrightarrow> s' = s"
  | (known) rec rec' c e where "ct_records s k = Some rec" "claim_record_for k e (now_unix_millis t2) rec = (rec', c)"
      "s' = s\<lparr>ct_records := (ct_records s)(k \<mapsto> rec')\<rparr>" "r = Inr c" "ct_inv s'" "evolves s s'"
  | (fresh) identity rec c e where "ct_records s k = None"
      "claim_record_for k e (now_unix_millis t2) (claimed identity) = (rec, c)"
      "ct_records s' k = Some rec" "r = Inr c" "ct_inv s'" "evolves s s'"
proof (cases "inbox_claim_expires_at lease t1")
  case (Inl err)
  then have "s' = s" "r = Inl err" using assms(1) by (auto simp: inbox_try_claim_for_def)
  then show ?thesis using assms(2) evolves_refl by (intro refused) auto
next
  case (Inr e)
  show ?thesis
  proof (cases "ct_records s k")
    case (Some rec)
    obtain rec' c where rec': "claim_record_for k e (now_unix_millis t2) rec = (rec', c)" by fastforce
    then have s': "s' = s\<lparr>ct_records := (ct_records s)(k \<mapsto> rec')\<rparr>" "r = Inr c"
      using assms(1) Inr Some by (auto simp: inbox_try_claim_for_def)
    have "evolves s s'" using s' claim_record_for_props(2,7) [OF rec'] by (intro evolves_update [OF Some]) auto
    with ct_inv_claim_record [OF assms(2) Some rec'] show ?thesis using s' by (intro known [OF Some rec']) auto
  next
    case None
    have new: ?thesis if ev: "evolves s s1" and inv: "ct_inv s1" and none: "ct_records s1 k = None"
      and res: "reserve (ct_capacity s1) = (cp, True)"
      and ins: "inbox_insert k e (now_unix_millis t2) (s1\<lparr>ct_capacity := cp\<rparr>) = (s', r)" for s1 cp
      using inbox_insert_props [OF ins inv none res] evolves_trans [OF ev] None fresh refused by blast
    obtain s1 rc where c: "inbox_cleanup_completed (ct_retention s) opportunistic_cleanup_limit t3 iter s = (s1, rc)"
      by fastforce
    note C = inbox_cleanup_props [OF c assms(2)]
    have ev: "evolves s s1" using C(3,5) by (intro evolves_fewer)
    obtain cp b where res: "reserve (ct_capacity s) = (cp, b)" by fastforce
    obtain cp1 b1 where res1: "reserve (ct_capacity s1) = (cp1, b1)" by fastforce
    have "(\<exists>err. r = Inl err \<and> s' = s1) \<or>
      b \<and> inbox_insert k e (now_unix_millis t2) (s\<lparr>ct_capacity := cp\<rparr>) = (s', r) \<or>
      b1 \<and> inbox_insert k e (now_unix_millis t2) (s1\<lparr>ct_capacity := cp1\<rparr>) = (s', r)"
      using assms(1) Inr None res res1 c
      by (cases b; cases rc; cases b1) (auto simp: inbox_try_claim_for_def Let_def)
    then show ?thesis
      using new [OF evolves_refl assms(2) None] new [OF ev C(1) C(2) [OF None]] res res1 refused C(1) ev None
      by (cases b; cases b1) auto
  qed
qed

lemma complete_for_cases:
  assumes "cr_wf r"
  shows "complete_for g res r = (if cr_generation r = g \<and> cr_state r = CClaimed
    then (r\<lparr>cr_result := Some res, cr_state := CCompleted\<rparr>, True) else (r, False))"
  using assms by (auto simp: complete_for_def cr_wf_def)

lemma inbox_complete_props:
  assumes "ct_inv s"
  shows "ct_inv (fst (inbox_complete c res now s))" "evolves s (fst (inbox_complete c res now s))"
proof -
  have "ct_inv (fst (inbox_complete c res now s)) \<and> evolves s (fst (inbox_complete c res now s))"
  proof (cases "ct_records s (ic_message_id c)")
    case None
    then show ?thesis using assms evolves_refl by (simp add: inbox_complete_def)
  next
    case (Some r)
    note wf = ct_inv_record [OF assms Some]
    let ?r = "r\<lparr>cr_result := Some res, cr_state := CCompleted\<rparr>"
    have "cr_wf ?r" using wf by (simp add: cr_wf_def)
    then have "ct_inv (s\<lparr>ct_records := (ct_records s)(ic_message_id c \<mapsto> ?r),
       ct_completed := (ct_completed s)(ic_message_id c \<mapsto> \<lparr>rr_at = now_unix_millis now, rr_identity = cr_identity r\<rparr>)\<rparr>)"
      by (intro ct_inv_complete [OF assms Some]) auto
    moreover have "evolves s (s\<lparr>ct_records := (ct_records s)(ic_message_id c \<mapsto> ?r),
       ct_completed := (ct_completed s)(ic_message_id c \<mapsto> \<lparr>rr_at = now_unix_millis now, rr_identity = cr_identity r\<rparr>)\<rparr>)"
      by (rule evolves_update [OF Some]) auto
    ultimately show ?thesis
      using assms Some evolves_refl by (simp add: inbox_complete_def complete_for_cases [OF wf] fun_upd_idem)
  qed
  then show "ct_inv (fst (inbox_complete c res now s))" "evolves s (fst (inbox_complete c res now s))" by simp_all
qed

lemma inbox_fail_props:
  assumes "ct_inv s"
  shows "ct_inv (fst (inbox_fail c s))" "evolves s (fst (inbox_fail c s))"
proof -
  have "ct_inv (fst (inbox_fail c s)) \<and> evolves s (fst (inbox_fail c s))"
  proof (cases "ct_records s (ic_message_id c)")
    case None
    then show ?thesis using assms evolves_refl by (simp add: inbox_fail_def)
  next
    case (Some r)
    let ?s = "s\<lparr>ct_records := (ct_records s)(ic_message_id c \<mapsto> r\<lparr>cr_state := CFailed\<rparr>)\<rparr>"
    have "ct_inv ?s" if "cr_state r = CClaimed"
      using that ct_inv_record [OF assms Some] by (intro ct_inv_update [OF assms Some]) (auto simp: cr_wf_def)
    moreover have "evolves s ?s" by (rule evolves_update [OF Some]) auto
    ultimately show ?thesis using assms Some evolves_refl by (auto simp: inbox_fail_def fail_for_def)
  qed
  then show "ct_inv (fst (inbox_fail c s))" "evolves s (fst (inbox_fail c s))" by simp_all
qed

lemma inbox_cleanup_evolves:
  assumes "ct_inv s"
  shows "evolves s (fst (inbox_cleanup_completed retention limit now iter s))"
proof -
  obtain s' r where c: "inbox_cleanup_completed retention limit now iter s = (s', r)" by fastforce
  from inbox_cleanup_props(3,5) [OF c assms] have "evolves s s'" by (intro evolves_fewer)
  then show ?thesis using c by simp
qed

section \<open>The store fulfils the contract of the behavior\<close>

definition inbox_holds :: "memory_inbox \<Rightarrow> u64 \<Rightarrow> inbox_claim \<Rightarrow> bool" where
  "inbox_holds s k c \<longleftrightarrow> ic_message_id c = k \<and>
     (\<exists>r. ct_records s k = Some r \<and> cr_state r = CClaimed \<and> cr_generation r = ic_generation c)"

text \<open>At the instant of the environment the lease of \<open>k\<close> is still running.\<close>

definition lease_running :: "inbox_env \<Rightarrow> memory_inbox \<Rightarrow> u64 \<Rightarrow> bool" where
  "lease_running e s k \<longleftrightarrow>
     (\<forall>r. ct_records s k = Some r \<longrightarrow> now_unix_millis (fst (snd (fst e))) < cr_expires_at r)"

lemma inbox_so_claim:
  "so_claim (inbox_ops lease) e k s =
     inbox_try_claim_for k lease (fst (fst e)) (fst (snd (fst e))) (snd (snd (fst e))) (snd e) s"
  by (simp add: inbox_ops_def split_def)

lemma inbox_law_inv: "ct_inv s \<Longrightarrow> so_claim (inbox_ops lease) e k s = (s', r) \<Longrightarrow> ct_inv s'"
  unfolding inbox_so_claim by (erule inbox_try_claim_cases) auto

lemma inbox_law_granted:
  assumes "ct_inv s" "so_claim (inbox_ops lease) e k s = (s', Inr (Some c))"
  shows "inbox_holds s' k c \<and> \<not> key_finished s k"
  using assms(2) [unfolded inbox_so_claim] assms(1)
proof (cases rule: inbox_try_claim_cases)
  case (known rec rec' c' e')
  then have c: "claim_record_for k e' (now_unix_millis (fst (snd (fst e)))) rec = (rec', Some c)" by simp
  show ?thesis
    using claim_record_for_props(3,6) [OF c] known(1,3)
    by (auto simp: inbox_holds_def key_finished_def)
next
  case (fresh identity rec c' e')
  then have c: "claim_record_for k e' (now_unix_millis (fst (snd (fst e)))) (claimed identity) = (rec, Some c)" by simp
  show ?thesis
    using claim_record_for_props(6) [OF c] fresh(1,3) by (auto simp: inbox_holds_def key_finished_def)
qed auto

lemma inbox_law_refused:
  assumes "ct_inv s" "key_finished s k \<or> inbox_holds s k c \<and> lease_running e s k"
    "so_claim (inbox_ops lease) e k s = (s', r)"
  shows "s' = s \<and> (r = Inr None \<or> (\<exists>err. r = Inl err))"
  using assms(3) [unfolded inbox_so_claim] assms(1)
proof (cases rule: inbox_try_claim_cases)
  case (refused err)
  then show ?thesis using assms(2) by (auto simp: key_finished_def inbox_holds_def)
next
  case (known rec rec' c' e')
  have "rec' = rec \<and> c' = None"
    using claim_record_for_props(3,5) [OF known(2)] known(1) assms(2)
    by (auto simp: key_finished_def inbox_holds_def lease_running_def)
  then show ?thesis using known by (simp add: fun_upd_idem)
next
  case (fresh identity rec c' e')
  then show ?thesis using assms(2) by (auto simp: key_finished_def inbox_holds_def)
qed

lemma inbox_law_complete:
  assumes "ct_inv s" "inbox_holds s k c"
  shows "so_result (inbox_ops lease) k s = Inr None"
    "\<exists>s'. so_complete (inbox_ops lease) e c res s = (s', Inr ()) \<and> ct_inv s' \<and> key_finished s' k \<and>
      so_result (inbox_ops lease) k s' = Inr res"
    "\<exists>s'. so_fail (inbox_ops lease) c s = (s', Inr ()) \<and> ct_inv s' \<and> \<not> key_finished s' k"
proof -
  from assms(2) obtain rec where rec: "ic_message_id c = k" "ct_records s k = Some rec" "cr_state rec = CClaimed"
    "cr_generation rec = ic_generation c" by (auto simp: inbox_holds_def)
  show "so_result (inbox_ops lease) k s = Inr None"
    using rec by (simp add: inbox_ops_def inbox_result_def record_result_def)
  show "\<exists>s'. so_complete (inbox_ops lease) e c res s = (s', Inr ()) \<and> ct_inv s' \<and> key_finished s' k \<and>
      so_result (inbox_ops lease) k s' = Inr res"
    using inbox_complete_props(1) [OF assms(1), of c res "fst (fst e)"] rec
      complete_for_cases [OF ct_inv_record [OF assms(1) rec(2)]]
    by (simp add: inbox_ops_def split_def inbox_complete_def key_finished_def inbox_result_def record_result_def)
  show "\<exists>s'. so_fail (inbox_ops lease) c s = (s', Inr ()) \<and> ct_inv s' \<and> \<not> key_finished s' k"
    using inbox_fail_props(1) [OF assms(1), of c] rec
    by (simp add: inbox_ops_def inbox_fail_def fail_for_def key_finished_def)
qed

interpretation inb: processing_store "inbox_ops lease" ct_inv key_finished inbox_holds lease_running for lease
  by unfold_locales
    (blast intro: inbox_law_inv inbox_law_complete dest: inbox_law_granted inbox_law_refused)+

section \<open>Correctness of the inbox\<close>

text \<open>The operations as steps of a run; \<open>state\<close> and \<open>result\<close> change nothing.\<close>

datatype inbox_op =
    InClaim u64 duration inbox_env
  | InComplete inbox_claim "bytes option" systime
  | InFail inbox_claim
  | InCleanup duration nat systime "u64 list"

fun inbox_exec :: "inbox_op \<Rightarrow> memory_inbox \<Rightarrow> memory_inbox" where
  "inbox_exec (InClaim k lease e) s = fst (so_claim (inbox_ops lease) e k s)"
| "inbox_exec (InComplete c res now) s = fst (inbox_complete c res now s)"
| "inbox_exec (InFail c) s = fst (inbox_fail c s)"
| "inbox_exec (InCleanup retention limit now iter) s = fst (inbox_cleanup_completed retention limit now iter s)"

fun inbox_run :: "inbox_op list \<Rightarrow> memory_inbox \<Rightarrow> memory_inbox" where
  "inbox_run [] s = s"
| "inbox_run (x # xs) s = inbox_run xs (inbox_exec x s)"

lemma inbox_exec_props:
  assumes "ct_inv s"
  shows "ct_inv (inbox_exec x s) \<and> evolves s (inbox_exec x s)"
proof (cases x)
  case (InClaim k lease e)
  obtain s' r where c: "so_claim (inbox_ops lease) e k s = (s', r)" by fastforce
  from c [unfolded inbox_so_claim] assms have "ct_inv s' \<and> evolves s s'"
    by (cases rule: inbox_try_claim_cases) auto
  then show ?thesis using InClaim c by simp
next
  case (InCleanup retention limit now iter)
  obtain s' r where c: "inbox_cleanup_completed retention limit now iter s = (s', r)" by fastforce
  show ?thesis
    using inbox_cleanup_props(1) [OF c assms] inbox_cleanup_evolves [OF assms, of retention limit now iter] c InCleanup
    by simp
qed (use inbox_complete_props [OF assms] inbox_fail_props [OF assms] in simp_all)

lemma inbox_run_props:
  "ct_inv s \<Longrightarrow> ct_inv (inbox_run xs s) \<and> evolves s (inbox_run xs s)"
proof (induction xs arbitrary: s)
  case (Cons x xs)
  then show ?case using inbox_exec_props [OF Cons.prems, of x] by (auto intro: evolves_trans)
qed simp



text \<open>
  A running lease is exclusive. While one handling holds a message and its lease has not
  run out, every other handling of the message fails without running its pipeline and leaves the store
  unchanged.
\<close>

theorem inbox_lease_exclusive:
  assumes "ct_inv s" "inbox_holds s k c" "lease_running e1 s k" "k \<noteq> 0"
    "inbox_handle (inbox_ops lease) codec e1 e2 k run (s, w) = ((s', w'), r)"
  shows "s' = s \<and> w' = w \<and> (\<exists>err. r = Inl err)"
  using inb.handle_held [OF assms(1-3)] assms(4,5) by (simp add: inbox_handle_def)

section \<open>A worked take-over\<close>

definition taken_over :: memory_inbox where
  "taken_over =
     \<lparr>ct_records = [7 \<mapsto> (claimed 1)\<lparr>cr_generation := 2, cr_expires_at := 9000\<rparr>], ct_completed = Map.empty,
      ct_capacity = \<lparr>rc_limit = 2, rc_used = 1\<rparr>, ct_sequence = 2, ct_retention = from_secs 60\<rparr>"

lemma taken_over_inv: "ct_inv taken_over"
  by (simp add: ct_inv_def taken_over_def cap.accounts_def cr_wf_def claimed_def indexed_def)

definition echo_codec :: "bytes cached_codec" where
  "echo_codec = \<lparr>cc_encode = Inr, cc_decode = Inr\<rparr>"


theorem inbox_lease_exclusive_witness:
  "\<exists>s' w' r. inbox_handle (inbox_ops (from_secs 5)) echo_codec ((0, 0, 0), []) ((0, 0, 0), []) 7
       (\<lambda>w. (w + 1, Returned (Inr [1]))) (taken_over, 0 :: nat) = ((s', w'), r) \<and> s' = taken_over \<and> w' = 0"
proof -
  obtain s' w' r where h: "inbox_handle (inbox_ops (from_secs 5)) echo_codec ((0, 0, 0), []) ((0, 0, 0), []) 7
       (\<lambda>w. (w + 1, Returned (Inr [1]))) (taken_over, 0 :: nat) = ((s', w'), r)" by (metis surj_pair)
  have "inbox_holds taken_over 7 \<lparr>ic_message_id = 7, ic_generation = 2\<rparr>"
    by (simp add: inbox_holds_def taken_over_def claimed_def)
  moreover have "lease_running ((0, 0, 0), []) taken_over 7"
    by (simp add: lease_running_def taken_over_def now_unix_millis_def now_unix_millis_or_def
        duration_since_epoch_def as_millis_def u64_try_from_def)
  ultimately show ?thesis
    using inbox_lease_exclusive [OF taken_over_inv _ _ _ h] h by simp
qed

definition answered :: memory_inbox where
  "answered =
     \<lparr>ct_records = [7 \<mapsto> (claimed 1)\<lparr>cr_generation := 1, cr_state := CCompleted, cr_result := Some (Some [3])\<rparr>],
      ct_completed = [7 \<mapsto> \<lparr>rr_at = 0, rr_identity = 1\<rparr>],
      ct_capacity = \<lparr>rc_limit = 2, rc_used = 1\<rparr>, ct_sequence = 2, ct_retention = from_secs 60\<rparr>"

lemma answered_inv: "ct_inv answered"
  by (simp add: ct_inv_def answered_def cap.accounts_def cr_wf_def claimed_def indexed_def)

lemma answered_handle:
  "inbox_handle (inbox_ops (from_secs 5)) echo_codec ((0, 0, 0), []) e2 7 run (answered, w) = ((answered, w), Inr [3])"
proof -
  have "inbox_claim_expires_at (from_secs 5) 0 = Inr 5000"
    by (simp add: inbox_claim_expires_at_def validate_inbox_claim_lease_def from_secs_def unix_ms_or_def
        duration_since_epoch_def as_millis_def u64_try_from_def checked_add_def)
  then have "so_claim (inbox_ops (from_secs 5)) ((0, 0, 0), []) 7 answered = (answered, Inr None)"
    by (simp add: inbox_so_claim inbox_try_claim_for_def answered_def claim_record_for_def
        try_claim_generation_until_def claimed_def)
  moreover have "so_result (inbox_ops (from_secs 5)) 7 answered = Inr (Some [3])"
    by (simp add: inbox_ops_def inbox_result_def answered_def record_result_def)
  ultimately show ?thesis by (simp add: inbox_handle_def guarded_handle_def echo_codec_def)
qed


section \<open>Limits of the fence\<close>

text \<open>
  Two facts about claims that the documentation of \<open>InboxClaim\<close> and \<open>InboxStore::complete\<close> states
  differently. The first claim of every record has generation 1, so a claim kept from a record that
  the retention sweep has removed is equal to the first claim of the record that replaced it. And a
  completion compares the generation only: an expired claim that nobody took over completes.
\<close>

lemma first_claim_generation:
  assumes "ct_inv s" "ct_records s k = None" "inbox_try_claim_for k lease t1 t2 t3 iter s = (s', Inr (Some c))"
  shows "c = \<lparr>ic_message_id = k, ic_generation = 1\<rparr>"
  using assms(3,1)
proof (cases rule: inbox_try_claim_cases)
  case (fresh identity rec c' e)
  then have "claim_record_for k e (now_unix_millis t2) (claimed identity) = (rec, Some c)" by simp
  then show ?thesis
    by (simp add: claim_record_for_def try_claim_generation_until_def claimed_def checked_add_def
        inbox_claim_new_def)
qed (use assms(2) in auto)

lemma stale_claim_of_removed_record_completes:
  assumes "ct_inv s1" "ct_records s1 k = None" "inbox_try_claim_for k lease t1 t2 t3 iter s1 = (s1', Inr (Some old))"
    "ct_inv s2" "ct_records s2 k = None" "inbox_try_claim_for k lease' u1 u2 u3 iter' s2 = (s2', Inr (Some new))"
  shows "\<exists>s3. inbox_complete old res now s2' = (s3, Inr ())"
proof -
  have "old = new" using first_claim_generation [OF assms(1-3)] first_claim_generation [OF assms(4-6)] by simp
  obtain r where r: "ct_records s2' (ic_message_id new) = Some r" "cr_state r = CClaimed" "cr_generation r = ic_generation new"
    using inbox_law_granted [OF assms(4), of lease' "((u1, u2, u3), iter')" k s2' new] assms(6)
    by (auto simp: inbox_so_claim inbox_holds_def)
  have "ct_inv s2'" using inbox_law_inv [OF assms(4), of lease' "((u1, u2, u3), iter')" k s2' "Inr (Some new)"] assms(6)
    by (simp add: inbox_so_claim)
  then show ?thesis
    using r \<open>old = new\<close> complete_for_cases [OF ct_inv_record [OF _ r(1)]] by (simp add: inbox_complete_def)
qed

lemma expired_claim_completes:
  assumes "ct_inv s" "inbox_holds s k c"
  shows "\<exists>s'. inbox_complete c res now s = (s', Inr ())"
  using inbox_law_complete(2) [OF assms, of _ "((now, 0, 0), [])" res] by (auto simp: inbox_ops_def)

end
