(* ===== verification/Event_Store.thy ===== *)
theory Event_Store
  imports Reliability "HOL-Library.Sublist"
begin

text \<open>
  The event store (\<open>crates/catga-core/src/event_store.rs\<close>, \<open>memory/event_store.rs\<close>): versioned streams with
  optimistic appends and bounded pages. A stream is the list of its events; \<open>RwLock\<close> makes every
  operation on it one step. An append takes the instant it stamps and whether the allocator grants the
  memory. The locale \<open>event_history\<close> is what the readers of any event store rely on: each page is a
  window of the history and its cursor follows that window.
\<close>

section \<open>Pages\<close>

definition max_event_store_page_size :: nat where
  "max_event_store_page_size = 1024"

definition validate_event_store_page_size :: "nat \<Rightarrow> unit catga_result" where
  "validate_event_store_page_size max_count =
     (if max_count = 0 \<or> max_count > max_event_store_page_size
      then Inl (error_new Validation ''event-store page size must be between 1 and MAX_EVENT_STORE_PAGE_SIZE'')
      else Inr ())"

record stored_event =
  se_version :: int
  se_envelope :: envelope
  se_timestamp :: systime

record event_stream =
  es_stream_id :: string
  es_version :: int
  es_events :: "stored_event list"

record version_info =
  vi_version :: int
  vi_timestamp :: systime
  vi_event_type :: string

record event_page =
  ep_stream :: event_stream
  ep_next_version :: "u64 option"

record history_page =
  vh_entries :: "version_info list"
  vh_next_version :: "u64 option"

record ids_page =
  si_ids :: "string list"
  si_next_stream_id :: "string option"

section \<open>The in-memory store\<close>

type_synonym memory_event_store = "string \<rightharpoonup> stored_event list"

definition version_exhausted :: catga_error where
  "version_exhausted = error_new Internal ''event stream version is exhausted''"

definition event_stream_version :: "nat \<Rightarrow> int catga_result" where
  "event_stream_version event_count =
     bind_r (ok_or version_exhausted (i64_try_from (int event_count))) (\<lambda>count.
       ok_or version_exhausted (i64_checked_sub count 1))"

definition checked_appended_event_version :: "int \<Rightarrow> nat \<Rightarrow> int catga_result" where
  "checked_appended_event_version current event_count =
     bind_r (ok_or version_exhausted (i64_try_from (int event_count))) (\<lambda>count.
       ok_or version_exhausted (i64_checked_add current count))"

text \<open>\<open>Vec::try_reserve_exact\<close>: a vector never exceeds \<open>isize::MAX\<close> bytes, and the allocator may refuse less.\<close>

definition vec_reserve_ok :: "bool \<Rightarrow> nat \<Rightarrow> bool" where
  "vec_reserve_ok can_alloc total_len \<longleftrightarrow> can_alloc \<and> total_len < 2 ^ 63"

text \<open>The loop that pushes the events; an error leaves what was pushed before it.\<close>

fun push_events ::
  "systime \<Rightarrow> envelope list \<Rightarrow> int \<Rightarrow> stored_event list \<Rightarrow> stored_event list \<times> unit catga_result" where
  "push_events now [] version stored = (stored, Inr ())"
| "push_events now (envelope # rest) version stored =
     (case i64_checked_add version 1 of
        None \<Rightarrow> (stored, Inl version_exhausted)
      | Some v \<Rightarrow> push_events now rest v
          (stored @ [\<lparr>se_version = v, se_envelope = envelope, se_timestamp = now\<rparr>]))"

definition stream_append ::
  "envelope list \<Rightarrow> int option \<Rightarrow> systime \<Rightarrow> bool \<Rightarrow> stored_event list
   \<Rightarrow> stored_event list \<times> int catga_result" where
  "stream_append events expected_version now can_alloc stored =
     (case event_stream_version (length stored) of
        Inl e \<Rightarrow> (stored, Inl e)
      | Inr version \<Rightarrow>
          if (case expected_version of None \<Rightarrow> False | Some expected \<Rightarrow> expected \<noteq> version)
          then (stored, Inl (error_new Conflict ''event stream version conflict''))
          else (case checked_appended_event_version version (length events) of
             Inl e \<Rightarrow> (stored, Inl e)
           | Inr appended_version \<Rightarrow>
               if \<not> vec_reserve_ok can_alloc (length stored + length events)
               then (stored, Inl (error_new Internal ''event stream allocation exceeds memory range''))
               else (case push_events now events version stored of
                  (stored', Inl e) \<Rightarrow> (stored', Inl e)
                | (stored', Inr _) \<Rightarrow> (stored', Inr appended_version))))"

definition event_version :: "memory_event_store \<Rightarrow> string \<Rightarrow> int catga_result" where
  "event_version s stream_id =
     (case s stream_id of None \<Rightarrow> Inr (- 1) | Some stored \<Rightarrow> event_stream_version (length stored))"

definition event_append ::
  "string \<Rightarrow> envelope list \<Rightarrow> int option \<Rightarrow> systime \<times> bool \<Rightarrow> memory_event_store
   \<Rightarrow> memory_event_store \<times> int catga_result" where
  "event_append stream_id events expected_version env s =
     (if events = []
      then (s, case s stream_id of None \<Rightarrow> Inr (- 1) | Some stored \<Rightarrow> event_stream_version (length stored))
      else (case stream_append events expected_version (fst env) (snd env)
                   (case s stream_id of None \<Rightarrow> [] | Some stored \<Rightarrow> stored) of
              (stored', r) \<Rightarrow> (s(stream_id \<mapsto> stored'), r)))"

text \<open>\<open>snapshot.get(start..).unwrap_or_default()\<close>\<close>

definition slice_from :: "nat \<Rightarrow> 'a list \<Rightarrow> 'a list" where
  "slice_from start xs = (if start \<le> length xs then drop start xs else [])"

definition page_stream :: "memory_event_store \<Rightarrow> string \<Rightarrow> u64 \<Rightarrow> nat \<Rightarrow> event_stream catga_result" where
  "page_stream s stream_id from_version max_count =
     (case s stream_id of
        None \<Rightarrow> Inr \<lparr>es_stream_id = stream_id, es_version = - 1, es_events = []\<rparr>
      | Some snapshot \<Rightarrow>
          (let events = take max_count (slice_from (unat from_version) snapshot)
           in bind_r (event_stream_version (length snapshot)) (\<lambda>version.
                Inr \<lparr>es_stream_id = stream_id, es_version = version, es_events = events\<rparr>)))"

definition u64_of_i64 :: "int \<Rightarrow> u64 option" where
  "u64_of_i64 n = (if 0 \<le> n then Some (word_of_int n) else None)"

text \<open>The cursor after the last event of a page, when the stream goes on beyond it.\<close>

definition cursor_after :: "int option \<Rightarrow> int \<Rightarrow> u64 option" where
  "cursor_after last_version limit =
     (case last_version of
        None \<Rightarrow> None
      | Some version \<Rightarrow> if version < limit then u64_of_i64 (i64_saturating_add version 1) else None)"

definition last_version :: "stored_event list \<Rightarrow> int option" where
  "last_version events = (if events = [] then None else Some (se_version (last events)))"

definition read_page :: "memory_event_store \<Rightarrow> string \<Rightarrow> u64 \<Rightarrow> nat \<Rightarrow> event_page catga_result" where
  "read_page s stream_id from_version max_count =
     bind_r (validate_event_store_page_size max_count) (\<lambda>_.
     bind_r (page_stream s stream_id from_version max_count) (\<lambda>stream.
       Inr \<lparr>ep_stream = stream,
            ep_next_version = cursor_after (last_version (es_events stream)) (es_version stream)\<rparr>))"

definition read_to_version_page ::
  "memory_event_store \<Rightarrow> string \<Rightarrow> u64 \<Rightarrow> int \<Rightarrow> nat \<Rightarrow> event_page catga_result" where
  "read_to_version_page s stream_id from_version to_version max_count =
     bind_r (validate_event_store_page_size max_count) (\<lambda>_.
     if to_version < 0
     then Inr \<lparr>ep_stream = \<lparr>es_stream_id = stream_id, es_version = - 1, es_events = []\<rparr>, ep_next_version = None\<rparr>
     else bind_r (page_stream s stream_id from_version max_count) (\<lambda>stream.
       let events = takeWhile (\<lambda>event. se_version event \<le> to_version) (es_events stream);
           page_version = (case last_version events of None \<Rightarrow> - 1 | Some v \<Rightarrow> v);
           next_version = (case last_version events of
             None \<Rightarrow> None
           | Some v \<Rightarrow> if v < to_version \<and> v < es_version stream
                       then u64_of_i64 (i64_saturating_add v 1) else None)
       in Inr \<lparr>ep_stream = \<lparr>es_stream_id = stream_id, es_version = page_version, es_events = events\<rparr>,
               ep_next_version = next_version\<rparr>))"

definition read_to_time_page ::
  "memory_event_store \<Rightarrow> string \<Rightarrow> u64 \<Rightarrow> systime \<Rightarrow> nat \<Rightarrow> event_page catga_result" where
  "read_to_time_page s stream_id from_version upper_bound max_count =
     bind_r (validate_event_store_page_size max_count) (\<lambda>_.
     bind_r (page_stream s stream_id from_version max_count) (\<lambda>stream.
       let last_scanned = last_version (es_events stream);
           events = filter (\<lambda>event. se_timestamp event \<le> upper_bound) (es_events stream);
           version = (case last_version events of None \<Rightarrow> - 1 | Some v \<Rightarrow> v)
       in Inr \<lparr>ep_stream = \<lparr>es_stream_id = stream_id, es_version = version, es_events = events\<rparr>,
               ep_next_version = cursor_after last_scanned (es_version stream)\<rparr>))"

definition version_info_of :: "stored_event \<Rightarrow> version_info" where
  "version_info_of event =
     \<lparr>vi_version = se_version event, vi_timestamp = se_timestamp event,
      vi_event_type = env_message_type (se_envelope event)\<rparr>"

definition version_history_page ::
  "memory_event_store \<Rightarrow> string \<Rightarrow> u64 \<Rightarrow> nat \<Rightarrow> history_page catga_result" where
  "version_history_page s stream_id from_version max_count =
     bind_r (validate_event_store_page_size max_count) (\<lambda>_.
     bind_r (page_stream s stream_id from_version max_count) (\<lambda>stream.
       Inr \<lparr>vh_entries = map version_info_of (es_events stream),
            vh_next_version = cursor_after (last_version (es_events stream)) (es_version stream)\<rparr>))"

text \<open>The selection loop over the stream names; the flag tells that a name did not fit.\<close>

fun stream_ids_loop :: "string option \<Rightarrow> nat \<Rightarrow> string list \<Rightarrow> string list \<times> bool \<Rightarrow> string list \<times> bool" where
  "stream_ids_loop after max_count [] acc = acc"
| "stream_ids_loop after max_count (ident # rest) (ids, has_more) =
     (if (case after of None \<Rightarrow> False | Some cursor \<Rightarrow> ident \<le> cursor)
      then stream_ids_loop after max_count rest (ids, has_more)
      else if length ids < max_count
      then stream_ids_loop after max_count rest (heap_push ident ids, has_more)
      else stream_ids_loop after max_count rest
        (case heap_peek ids of
           Some largest \<Rightarrow> if ident < largest then heap_push ident (heap_pop ids) else ids
         | None \<Rightarrow> ids, True))"

definition stream_ids_page ::
  "string list \<Rightarrow> string option \<Rightarrow> nat \<Rightarrow> ids_page catga_result" where
  "stream_ids_page iter after max_count =
     bind_r (validate_event_store_page_size max_count) (\<lambda>_.
       case stream_ids_loop after max_count iter ([], False) of
         (ids, has_more) \<Rightarrow>
           Inr \<lparr>si_ids = sort ids,
                si_next_stream_id = (if has_more then (if ids = [] then None else Some (last (sort ids))) else None)\<rparr>)"

section \<open>The interface\<close>

text \<open>The \<open>EventStore\<close> trait: what readers and writers of any event store call.\<close>

record ('e, 's) event_store_ops =
  ev_append :: "string \<Rightarrow> envelope list \<Rightarrow> int option \<Rightarrow> 'e \<Rightarrow> 's \<Rightarrow> 's \<times> int catga_result"
  ev_read_page :: "'s \<Rightarrow> string \<Rightarrow> u64 \<Rightarrow> nat \<Rightarrow> event_page catga_result"
  ev_version :: "'s \<Rightarrow> string \<Rightarrow> int catga_result"
  ev_read_to_version_page :: "'s \<Rightarrow> string \<Rightarrow> u64 \<Rightarrow> int \<Rightarrow> nat \<Rightarrow> event_page catga_result"
  ev_read_to_time_page :: "'s \<Rightarrow> string \<Rightarrow> u64 \<Rightarrow> systime \<Rightarrow> nat \<Rightarrow> event_page catga_result"
  ev_version_history_page :: "'s \<Rightarrow> string \<Rightarrow> u64 \<Rightarrow> nat \<Rightarrow> history_page catga_result"
  ev_stream_ids_page :: "'s \<Rightarrow> string option \<Rightarrow> nat \<Rightarrow> ids_page catga_result"

text \<open>\<open>iter\<close> is the order in which the concurrent map yields the streams of a store.\<close>

definition memory_event_ops ::
  "(memory_event_store \<Rightarrow> string list) \<Rightarrow> (systime \<times> bool, memory_event_store) event_store_ops" where
  "memory_event_ops iter =
     \<lparr>ev_append = event_append, ev_read_page = read_page, ev_version = event_version,
      ev_read_to_version_page = read_to_version_page, ev_read_to_time_page = read_to_time_page,
      ev_version_history_page = version_history_page,
      ev_stream_ids_page = (\<lambda>s. stream_ids_page (iter s))\<rparr>"

section \<open>Histories\<close>

text \<open>A history numbers its events from zero and stays within the version range.\<close>

definition numbered :: "stored_event list \<Rightarrow> bool" where
  "numbered evs \<longleftrightarrow> length evs < 2 ^ 63 \<and> (\<forall>i < length evs. se_version (evs ! i) = int i)"

definition window :: "nat \<Rightarrow> nat \<Rightarrow> 'a list \<Rightarrow> 'a list" where
  "window from n evs = take n (drop from evs)"

definition next_cursor :: "nat \<Rightarrow> nat \<Rightarrow> 'a list \<Rightarrow> u64 option" where
  "next_cursor from n evs = (if from + n < length evs then Some (word_of_nat (from + n)) else None)"

definition tail_version :: "stored_event list \<Rightarrow> int" where
  "tail_version evs = (case last_version evs of None \<Rightarrow> - 1 | Some v \<Rightarrow> v)"

definition number_from :: "systime \<Rightarrow> int \<Rightarrow> envelope list \<Rightarrow> stored_event list" where
  "number_from now v envs =
     map (\<lambda>i. \<lparr>se_version = v + int i, se_envelope = envs ! i, se_timestamp = now\<rparr>) [0..<length envs]"

locale event_history =
  fixes ops :: "('e, 's) event_store_ops"
    and inv :: "'s \<Rightarrow> bool"
    and history :: "'s \<Rightarrow> string \<Rightarrow> stored_event list"
  assumes history_numbered: "inv s \<Longrightarrow> numbered (history s k)"
    and page_law: "inv s \<Longrightarrow> 0 < n \<Longrightarrow> n \<le> max_event_store_page_size \<Longrightarrow>
      ev_read_page ops s k from n =
        Inr \<lparr>ep_stream = \<lparr>es_stream_id = k, es_version = int (length (history s k)) - 1,
                            es_events = window (unat from) n (history s k)\<rparr>,
             ep_next_version = next_cursor (unat from) n (history s k)\<rparr>"
    and version_page_law: "inv s \<Longrightarrow> 0 < n \<Longrightarrow> n \<le> max_event_store_page_size \<Longrightarrow>
      ev_read_to_version_page ops s k from to n =
        Inr \<lparr>ep_stream = \<lparr>es_stream_id = k,
               es_version = tail_version (window (unat from) n (take (nat (to + 1)) (history s k))),
               es_events = window (unat from) n (take (nat (to + 1)) (history s k))\<rparr>,
             ep_next_version = next_cursor (unat from) n (take (nat (to + 1)) (history s k))\<rparr>"
    and time_page_law: "inv s \<Longrightarrow> 0 < n \<Longrightarrow> n \<le> max_event_store_page_size \<Longrightarrow>
      ev_read_to_time_page ops s k from bound n =
        Inr \<lparr>ep_stream = \<lparr>es_stream_id = k,
               es_version = tail_version (filter (\<lambda>e. se_timestamp e \<le> bound) (window (unat from) n (history s k))),
               es_events = filter (\<lambda>e. se_timestamp e \<le> bound) (window (unat from) n (history s k))\<rparr>,
             ep_next_version = next_cursor (unat from) n (history s k)\<rparr>"

section \<open>The in-memory store has a history\<close>

definition es_inv :: "memory_event_store \<Rightarrow> bool" where
  "es_inv s \<longleftrightarrow> finite (dom s) \<and> (\<forall>k evs. s k = Some evs \<longrightarrow> numbered evs)"

definition stream_events :: "memory_event_store \<Rightarrow> string \<Rightarrow> stored_event list" where
  "stream_events s k = (case s k of None \<Rightarrow> [] | Some evs \<Rightarrow> evs)"

lemma numbered_Nil [simp]: "numbered []"
  by (simp add: numbered_def)

lemma numbered_take: "numbered evs \<Longrightarrow> numbered (take n evs)"
  by (simp add: numbered_def min.strict_coboundedI1)

lemma stream_events_numbered: "es_inv s \<Longrightarrow> numbered (stream_events s k)"
  by (simp add: es_inv_def stream_events_def split: option.split)

lemma event_stream_version_ok:
  assumes "n < 2 ^ 63"
  shows "event_stream_version n = Inr (int n - 1)"
  using assms by (simp add: event_stream_version_def i64_defs)

lemma page_stream_exact:
  assumes "es_inv s"
  shows "page_stream s k from n = Inr \<lparr>es_stream_id = k, es_version = int (length (stream_events s k)) - 1,
    es_events = window (unat from) n (stream_events s k)\<rparr>"
proof (cases "s k")
  case None
  then show ?thesis by (simp add: page_stream_def stream_events_def window_def)
next
  case (Some evs)
  with assms have "length evs < 2 ^ 63" by (auto simp: es_inv_def numbered_def)
  with Some show ?thesis
    by (simp add: page_stream_def stream_events_def window_def slice_from_def event_stream_version_ok)
qed

lemma window_nth: "i < length (window from n evs) \<Longrightarrow> window from n evs ! i = evs ! (from + i) \<and> from + i < length evs"
  by (auto simp: window_def nth_append)

lemma window_last_version:
  assumes "numbered evs" "0 < n"
  shows "last_version (window from n evs) =
    (if from < length evs then Some (int (min (from + n) (length evs)) - 1) else None)"
proof (cases "from < length evs")
  case True
  let ?w = "window from n evs"
  have len: "length ?w = min n (length evs - from)" by (simp add: window_def)
  with True assms(2) have ne: "?w \<noteq> []" by (auto simp flip: length_greater_0_conv)
  have "last ?w = ?w ! (length ?w - 1)" using ne by (rule last_conv_nth)
  also have "\<dots> = evs ! (from + (length ?w - 1))"
    using True assms(2) unfolding len by (simp add: window_def)
  finally have "se_version (last ?w) = int (from + (length ?w - 1))"
    using assms True len by (simp add: numbered_def)
  also have "from + (length ?w - 1) = min (from + n) (length evs) - 1"
    using True assms(2) unfolding len by linarith
  finally show ?thesis using ne True assms(2) by (simp add: last_version_def of_nat_diff)
qed (simp add: last_version_def window_def)

lemma u64_of_i64_nat: "u64_of_i64 (int n) = Some (word_of_nat n)"
  by (simp add: u64_of_i64_def)

lemma saturating_succ: "m < 2 ^ 63 \<Longrightarrow> i64_saturating_add (int m - 1) 1 = int m"
  by (simp add: i64_defs)

lemma cursor_after_window:
  assumes "numbered evs" "0 < n"
  shows "cursor_after (last_version (window from n evs)) (int (length evs) - 1) = next_cursor from n evs"
proof -
  have "i64_saturating_add (int (from + n) - 1) 1 = int (from + n)" if "from + n < length evs"
    by (rule saturating_succ) (use that assms(1) in \<open>simp add: numbered_def\<close>)
  then show ?thesis
    using assms(2) u64_of_i64_nat [of "from + n"]
    by (auto simp: window_last_version [OF assms] cursor_after_def next_cursor_def)
qed

lemma valid_page_size: "0 < n \<Longrightarrow> n \<le> max_event_store_page_size \<Longrightarrow> validate_event_store_page_size n = Inr ()"
  by (simp add: validate_event_store_page_size_def)

lemma read_page_law:
  assumes "es_inv s" "0 < n" "n \<le> max_event_store_page_size"
  shows "read_page s k from n =
    Inr \<lparr>ep_stream = \<lparr>es_stream_id = k, es_version = int (length (stream_events s k)) - 1,
                        es_events = window (unat from) n (stream_events s k)\<rparr>,
         ep_next_version = next_cursor (unat from) n (stream_events s k)\<rparr>"
  using cursor_after_window [OF stream_events_numbered [OF assms(1)] assms(2), of "unat from" k]
  by (simp add: read_page_def valid_page_size assms page_stream_exact)

lemma takeWhile_window:
  assumes "numbered evs" "0 \<le> to"
  shows "takeWhile (\<lambda>e. se_version e \<le> to) (window from n evs) = window from n (take (nat (to + 1)) evs)"
proof -
  let ?w = "window from n evs"
  have ver: "se_version (?w ! i) = int (from + i)" if "i < length ?w" for i
    using window_nth [OF that] assms(1) by (simp add: numbered_def)
  have "takeWhile (\<lambda>e. se_version e \<le> to) ?w = take (nat (to + 1) - from) ?w"
  proof (cases "length ?w \<le> nat (to + 1) - from")
    case True
    then have "\<forall>e \<in> set ?w. se_version e \<le> to" using ver by (auto simp: in_set_conv_nth)
    with True show ?thesis by simp
  next
    case False
    then show ?thesis using ver assms(2) by (intro takeWhile_eq_take_P_nth) auto
  qed
  also have "\<dots> = window from n (take (nat (to + 1)) evs)"
    by (simp add: window_def drop_take min.commute)
  finally show ?thesis .
qed

lemma version_cursor_window:
  assumes "numbered evs" "0 < n" "0 \<le> to"
  shows "(case last_version (window f n (take (nat (to + 1)) evs)) of None \<Rightarrow> None
      | Some v \<Rightarrow> if v < to \<and> v < int (length evs) - 1 then u64_of_i64 (i64_saturating_add v 1) else None)
    = next_cursor f n (take (nat (to + 1)) evs)"
proof -
  have "i64_saturating_add (int (f + n) - 1) 1 = int (f + n)" if "f + n < length evs"
    by (rule saturating_succ) (use that assms(1) in \<open>simp add: numbered_def\<close>)
  then show ?thesis
    using assms(2,3) u64_of_i64_nat [of "f + n"]
    by (auto simp: window_last_version [OF numbered_take [OF assms(1)] assms(2)] next_cursor_def)
qed

lemma read_to_version_page_law:
  assumes "es_inv s" "0 < n" "n \<le> max_event_store_page_size"
  shows "read_to_version_page s k from to n =
    (let seen = take (nat (to + 1)) (stream_events s k); w = window (unat from) n seen
     in Inr \<lparr>ep_stream = \<lparr>es_stream_id = k, es_version = tail_version w, es_events = w\<rparr>,
             ep_next_version = next_cursor (unat from) n seen\<rparr>)"
proof (cases "to < 0")
  case True
  then show ?thesis
    by (simp add: read_to_version_page_def valid_page_size assms window_def next_cursor_def tail_version_def last_version_def)
next
  case False
  let ?evs = "stream_events s k" and ?f = "unat from"
  let ?seen = "take (nat (to + 1)) ?evs"
  note num = stream_events_numbered [OF assms(1), of k]
  have w: "takeWhile (\<lambda>e. se_version e \<le> to) (window ?f n ?evs) = window ?f n ?seen"
    using False by (intro takeWhile_window num) simp
  note c = version_cursor_window [OF num assms(2), of to ?f]
  show ?thesis
    using False w c
    by (simp add: read_to_version_page_def valid_page_size assms page_stream_exact tail_version_def Let_def
        cong: option.case_cong)
qed

lemma read_to_time_page_law:
  assumes "es_inv s" "0 < n" "n \<le> max_event_store_page_size"
  shows "read_to_time_page s k from bound n =
    (let w = window (unat from) n (stream_events s k); evs = filter (\<lambda>e. se_timestamp e \<le> bound) w
     in Inr \<lparr>ep_stream = \<lparr>es_stream_id = k, es_version = tail_version evs, es_events = evs\<rparr>,
             ep_next_version = next_cursor (unat from) n (stream_events s k)\<rparr>)"
  using cursor_after_window [OF stream_events_numbered [OF assms(1)] assms(2), of "unat from" k]
  by (simp add: read_to_time_page_def valid_page_size assms page_stream_exact tail_version_def Let_def)

interpretation mes: event_history "memory_event_ops iter" es_inv stream_events for iter
  by unfold_locales (simp_all add: memory_event_ops_def stream_events_numbered read_page_law
      read_to_version_page_law read_to_time_page_law Let_def)

section \<open>Appending\<close>

lemma number_from_Cons:
  "number_from now v (x # envs) = \<lparr>se_version = v, se_envelope = x, se_timestamp = now\<rparr> # number_from now (v + 1) envs"
  by (simp add: number_from_def upt_conv_Cons map_Suc_upt [symmetric] algebra_simps del: upt_Suc)

lemma push_events_ok:
  assumes "i64_min \<le> v" "v + int (length envs) \<le> i64_max"
  shows "push_events now envs v stored = (stored @ number_from now (v + 1) envs, Inr ())"
  using assms
proof (induction envs arbitrary: v stored)
  case Nil
  then show ?case by (simp add: number_from_def)
next
  case (Cons x envs)
  then have "i64_checked_add v 1 = Some (v + 1)" by (simp add: i64_defs)
  with Cons show ?case by (simp add: number_from_Cons i64_min_def)
qed

lemma numbered_append:
  assumes "numbered evs" "length evs + length envs < 2 ^ 63"
  shows "numbered (evs @ number_from now (int (length evs)) envs)"
  using assms by (auto simp: numbered_def number_from_def nth_append)

lemma stream_append_exact:
  fixes stored :: "stored_event list"
  defines "v \<equiv> int (length stored) - 1"
  assumes "numbered stored"
  shows "stream_append envs expected now can_alloc stored =
    (if expected \<noteq> None \<and> expected \<noteq> Some v
     then (stored, Inl (error_new Conflict ''event stream version conflict''))
     else if 2 ^ 63 < length stored + length envs \<or> 2 ^ 63 \<le> length envs
     then (stored, Inl version_exhausted)
     else if \<not> vec_reserve_ok can_alloc (length stored + length envs)
     then (stored, Inl (error_new Internal ''event stream allocation exceeds memory range''))
     else (stored @ number_from now (int (length stored)) envs, Inr (v + int (length envs))))"
proof -
  have len: "length stored < 2 ^ 63" using assms(2) by (simp add: numbered_def)
  have c: "checked_appended_event_version v (length envs) =
      (if 2 ^ 63 < length stored + length envs \<or> 2 ^ 63 \<le> length envs then Inl version_exhausted
       else Inr (v + int (length envs)))"
    by (auto simp: checked_appended_event_version_def i64_defs v_def)
  have p: "push_events now envs v stored = (stored @ number_from now (int (length stored)) envs, Inr ())"
    if "vec_reserve_ok can_alloc (length stored + length envs)"
    using push_events_ok [of v envs now stored] that by (simp add: i64_defs v_def vec_reserve_ok_def)
  show ?thesis
    using c p unfolding stream_append_def event_stream_version_ok [OF len] v_def [symmetric]
    by (auto split: option.splits)
qed

lemma event_append_cases:
  assumes "es_inv s" "event_append k envs expected (now, can_alloc) s = (s', r)"
  shows "es_inv s' \<and> (\<forall>k'. k' \<noteq> k \<longrightarrow> s' k' = s k') \<and>
    (case r of
       Inr v \<Rightarrow>
         (envs \<noteq> [] \<longrightarrow> expected = None \<or> expected = Some (int (length (stream_events s k)) - 1)) \<and>
         stream_events s' k = stream_events s k @ number_from now (int (length (stream_events s k))) envs \<and>
         v = int (length (stream_events s' k)) - 1
     | Inl err \<Rightarrow>
         envs \<noteq> [] \<and> stream_events s' k = stream_events s k \<and>
         ce_code err = (if expected \<noteq> None \<and> expected \<noteq> Some (int (length (stream_events s k)) - 1)
                        then Conflict else Internal) \<and>
         (ce_code err = Internal \<longrightarrow> \<not> (can_alloc \<and> length (stream_events s k) + length envs < 2 ^ 63)))"
proof (cases "envs = []")
  case True
  with assms have "s' = s" "r = event_version s k"
    by (auto simp: event_append_def event_version_def)
  moreover have "event_version s k = Inr (int (length (stream_events s k)) - 1)"
    using assms(1) event_stream_version_ok
    by (auto simp: event_version_def stream_events_def es_inv_def numbered_def split: option.split)
  ultimately show ?thesis using True assms(1) by (simp add: number_from_def)
next
  case False
  note num = stream_events_numbered [OF assms(1), of k]
  obtain st where st: "stream_append envs expected now can_alloc (stream_events s k) = (st, r)" "s' = s(k \<mapsto> st)"
    using assms(2) False by (auto simp: event_append_def stream_events_def split: prod.splits)
  from st(1) have "numbered st" unfolding stream_append_exact [OF num]
    using num numbered_append by (auto simp: vec_reserve_ok_def split: if_splits)
  then have "es_inv s'" using assms(1) st(2) by (auto simp: es_inv_def)
  moreover have "stream_events s' k = st" by (simp add: stream_events_def st(2))
  ultimately show ?thesis
    using st False unfolding stream_append_exact [OF num]
    by (auto simp: version_exhausted_def error_new_def vec_reserve_ok_def number_from_def split: if_splits)
qed


definition demo_envelope :: envelope where
  "demo_envelope = envelope_new 1 ''Tick'' [1] (metadata_new 1 None) 0"


end
