(* ===== verification/Event_Reading.thy ===== *)
theory Event_Reading
  imports Event_Store
begin

text \<open>
  The cursor loop of the readers of an event store: read a page, use its events, follow the cursor until
  a page has none. Other tasks append between two reads, so every read observes a store of its own; the
  list of these observations also bounds the number of reads, and \<^term>\<open>None\<close> says that the loop still
  wants to read when they are used up. The readers of \<open>aggregate.rs\<close> and \<open>time_travel.rs\<close> are instances.
\<close>

section \<open>The loop\<close>

fun page_loop ::
  "('s \<Rightarrow> u64 \<Rightarrow> event_page catga_result) \<Rightarrow> ('a \<Rightarrow> stored_event list \<Rightarrow> 'a catga_result)
   \<Rightarrow> u64 \<Rightarrow> 's list \<Rightarrow> 'a \<Rightarrow> 'a catga_result option" where
  "page_loop rd use cursor [] acc = None"
| "page_loop rd use cursor (s # obs) acc =
     (case rd s cursor of
        Inl e \<Rightarrow> Some (Inl e)
      | Inr page \<Rightarrow>
          (case use acc (es_events (ep_stream page)) of
             Inl e \<Rightarrow> Some (Inl e)
           | Inr acc' \<Rightarrow>
               (case ep_next_version page of
                  None \<Rightarrow> Some (Inr acc')
                | Some c \<Rightarrow> page_loop rd use c obs acc')))"

text \<open>The loop over the events of one page; the first error ends it.\<close>

fun fold_r :: "('a \<Rightarrow> 'b \<Rightarrow> 'a catga_result) \<Rightarrow> 'a \<Rightarrow> 'b list \<Rightarrow> 'a catga_result" where
  "fold_r f acc [] = Inr acc"
| "fold_r f acc (x # xs) = bind_r (f acc x) (\<lambda>acc'. fold_r f acc' xs)"

lemma fold_r_append: "fold_r f acc (xs @ ys) = bind_r (fold_r f acc xs) (\<lambda>acc'. fold_r f acc' ys)"
proof (induction xs arbitrary: acc)
  case (Cons x xs)
  then show ?case by (cases "f acc x") simp_all
qed simp

lemma fold_r_filter: "fold_r f acc (filter P xs) = fold_r (\<lambda>acc x. if P x then f acc x else Inr acc) acc xs"
proof (induction xs arbitrary: acc)
  case (Cons x xs)
  then show ?case by (cases "f acc x") simp_all
qed simp

lemma fold_r_map: "fold_r f acc (map g xs) = fold_r (\<lambda>acc x. f acc (g x)) acc xs"
proof (induction xs arbitrary: acc)
  case (Cons x xs)
  then show ?case by (cases "f acc (g x)") simp_all
qed simp

section \<open>Following the cursor reads everything once\<close>

lemma prefix_window:
  assumes "prefix xs ys" "c + n \<le> length xs"
  shows "take n (drop c xs) = take n (drop c ys)"
  using assms by (auto simp: prefix_def)

lemma page_loop_reads:
  fixes H :: "'s \<Rightarrow> stored_event list"
  assumes "\<And>s from. s \<in> set obs \<Longrightarrow> \<exists>page. rd s from = Inr page \<and>
        es_events (ep_stream page) = filter P (window (unat from) n (H s)) \<and>
        ep_next_version page = next_cursor (unat from) n (H s)"
    and "sorted_wrt (\<lambda>s s'. prefix (H s) (H s')) obs" "\<And>s. s \<in> set obs \<Longrightarrow> length (H s) < 2 ^ 63"
    and "\<And>acc. use acc [] = Inr acc"
    and "\<And>acc xs ys. use acc (xs @ ys) = bind_r (use acc xs) (\<lambda>acc'. use acc' ys)"
    and "0 < n" "obs \<noteq> []" "length (H (last obs)) \<le> c + n * length obs" "c < 2 ^ 64"
  shows "\<exists>s \<in> set obs. page_loop rd use (word_of_nat c) obs acc = Some (use acc (filter P (drop c (H s))))"
  using assms(1-3,7-)
proof (induction obs arbitrary: c acc)
  case Nil
  then show ?case by simp
next
  case (Cons s obs)
  have c: "unat (word_of_nat c :: u64) = c" using Cons.prems(6) by (simp add: unat_of_nat take_bit_nat_eq_self)
  obtain page where page: "rd s (word_of_nat c) = Inr page"
    "es_events (ep_stream page) = filter P (window c n (H s))" "ep_next_version page = next_cursor c n (H s)"
    using Cons.prems(1) [of s "word_of_nat c"] c by auto
  have split: "use acc (filter P (drop c (H t))) =
      bind_r (use acc (filter P (window c n (H t)))) (\<lambda>acc'. use acc' (filter P (drop (c + n) (H t))))" for t
    using assms(5) [of acc "filter P (take n (drop c (H t)))" "filter P (drop n (drop c (H t)))"]
    unfolding filter_append [symmetric] append_take_drop_id by (simp add: window_def add.commute)
  show ?case
  proof (cases "use acc (filter P (window c n (H s)))")
    case (Inl e)
    then show ?thesis using page split [of s] by (intro bexI [of _ s]) simp_all
  next
    case (Inr acc')
    show ?thesis
    proof (cases "c + n < length (H s)")
      case False
      then show ?thesis
        using page Inr split [of s] assms(4) by (intro bexI [of _ s]) (simp_all add: next_cursor_def)
    next
      case True
      have "obs \<noteq> []" using True Cons.prems(5) by (cases obs) auto
      moreover have "c + n < 2 ^ 64" using True Cons.prems(3) [of s] by simp
      ultimately obtain t where t: "t \<in> set obs"
        "page_loop rd use (word_of_nat (c + n)) obs acc' = Some (use acc' (filter P (drop (c + n) (H t))))"
        using Cons.IH [of "c + n" acc'] Cons.prems by (auto simp: algebra_simps)
      have "window c n (H s) = window c n (H t)"
        using prefix_window [of "H s" "H t" c n] Cons.prems(2) t(1) True by (simp add: window_def)
      then show ?thesis
        using page Inr True t split [of t] by (intro bexI [of _ t]) (simp_all add: next_cursor_def)
    qed
  qed
qed

text \<open>Stores that a reader of stream \<open>k\<close> observes one after the other: the stream only grows.\<close>

context event_history
begin

definition observes :: "string \<Rightarrow> 's list \<Rightarrow> bool" where
  "observes k obs \<longleftrightarrow> (\<forall>s \<in> set obs. inv s) \<and> sorted_wrt (\<lambda>s s'. prefix (history s k) (history s' k)) obs"

definition enough :: "string \<Rightarrow> nat \<Rightarrow> nat \<Rightarrow> 's list \<Rightarrow> bool" where
  "enough k c n obs \<longleftrightarrow> obs \<noteq> [] \<and> length (history (last obs) k) \<le> c + n * length obs"

lemma observed_short: "observes k obs \<Longrightarrow> s \<in> set obs \<Longrightarrow> length (history s k) < 2 ^ 63"
  using history_numbered by (auto simp: observes_def numbered_def)

lemma page_loop_history:
  assumes "observes k obs" "enough k c n obs" "0 < n" "n \<le> max_event_store_page_size" "c < 2 ^ 64"
    "\<And>acc. use acc [] = Inr acc" "\<And>acc xs ys. use acc (xs @ ys) = bind_r (use acc xs) (\<lambda>acc'. use acc' ys)"
  shows "\<exists>s \<in> set obs. page_loop (\<lambda>s from. ev_read_page ops s k from n) use (word_of_nat c) obs acc =
    Some (use acc (drop c (history s k)))"
proof -
  have "\<exists>s \<in> set obs. page_loop (\<lambda>s from. ev_read_page ops s k from n) use (word_of_nat c) obs acc =
      Some (use acc (filter (\<lambda>_. True) (drop c (history s k))))"
    by (rule page_loop_reads)
      (use assms observed_short in \<open>auto simp: observes_def enough_def page_law\<close>)
  then show ?thesis by simp
qed

lemma page_loop_version:
  assumes "observes k obs" "enough k c n obs" "0 < n" "n \<le> max_event_store_page_size" "c < 2 ^ 64"
    "\<And>acc. use acc [] = Inr acc" "\<And>acc xs ys. use acc (xs @ ys) = bind_r (use acc xs) (\<lambda>acc'. use acc' ys)"
  shows "\<exists>s \<in> set obs. page_loop (\<lambda>s from. ev_read_to_version_page ops s k from to n) use (word_of_nat c) obs acc =
    Some (use acc (drop c (take (nat (to + 1)) (history s k))))"
proof -
  have "sorted_wrt (\<lambda>s s'. prefix (take m (history s k)) (take m (history s' k))) obs" for m
    using assms(1) unfolding observes_def
    by (elim conjE sorted_wrt_mono_rel [rotated]) (auto simp: prefix_def)
  then have "\<exists>s \<in> set obs. page_loop (\<lambda>s from. ev_read_to_version_page ops s k from to n) use (word_of_nat c) obs acc =
      Some (use acc (filter (\<lambda>_. True) (drop c (take (nat (to + 1)) (history s k)))))"
    by (intro page_loop_reads)
      (use assms observed_short in \<open>auto simp: observes_def enough_def version_page_law min.strict_coboundedI1\<close>)
  then show ?thesis by simp
qed

lemma page_loop_time:
  assumes "observes k obs" "enough k c n obs" "0 < n" "n \<le> max_event_store_page_size" "c < 2 ^ 64"
    "\<And>acc. use acc [] = Inr acc" "\<And>acc xs ys. use acc (xs @ ys) = bind_r (use acc xs) (\<lambda>acc'. use acc' ys)"
  shows "\<exists>s \<in> set obs. page_loop (\<lambda>s from. ev_read_to_time_page ops s k from bound n) use (word_of_nat c) obs acc =
    Some (use acc (filter (\<lambda>e. se_timestamp e \<le> bound) (drop c (history s k))))"
  by (rule page_loop_reads)
    (use assms observed_short in \<open>auto simp: observes_def enough_def time_page_law\<close>)

end

end
