(* ===== verification/Snapshots.thy ===== *)
theory Snapshots
  imports Event_Reading
begin

text \<open>
  Snapshots of aggregate states (\<open>crates/catga-core/src/snapshot.rs\<close>, \<open>memory/snapshot.rs\<close>,
  \<open>memory/enhanced_snapshot.rs\<close>, \<open>auto_snapshot.rs\<close> and the strategies of \<open>aggregate.rs\<close>). A store keeps
  states of any type: an \<open>Arc<dyn Any>\<close> is a state of the type at hand or of another one, and \<open>downcast\<close>
  recognises the former. A compare-and-swap loop on a slot retries until nobody interfered, so a slot operation is one step.
\<close>

section \<open>Snapshots and strategies\<close>

record 'a snapshot =
  ss_stream_id :: string
  ss_state :: 'a
  ss_version :: int
  ss_timestamp :: systime

definition snapshot_new :: "string \<Rightarrow> 'a \<Rightarrow> int \<Rightarrow> systime \<Rightarrow> 'a snapshot" where
  "snapshot_new stream_id state version now =
     \<lparr>ss_stream_id = stream_id, ss_state = state, ss_version = version, ss_timestamp = now\<rparr>"

type_synonym ('a, 'o) any = "'a + 'o"

definition downcast :: "('a, 'o) any \<Rightarrow> 'a option" where
  "downcast v = (case v of Inl a \<Rightarrow> Some a | Inr _ \<Rightarrow> None)"

record snapshot_info =
  sx_version :: int
  sx_timestamp :: systime

definition i64_saturating_sub :: "int \<Rightarrow> int \<Rightarrow> int" where
  "i64_saturating_sub a b = max i64_min (min i64_max (a - b))"

definition event_count_strategy_new :: "nat \<Rightarrow> nat option" where
  "event_count_strategy_new interval = (if interval = 0 then None else Some interval)"

definition event_count_should_snapshot :: "nat \<Rightarrow> int \<Rightarrow> int \<Rightarrow> bool" where
  "event_count_should_snapshot interval current_version last_snapshot_version \<longleftrightarrow>
     i64_saturating_sub current_version last_snapshot_version
       \<ge> (case i64_try_from (int interval) of None \<Rightarrow> i64_max | Some n \<Rightarrow> n)"

definition time_based_should_snapshot :: "duration \<Rightarrow> systime \<Rightarrow> systime \<Rightarrow> bool" where
  "time_based_should_snapshot interval last_snapshot now \<longleftrightarrow>
     last_snapshot \<le> now \<and> nat (now - last_snapshot) \<ge> interval"

definition composite_should_snapshot ::
  "nat \<Rightarrow> duration \<Rightarrow> int \<Rightarrow> int \<Rightarrow> systime \<Rightarrow> systime \<Rightarrow> bool" where
  "composite_should_snapshot events time current_version previous_version last_snapshot now \<longleftrightarrow>
     event_count_should_snapshot events current_version previous_version \<or>
     time_based_should_snapshot time last_snapshot now"

text \<open>The \<open>SnapshotStore\<close> and \<open>EnhancedSnapshotStore\<close> traits, at one state type.\<close>

record ('a, 's) snapshot_ops =
  sn_save :: "'a snapshot \<Rightarrow> 's \<Rightarrow> 's \<times> unit catga_result"
  sn_load :: "'s \<Rightarrow> string \<Rightarrow> 'a snapshot option catga_result"
  sn_delete :: "string \<Rightarrow> 's \<Rightarrow> 's"

record ('a, 's) enhanced_snapshot_ops = "('a, 's) snapshot_ops" +
  sn_load_at_version :: "'s \<Rightarrow> string \<Rightarrow> int \<Rightarrow> 'a snapshot option catga_result"
  sn_history :: "'s \<Rightarrow> string \<Rightarrow> snapshot_info list"
  sn_delete_before_version :: "string \<Rightarrow> int \<Rightarrow> 's \<Rightarrow> 's"
  sn_cleanup :: "string \<Rightarrow> nat \<Rightarrow> 's \<Rightarrow> 's"

definition newer_snapshot :: catga_error where
  "newer_snapshot = error_new Conflict ''a newer snapshot already exists for this stream''"

definition wrong_state_type :: catga_error where
  "wrong_state_type =
     error_new Validation ''the requested snapshot state type does not match the stored state''"

section \<open>The store of latest snapshots\<close>

record 'v snapshot_entry =
  sl_state :: "'v option"
  sl_version :: int
  sl_timestamp :: systime

definition slot_default :: "'v snapshot_entry" where
  "slot_default = \<lparr>sl_state = None, sl_version = - 1, sl_timestamp = 0\<rparr>"

type_synonym 'v memory_snapshots = "string \<rightharpoonup> 'v snapshot_entry"

definition slot_save ::
  "'a snapshot \<Rightarrow> ('a, 'o) any snapshot_entry \<Rightarrow> ('a, 'o) any snapshot_entry \<times> unit catga_result" where
  "slot_save sn current =
     (if sl_version current > ss_version sn then (current, Inl newer_snapshot)
      else (\<lparr>sl_state = Some (Inl (ss_state sn)), sl_version = ss_version sn, sl_timestamp = ss_timestamp sn\<rparr>,
            Inr ()))"

definition slot_load ::
  "string \<Rightarrow> ('a, 'o) any snapshot_entry \<Rightarrow> 'a snapshot option catga_result" where
  "slot_load stream_id current =
     (case sl_state current of
        None \<Rightarrow> Inr None
      | Some state \<Rightarrow> bind_r (ok_or wrong_state_type (downcast state)) (\<lambda>st.
          Inr (Some \<lparr>ss_stream_id = stream_id, ss_state = st, ss_version = sl_version current,
                     ss_timestamp = sl_timestamp current\<rparr>)))"

definition snapshots_save ::
  "'a snapshot \<Rightarrow> ('a, 'o) any memory_snapshots \<Rightarrow> ('a, 'o) any memory_snapshots \<times> unit catga_result" where
  "snapshots_save sn s =
     (case slot_save sn (case s (ss_stream_id sn) of None \<Rightarrow> slot_default | Some slot \<Rightarrow> slot) of
        (slot, r) \<Rightarrow> (s(ss_stream_id sn \<mapsto> slot), r))"

definition snapshots_load ::
  "('a, 'o) any memory_snapshots \<Rightarrow> string \<Rightarrow> 'a snapshot option catga_result" where
  "snapshots_load s stream_id =
     (case s stream_id of None \<Rightarrow> Inr None | Some slot \<Rightarrow> slot_load stream_id slot)"

definition snapshots_delete :: "string \<Rightarrow> ('a, 'o) any memory_snapshots \<Rightarrow> ('a, 'o) any memory_snapshots" where
  "snapshots_delete stream_id s = s(stream_id := None)"

definition memory_snapshot_ops :: "('a, ('a, 'o) any memory_snapshots) snapshot_ops" where
  "memory_snapshot_ops =
     \<lparr>sn_save = snapshots_save, sn_load = snapshots_load, sn_delete = snapshots_delete\<rparr>"

section \<open>The store of all snapshots\<close>

text \<open>A \<open>BTreeMap\<close> is the list of its entries in ascending key order.\<close>

type_synonym ('k, 'v) btree = "('k \<times> 'v) list"

fun bt_insert :: "'k::linorder \<Rightarrow> 'v \<Rightarrow> ('k, 'v) btree \<Rightarrow> ('k, 'v) btree" where
  "bt_insert k v [] = [(k, v)]"
| "bt_insert k v ((k', v') # t) =
     (if k < k' then (k, v) # (k', v') # t
      else if k = k' then (k, v) # t
      else (k', v') # bt_insert k v t)"

definition bt_last :: "('k, 'v) btree \<Rightarrow> ('k \<times> 'v) option" where
  "bt_last t = (if t = [] then None else Some (last t))"

definition bt_first :: "('k, 'v) btree \<Rightarrow> ('k \<times> 'v) option" where
  "bt_first t = (case t of [] \<Rightarrow> None | e # _ \<Rightarrow> Some e)"

record 'v history_entry =
  he_state :: 'v
  he_timestamp :: systime

type_synonym 'v snapshot_history = "(int, 'v history_entry) btree"
type_synonym 'v memory_enhanced = "string \<rightharpoonup> 'v snapshot_history"

definition history_save ::
  "'a snapshot \<Rightarrow> ('a, 'o) any snapshot_history \<Rightarrow> ('a, 'o) any snapshot_history catga_result" where
  "history_save sn current =
     (if (case bt_last current of None \<Rightarrow> False | Some (latest, _) \<Rightarrow> latest > ss_version sn)
      then Inl newer_snapshot
      else Inr (bt_insert (ss_version sn)
                  \<lparr>he_state = Inl (ss_state sn), he_timestamp = ss_timestamp sn\<rparr> current))"

definition enhanced_save ::
  "'a snapshot \<Rightarrow> ('a, 'o) any memory_enhanced \<Rightarrow> ('a, 'o) any memory_enhanced \<times> unit catga_result" where
  "enhanced_save sn s =
     (let slot = (case s (ss_stream_id sn) of None \<Rightarrow> [] | Some h \<Rightarrow> h)
      in case history_save sn slot of
           Inl e \<Rightarrow> (s(ss_stream_id sn \<mapsto> slot), Inl e)
         | Inr next \<Rightarrow> (s(ss_stream_id sn \<mapsto> next), Inr ()))"

definition typed_snapshot ::
  "string \<Rightarrow> (int \<times> ('a, 'o) any history_entry) option \<Rightarrow> 'a snapshot option catga_result" where
  "typed_snapshot stream_id entry =
     (case entry of
        None \<Rightarrow> Inr None
      | Some (version, e) \<Rightarrow> bind_r (ok_or wrong_state_type (downcast (he_state e))) (\<lambda>state.
          Inr (Some \<lparr>ss_stream_id = stream_id, ss_state = state, ss_version = version,
                     ss_timestamp = he_timestamp e\<rparr>)))"

definition enhanced_load ::
  "('a, 'o) any memory_enhanced \<Rightarrow> string \<Rightarrow> 'a snapshot option catga_result" where
  "enhanced_load s stream_id =
     (case s stream_id of None \<Rightarrow> Inr None | Some h \<Rightarrow> typed_snapshot stream_id (bt_last h))"

definition enhanced_load_at_version ::
  "('a, 'o) any memory_enhanced \<Rightarrow> string \<Rightarrow> int \<Rightarrow> 'a snapshot option catga_result" where
  "enhanced_load_at_version s stream_id version =
     (case s stream_id of
        None \<Rightarrow> Inr None
      | Some h \<Rightarrow> typed_snapshot stream_id (bt_last (filter (\<lambda>(v, _). v \<le> version) h)))"

definition enhanced_delete :: "string \<Rightarrow> ('a, 'o) any memory_enhanced \<Rightarrow> ('a, 'o) any memory_enhanced" where
  "enhanced_delete stream_id s = s(stream_id := None)"

definition enhanced_history :: "('a, 'o) any memory_enhanced \<Rightarrow> string \<Rightarrow> snapshot_info list" where
  "enhanced_history s stream_id =
     (case s stream_id of
        None \<Rightarrow> []
      | Some h \<Rightarrow> map (\<lambda>(v, e). \<lparr>sx_version = v, sx_timestamp = he_timestamp e\<rparr>) h)"

definition enhanced_delete_before_version :: "string \<Rightarrow> int \<Rightarrow> ('a, 'o) any memory_enhanced \<Rightarrow> ('a, 'o) any memory_enhanced" where
  "enhanced_delete_before_version stream_id version s =
     (case s stream_id of
        None \<Rightarrow> s
      | Some h \<Rightarrow>
          if (case bt_first h of None \<Rightarrow> True | Some (oldest, _) \<Rightarrow> oldest \<ge> version) then s
          else s(stream_id \<mapsto> filter (\<lambda>(v, _). v \<ge> version) h))"

fun pop_first_until :: "nat \<Rightarrow> 'a list \<Rightarrow> 'a list" where
  "pop_first_until keep_count [] = []"
| "pop_first_until keep_count (x # xs) =
     (if length (x # xs) > keep_count then pop_first_until keep_count xs else x # xs)"

definition enhanced_cleanup :: "string \<Rightarrow> nat \<Rightarrow> ('a, 'o) any memory_enhanced \<Rightarrow> ('a, 'o) any memory_enhanced" where
  "enhanced_cleanup stream_id keep_count s =
     (case s stream_id of
        None \<Rightarrow> s
      | Some h \<Rightarrow> if length h \<le> keep_count then s else s(stream_id \<mapsto> pop_first_until keep_count h))"

definition memory_enhanced_ops :: "('a, ('a, 'o) any memory_enhanced) enhanced_snapshot_ops" where
  "memory_enhanced_ops =
     \<lparr>sn_save = enhanced_save, sn_load = enhanced_load, sn_delete = enhanced_delete,
      sn_load_at_version = enhanced_load_at_version, sn_history = enhanced_history,
      sn_delete_before_version = enhanced_delete_before_version, sn_cleanup = enhanced_cleanup\<rparr>"

section \<open>The automatic snapshot manager\<close>

definition check_and_save_shared ::
  "('a, 's, 'z) snapshot_ops_scheme \<Rightarrow> (int \<Rightarrow> int \<Rightarrow> bool) \<Rightarrow> string \<Rightarrow> 'a \<Rightarrow> int \<Rightarrow> systime \<Rightarrow> 's
   \<Rightarrow> 's \<times> bool catga_result" where
  "check_and_save_shared ops should_snapshot stream_id state current_version now s =
     (case sn_load ops s stream_id of
        Inl e \<Rightarrow> (s, Inl e)
      | Inr found \<Rightarrow>
          (let last_snapshot_version = (case found of None \<Rightarrow> - 1 | Some sn \<Rightarrow> ss_version sn)
           in if \<not> should_snapshot current_version last_snapshot_version then (s, Inr False)
              else (case sn_save ops \<lparr>ss_stream_id = stream_id, ss_state = state,
                                       ss_version = current_version, ss_timestamp = now\<rparr> s of
                      (s', Inl e) \<Rightarrow> (s', Inl e)
                    | (s', Inr _) \<Rightarrow> (s', Inr True))))"

definition check_and_save ::
  "('a, 's, 'z) snapshot_ops_scheme \<Rightarrow> (int \<Rightarrow> int \<Rightarrow> bool) \<Rightarrow> string \<Rightarrow> 'a \<Rightarrow> int \<Rightarrow> systime \<Rightarrow> 's
   \<Rightarrow> 's \<times> bool catga_result" where
  "check_and_save ops should_snapshot stream_id state current_version now s =
     check_and_save_shared ops should_snapshot stream_id state current_version now s"

section \<open>What clients rely on\<close>

text \<open>
  \<open>saved s k\<close> are the snapshots the store retains of stream \<open>k\<close>, oldest first. Loading returns the newest;
  saving succeeds exactly when no newer one is retained, and then the saved one is the newest.
\<close>

locale snapshot_source =
  fixes ops :: "('a, 's, 'z) snapshot_ops_scheme"
    and inv :: "'s \<Rightarrow> bool"
    and saved :: "'s \<Rightarrow> string \<Rightarrow> 'a snapshot list"
  assumes saved_sorted: "inv s \<Longrightarrow> sorted_wrt (<) (map ss_version (saved s k))"
    and load_law: "inv s \<Longrightarrow> sn_load ops s k = Inr (if saved s k = [] then None else Some (last (saved s k)))"
    and save_law: "inv s \<Longrightarrow> - 1 \<le> ss_version sn \<Longrightarrow> sn_save ops sn s = (s', r) \<Longrightarrow>
      inv s' \<and> (\<forall>k. k \<noteq> ss_stream_id sn \<longrightarrow> saved s' k = saved s k) \<and>
      (if \<exists>x \<in> set (saved s (ss_stream_id sn)). ss_version x > ss_version sn
       then r = Inl newer_snapshot \<and> saved s' (ss_stream_id sn) = saved s (ss_stream_id sn)
       else r = Inr () \<and> (\<exists>kept. set kept \<subseteq> set (saved s (ss_stream_id sn)) \<and>
                                    saved s' (ss_stream_id sn) = kept @ [sn]))"

text \<open>A store that also finds the newest snapshot at or before a version.\<close>

locale snapshot_archive = snapshot_source ops inv saved
  for ops :: "('a, 's, 'z) enhanced_snapshot_ops_scheme" and inv saved +
  assumes load_at_law: "inv s \<Longrightarrow> sn_load_at_version ops s k v =
      Inr (let below = filter (\<lambda>sn. ss_version sn \<le> v) (saved s k)
           in if below = [] then None else Some (last below))"

section \<open>Both stores fulfil it\<close>

definition slot_ok :: "('a, 'o) any snapshot_entry \<Rightarrow> bool" where
  "slot_ok slot \<longleftrightarrow> (case sl_state slot of None \<Rightarrow> sl_version slot = - 1 | Some v \<Rightarrow> isl v)"

definition snapshots_inv :: "('a, 'o) any memory_snapshots \<Rightarrow> bool" where
  "snapshots_inv s \<longleftrightarrow> (\<forall>slot \<in> ran s. slot_ok slot)"

definition slot_saved :: "string \<Rightarrow> ('a, 'o) any snapshot_entry \<Rightarrow> 'a snapshot list" where
  "slot_saved k slot =
     (case sl_state slot of
        Some (Inl a) \<Rightarrow> [\<lparr>ss_stream_id = k, ss_state = a, ss_version = sl_version slot,
                          ss_timestamp = sl_timestamp slot\<rparr>]
      | _ \<Rightarrow> [])"

definition latest_saved :: "('a, 'o) any memory_snapshots \<Rightarrow> string \<Rightarrow> 'a snapshot list" where
  "latest_saved s k = (case s k of None \<Rightarrow> [] | Some slot \<Rightarrow> slot_saved k slot)"

lemmas latest_defs = latest_saved_def slot_saved_def slot_ok_def

lemma slot_ok_default [simp]: "slot_ok slot_default"
  by (simp add: slot_ok_def slot_default_def)

lemma snapshots_inv_slot: "snapshots_inv s \<Longrightarrow> s k = Some slot \<Longrightarrow> slot_ok slot"
  by (auto simp: snapshots_inv_def intro: ranI)

lemma latest_sorted: "sorted_wrt (<) (map ss_version (latest_saved s k))"
  by (auto simp: latest_defs split: option.split sum.split)

lemma latest_load:
  assumes "snapshots_inv s"
  shows "snapshots_load s k = Inr (if latest_saved s k = [] then None else Some (last (latest_saved s k)))"
proof (cases "s k")
  case (Some slot)
  with snapshots_inv_slot [OF assms] have "slot_ok slot" by blast
  with Some show ?thesis
    by (auto simp: snapshots_load_def slot_load_def latest_defs downcast_def split: option.splits sum.splits)
qed (simp add: snapshots_load_def latest_saved_def)

lemma latest_save:
  assumes "snapshots_inv s" "- 1 \<le> ss_version sn" "snapshots_save sn s = (s', r)"
  shows "snapshots_inv s' \<and> (\<forall>k. k \<noteq> ss_stream_id sn \<longrightarrow> latest_saved s' k = latest_saved s k) \<and>
    (if \<exists>x \<in> set (latest_saved s (ss_stream_id sn)). ss_version x > ss_version sn
     then r = Inl newer_snapshot \<and> latest_saved s' (ss_stream_id sn) = latest_saved s (ss_stream_id sn)
     else r = Inr () \<and> (\<exists>kept. set kept \<subseteq> set (latest_saved s (ss_stream_id sn)) \<and>
                                  latest_saved s' (ss_stream_id sn) = kept @ [sn]))"
proof -
  let ?k = "ss_stream_id sn"
  define slot where "slot = (case s ?k of None \<Rightarrow> slot_default | Some slot \<Rightarrow> slot)"
  have ok: "slot_ok slot" using snapshots_inv_slot [OF assms(1)]
    by (simp add: slot_def split: option.split)
  have old: "latest_saved s ?k = slot_saved ?k slot"
    by (cases "s ?k") (simp_all add: latest_saved_def slot_def slot_saved_def slot_default_def)
  obtain slot' where s': "slot_save sn slot = (slot', r)" "s' = s(?k \<mapsto> slot')"
    using assms(3) by (auto simp: snapshots_save_def slot_def split: prod.splits)
  then have "slot_ok slot'" using ok by (auto simp: slot_save_def slot_ok_def split: if_splits)
  then have "snapshots_inv s'" using assms(1) s'(2) by (auto simp: snapshots_inv_def ran_def)
  moreover have "\<forall>k. k \<noteq> ?k \<longrightarrow> latest_saved s' k = latest_saved s k"
    by (simp add: latest_saved_def s'(2))
  ultimately show ?thesis
    using s' old ok assms(2)
    by (cases sn) (auto simp: slot_save_def latest_defs split: if_splits option.splits sum.splits)
qed

interpretation msn: snapshot_source memory_snapshot_ops snapshots_inv latest_saved
  by unfold_locales (simp_all only: memory_snapshot_ops_def snapshot_ops.simps latest_sorted latest_load,
      fact latest_save)

definition enhanced_inv :: "('a, 'o) any memory_enhanced \<Rightarrow> bool" where
  "enhanced_inv s \<longleftrightarrow> (\<forall>h \<in> ran s. sorted_wrt (<) (map fst h) \<and> (\<forall>(v, e) \<in> set h. isl (he_state e)))"

definition snapshot_of :: "string \<Rightarrow> int \<times> ('a, 'o) any history_entry \<Rightarrow> 'a snapshot" where
  "snapshot_of k = (\<lambda>(v, e). \<lparr>ss_stream_id = k, ss_state = projl (he_state e), ss_version = v,
     ss_timestamp = he_timestamp e\<rparr>)"

definition all_saved :: "('a, 'o) any memory_enhanced \<Rightarrow> string \<Rightarrow> 'a snapshot list" where
  "all_saved s k = (case s k of None \<Rightarrow> [] | Some h \<Rightarrow> map (snapshot_of k) h)"

lemma ss_version_snapshot_of [simp]: "ss_version (snapshot_of k x) = fst x"
  by (simp add: snapshot_of_def split_def)

lemma version_snapshot_of: "ss_version \<circ> snapshot_of k = fst"
  by (simp add: fun_eq_iff)

lemma enhanced_inv_history:
  "enhanced_inv s \<Longrightarrow> s k = Some h \<Longrightarrow> sorted_wrt (<) (map fst h) \<and> (\<forall>(v, e) \<in> set h. isl (he_state e))"
  by (auto simp: enhanced_inv_def intro: ranI)

lemma bt_insert_newest:
  assumes "sorted_wrt (<) (map fst h)" "\<forall>x \<in> set h. fst x \<le> k"
  shows "bt_insert k e h = filter (\<lambda>(v, _). v < k) h @ [(k, e)]"
  using assms
proof (induction h)
  case (Cons x h)
  obtain a b where x: "x = (a, b)" by (cases x)
  show ?case
  proof (cases "a = k")
    case True
    then have "h = []" using Cons.prems by (cases h) (auto simp: x)
    with True x show ?thesis by simp
  next
    case False
    with Cons show ?thesis by (auto simp: x)
  qed
qed simp

lemma all_saved_sorted: "enhanced_inv s \<Longrightarrow> sorted_wrt (<) (map ss_version (all_saved s k))"
  using enhanced_inv_history by (fastforce simp: all_saved_def version_snapshot_of split: option.split)

lemma typed_snapshot_last:
  assumes "\<forall>(v, e) \<in> set h. isl (he_state e)"
  shows "typed_snapshot k (bt_last h) = Inr (if h = [] then None else Some (last (map (snapshot_of k) h)))"
proof (cases "h = []")
  case False
  then have "last h \<in> set h" by simp
  with assms False show ?thesis
    by (cases "last h") (auto simp: typed_snapshot_def bt_last_def last_map snapshot_of_def downcast_def split: sum.splits)
qed (simp add: typed_snapshot_def bt_last_def)

lemma all_saved_load:
  assumes "enhanced_inv s"
  shows "enhanced_load s k = Inr (if all_saved s k = [] then None else Some (last (all_saved s k)))"
proof (cases "s k")
  case (Some h)
  with typed_snapshot_last [of h k] enhanced_inv_history [OF assms Some] show ?thesis
    by (simp add: enhanced_load_def all_saved_def)
qed (simp add: enhanced_load_def all_saved_def)

lemma all_saved_load_at:
  assumes "enhanced_inv s"
  shows "enhanced_load_at_version s k v =
    Inr (let below = filter (\<lambda>sn. ss_version sn \<le> v) (all_saved s k) in if below = [] then None else Some (last below))"
proof (cases "s k")
  case (Some h)
  have "filter (\<lambda>sn. ss_version sn \<le> v) (map (snapshot_of k) h) = map (snapshot_of k) (filter (\<lambda>(x, _). x \<le> v) h)"
    by (simp add: filter_map comp_def split_def)
  with Some show ?thesis
    using typed_snapshot_last [of "filter (\<lambda>(x, _). x \<le> v) h" k] enhanced_inv_history [OF assms Some]
    by (auto simp: enhanced_load_at_version_def all_saved_def Let_def)
qed (simp add: enhanced_load_at_version_def all_saved_def)

lemma all_saved_save:
  assumes "enhanced_inv s" "enhanced_save sn s = (s', r)"
  shows "enhanced_inv s' \<and> (\<forall>k. k \<noteq> ss_stream_id sn \<longrightarrow> all_saved s' k = all_saved s k) \<and>
    (if \<exists>x \<in> set (all_saved s (ss_stream_id sn)). ss_version x > ss_version sn
     then r = Inl newer_snapshot \<and> all_saved s' (ss_stream_id sn) = all_saved s (ss_stream_id sn)
     else r = Inr () \<and> all_saved s' (ss_stream_id sn) =
            filter (\<lambda>x. ss_version x < ss_version sn) (all_saved s (ss_stream_id sn)) @ [sn])"
proof -
  let ?k = "ss_stream_id sn" and ?v = "ss_version sn"
  define h where "h = (case s ?k of None \<Rightarrow> [] | Some h \<Rightarrow> h)"
  have h: "sorted_wrt (<) (map fst h)" "\<forall>(v, e) \<in> set h. isl (he_state e)"
    unfolding h_def using enhanced_inv_history [OF assms(1), of ?k] by (cases "s ?k"; simp)+
  have old: "all_saved s ?k = map (snapshot_of ?k) h"
    by (simp add: all_saved_def h_def split: option.split)
  have newest: "(case bt_last h of None \<Rightarrow> False | Some (latest, _) \<Rightarrow> latest > ?v) \<longleftrightarrow> (\<exists>x \<in> set h. fst x > ?v)"
  proof (cases h rule: rev_cases)
    case (snoc xs x)
    then show ?thesis using h(1) by (cases x) (force simp: bt_last_def sorted_wrt_append)
  qed (simp add: bt_last_def)
  have other: "\<forall>k. k \<noteq> ?k \<longrightarrow> all_saved (s(?k \<mapsto> h')) k = all_saved s k" for h'
    by (simp add: all_saved_def)
  have inv: "enhanced_inv (s(?k \<mapsto> h'))" if "sorted_wrt (<) (map fst h')" "\<forall>(v, e) \<in> set h'. isl (he_state e)" for h'
    using assms(1) that by (auto simp: enhanced_inv_def ran_def)
  show ?thesis
  proof (cases "\<exists>x \<in> set h. fst x > ?v")
    case True
    then have "s' = s(?k \<mapsto> h)" "r = Inl newer_snapshot"
      using assms(2) newest by (auto simp: enhanced_save_def history_save_def h_def)
    with True inv [OF h] other [of h] show ?thesis by (auto simp: old) (auto simp: all_saved_def)
  next
    case False
    let ?h' = "filter (\<lambda>(v, _). v < ?v) h @ [(?v, \<lparr>he_state = Inl (ss_state sn), he_timestamp = ss_timestamp sn\<rparr>)]"
    have "\<forall>x \<in> set h. fst x \<le> ?v" using False by force
    from bt_insert_newest [OF h(1) this] have s': "s' = s(?k \<mapsto> ?h')" "r = Inr ()"
      using assms(2) newest False by (auto simp: enhanced_save_def history_save_def h_def)
    have "sorted_wrt (<) (map fst (filter (\<lambda>(v, _). v < ?v) h))"
      using h(1) by (simp add: sorted_wrt_map sorted_wrt_filter)
    then have "enhanced_inv s'" unfolding s' using h(2) by (intro inv) (auto simp: sorted_wrt_append)
    moreover have "all_saved s' ?k = filter (\<lambda>x. ss_version x < ?v) (all_saved s ?k) @ [sn]"
      unfolding s' old by (cases sn) (simp add: all_saved_def snapshot_of_def filter_map comp_def split_def)
    ultimately show ?thesis using False other s' by (auto simp: old)
  qed
qed

interpretation esn: snapshot_archive memory_enhanced_ops enhanced_inv all_saved
proof unfold_locales
  fix s s' :: "('a, 'o) any memory_enhanced" and sn r
  assume *: "enhanced_inv s" "sn_save memory_enhanced_ops sn s = (s', r)"
  show "enhanced_inv s' \<and> (\<forall>k. k \<noteq> ss_stream_id sn \<longrightarrow> all_saved s' k = all_saved s k) \<and>
      (if \<exists>x \<in> set (all_saved s (ss_stream_id sn)). ss_version x > ss_version sn
       then r = Inl newer_snapshot \<and> all_saved s' (ss_stream_id sn) = all_saved s (ss_stream_id sn)
       else r = Inr () \<and> (\<exists>kept. set kept \<subseteq> set (all_saved s (ss_stream_id sn)) \<and>
                                    all_saved s' (ss_stream_id sn) = kept @ [sn]))"
    using all_saved_save [OF *(1), of sn s' r] *(2)
    by (auto simp: memory_enhanced_ops_def split: if_splits)
qed (simp_all add: memory_enhanced_ops_def all_saved_sorted all_saved_load all_saved_load_at)

section \<open>Retention of snapshots\<close>

lemma pop_first_until_drop: "pop_first_until n xs = drop (length xs - n) xs"
proof (induction xs)
  case (Cons x xs)
  then show ?case by (cases "length xs < n") (auto simp: Suc_diff_le not_less)
qed simp

lemma cleanup_history:
  "all_saved (enhanced_cleanup k n s) k = drop (length (all_saved s k) - n) (all_saved s k)"
  by (auto simp: enhanced_cleanup_def all_saved_def pop_first_until_drop drop_map split: option.splits)

lemma sorted_first_least:
  fixes h :: "(int \<times> 'v) list"
  assumes "sorted_wrt (<) (map fst h)" "bt_first h = Some (a, e)" "x \<in> set h"
  shows "a \<le> fst x"
  using assms by (cases h) (auto simp: bt_first_def intro: less_imp_le)

lemma delete_before_history:
  assumes "enhanced_inv s"
  shows "all_saved (enhanced_delete_before_version k v s) k = filter (\<lambda>sn. v \<le> ss_version sn) (all_saved s k)"
proof (cases "s k")
  case (Some h)
  note h = conjunct1 [OF enhanced_inv_history [OF assms Some]]
  have "filter (\<lambda>(x, _). v \<le> x) h = h" if "case bt_first h of None \<Rightarrow> True | Some (oldest, _) \<Rightarrow> v \<le> oldest"
    using that sorted_first_least [OF h]
    by (intro filter_True) (fastforce simp: bt_first_def split: list.splits option.splits)
  with Some show ?thesis
    by (auto simp: enhanced_delete_before_version_def all_saved_def filter_map comp_def split_def)
qed (simp add: enhanced_delete_before_version_def all_saved_def)

text \<open>
  The archive of snapshots. Saving a snapshot is refused exactly when a newer one of the
  stream is retained, and otherwise makes it the newest in place of one of the same version; loading at
  a version finds the newest one at or before it; cleanup keeps exactly the newest \<open>n\<close>, and deletion before
  a version exactly those from it on.
\<close>

theorem snapshot_archive_exact:
  assumes "enhanced_inv s" "enhanced_save sn s = (s', r)" "k = ss_stream_id sn"
  shows "enhanced_inv s' \<and>
    (if \<exists>x \<in> set (all_saved s k). ss_version sn < ss_version x
     then r = Inl newer_snapshot \<and> all_saved s' k = all_saved s k
     else r = Inr () \<and>
       all_saved s' k = filter (\<lambda>x. ss_version x < ss_version sn) (all_saved s k) @ [sn] \<and>
       (\<forall>v \<ge> ss_version sn. enhanced_load_at_version s' k v = Inr (Some sn)) \<and>
       (\<forall>v < ss_version sn. enhanced_load_at_version s' k v = enhanced_load_at_version s k v)) \<and>
    all_saved (enhanced_cleanup k n s) k = drop (length (all_saved s k) - n) (all_saved s k) \<and>
    all_saved (enhanced_delete_before_version k w s) k = filter (\<lambda>x. w \<le> ss_version x) (all_saved s k)"
proof -
  note S = all_saved_save [OF assms(1,2), folded assms(3)]
  have "enhanced_load_at_version s' k v = Inr (Some sn)"
    if "ss_version sn \<le> v" "all_saved s' k = filter (\<lambda>x. ss_version x < ss_version sn) (all_saved s k) @ [sn]" for v
    using S that by (simp add: all_saved_load_at)
  moreover have "enhanced_load_at_version s' k v = enhanced_load_at_version s k v"
    if "v < ss_version sn" "all_saved s' k = filter (\<lambda>x. ss_version x < ss_version sn) (all_saved s k) @ [sn]" for v
  proof -
    have "filter (\<lambda>x. ss_version x \<le> v) (filter (\<lambda>x. ss_version x < ss_version sn) xs) = filter (\<lambda>x. ss_version x \<le> v) xs" for xs :: "'a snapshot list"
      unfolding filter_filter by (rule filter_cong) (use that(1) in auto)
    then show ?thesis using S that assms(1) by (simp add: all_saved_load_at)
  qed
  ultimately show ?thesis
    using S cleanup_history [of k n s] delete_before_history [OF assms(1), of k w]
    by (auto split: if_splits)
qed

definition demo_snapshot :: "int \<Rightarrow> nat snapshot" where
  "demo_snapshot v = \<lparr>ss_stream_id = ''a'', ss_state = nat v, ss_version = v, ss_timestamp = 0\<rparr>"

theorem snapshot_archive_exact_witness:
  "snd (enhanced_save (demo_snapshot 3) (Map.empty :: (nat, unit) any memory_enhanced)) = Inr ()"
proof -
  have "enhanced_inv (Map.empty :: (nat, unit) any memory_enhanced)" by (simp add: enhanced_inv_def)
  from snapshot_archive_exact [OF this, of "demo_snapshot 3", OF prod.collapse [symmetric] refl] show ?thesis
    by (simp add: all_saved_def)
qed

end
