(* ===== verification/Aggregates.thy ===== *)
theory Aggregates
  imports Snapshots
begin

text \<open>
  Event-sourced aggregates (\<open>crates/catga-core/src/aggregate.rs\<close>) and their reconstruction at earlier
  versions and times (\<open>time_travel.rs\<close>). The aggregate type is user code behind the \<open>Aggregate\<close> trait: its
  operations are an argument. Every page read observes a store of its own, so loading takes the list
  of observed event stores; \<^term>\<open>None\<close> says that it wants to read on when they are used up.
\<close>

section \<open>The repository\<close>

record 'a aggregate_ops =
  ag_new :: "string \<Rightarrow> 'a"
  ag_stream_id :: "string \<Rightarrow> string"
  ag_id :: "'a \<Rightarrow> string"
  ag_version :: "'a \<Rightarrow> int"
  ag_apply :: "'a \<Rightarrow> envelope \<Rightarrow> 'a catga_result"
  ag_pending :: "'a \<Rightarrow> envelope list"
  ag_clear :: "'a \<Rightarrow> 'a"

definition next_event_version :: "int \<Rightarrow> u64 option" where
  "next_event_version version =
     (if version \<noteq> i64_max
      then Some (case u64_of_i64 (version + 1) of None \<Rightarrow> 0 | Some c \<Rightarrow> c) else None)"

definition apply_event :: "'a aggregate_ops \<Rightarrow> 'a \<Rightarrow> envelope \<Rightarrow> int \<Rightarrow> 'a catga_result" where
  "apply_event ag aggregate envelope version =
     bind_r (ag_apply ag aggregate envelope) (\<lambda>a.
       if ag_version ag a \<noteq> version
       then Inl (error_new Validation ''aggregate apply did not advance to the stored event version'')
       else Inr a)"

text \<open>The loop over one page; the flag records that an event was found.\<close>

definition apply_page ::
  "'a aggregate_ops \<Rightarrow> 'a \<times> bool \<Rightarrow> stored_event list \<Rightarrow> ('a \<times> bool) catga_result" where
  "apply_page ag =
     fold_r (\<lambda>(a, found) event.
       bind_r (apply_event ag a (se_envelope event) (se_version event)) (\<lambda>a'. Inr (a', True)))"

definition snapshot_state ::
  "'a aggregate_ops \<Rightarrow> string \<Rightarrow> 'a snapshot option \<Rightarrow> ('a \<times> u64 option \<times> bool) catga_result" where
  "snapshot_state ag ident found =
     (case found of
        Some sn \<Rightarrow>
          if ag_version ag (ss_state sn) \<noteq> ss_version sn
          then Inl (error_new Validation ''aggregate snapshot version does not match its state'')
          else Inr (ss_state sn, next_event_version (ss_version sn), True)
      | None \<Rightarrow> Inr (ag_new ag ident, Some 0, False))"

text \<open>What the loops make of their result: the aggregate, when a snapshot or an event was found.\<close>

definition then_some :: "('a \<times> bool) catga_result option \<Rightarrow> 'a option catga_result option" where
  "then_some r =
     map_option (\<lambda>res. bind_r res (\<lambda>(a, found). Inr (if found then Some a else None))) r"

definition repository_load ::
  "'a aggregate_ops \<Rightarrow> ('e, 's) event_store_ops \<Rightarrow> ('a, 't, 'z) snapshot_ops_scheme
   \<Rightarrow> string \<Rightarrow> 't \<Rightarrow> 's list \<Rightarrow> 'a option catga_result option" where
  "repository_load ag es sn ident t obs =
     (let stream_id = ag_stream_id ag ident in
      case sn_load sn t stream_id of
        Inl e \<Rightarrow> Some (Inl e)
      | Inr found \<Rightarrow>
          (case snapshot_state ag ident found of
             Inl e \<Rightarrow> Some (Inl e)
           | Inr (aggregate, None, _) \<Rightarrow> Some (Inr (Some aggregate))
           | Inr (aggregate, Some next_version, has_snapshot) \<Rightarrow>
               then_some (page_loop (\<lambda>s c. ev_read_page es s stream_id c max_event_store_page_size)
                 (apply_page ag) next_version obs (aggregate, has_snapshot))))"

definition repository_save ::
  "'a aggregate_ops \<Rightarrow> ('e, 's) event_store_ops \<Rightarrow> ('a, 't, 'z) snapshot_ops_scheme
   \<Rightarrow> nat \<Rightarrow> 'e \<Rightarrow> systime \<Rightarrow> 'a \<Rightarrow> 's \<times> 't \<Rightarrow> ('a \<times> 's \<times> 't) \<times> unit catga_result" where
  "repository_save ag es sn interval env now aggregate st =
     (case st of (s, t) \<Rightarrow>
      let pending = ag_pending ag aggregate in
      if pending = [] then ((aggregate, s, t), Inr ())
      else (case i64_try_from (int (length pending)) of
        None \<Rightarrow> ((aggregate, s, t), Inl (error_new Validation
          ''aggregate pending event count exceeds the supported stream version range''))
      | Some pending_count \<Rightarrow>
          (case i64_checked_sub (ag_version ag aggregate) pending_count of
             None \<Rightarrow> ((aggregate, s, t), Inl (error_new Validation
               ''aggregate version is lower than its pending event count''))
           | Some expected_version \<Rightarrow>
               (let stream_id = ag_stream_id ag (ag_id ag aggregate) in
                case ev_append es stream_id pending (Some expected_version) env s of
                  (s', Inl e) \<Rightarrow> ((aggregate, s', t), Inl e)
                | (s', Inr _) \<Rightarrow>
                    (let cleared = ag_clear ag aggregate in
                     case sn_load sn t stream_id of
                       Inl e \<Rightarrow> ((cleared, s', t), Inl e)
                     | Inr found \<Rightarrow>
                         if event_count_should_snapshot interval (ag_version ag cleared)
                              (case found of None \<Rightarrow> - 1 | Some x \<Rightarrow> ss_version x)
                         then (case sn_save sn (snapshot_new stream_id cleared (ag_version ag cleared) now) t of
                                 (t', r) \<Rightarrow> ((cleared, s', t'), r))
                         else ((cleared, s', t), Inr ()))))))"

section \<open>Time travel\<close>

definition max_state_comparison_events :: nat where
  "max_state_comparison_events = max_event_store_page_size"

record 'a state_comparison =
  sc_from_state :: "'a option"
  sc_to_state :: "'a option"
  sc_from_version :: int
  sc_to_version :: int
  sc_events_between :: "version_info list"

definition rebuild_version ::
  "'a aggregate_ops \<Rightarrow> ('e, 's) event_store_ops \<Rightarrow> string \<Rightarrow> string \<Rightarrow> int \<Rightarrow> 's list
   \<Rightarrow> 'a option catga_result option" where
  "rebuild_version ag es ident stream_id target obs =
     then_some (page_loop (\<lambda>s c. ev_read_to_version_page es s stream_id c target max_event_store_page_size)
       (apply_page ag) 0 obs (ag_new ag ident, False))"

definition state_at_version ::
  "'a aggregate_ops \<Rightarrow> ('e, 's) event_store_ops \<Rightarrow> string \<Rightarrow> int \<Rightarrow> 's list
   \<Rightarrow> 'a option catga_result option" where
  "state_at_version ag es ident version obs =
     (if version < 0 then Some (Inr None)
      else rebuild_version ag es ident (ag_stream_id ag ident) version obs)"

definition rebuild_time ::
  "'a aggregate_ops \<Rightarrow> ('e, 's) event_store_ops \<Rightarrow> string \<Rightarrow> string \<Rightarrow> systime \<Rightarrow> 's list
   \<Rightarrow> 'a option catga_result option" where
  "rebuild_time ag es ident stream_id upper_bound obs =
     then_some (page_loop (\<lambda>s c. ev_read_to_time_page es s stream_id c upper_bound max_event_store_page_size)
       (apply_page ag) 0 obs (ag_new ag ident, False))"

definition state_at_time ::
  "'a aggregate_ops \<Rightarrow> ('e, 's) event_store_ops \<Rightarrow> string \<Rightarrow> systime \<Rightarrow> 's list
   \<Rightarrow> 'a option catga_result option" where
  "state_at_time ag es ident upper_bound obs =
     rebuild_time ag es ident (ag_stream_id ag ident) upper_bound obs"

definition validate_comparison :: "int \<Rightarrow> int \<Rightarrow> unit catga_result" where
  "validate_comparison from_version to_version =
     (if from_version > to_version
      then Inl (error_new Validation ''comparison starting version must not exceed the ending version'')
      else Inr ())"

definition push_history ::
  "int \<Rightarrow> version_info list \<Rightarrow> stored_event list \<Rightarrow> version_info list catga_result" where
  "push_history from history events =
     fold_r (\<lambda>h event.
       if length h = max_state_comparison_events
       then Inl (error_new Validation ''state comparison history exceeds the bounded result limit'')
       else Inr (h @ [version_info_of event]))
       history (filter (\<lambda>event. se_version event > from) events)"

definition comparison_history ::
  "('e, 's) event_store_ops \<Rightarrow> string \<Rightarrow> int \<Rightarrow> int \<Rightarrow> 's list \<Rightarrow> version_info list catga_result option" where
  "comparison_history es stream_id from to obs =
     (if to < 0 then Some (Inr [])
      else page_loop (\<lambda>s c. ev_read_to_version_page es s stream_id c to max_event_store_page_size)
             (push_history from) 0 obs [])"

text \<open>Results of reads that follow one another, each with its own observations.\<close>

definition bind_o :: "'a catga_result option \<Rightarrow> ('a \<Rightarrow> 'b catga_result option) \<Rightarrow> 'b catga_result option" where
  "bind_o r f = (case r of None \<Rightarrow> None | Some (Inl e) \<Rightarrow> Some (Inl e) | Some (Inr v) \<Rightarrow> f v)"

definition compare_versions ::
  "'a aggregate_ops \<Rightarrow> ('e, 's) event_store_ops \<Rightarrow> string \<Rightarrow> int \<Rightarrow> int \<Rightarrow> 's list \<Rightarrow> 's list \<Rightarrow> 's list
   \<Rightarrow> 'a state_comparison catga_result option" where
  "compare_versions ag es ident from_version to_version obs1 obs2 obs3 =
     bind_o (Some (validate_comparison from_version to_version)) (\<lambda>_.
     bind_o (state_at_version ag es ident from_version obs1) (\<lambda>from_state.
     bind_o (state_at_version ag es ident to_version obs2) (\<lambda>to_state.
     bind_o (comparison_history es (ag_stream_id ag ident) from_version to_version obs3) (\<lambda>events_between.
       Some (Inr \<lparr>sc_from_state = from_state, sc_to_state = to_state, sc_from_version = from_version,
                  sc_to_version = to_version, sc_events_between = events_between\<rparr>)))))"

text \<open>The variants that start from a snapshot.\<close>

definition snapshot_state_at_version ::
  "'a aggregate_ops \<Rightarrow> ('e, 's) event_store_ops \<Rightarrow> ('a, 't, 'z) enhanced_snapshot_ops_scheme
   \<Rightarrow> string \<Rightarrow> int \<Rightarrow> 't \<Rightarrow> 's list \<Rightarrow> 'a option catga_result option" where
  "snapshot_state_at_version ag es sn ident version t obs =
     (if version < 0 then Some (Inr None)
      else
        (let stream_id = ag_stream_id ag ident in
         bind_o (Some (sn_load_at_version sn t stream_id version)) (\<lambda>snapshot.
         bind_o (Some (snapshot_state ag ident snapshot)) (\<lambda>(aggregate, next_cursor, found).
           case next_cursor of
             None \<Rightarrow> Some (Inr (if found then Some aggregate else None))
           | Some cursor \<Rightarrow>
               then_some (page_loop
                 (\<lambda>s c. ev_read_to_version_page es s stream_id c version max_event_store_page_size)
                 (apply_page ag) cursor obs (aggregate, found))))))"

definition last_seen :: "int option \<Rightarrow> stored_event list \<Rightarrow> int option catga_result" where
  "last_seen target events = Inr (case last_version events of None \<Rightarrow> target | Some v \<Rightarrow> Some v)"

definition snapshot_state_at_time ::
  "'a aggregate_ops \<Rightarrow> ('e, 's) event_store_ops \<Rightarrow> ('a, 't, 'z) enhanced_snapshot_ops_scheme
   \<Rightarrow> string \<Rightarrow> systime \<Rightarrow> 't \<Rightarrow> 's list \<Rightarrow> 's list \<Rightarrow> 'a option catga_result option" where
  "snapshot_state_at_time ag es sn ident upper_bound t obs1 obs2 =
     (let stream_id = ag_stream_id ag ident;
          rd = (\<lambda>s c. ev_read_to_time_page es s stream_id c upper_bound max_event_store_page_size) in
      bind_o (page_loop rd last_seen 0 obs1 None) (\<lambda>target.
      case target of
        None \<Rightarrow> Some (Inr None)
      | Some version \<Rightarrow>
          bind_o (Some (sn_load_at_version sn t stream_id version)) (\<lambda>snapshot.
          bind_o (Some (snapshot_state ag ident snapshot)) (\<lambda>(aggregate, next_cursor, _).
            case next_cursor of
              None \<Rightarrow> Some (Inr (Some aggregate))
            | Some cursor \<Rightarrow>
                (let from_version = (case i64_try_from (uint cursor) of None \<Rightarrow> i64_max | Some v \<Rightarrow> v) in
                 bind_o (page_loop rd
                   (\<lambda>acc events. apply_page ag acc (filter (\<lambda>event. se_version event \<ge> from_version) events))
                   cursor obs2 (aggregate, True)) (\<lambda>(a, _). Some (Inr (Some a))))))))"

definition snapshot_compare_versions ::
  "'a aggregate_ops \<Rightarrow> ('e, 's) event_store_ops \<Rightarrow> ('a, 't, 'z) enhanced_snapshot_ops_scheme
   \<Rightarrow> string \<Rightarrow> int \<Rightarrow> int \<Rightarrow> 't \<Rightarrow> 's list \<Rightarrow> 's list \<Rightarrow> 's list \<Rightarrow> 'a state_comparison catga_result option" where
  "snapshot_compare_versions ag es sn ident from_version to_version t obs1 obs2 obs3 =
     bind_o (Some (validate_comparison from_version to_version)) (\<lambda>_.
     bind_o (snapshot_state_at_version ag es sn ident from_version t obs1) (\<lambda>from_state.
     bind_o (snapshot_state_at_version ag es sn ident to_version t obs2) (\<lambda>to_state.
     bind_o (comparison_history es (ag_stream_id ag ident) from_version to_version obs3) (\<lambda>events_between.
       Some (Inr \<lparr>sc_from_state = from_state, sc_to_state = to_state, sc_from_version = from_version,
                  sc_to_version = to_version, sc_events_between = events_between\<rparr>)))))"

section \<open>Replaying a history\<close>

definition replay :: "'a aggregate_ops \<Rightarrow> string \<Rightarrow> stored_event list \<Rightarrow> 'a catga_result" where
  "replay ag ident evs =
     fold_r (\<lambda>a event. apply_event ag a (se_envelope event) (se_version event)) (ag_new ag ident) evs"

text \<open>What a read of history \<open>evs\<close> returns: the replayed aggregate, or none for an empty history.\<close>

definition replayed :: "'a aggregate_ops \<Rightarrow> string \<Rightarrow> stored_event list \<Rightarrow> 'a option catga_result" where
  "replayed ag ident evs = bind_r (replay ag ident evs) (\<lambda>a. Inr (if evs = [] then None else Some a))"

text \<open>A snapshot is faithful to a history when replaying the history up to its version gives its state.\<close>

definition faithful :: "'a aggregate_ops \<Rightarrow> string \<Rightarrow> stored_event list \<Rightarrow> 'a snapshot \<Rightarrow> bool" where
  "faithful ag ident evs sn \<longleftrightarrow> 0 \<le> ss_version sn \<and> ss_version sn < int (length evs) \<and>
     replay ag ident (take (nat (ss_version sn + 1)) evs) = Inr (ss_state sn)"

lemma apply_page_Nil [simp]: "apply_page ag acc [] = Inr acc"
  by (simp add: apply_page_def)

lemma apply_page_append:
  "apply_page ag acc (xs @ ys) = bind_r (apply_page ag acc xs) (\<lambda>acc'. apply_page ag acc' ys)"
  by (simp add: apply_page_def fold_r_append)

lemma apply_page_replay:
  "apply_page ag (a, found) evs =
     bind_r (fold_r (\<lambda>a event. apply_event ag a (se_envelope event) (se_version event)) a evs)
       (\<lambda>a'. Inr (a', found \<or> evs \<noteq> []))"
proof (induction evs arbitrary: a found)
  case (Cons e evs)
  show ?case
  proof (cases "apply_event ag a (se_envelope e) (se_version e)")
    case (Inr a')
    then show ?thesis using Cons.IH [of a' True] by (simp add: apply_page_def)
  qed (simp add: apply_page_def)
qed (simp add: apply_page_def)

lemma replay_append:
  "replay ag ident (xs @ ys) = bind_r (replay ag ident xs)
     (\<lambda>a. fold_r (\<lambda>a event. apply_event ag a (se_envelope event) (se_version event)) a ys)"
  by (simp add: replay_def fold_r_append)

lemma replay_version:
  assumes "numbered evs" "evs \<noteq> []" "replay ag ident evs = Inr a"
  shows "ag_version ag a = int (length evs) - 1"
proof -
  obtain xs e where e: "evs = xs @ [e]" using assms(2) by (cases evs rule: rev_cases) auto
  have "se_version e = int (length xs)" using assms(1) by (auto simp: numbered_def e dest: spec [of _ "length xs"])
  then show ?thesis
    using assms(3) by (auto simp: e replay_append result_iffs apply_event_def split: if_splits)
qed

lemma fresh_start: "apply_page ag (ag_new ag ident, False) evs = bind_r (replay ag ident evs) (\<lambda>a. Inr (a, evs \<noteq> []))"
  by (simp add: apply_page_replay replay_def)

lemma then_some_replay:
  "found = (evs \<noteq> []) \<Longrightarrow>
   then_some (Some (bind_r (replay ag ident evs) (\<lambda>a. Inr (a, found)))) = Some (replayed ag ident evs)"
  by (cases "replay ag ident evs") (simp_all add: then_some_def replayed_def)

lemma faithful_version:
  assumes "faithful ag ident evs sn" "numbered evs"
  shows "ag_version ag (ss_state sn) = ss_version sn"
  using replay_version [OF numbered_take [OF assms(2)], of "nat (ss_version sn + 1)" ag ident "ss_state sn"] assms(1)
  by (fastforce simp: faithful_def)

lemma faithful_prefix:
  assumes "faithful ag ident evs sn" "prefix evs evs'"
  shows "faithful ag ident evs' sn"
  using assms by (auto simp: faithful_def prefix_def)

lemma next_event_version_nat: "m < 2 ^ 63 \<Longrightarrow> next_event_version (int m - 1) = Some (word_of_nat m)"
  by (simp add: next_event_version_def u64_of_i64_nat i64_max_def)

text \<open>Starting from a faithful snapshot is starting from nothing.\<close>

lemma snapshot_start:
  assumes "faithful ag ident evs sn" "numbered evs"
  defines "m \<equiv> nat (ss_version sn + 1)"
  shows "snapshot_state ag ident (Some sn) = Inr (ss_state sn, Some (word_of_nat m), True)"
    "apply_page ag (ss_state sn, True) (drop m evs) = bind_r (replay ag ident evs) (\<lambda>a. Inr (a, evs \<noteq> []))"
    "m \<le> length evs" "evs \<noteq> []"
proof -
  show m: "m \<le> length evs" "evs \<noteq> []" using assms(1) by (auto simp: faithful_def m_def)
  have "ss_version sn = int m - 1" using assms(1) by (simp add: faithful_def m_def)
  moreover have "m < 2 ^ 63" using m assms(2) by (simp add: numbered_def)
  ultimately show "snapshot_state ag ident (Some sn) = Inr (ss_state sn, Some (word_of_nat m), True)"
    using faithful_version [OF assms(1,2)] next_event_version_nat by (simp add: snapshot_state_def)
  have "replay ag ident (take m evs @ drop m evs) =
      fold_r (\<lambda>a event. apply_event ag a (se_envelope event) (se_version event)) (ss_state sn) (drop m evs)"
    unfolding replay_append using assms(1) by (simp add: faithful_def m_def)
  then show "apply_page ag (ss_state sn, True) (drop m evs) = bind_r (replay ag ident evs) (\<lambda>a. Inr (a, evs \<noteq> []))"
    using m(2) by (simp add: apply_page_replay)
qed

section \<open>Loading is replaying\<close>

locale repository = es: event_history es einv history + sn: snapshot_source sn sinv saved
  for es :: "('e, 's) event_store_ops" and einv history
    and sn :: "('a, 't, 'z) snapshot_ops_scheme" and sinv saved
begin

lemma observed_prefix:
  assumes "es.observes k obs" "s \<in> set obs"
  shows "prefix (history (hd obs) k) (history s k)"
  using assms by (cases obs) (auto simp: es.observes_def)

lemma load_replays:
  assumes "es.observes k obs" "es.enough k 0 max_event_store_page_size obs" "sinv t" "k = ag_stream_id ag ident"
    "\<forall>x \<in> set (saved t k). faithful ag ident (history (hd obs) k) x"
  shows "\<exists>s \<in> set obs. repository_load ag es sn ident t obs = Some (replayed ag ident (history s k))"
proof -
  let ?loop = "\<lambda>c. page_loop (\<lambda>s from. ev_read_page es s k from max_event_store_page_size) (apply_page ag) (word_of_nat c) obs"
  have loop: "\<exists>s \<in> set obs. ?loop c acc = Some (apply_page ag acc (drop c (history s k)))" if "c < 2 ^ 64" for c acc
    by (rule es.page_loop_history)
      (use assms(1,2) that in \<open>auto simp: es.enough_def apply_page_append max_event_store_page_size_def\<close>)
  show ?thesis
  proof (cases "saved t k = []")
    case True
    obtain s where "s \<in> set obs" "?loop 0 (ag_new ag ident, False) = Some (apply_page ag (ag_new ag ident, False) (history s k))"
      using loop [of 0] by auto
    with True show ?thesis
      by (intro bexI [of _ s])
        (simp_all add: repository_load_def sn.load_law [OF assms(3)] snapshot_state_def fresh_start then_some_replay
          assms(4) [symmetric])
  next
    case False
    let ?x = "last (saved t k)" and ?m = "nat (ss_version (last (saved t k)) + 1)"
    have "faithful ag ident (history (hd obs) k) ?x" using assms(5) False by simp
    then have x: "faithful ag ident (history s k) ?x" "numbered (history s k)" if "s \<in> set obs" for s
      using faithful_prefix [OF _ observed_prefix [OF assms(1) that]] assms(1) es.history_numbered that
      by (simp_all add: es.observes_def)
    have "?m < 2 ^ 64"
      using snapshot_start(3) [OF x] x(2) assms(2) by (fastforce simp: es.enough_def numbered_def dest: hd_in_set)
    then obtain s where s: "s \<in> set obs" "?loop ?m (ss_state ?x, True) = Some (apply_page ag (ss_state ?x, True) (drop ?m (history s k)))"
      using loop by blast
    with False show ?thesis
      using snapshot_start [OF x [OF s(1)]]
      by (intro bexI [of _ s])
        (simp_all add: repository_load_def sn.load_law [OF assms(3)] then_some_replay assms(4) [symmetric])
  qed
qed

end

interpretation repo: repository "memory_event_ops iter" es_inv stream_events memory_snapshot_ops snapshots_inv latest_saved
  for iter ..

text \<open>
  Property C16: loading an aggregate replays its whole stream. While other tasks append between the page
  reads, loading ends after enough reads and returns what replaying the stream from its first event
  gives, for the stream as one of the reads saw it; whether it starts from a snapshot makes no
  difference, as long as the snapshots of the stream are faithful to it.
\<close>

theorem aggregate_load_replays:
  assumes "\<forall>s \<in> set obs. es_inv s" "sorted_wrt (\<lambda>s s'. prefix (stream_events s k) (stream_events s' k)) obs"
    "obs \<noteq> []" "length (stream_events (last obs) k) \<le> max_event_store_page_size * length obs"
    "k = ag_stream_id ag ident" "snapshots_inv t"
    "\<forall>x \<in> set (latest_saved t k). faithful ag ident (stream_events (hd obs) k) x"
  shows "\<exists>s \<in> set obs. repository_load ag (memory_event_ops iter) memory_snapshot_ops ident t obs =
    Some (replayed ag ident (stream_events s k))"
  by (rule repo.load_replays)
    (use assms in \<open>simp_all add: mes.observes_def mes.enough_def\<close>)

section \<open>Saving and loading\<close>

text \<open>
  An aggregate is in sync with history \<open>evs\<close> when its version counts the history and its pending events, and
  replaying both gives the aggregate without its pending events.
\<close>

definition in_sync :: "'a aggregate_ops \<Rightarrow> string \<Rightarrow> stored_event list \<Rightarrow> 'a \<Rightarrow> bool" where
  "in_sync ag ident evs a \<longleftrightarrow> ag_id ag a = ident \<and>
     ag_version ag a = int (length evs + length (ag_pending ag a)) - 1 \<and>
     (\<forall>now. replay ag ident (evs @ number_from now (int (length evs)) (ag_pending ag a)) = Inr (ag_clear ag a))"

lemma sorted_wrt_constant: "set xs \<subseteq> {x} \<Longrightarrow> R x x \<Longrightarrow> sorted_wrt R xs"
  by (induction xs) auto

lemma length_number_from [simp]: "length (number_from now v envs) = length envs"
  by (simp add: number_from_def)

lemma expected_version:
  assumes "in_sync ag ident evs a" "length evs + length (ag_pending ag a) < 2 ^ 63"
  shows "i64_try_from (int (length (ag_pending ag a))) = Some (int (length (ag_pending ag a)))"
    "i64_checked_sub (ag_version ag a) (int (length (ag_pending ag a))) = Some (int (length evs) - 1)"
  using assms by (simp_all add: in_sync_def i64_defs)

lemma append_faithful:
  fixes now :: systime
  assumes "es_inv s" "in_sync ag ident (stream_events s k) a" "ag_pending ag a \<noteq> []"
    "length (stream_events s k) + length (ag_pending ag a) < 2 ^ 63"
  defines "evs' \<equiv> stream_events s k @ number_from now (int (length (stream_events s k))) (ag_pending ag a)"
  shows "numbered evs'" "replay ag ident evs' = Inr (ag_clear ag a)"
    "ag_version ag (ag_clear ag a) = int (length evs') - 1"
    "faithful ag ident evs' (snapshot_new k (ag_clear ag a) (ag_version ag (ag_clear ag a)) t)"
proof -
  show num: "numbered evs'"
    unfolding evs'_def by (rule numbered_append [OF stream_events_numbered [OF assms(1)] assms(4)])
  show rep: "replay ag ident evs' = Inr (ag_clear ag a)" using assms(2) by (simp add: in_sync_def evs'_def)
  have "evs' \<noteq> []" using assms(3) by (simp add: evs'_def number_from_def)
  with replay_version [OF num _ rep] show v: "ag_version ag (ag_clear ag a) = int (length evs') - 1" by simp
  show "faithful ag ident evs' (snapshot_new k (ag_clear ag a) (ag_version ag (ag_clear ag a)) t)"
    using rep \<open>evs' \<noteq> []\<close> unfolding faithful_def snapshot_new_def v by (simp add: Suc_le_eq)
qed

text \<open>The snapshot step of a save: the new snapshot is the newest, so the store accepts it.\<close>

lemma snapshot_step:
  assumes "snapshots_inv t" "ss_stream_id x = k" "\<forall>y \<in> set (latest_saved t k). ss_version y \<le> ss_version x" "- 1 \<le> ss_version x"
  shows "\<exists>t'. (if due then map_prod f id (sn_save memory_snapshot_ops x t) else (f t, Inr ())) = (f t', Inr ()) \<and>
    snapshots_inv t' \<and> set (latest_saved t' k) \<subseteq> insert x (set (latest_saved t k))"
proof (cases due)
  case True
  obtain t' r where "snapshots_save x t = (t', r)" by fastforce
  with True latest_save [OF assms(1,4) this] assms(2,3) show ?thesis
    by (intro exI [of _ t']) (auto simp: memory_snapshot_ops_def not_less split: if_splits)
qed (use assms(1) in auto)

lemma repository_save_appended:
  assumes "ag_pending ag a \<noteq> []" "i64_try_from (int (length (ag_pending ag a))) = Some n"
    "i64_checked_sub (ag_version ag a) n = Some x" "k = ag_stream_id ag (ag_id ag a)"
    "ev_append es k (ag_pending ag a) (Some x) env s = (s1, Inr v)" "sn_load sn t k = Inr found"
  defines "c \<equiv> ag_clear ag a"
  shows "repository_save ag es sn interval env now a (s, t) =
    (if event_count_should_snapshot interval (ag_version ag c) (case found of None \<Rightarrow> - 1 | Some y \<Rightarrow> ss_version y)
     then map_prod (\<lambda>t'. (c, s1, t')) id (sn_save sn (snapshot_new k c (ag_version ag c) now) t)
     else ((c, s1, t), Inr ()))"
  using assms by (simp add: repository_save_def Let_def split: prod.split)

lemma load_unchanged:
  assumes "es_inv s" "snapshots_inv t" "k = ag_stream_id ag ident"
    "\<forall>x \<in> set (latest_saved t k). faithful ag ident (stream_events s k) x"
    "obs \<noteq> []" "set obs = {s}" "length (stream_events s k) \<le> max_event_store_page_size * length obs"
  shows "repository_load ag (memory_event_ops iter) memory_snapshot_ops ident t obs = Some (replayed ag ident (stream_events s k))"
proof -
  have "hd obs = s" "last obs = s" using assms(5,6) hd_in_set last_in_set by fastforce+
  moreover have "sorted_wrt (\<lambda>s s'. prefix (stream_events s k) (stream_events s' k)) obs"
    using assms(6) by (intro sorted_wrt_constant [of _ s]) auto
  ultimately have "mes.observes k obs" "mes.enough k 0 max_event_store_page_size obs"
    "\<forall>x \<in> set (latest_saved t k). faithful ag ident (stream_events (hd obs) k) x"
    using assms by (simp_all add: mes.observes_def mes.enough_def)
  then obtain s2 where "s2 \<in> set obs"
    "repository_load ag (memory_event_ops iter) memory_snapshot_ops ident t obs = Some (replayed ag ident (stream_events s2 k))"
    using repo.load_replays [OF _ _ assms(2,3), of obs iter] by blast
  then show ?thesis using assms(6) by simp
qed

text \<open>A save whose append succeeds: the snapshots stay faithful to the longer stream.\<close>

lemma save_appends:
  assumes "es_inv s" "snapshots_inv t" "k = ag_stream_id ag ident"
    "\<forall>x \<in> set (latest_saved t k). faithful ag ident (stream_events s k) x"
    "in_sync ag ident (stream_events s k) a" "ag_pending ag a \<noteq> []"
    "length (stream_events s k) + length (ag_pending ag a) < 2 ^ 63"
    "event_append k (ag_pending ag a) (Some (int (length (stream_events s k)) - 1)) (stamp, can_alloc) s = (s1, Inr v)"
    "stream_events s1 k = stream_events s k @ number_from stamp (int (length (stream_events s k))) (ag_pending ag a)"
  shows "\<exists>t1. repository_save ag (memory_event_ops iter) memory_snapshot_ops interval (stamp, can_alloc) now a (s, t) =
      ((ag_clear ag a, s1, t1), Inr ()) \<and> snapshots_inv t1 \<and>
    (\<forall>x \<in> set (latest_saved t1 k). faithful ag ident (stream_events s1 k) x)"
proof -
  let ?sn = "snapshot_new k (ag_clear ag a) (ag_version ag (ag_clear ag a)) now"
  note F = append_faithful [OF assms(1,5-7), where now = stamp, folded assms(9)]
  note E = expected_version [OF assms(5,7)]
  have app: "ev_append (memory_event_ops iter) k (ag_pending ag a) (Some (int (length (stream_events s k)) - 1)) (stamp, can_alloc) s = (s1, Inr v)"
    using assms(8) by (simp add: memory_event_ops_def)
  have sid: "k = ag_stream_id ag (ag_id ag a)" using assms(3,5) by (simp add: in_sync_def)
  note save = repository_save_appended [OF assms(6) E sid app msn.load_law [OF assms(2)], of interval now]
  have old: "\<forall>x \<in> set (latest_saved t k). faithful ag ident (stream_events s1 k) x"
    using assms(4,9) faithful_prefix by (metis prefixI)
  then have "\<forall>y \<in> set (latest_saved t k). ss_version y \<le> ss_version ?sn" "- 1 \<le> ss_version ?sn"
    using F(3) by (auto simp: faithful_def snapshot_new_def)
  moreover have "ss_stream_id ?sn = k" by (simp add: snapshot_new_def)
  ultimately obtain t1 where "repository_save ag (memory_event_ops iter) memory_snapshot_ops interval (stamp, can_alloc) now a (s, t) =
      ((ag_clear ag a, s1, t1), Inr ())" "snapshots_inv t1"
    "set (latest_saved t1 k) \<subseteq> insert ?sn (set (latest_saved t k))"
    using snapshot_step [OF assms(2), of ?sn k _ "\<lambda>t'. (ag_clear ag a, s1, t')"] unfolding save by blast
  with F(4) old show ?thesis by (intro exI [of _ t1]) auto
qed

text \<open>
  Property C15: saving is optimistic and loading returns what was saved. Let an aggregate be in sync with a
  history the stream once had. If the stream has moved on, saving answers a conflict and changes neither
  the stream, the snapshots nor the aggregate. If it has not, saving either fails without changing them,
  or appends the pending events, and then every later load of the unchanged stream returns the aggregate
  that was saved. All snapshots of the stream stay faithful.
\<close>

theorem aggregate_save_roundtrip:
  assumes "es_inv s" "snapshots_inv t" "k = ag_stream_id ag ident"
    "\<forall>x \<in> set (latest_saved t k). faithful ag ident (stream_events s k) x"
    "prefix evs (stream_events s k)" "in_sync ag ident evs a" "ag_pending ag a \<noteq> []"
    "length evs + length (ag_pending ag a) < 2 ^ 63"
    "repository_save ag (memory_event_ops iter) memory_snapshot_ops interval (stamp, can_alloc) now a (s, t) = ((a', s', t'), r)"
  shows "es_inv s' \<and> snapshots_inv t' \<and> (\<forall>x \<in> set (latest_saved t' k). faithful ag ident (stream_events s' k) x) \<and>
    (evs \<noteq> stream_events s k \<longrightarrow> (\<exists>e. r = Inl e \<and> ce_code e = Conflict)) \<and>
    (case r of
       Inl e \<Rightarrow> stream_events s' k = stream_events s k \<and> t' = t \<and> a' = a
     | Inr _ \<Rightarrow> evs = stream_events s k \<and> a' = ag_clear ag a \<and>
         stream_events s' k = evs @ number_from stamp (int (length evs)) (ag_pending ag a) \<and>
         (\<forall>obs. obs \<noteq> [] \<and> set obs = {s'} \<and> length (stream_events s' k) \<le> max_event_store_page_size * length obs \<longrightarrow>
            repository_load ag (memory_event_ops iter) memory_snapshot_ops ident t' obs = Some (Inr (Some a'))))"
proof -
  obtain s1 r1 where app: "event_append k (ag_pending ag a) (Some (int (length evs) - 1)) (stamp, can_alloc) s = (s1, r1)"
    by fastforce
  note A = event_append_cases [OF assms(1) app]
  have len: "evs = stream_events s k" if "length evs = length (stream_events s k)"
    using assms(5) that by (auto simp: prefix_def)
  show ?thesis
  proof (cases r1)
    case (Inl e)
    then have "a' = a" "s' = s1" "t' = t" "r = Inl e"
      using assms(3,6,7,9) expected_version [OF assms(6,8)] app
      by (auto simp: repository_save_def memory_event_ops_def in_sync_def)
    then show ?thesis using A Inl len assms(2,4) by (auto split: if_splits)
  next
    case (Inr v)
    with A assms(7) have eq: "evs = stream_events s k" by (auto intro: len)
    with A Inr have s1: "es_inv s1" "stream_events s1 k = evs @ number_from stamp (int (length evs)) (ag_pending ag a)"
      by auto
    have res: "a' = ag_clear ag a" "s' = s1" "r = Inr ()" "snapshots_inv t'"
      "\<forall>x \<in> set (latest_saved t' k). faithful ag ident (stream_events s1 k) x"
      using save_appends [OF assms(1-4), of a stamp can_alloc s1 v iter interval now] assms(6-9) app Inr s1(2) eq by auto
    have "replay ag ident (stream_events s1 k) = Inr (ag_clear ag a)" using assms(6) s1(2) by (simp add: in_sync_def)
    then have "replayed ag ident (stream_events s1 k) = Inr (Some (ag_clear ag a))"
      using s1(2) assms(7) by (simp add: replayed_def number_from_def)
    then show ?thesis
      using load_unchanged [OF s1(1) res(4) assms(3) res(5), of _ iter] res s1 eq by auto
  qed
qed

section \<open>Earlier states\<close>

context event_history
begin

lemma state_at_version_replays:
  assumes "observes k obs" "enough k 0 max_event_store_page_size obs" "k = ag_stream_id ag ident" "0 \<le> v"
  shows "\<exists>s \<in> set obs. state_at_version ag ops ident v obs = Some (replayed ag ident (take (nat (v + 1)) (history s k)))"
proof -
  obtain s where "s \<in> set obs" and loop:
    "page_loop (\<lambda>s from. ev_read_to_version_page ops s k from v max_event_store_page_size) (apply_page ag) (word_of_nat 0) obs (ag_new ag ident, False) =
      Some (apply_page ag (ag_new ag ident, False) (drop 0 (take (nat (v + 1)) (history s k))))"
    using page_loop_version [OF assms(1,2), where use = "apply_page ag" and to = v]
    by (auto simp: apply_page_append max_event_store_page_size_def)
  then show ?thesis
    using assms(3,4) by (intro bexI [of _ s])
      (simp_all add: state_at_version_def rebuild_version_def fresh_start then_some_replay)
qed

end

lemma faithful_take:
  assumes "faithful ag ident evs sn" "ss_version sn \<le> v"
  shows "faithful ag ident (take (nat (v + 1)) evs) sn"
proof -
  have "take (nat (ss_version sn + 1)) (take (nat (v + 1)) evs) = take (nat (ss_version sn + 1)) evs"
    using assms by (simp add: min_def faithful_def)
  then show ?thesis using assms by (auto simp: faithful_def)
qed

locale archive = es: event_history es einv history + sn: snapshot_archive sn sinv saved
  for es :: "('e, 's) event_store_ops" and einv history
    and sn :: "('a, 't, 'z) enhanced_snapshot_ops_scheme" and sinv saved

sublocale archive \<subseteq> repository es einv history sn sinv saved ..

context archive
begin

lemma snapshot_state_at_version_replays:
  assumes "es.observes k obs" "es.enough k 0 max_event_store_page_size obs" "sinv t" "k = ag_stream_id ag ident" "0 \<le> v"
    "\<forall>x \<in> set (saved t k). ss_version x \<le> v \<longrightarrow> faithful ag ident (history (hd obs) k) x"
  shows "\<exists>s \<in> set obs. snapshot_state_at_version ag es sn ident v t obs = Some (replayed ag ident (take (nat (v + 1)) (history s k)))"
proof -
  let ?loop = "\<lambda>c. page_loop (\<lambda>s from. ev_read_to_version_page es s k from v max_event_store_page_size) (apply_page ag) (word_of_nat c) obs"
  have loop: "\<exists>s \<in> set obs. ?loop c acc = Some (apply_page ag acc (drop c (take (nat (v + 1)) (history s k))))" if "c < 2 ^ 64" for c acc
    by (rule es.page_loop_version)
      (use assms(1,2) that in \<open>auto simp: es.enough_def apply_page_append max_event_store_page_size_def\<close>)
  let ?below = "filter (\<lambda>x. ss_version x \<le> v) (saved t k)"
  show ?thesis
  proof (cases "?below = []")
    case True
    obtain s where "s \<in> set obs" "?loop 0 (ag_new ag ident, False) = Some (apply_page ag (ag_new ag ident, False) (take (nat (v + 1)) (history s k)))"
      using loop [of 0] by auto
    with True show ?thesis
      using assms(5) by (intro bexI [of _ s])
        (simp_all add: snapshot_state_at_version_def sn.load_at_law [OF assms(3)] bind_o_def snapshot_state_def
          fresh_start then_some_replay assms(4) [symmetric])
  next
    case False
    let ?x = "last ?below" and ?m = "nat (ss_version (last ?below) + 1)"
    have x_in: "?x \<in> set (saved t k)" "ss_version ?x \<le> v" using last_in_set [OF False] by auto
    then have "faithful ag ident (history (hd obs) k) ?x" using assms(6) by blast
    then have x: "faithful ag ident (take (nat (v + 1)) (history s k)) ?x" "numbered (take (nat (v + 1)) (history s k))"
      if "s \<in> set obs" for s
      using faithful_take [OF faithful_prefix [OF _ observed_prefix [OF assms(1) that]] x_in(2)] assms(1) that
        numbered_take [OF es.history_numbered] by (simp_all add: es.observes_def)
    have "?m < 2 ^ 64"
      using snapshot_start(3) [OF x] x(2) assms(2) by (fastforce simp: es.enough_def numbered_def dest: hd_in_set)
    then obtain s where s: "s \<in> set obs"
      "?loop ?m (ss_state ?x, True) = Some (apply_page ag (ss_state ?x, True) (drop ?m (take (nat (v + 1)) (history s k))))"
      using loop by blast
    with False show ?thesis
      using snapshot_start [OF x [OF s(1)]] assms(5)
      by (intro bexI [of _ s])
        (simp_all add: snapshot_state_at_version_def sn.load_at_law [OF assms(3)] bind_o_def Let_def then_some_replay
          assms(4) [symmetric])
  qed
qed

end

interpretation tt: archive "memory_event_ops iter" es_inv stream_events memory_enhanced_ops enhanced_inv all_saved
  for iter ..

lemma chain_take:
  assumes "sorted_wrt (\<lambda>s s'. prefix (H s) (H s')) obs" "n \<le> length (H (hd obs))" "s \<in> set obs"
  shows "take n (H s) = take n (H (hd obs))"
  using assms by (cases obs) (auto simp: prefix_def)

text \<open>
  Property C17: snapshots do not change what time travel finds. For a version the stream already has, the
  service that starts from the newest snapshot at or before it and the service that starts from nothing
  return the same result, the replay of the events up to that version, although each reads pages while
  other tasks append. Only the snapshots up to the version need to be faithful.
\<close>

theorem snapshot_time_travel_equivalent:
  assumes "\<forall>s \<in> set (obs1 @ obs2). es_inv s" "obs1 \<noteq> []" "obs2 \<noteq> []"
    "sorted_wrt (\<lambda>s s'. prefix (stream_events s k) (stream_events s' k)) (obs1 @ obs2)"
    "length (stream_events (last obs1) k) \<le> max_event_store_page_size * length obs1"
    "length (stream_events (last obs2) k) \<le> max_event_store_page_size * length obs2"
    "0 \<le> v" "v < int (length (stream_events (hd obs1) k))" "k = ag_stream_id ag ident" "enhanced_inv t"
    "\<forall>x \<in> set (all_saved t k). ss_version x \<le> v \<longrightarrow> faithful ag ident (stream_events (hd obs1) k) x"
  shows "snapshot_state_at_version ag (memory_event_ops iter) memory_enhanced_ops ident v t obs2 =
      state_at_version ag (memory_event_ops iter) ident v obs1 \<and>
    state_at_version ag (memory_event_ops iter) ident v obs1 =
      Some (replayed ag ident (take (nat (v + 1)) (stream_events (hd obs1) k)))"
proof -
  have obs: "mes.observes k obs1" "mes.enough k 0 max_event_store_page_size obs1"
    "mes.observes k obs2" "mes.enough k 0 max_event_store_page_size obs2"
    using assms(1-6) by (auto simp: mes.observes_def mes.enough_def sorted_wrt_append)
  have same: "take (nat (v + 1)) (stream_events s k) = take (nat (v + 1)) (stream_events (hd obs1) k)"
    if "s \<in> set (obs1 @ obs2)" for s
    using chain_take [OF assms(4), of "nat (v + 1)" s] that assms(2,8) by simp
  have "prefix (stream_events (hd obs1) k) (stream_events (hd obs2) k)"
    using assms(2-4) by (simp add: sorted_wrt_append)
  then have "\<forall>x \<in> set (all_saved t k). ss_version x \<le> v \<longrightarrow> faithful ag ident (stream_events (hd obs2) k) x"
    using assms(11) faithful_prefix by blast
  then obtain s2 where "s2 \<in> set obs2"
    "snapshot_state_at_version ag (memory_event_ops iter) memory_enhanced_ops ident v t obs2 =
      Some (replayed ag ident (take (nat (v + 1)) (stream_events s2 k)))"
    using tt.snapshot_state_at_version_replays [OF obs(3,4) assms(10,9,7)] by blast
  moreover obtain s1 where "s1 \<in> set obs1"
    "state_at_version ag (memory_event_ops iter) ident v obs1 = Some (replayed ag ident (take (nat (v + 1)) (stream_events s1 k)))"
    using mes.state_at_version_replays [OF obs(1,2) assms(9,7)] by blast
  ultimately show ?thesis using same [of s1] same [of s2] by simp
qed

section \<open>A counter\<close>

definition counter :: "(int \<times> envelope list) aggregate_ops" where
  "counter = \<lparr>ag_new = (\<lambda>_. (- 1, [])), ag_stream_id = (\<lambda>k. k), ag_id = (\<lambda>_. ''a''), ag_version = fst,
     ag_apply = (\<lambda>(v, p) _. Inr (v + 1, p)), ag_pending = snd, ag_clear = (\<lambda>(v, p). (v, []))\<rparr>"

definition counter_store :: memory_event_store where
  "counter_store = [''a'' \<mapsto> number_from 5 0 [demo_envelope, demo_envelope]]"

lemma counter_store_inv: "es_inv counter_store"
  using numbered_append [of "[]" "[demo_envelope, demo_envelope]" 5]
  by (simp add: es_inv_def counter_store_def split: if_splits)

lemma counter_store_events:
  "stream_events counter_store ''a'' =
     [\<lparr>se_version = 0, se_envelope = demo_envelope, se_timestamp = 5\<rparr>,
      \<lparr>se_version = 1, se_envelope = demo_envelope, se_timestamp = 5\<rparr>]"
  by (simp add: stream_events_def counter_store_def number_from_Cons) (simp add: number_from_def)

lemmas counter_simps = counter_def replayed_def replay_def apply_event_def counter_store_events faithful_def

theorem aggregate_load_replays_witness:
  "repository_load counter (memory_event_ops (\<lambda>_. [''a''])) memory_snapshot_ops ''a''
     (Map.empty :: (int \<times> envelope list, unit) any memory_snapshots) [counter_store] = Some (Inr (Some (1, [])))"
  using aggregate_load_replays [of "[counter_store]" "''a''" counter "''a''"
      "Map.empty :: (int \<times> envelope list, unit) any memory_snapshots" "\<lambda>_. [''a'']"]
  by (simp add: counter_store_inv counter_simps max_event_store_page_size_def snapshots_inv_def latest_saved_def)

theorem aggregate_save_roundtrip_witness:
  "\<exists>s' t'. repository_save counter (memory_event_ops (\<lambda>_. [''a''])) memory_snapshot_ops 1 (5, True) 5 (0, [demo_envelope])
     (Map.empty, Map.empty :: (int \<times> envelope list, unit) any memory_snapshots) = (((0, []), s', t'), Inr ()) \<and>
   repository_load counter (memory_event_ops (\<lambda>_. [''a''])) memory_snapshot_ops ''a'' t' [s'] = Some (Inr (Some (0, [])))"
proof -
  let ?t = "Map.empty :: (int \<times> envelope list, unit) any memory_snapshots"
  obtain a' s' t' r where save: "repository_save counter (memory_event_ops (\<lambda>_. [''a''])) memory_snapshot_ops 1 (5, True) 5
      (0, [demo_envelope]) (Map.empty, ?t) = ((a', s', t'), r)" by (metis prod.exhaust)
  have sync: "in_sync counter ''a'' [] (0, [demo_envelope])"
    by (simp add: in_sync_def counter_simps number_from_def)
  have ok: "r = Inr ()"
    using save by (auto simp: repository_save_def counter_simps i64_defs memory_event_ops_def event_append_def stream_append_def
        event_stream_version_def checked_appended_event_version_def vec_reserve_ok_def memory_snapshot_ops_def
        snapshots_load_def snapshots_save_def slot_save_def slot_default_def snapshot_new_def Let_def split: if_splits prod.splits)
  have "es_inv Map.empty" "snapshots_inv ?t" by (simp_all add: es_inv_def snapshots_inv_def)
  from aggregate_save_roundtrip [OF this _ _ _ sync _ _ save] ok
  have "a' = (0, [])" "length (stream_events s' ''a'') = 1"
    "\<forall>obs. obs \<noteq> [] \<and> set obs = {s'} \<and> length (stream_events s' ''a'') \<le> max_event_store_page_size * length obs \<longrightarrow>
       repository_load counter (memory_event_ops (\<lambda>_. [''a''])) memory_snapshot_ops ''a'' t' obs = Some (Inr (Some a'))"
    by (simp_all add: latest_saved_def stream_events_def counter_def)
  then have "repository_load counter (memory_event_ops (\<lambda>_. [''a''])) memory_snapshot_ops ''a'' t' [s'] = Some (Inr (Some (0, [])))"
    by (simp add: max_event_store_page_size_def)
  with save ok \<open>a' = (0, [])\<close> show ?thesis by blast
qed

theorem snapshot_time_travel_equivalent_witness:
  "state_at_version counter (memory_event_ops (\<lambda>_. [''a''])) ''a'' 0 [counter_store] = Some (Inr (Some (0, []))) \<and>
   snapshot_state_at_version counter (memory_event_ops (\<lambda>_. [''a''])) memory_enhanced_ops ''a'' 0
     (Map.empty :: (int \<times> envelope list, unit) any memory_enhanced) [counter_store] = Some (Inr (Some (0, [])))"
  using snapshot_time_travel_equivalent [of "[counter_store]" "[counter_store]" "''a''" 0 counter "''a''"
      "Map.empty :: (int \<times> envelope list, unit) any memory_enhanced" "\<lambda>_. [''a'']"]
  by (simp add: counter_store_inv counter_simps max_event_store_page_size_def enhanced_inv_def all_saved_def)

end
