(* ===== verification/Event_Upgrades.thy ===== *)
theory Event_Upgrades
  imports Aggregates
begin

text \<open>
  Schema upgrades of stored events (\<open>crates/catga-core/src/event_version.rs\<close>) and the event store that
  applies them while reading (\<open>upgrading_event_store.rs\<close>). An upgrader is user code behind the
  \<open>EventUpgrader\<close> trait: its declared schemas and its function are the fields of a record. Registration
  retries a compare-and-swap until nobody interfered, so it is one step on the rules.
\<close>

section \<open>The registry\<close>

definition max_upgrade_steps :: nat where
  "max_upgrade_steps = 100"

record upgrader =
  up_source_type :: string
  up_target_type :: string
  up_source_version :: u32
  up_target_version :: u32
  up_upgrade :: "envelope \<Rightarrow> envelope catga_result"

record version_rules =
  vr_upgraders :: "string \<rightharpoonup> upgrader list"
  vr_current_versions :: "string \<rightharpoonup> u32"

definition rules_default :: version_rules where
  "rules_default = \<lparr>vr_upgraders = Map.empty, vr_current_versions = Map.empty\<rparr>"

definition validate_upgrader :: "upgrader \<Rightarrow> unit catga_result" where
  "validate_upgrader u =
     (if up_source_type u = [] \<or> up_target_type u = []
      then Inl (error_new Validation ''event upgrader source and target types must not be empty'')
      else if up_target_version u \<le> up_source_version u
      then Inl (error_new Validation ''event upgrader target version must exceed its source version'')
      else Inr ())"

definition register :: "upgrader \<Rightarrow> version_rules \<Rightarrow> version_rules \<times> unit catga_result" where
  "register u rules =
     (case validate_upgrader u of
        Inl e \<Rightarrow> (rules, Inl e)
      | Inr _ \<Rightarrow>
          (let upgrades = (case vr_upgraders rules (up_source_type u) of None \<Rightarrow> [] | Some us \<Rightarrow> us) in
           if \<exists>registered \<in> set upgrades. up_source_version registered = up_source_version u
           then (rules, Inl (error_new Conflict
             ''an event upgrader is already registered for this source type and version''))
           else
             (\<lparr>vr_upgraders = (vr_upgraders rules)(up_source_type u \<mapsto> sort_key up_source_version (upgrades @ [u])),
               vr_current_versions = (vr_current_versions rules)(up_target_type u \<mapsto>
                 (case vr_current_versions rules (up_target_type u) of
                    None \<Rightarrow> up_target_version u
                  | Some version \<Rightarrow> max version (up_target_version u)))\<rparr>, Inr ())))"

definition current_version :: "version_rules \<Rightarrow> string \<Rightarrow> u32" where
  "current_version rules event_type =
     (case vr_current_versions rules event_type of None \<Rightarrow> 1 | Some v \<Rightarrow> v)"

definition has_upgraders :: "version_rules \<Rightarrow> string \<Rightarrow> bool" where
  "has_upgraders rules event_type \<longleftrightarrow> vr_upgraders rules event_type \<noteq> None"

text \<open>The upgrader the loop takes for an event.\<close>

definition matching_upgrader :: "version_rules \<Rightarrow> envelope \<Rightarrow> upgrader option" where
  "matching_upgrader rules event =
     (case vr_upgraders rules (env_message_type event) of
        None \<Rightarrow> None
      | Some us \<Rightarrow> find (\<lambda>u. up_source_version u = env_schema_version event) us)"

fun upgrade_loop :: "nat \<Rightarrow> version_rules \<Rightarrow> envelope \<Rightarrow> envelope catga_result" where
  "upgrade_loop 0 rules event =
     Inl (error_new Validation ''event schema upgrade exceeded the maximum chain length'')"
| "upgrade_loop (Suc n) rules event =
     (case matching_upgrader rules event of
        None \<Rightarrow> Inr event
      | Some u \<Rightarrow>
          bind_r (up_upgrade u event) (\<lambda>upgraded.
            if env_message_type upgraded \<noteq> up_target_type u \<or> env_schema_version upgraded \<noteq> up_target_version u
            then Inl (error_new Validation ''event upgrader output does not match its declared target schema'')
            else upgrade_loop n rules upgraded))"

definition upgrade_to_latest :: "version_rules \<Rightarrow> envelope \<Rightarrow> envelope catga_result" where
  "upgrade_to_latest rules event = upgrade_loop max_upgrade_steps rules event"

section \<open>The upgrading store\<close>

definition upgrade_event :: "version_rules \<Rightarrow> stored_event \<Rightarrow> stored_event catga_result" where
  "upgrade_event rules event =
     (if \<not> has_upgraders rules (env_message_type (se_envelope event)) then Inr event
      else bind_r (upgrade_to_latest rules (se_envelope event)) (\<lambda>envelope.
        Inr \<lparr>se_version = se_version event, se_envelope = envelope, se_timestamp = se_timestamp event\<rparr>))"

fun collect_r :: "('a \<Rightarrow> 'b catga_result) \<Rightarrow> 'a list \<Rightarrow> 'b list catga_result" where
  "collect_r f [] = Inr []"
| "collect_r f (x # xs) = bind_r (f x) (\<lambda>y. bind_r (collect_r f xs) (\<lambda>ys. Inr (y # ys)))"

definition upgrade_stream :: "version_rules \<Rightarrow> event_stream \<Rightarrow> event_stream catga_result" where
  "upgrade_stream rules stream =
     (if \<not> (\<exists>event \<in> set (es_events stream). has_upgraders rules (env_message_type (se_envelope event)))
      then Inr stream
      else bind_r (collect_r (upgrade_event rules) (es_events stream)) (\<lambda>events.
        Inr \<lparr>es_stream_id = es_stream_id stream, es_version = es_version stream, es_events = events\<rparr>))"

definition upgrade_page :: "version_rules \<Rightarrow> event_page catga_result \<Rightarrow> event_page catga_result" where
  "upgrade_page rules r =
     bind_r r (\<lambda>page. bind_r (upgrade_stream rules (ep_stream page)) (\<lambda>stream.
       Inr \<lparr>ep_stream = stream, ep_next_version = ep_next_version page\<rparr>))"

definition upgrading_ops :: "version_rules \<Rightarrow> ('e, 's) event_store_ops \<Rightarrow> ('e, 's) event_store_ops" where
  "upgrading_ops rules inner =
     \<lparr>ev_append = ev_append inner,
      ev_read_page = (\<lambda>s k from n. upgrade_page rules (ev_read_page inner s k from n)),
      ev_version = ev_version inner,
      ev_read_to_version_page = (\<lambda>s k from to n. upgrade_page rules (ev_read_to_version_page inner s k from to n)),
      ev_read_to_time_page = (\<lambda>s k from bound n. upgrade_page rules (ev_read_to_time_page inner s k from bound n)),
      ev_version_history_page = ev_version_history_page inner,
      ev_stream_ids_page = ev_stream_ids_page inner\<rparr>"

section \<open>Upgrading ends at the latest schema\<close>

definition rules_ok :: "version_rules \<Rightarrow> bool" where
  "rules_ok rules \<longleftrightarrow> (\<forall>ty us. vr_upgraders rules ty = Some us \<longrightarrow>
     distinct (map up_source_version us) \<and>
     (\<forall>u \<in> set us. up_source_type u = ty \<and> up_source_version u < up_target_version u))"

lemma rules_ok_default: "rules_ok rules_default"
  by (simp add: rules_ok_def rules_default_def)

lemma rules_ok_register:
  assumes "rules_ok rules"
  shows "rules_ok (fst (register u rules))"
proof -
  have "distinct (map up_source_version (sort_key up_source_version (us @ [u]))) \<longleftrightarrow>
      distinct (map up_source_version (us @ [u]))" for us
    by (simp only: distinct_map set_sort distinct_sort)
  with assms show ?thesis
    by (auto simp: register_def validate_upgrader_def rules_ok_def Let_def not_le split: if_splits option.splits)
qed

lemma matching_upgrader_ok:
  assumes "rules_ok rules" "matching_upgrader rules event = Some u"
  shows "up_source_version u = env_schema_version event" "up_source_type u = env_message_type event"
    "up_source_version u < up_target_version u"
proof -
  obtain us where us: "vr_upgraders rules (env_message_type event) = Some us"
    "find (\<lambda>u. up_source_version u = env_schema_version event) us = Some u"
    using assms(2) by (auto simp: matching_upgrader_def split: option.splits)
  from us(2) have "u \<in> set us" "up_source_version u = env_schema_version event"
    by (auto simp: find_Some_iff)
  moreover have "\<forall>u \<in> set us. up_source_type u = env_message_type event \<and> up_source_version u < up_target_version u"
    using assms(1) us(1) by (simp add: rules_ok_def)
  ultimately show "up_source_version u = env_schema_version event" "up_source_type u = env_message_type event"
    "up_source_version u < up_target_version u"
    by blast+
qed

lemma upgrade_loop_latest:
  assumes "rules_ok rules" "upgrade_loop n rules event = Inr event'"
  shows "matching_upgrader rules event' = None \<and> env_schema_version event \<le> env_schema_version event'"
  using assms(2)
proof (induction n arbitrary: event)
  case (Suc n)
  show ?case
  proof (cases "matching_upgrader rules event")
    case (Some u)
    note M = matching_upgrader_ok [OF assms(1) Some]
    from Suc.prems Some obtain mid where "upgrade_loop n rules mid = Inr event'" "env_schema_version mid = up_target_version u"
      by (auto simp: result_iffs split: if_splits)
    then show ?thesis using Suc.IH [of mid] M by (auto intro: order.trans less_imp_le)
  qed (use Suc.prems in auto)
qed simp

lemma upgrade_loop_ends:
  assumes "rules_ok rules"
    "\<forall>ty us u env. vr_upgraders rules ty = Some us \<and> u \<in> set us \<longrightarrow>
       unat (up_target_version u) < bound \<and>
       (\<exists>env'. up_upgrade u env = Inr env' \<and> env_message_type env' = up_target_type u \<and> env_schema_version env' = up_target_version u)"
    "bound < unat (env_schema_version event) + Suc n" "0 < n"
  shows "\<exists>event'. upgrade_loop n rules event = Inr event'"
  using assms(3,4)
proof (induction n arbitrary: event)
  case (Suc n)
  show ?case
  proof (cases "matching_upgrader rules event")
    case (Some u)
    note M = matching_upgrader_ok [OF assms(1) Some]
    obtain us where "vr_upgraders rules (env_message_type event) = Some us" "u \<in> set us"
      using Some by (auto simp: matching_upgrader_def find_Some_iff split: option.splits)
    with assms(2) obtain env' where env': "up_upgrade u event = Inr env'" "env_message_type env' = up_target_type u"
      "env_schema_version env' = up_target_version u" "unat (up_target_version u) < bound" by blast
    moreover have "unat (env_schema_version event) < unat (env_schema_version env')"
      using M env' by (simp add: word_less_nat_alt)
    ultimately have "\<exists>event'. upgrade_loop n rules env' = Inr event'"
      using Suc.prems by (intro Suc.IH) auto
    with Some env' show ?thesis by simp
  qed simp
qed simp

definition registered :: "version_rules \<Rightarrow> upgrader set" where
  "registered rules = {u. \<exists>ty us. vr_upgraders rules ty = Some us \<and> u \<in> set us}"

lemma registered_register: "registered (fst (register u rules)) \<subseteq> insert u (registered rules)"
  by (auto simp: registered_def register_def validate_upgrader_def Let_def split: if_splits option.splits)

lemma rules_built:
  assumes "rules_ok rules"
  shows "rules_ok (fold (\<lambda>u r. fst (register u r)) us rules) \<and>
    registered (fold (\<lambda>u r. fst (register u r)) us rules) \<subseteq> set us \<union> registered rules"
  using assms
proof (induction us arbitrary: rules)
  case (Cons u us)
  show ?case using Cons.IH [OF rules_ok_register [OF Cons.prems]] registered_register [of u rules] by auto
qed simp

text \<open>
  Upgrading brings an event to its latest schema. For rules built by registrations, an
  upgrade that succeeds returns an event no registered upgrader applies to, with a schema version that
  is not lower. It does succeed when every upgrader keeps its declared target schema and no target
  version is more than 99 above the version of the event, so no cycle of schemas can make it fail.
\<close>

theorem upgrade_reaches_latest:
  assumes "rules = fold (\<lambda>u r. fst (register u r)) us rules_default"
  shows "(\<forall>event'. upgrade_to_latest rules event = Inr event' \<longrightarrow>
      matching_upgrader rules event' = None \<and> env_schema_version event \<le> env_schema_version event') \<and>
    ((\<forall>u \<in> set us. unat (up_target_version u) < unat (env_schema_version event) + 100 \<and>
       (\<forall>env. \<exists>env'. up_upgrade u env = Inr env' \<and> env_message_type env' = up_target_type u \<and>
          env_schema_version env' = up_target_version u)) \<longrightarrow>
     (\<exists>event'. upgrade_to_latest rules event = Inr event'))"
proof -
  have ok: "rules_ok rules"
    using rules_built [OF rules_ok_default, of us] assms by simp
  have sub: "u \<in> set us" if "vr_upgraders rules ty = Some us'" "u \<in> set us'" for ty us' u
    using rules_built [OF rules_ok_default, of us] assms that by (auto simp: registered_def rules_default_def)
  show ?thesis
  proof (intro conjI impI allI, goal_cases)
    case 3
    show ?case unfolding upgrade_to_latest_def
    proof (rule upgrade_loop_ends [OF ok])
      show "\<forall>ty us' u env. vr_upgraders rules ty = Some us' \<and> u \<in> set us' \<longrightarrow>
          unat (up_target_version u) < unat (env_schema_version event) + 100 \<and>
          (\<exists>env'. up_upgrade u env = Inr env' \<and> env_message_type env' = up_target_type u \<and> env_schema_version env' = up_target_version u)"
        using 3 sub by blast
    qed (simp_all add: max_upgrade_steps_def)
  qed (use upgrade_loop_latest [OF ok] in \<open>auto simp: upgrade_to_latest_def\<close>)
qed

section \<open>The upgraded history\<close>

definition upgraded :: "version_rules \<Rightarrow> stored_event \<Rightarrow> stored_event" where
  "upgraded rules event = projr (upgrade_event rules event)"

definition upgrades :: "version_rules \<Rightarrow> stored_event \<Rightarrow> bool" where
  "upgrades rules event \<longleftrightarrow> is_ok (upgrade_event rules event)"

lemma upgrade_event_ok: "upgrades rules event \<Longrightarrow> upgrade_event rules event = Inr (upgraded rules event)"
  by (auto simp: upgrades_def upgraded_def is_ok_iff)

lemma upgraded_keeps:
  "upgrades rules event \<Longrightarrow> se_version (upgraded rules event) = se_version event \<and>
   se_timestamp (upgraded rules event) = se_timestamp event"
  by (auto simp: upgrades_def upgraded_def upgrade_event_def result_iffs split: if_splits)

lemma collect_r_ok: "\<forall>x \<in> set xs. f x = Inr (g x) \<Longrightarrow> collect_r f xs = Inr (map g xs)"
  by (induction xs) auto

lemma upgrade_stream_ok:
  assumes "\<forall>event \<in> set (es_events stream). upgrades rules event"
  shows "upgrade_stream rules stream = Inr (stream\<lparr>es_events := map (upgraded rules) (es_events stream)\<rparr>)"
proof (cases "\<exists>event \<in> set (es_events stream). has_upgraders rules (env_message_type (se_envelope event))")
  case True
  have "collect_r (upgrade_event rules) (es_events stream) = Inr (map (upgraded rules) (es_events stream))"
    using assms upgrade_event_ok by (intro collect_r_ok) blast
  with True show ?thesis by (cases stream) (simp add: upgrade_stream_def)
next
  case False
  then have "map (upgraded rules) (es_events stream) = es_events stream"
    by (intro map_idI) (auto simp: upgraded_def upgrade_event_def)
  with False show ?thesis by (cases stream) (simp add: upgrade_stream_def)
qed

definition upgradable :: "version_rules \<Rightarrow> memory_event_store \<Rightarrow> bool" where
  "upgradable rules s \<longleftrightarrow> es_inv s \<and> (\<forall>k. \<forall>event \<in> set (stream_events s k). upgrades rules event)"

definition upgraded_events :: "version_rules \<Rightarrow> memory_event_store \<Rightarrow> string \<Rightarrow> stored_event list" where
  "upgraded_events rules s k = map (upgraded rules) (stream_events s k)"

lemma upgrades_window: "\<forall>e \<in> set evs. upgrades rules e \<Longrightarrow> \<forall>e \<in> set (window from n (take m evs)). upgrades rules e"
  by (auto simp: window_def dest!: in_set_takeD in_set_dropD)

lemma window_map: "window from n (map f evs) = map f (window from n evs)"
  by (simp add: window_def take_map drop_map)

lemma next_cursor_map: "next_cursor from n (map f evs) = next_cursor from n evs"
  by (simp add: next_cursor_def)

lemma tail_version_upgraded:
  "\<forall>e \<in> set evs. upgrades rules e \<Longrightarrow> tail_version (map (upgraded rules) evs) = tail_version evs"
  using upgraded_keeps by (auto simp: tail_version_def last_version_def last_map)

lemma filter_upgraded:
  assumes "\<forall>e \<in> set evs. upgrades rules e"
  shows "filter (\<lambda>e. se_timestamp e \<le> bound) (map (upgraded rules) evs) =
    map (upgraded rules) (filter (\<lambda>e. se_timestamp e \<le> bound) evs)"
  using assms upgraded_keeps by (auto simp: filter_map comp_def intro!: filter_cong arg_cong [of _ _ "map _"])

lemma numbered_upgraded: "numbered evs \<Longrightarrow> \<forall>e \<in> set evs. upgrades rules e \<Longrightarrow> numbered (map (upgraded rules) evs)"
  using upgraded_keeps by (auto simp: numbered_def)

lemma upgrade_page_ok:
  assumes "\<forall>e \<in> set evs. upgrades rules e"
  shows "upgrade_page rules (Inr \<lparr>ep_stream = \<lparr>es_stream_id = k, es_version = v, es_events = evs\<rparr>, ep_next_version = c\<rparr>) =
    Inr \<lparr>ep_stream = \<lparr>es_stream_id = k, es_version = v, es_events = map (upgraded rules) evs\<rparr>, ep_next_version = c\<rparr>"
  using assms by (simp add: upgrade_page_def upgrade_stream_ok)

interpretation upg: event_history "upgrading_ops rules (memory_event_ops iter)" "upgradable rules" "upgraded_events rules"
  for rules iter
proof (unfold_locales, goal_cases)
  case (1 s k)
  then show ?case by (simp add: upgradable_def upgraded_events_def numbered_upgraded stream_events_numbered)
next
  case (2 s n k "from")
  have "\<forall>e \<in> set (window (unat from) n (stream_events s k)). upgrades rules e"
    using 2(1) upgrades_window [of "stream_events s k" rules "unat from" n "length (stream_events s k)"] by (simp add: upgradable_def)
  with 2 show ?case
    by (simp add: upgrading_ops_def memory_event_ops_def read_page_law upgrade_page_ok upgradable_def
        upgraded_events_def window_map next_cursor_map)
next
  case (3 s n k "from" to)
  have "\<forall>e \<in> set (window (unat from) n (take (nat (to + 1)) (stream_events s k))). upgrades rules e"
    using 3(1) by (intro upgrades_window) (simp add: upgradable_def)
  with 3 show ?case
    by (simp add: upgrading_ops_def memory_event_ops_def read_to_version_page_law upgrade_page_ok upgradable_def
        upgraded_events_def window_map next_cursor_map take_map tail_version_upgraded Let_def)
next
  case (4 s n k "from" bound)
  have "\<forall>e \<in> set (window (unat from) n (stream_events s k)). upgrades rules e"
    using 4(1) upgrades_window [of "stream_events s k" rules "unat from" n "length (stream_events s k)"] by (simp add: upgradable_def)
  with 4 show ?case
    by (simp add: upgrading_ops_def memory_event_ops_def read_to_time_page_law upgrade_page_ok upgradable_def
        upgraded_events_def window_map next_cursor_map tail_version_upgraded filter_upgraded Let_def)
qed

interpretation uprepo: repository "upgrading_ops rules (memory_event_ops iter)" "upgradable rules" "upgraded_events rules"
  memory_snapshot_ops snapshots_inv latest_saved
  for rules iter ..


definition tick_upgrader :: upgrader where
  "tick_upgrader = \<lparr>up_source_type = ''Tick'', up_target_type = ''Tock'', up_source_version = 1,
     up_target_version = 2, up_upgrade = (\<lambda>e. Inr (e\<lparr>env_message_type := ''Tock'', env_schema_version := 2\<rparr>))\<rparr>"

definition tick_rules :: version_rules where
  "tick_rules = fst (register tick_upgrader rules_default)"

lemma tick_rules_simps:
  "vr_upgraders tick_rules = [''Tick'' \<mapsto> [tick_upgrader]]"
  by (simp add: tick_rules_def register_def tick_upgrader_def rules_default_def validate_upgrader_def word_le_nat_alt)

theorem upgrade_reaches_latest_witness:
  "\<exists>event'. upgrade_to_latest tick_rules demo_envelope = Inr event' \<and> matching_upgrader tick_rules event' = None"
proof -
  have "env_schema_version demo_envelope = 1"
    by (simp add: demo_envelope_def envelope_new_def envelope_versioned_def)
  moreover have "tick_rules = fold (\<lambda>u r. fst (register u r)) [tick_upgrader] rules_default"
    by (simp add: tick_rules_def)
  ultimately show ?thesis
    using upgrade_reaches_latest [of tick_rules "[tick_upgrader]" demo_envelope] by (auto simp: tick_upgrader_def)
qed


end
