(* ===== verification/Event_Following.thy ===== *)
theory Event_Following
  imports Event_Reading
begin

text \<open>
  The two loops that the projection runner (\<open>crates/catga-core/src/projection.rs\<close>) and the subscription
  runner (\<open>subscription.rs\<close>) share: the pass over the new events of one stream, and the pass over all
  streams by pages of their names. As in the cursor loop, every read observes a store of its own, and
  \<^term>\<open>None\<close> says that the loop wants to read on when the observations are used up.
\<close>

section \<open>One stream\<close>

text \<open>
  A visit of an event changes the follower's state and answers an error, the cursor to go on from, or
  nothing, when the loop is to end.
\<close>

fun visit_events ::
  "(stored_event \<Rightarrow> 'x \<Rightarrow> 'x \<times> u64 option catga_result) \<Rightarrow> stored_event list \<Rightarrow> u64 \<Rightarrow> 'x
   \<Rightarrow> 'x \<times> u64 option catga_result" where
  "visit_events visit [] cursor st = (st, Inr (Some cursor))"
| "visit_events visit (event # rest) cursor st =
     (case visit event st of
        (st', Inr (Some next)) \<Rightarrow> visit_events visit rest next st'
      | other \<Rightarrow> other)"

fun catch_up ::
  "('s \<Rightarrow> u64 \<Rightarrow> event_page catga_result) \<Rightarrow> (stored_event \<Rightarrow> 'x \<Rightarrow> 'x \<times> u64 option catga_result)
   \<Rightarrow> 's list \<Rightarrow> u64 \<Rightarrow> 'x \<Rightarrow> ('x \<times> unit catga_result) option" where
  "catch_up rd visit [] cursor st = None"
| "catch_up rd visit (s # obs) cursor st =
     (case rd s cursor of
        Inl e \<Rightarrow> Some (st, Inl e)
      | Inr page \<Rightarrow>
          if es_events (ep_stream page) = [] then Some (st, Inr ())
          else (case visit_events visit (es_events (ep_stream page)) cursor st of
                  (st', Inl e) \<Rightarrow> Some (st', Inl e)
                | (st', Inr None) \<Rightarrow> Some (st', Inr ())
                | (st', Inr (Some next)) \<Rightarrow>
                    if ep_next_version page = None then Some (st', Inr ())
                    else catch_up rd visit obs next st'))"

text \<open>The same in a single pass: every event is visited in order until an error or the end.\<close>

fun visit_all ::
  "(stored_event \<Rightarrow> 'x \<Rightarrow> 'x \<times> u64 option catga_result) \<Rightarrow> stored_event list \<Rightarrow> 'x \<Rightarrow> 'x \<times> unit catga_result" where
  "visit_all visit [] st = (st, Inr ())"
| "visit_all visit (event # rest) st =
     (case visit event st of
        (st', Inl e) \<Rightarrow> (st', Inl e)
      | (st', Inr None) \<Rightarrow> (st', Inr ())
      | (st', Inr (Some _)) \<Rightarrow> visit_all visit rest st')"

text \<open>All of the events applied in order, when each application succeeds.\<close>

fun apply_all :: "(stored_event \<Rightarrow> 'm \<Rightarrow> 'm \<times> unit catga_result) \<Rightarrow> stored_event list \<Rightarrow> 'm \<Rightarrow> 'm option" where
  "apply_all f [] m = Some m"
| "apply_all f (event # rest) m =
     (case f event m of (m', Inr _) \<Rightarrow> apply_all f rest m' | (_, Inl _) \<Rightarrow> None)"

text \<open>What every visit keeps, the loop keeps.\<close>

lemma visit_events_keeps:
  assumes "\<And>e st. P st \<Longrightarrow> P (fst (visit e st))" "P st"
  shows "P (fst (visit_events visit evs c st))"
  using assms(2)
proof (induction evs arbitrary: c st)
  case (Cons e evs)
  then show ?case using assms(1) [of st e] by (auto split: prod.splits sum.splits option.splits)
qed simp

lemma catch_up_keeps:
  assumes "\<And>e st. P st \<Longrightarrow> P (fst (visit e st))" "P st" "catch_up rd visit obs c st = Some (st', r)"
  shows "P st'"
  using assms(2,3)
proof (induction obs arbitrary: c st)
  case (Cons s obs)
  note V = visit_events_keeps [of P visit, OF assms(1) Cons.prems(1)]
  show ?case
    using Cons.prems Cons.IH V by (auto split: sum.splits if_splits prod.splits option.splits) (metis fst_conv)+
qed simp

text \<open>A visit that goes on names the cursor right after its event.\<close>

definition steps_on :: "(stored_event \<Rightarrow> 'x \<Rightarrow> 'x \<times> u64 option catga_result) \<Rightarrow> bool" where
  "steps_on visit \<longleftrightarrow> (\<forall>event st st' c. visit event st = (st', Inr (Some c)) \<longrightarrow> 0 \<le> se_version event \<longrightarrow>
     c = word_of_int (se_version event + 1))"

lemma visit_events_all:
  assumes "steps_on visit" "\<forall>i < length evs. se_version (evs ! i) = int (c + i)"
  shows "case visit_events visit evs (word_of_nat c) st of
      (st', Inl e) \<Rightarrow> visit_all visit (evs @ later) st = (st', Inl e)
    | (st', Inr None) \<Rightarrow> visit_all visit (evs @ later) st = (st', Inr ())
    | (st', Inr (Some n)) \<Rightarrow> n = word_of_nat (c + length evs) \<and> visit_all visit (evs @ later) st = visit_all visit later st'"
  using assms(2)
proof (induction evs arbitrary: c st)
  case (Cons e evs)
  obtain st1 r where v: "visit e st = (st1, r)" by fastforce
  have ver: "se_version e = int c" using Cons.prems by (auto dest: spec [of _ 0])
  have rest: "\<forall>i < length evs. se_version (evs ! i) = int (Suc c + i)"
  proof (intro allI impI)
    fix i assume "i < length evs"
    with Cons.prems [rule_format, of "Suc i"] show "se_version (evs ! i) = int (Suc c + i)" by simp
  qed
  show ?case
  proof (cases r)
    case (Inr x)
    show ?thesis
    proof (cases x)
      case (Some n)
      have "visit e st = (st1, Inr (Some n))" "0 \<le> se_version e" using v Inr Some ver by simp_all
      with assms(1) have "n = word_of_int (se_version e + 1)" unfolding steps_on_def by blast
      also have "se_version e + 1 = int (Suc c)" using ver by simp
      finally have "n = word_of_nat (Suc c)" by (simp only: of_int_of_nat_eq)
      then show ?thesis using Cons.IH [OF rest, of st1] v Inr Some by (simp split: prod.splits sum.splits option.splits)
    qed (use v Inr in simp)
  qed (use v in simp)
qed simp

context event_history
begin

lemma catch_up_single_pass:
  assumes "observes k obs" "enough k c n obs" "0 < n" "n \<le> max_event_store_page_size" "c < 2 ^ 64" "steps_on visit"
  shows "\<exists>s \<in> set obs. catch_up (\<lambda>s from. ev_read_page ops s k from n) visit obs (word_of_nat c) st =
    Some (visit_all visit (drop c (history s k)) st)"
  using assms(1,2,5)
proof (induction obs arbitrary: c st)
  case Nil
  then show ?case by (simp add: enough_def)
next
  case (Cons s obs)
  have s: "inv s" and num: "numbered (history s k)"
    using Cons.prems(1) history_numbered by (auto simp: observes_def)
  have c: "unat (word_of_nat c :: u64) = c" using Cons.prems(3) by (simp add: unat_of_nat take_bit_nat_eq_self)
  let ?w = "window c n (history s k)"
  have ver: "\<forall>i < length ?w. se_version (?w ! i) = int (c + i)"
    using window_nth [of _ c n "history s k"] num by (simp add: numbered_def)
  have split: "drop c (history t k) = window c n (history t k) @ drop (c + n) (history t k)" for t
    by (simp add: window_def drop_drop [symmetric] add.commute [of c n] del: drop_drop)
  note V = visit_events_all [OF assms(6) ver, where st = st]
  note page = page_law [OF s assms(3,4), of k "word_of_nat c", unfolded c]
  show ?case
  proof (cases "c + n < length (history s k)")
    case False
    then have "drop c (history s k) = ?w" by (simp add: split)
    then show ?thesis
      using V [of "[]"] False page
      by (intro bexI [of _ s]) (cases "?w = []", auto simp: next_cursor_def split: prod.splits sum.splits option.splits)
  next
    case True
    then have ne: "?w \<noteq> []" "length ?w = n" using assms(3) by (auto simp: window_def)
    have obs: "obs \<noteq> []" using True Cons.prems(2) by (cases obs) (auto simp: enough_def)
    have "observes k obs" "enough k (c + n) n obs" "c + n < 2 ^ 64"
      using Cons.prems obs True num by (auto simp: observes_def enough_def algebra_simps numbered_def)
    then have IH: "\<exists>t \<in> set obs. catch_up (\<lambda>s from. ev_read_page ops s k from n) visit obs (word_of_nat (c + n)) st' =
        Some (visit_all visit (drop (c + n) (history t k)) st')" for st' by (rule Cons.IH)
    have same: "window c n (history s k) = window c n (history t k)" if "t \<in> set obs" for t
      using prefix_window [of "history s k" "history t k" c n] Cons.prems(1) that True by (simp add: window_def observes_def)
    obtain st' r where ev: "visit_events visit ?w (word_of_nat c) st = (st', r)" by fastforce
    show ?thesis
    proof (cases "\<exists>m. r = Inr (Some m)")
      case True
      obtain t where t: "t \<in> set obs" "catch_up (\<lambda>s from. ev_read_page ops s k from n) visit obs (word_of_nat (c + n)) st' =
          Some (visit_all visit (drop (c + n) (history t k)) st')" using IH by blast
      show ?thesis
        using V [of "drop (c + n) (history t k)"] True ev t ne page \<open>c + n < length (history s k)\<close> same [OF t(1)] split [of t]
        by (intro bexI [of _ t]) (auto simp: next_cursor_def)
    next
      case False
      then show ?thesis
        using V [of "drop (c + n) (history s k)"] ev ne page split [of s]
        by (intro bexI [of _ s]) (auto split: sum.splits option.splits)
    qed
  qed
qed

end

section \<open>All streams\<close>

text \<open>A body that handles one stream answers an error, or whether the pass is to end.\<close>

fun run_ids ::
  "(string \<Rightarrow> 'x \<Rightarrow> ('x \<times> bool catga_result) option) \<Rightarrow> string list \<Rightarrow> 'x \<Rightarrow> ('x \<times> bool catga_result) option" where
  "run_ids body [] st = Some (st, Inr False)"
| "run_ids body (k # ks) st =
     (case body k st of
        Some (st', Inr False) \<Rightarrow> run_ids body ks st'
      | other \<Rightarrow> other)"

fun stream_loop ::
  "('s \<Rightarrow> string option \<Rightarrow> ids_page catga_result) \<Rightarrow> (string \<Rightarrow> 'x \<Rightarrow> ('x \<times> bool catga_result) option)
   \<Rightarrow> 's list \<Rightarrow> string option \<Rightarrow> 'x \<Rightarrow> ('x \<times> bool catga_result) option" where
  "stream_loop rd body [] after st = None"
| "stream_loop rd body (s # obs) after st =
     (case rd s after of
        Inl e \<Rightarrow> Some (st, Inl e)
      | Inr page \<Rightarrow>
          (case run_ids body (si_ids page) st of
             Some (st', Inr False) \<Rightarrow>
               (case si_next_stream_id page of
                  None \<Rightarrow> Some (st', Inr False)
                | Some next \<Rightarrow> stream_loop rd body obs (Some next) st')
           | other \<Rightarrow> other))"

lemma run_ids_append:
  "run_ids body (xs @ ys) st =
     (case run_ids body xs st of Some (st', Inr False) \<Rightarrow> run_ids body ys st' | other \<Rightarrow> other)"
proof (induction xs arbitrary: st)
  case (Cons x xs)
  show ?case
    by (cases "body x st" rule: option.exhaust; simp add: Cons.IH split: prod.splits sum.splits bool.splits)
qed simp

lemma run_ids_keeps:
  assumes "\<And>k st st' r. P st \<Longrightarrow> body k st = Some (st', r) \<Longrightarrow> P st'" "P st" "run_ids body ks st = Some (st', r)"
  shows "P st'"
  using assms(2,3)
proof (induction ks arbitrary: st)
  case (Cons k ks)
  obtain st1 r1 where b: "body k st = Some (st1, r1)" using Cons.prems(2) by (cases "body k st") auto
  have P1: "P st1" using assms(1) Cons.prems(1) b by blast
  show ?case
  proof (cases "r1 = Inr False")
    case True
    then show ?thesis using Cons.IH [OF P1] Cons.prems(2) b by simp
  next
    case False
    then have "st1 = st'" using Cons.prems(2) b by (auto split: sum.splits bool.splits)
    with P1 show ?thesis by simp
  qed
qed simp

lemma stream_loop_keeps:
  assumes "\<And>k st st' r. P st \<Longrightarrow> body k st = Some (st', r) \<Longrightarrow> P st'" "P st" "stream_loop rd body obs after st = Some (st', r)"
  shows "P st'"
  using assms(2,3)
proof (induction obs arbitrary: after st)
  case (Cons s obs)
  show ?case
  proof (cases "rd s after")
    case (Inr page)
    obtain st1 r1 where b: "run_ids body (si_ids page) st = Some (st1, r1)"
      using Cons.prems(2) Inr by (cases "run_ids body (si_ids page) st") auto
    have P1: "P st1" by (rule run_ids_keeps [of P body, OF _ Cons.prems(1) b]) (rule assms(1))
    show ?thesis
    proof (cases "r1 = Inr False")
      case True
      then show ?thesis
        using Cons.IH [OF P1] Cons.prems(2) Inr b P1 by (cases "si_next_stream_id page") auto
    next
      case False
      then have "st1 = st'" using Cons.prems(2) Inr b by (auto split: sum.splits bool.splits)
      with P1 show ?thesis by simp
    qed
  qed (use Cons.prems in simp)
qed simp

text \<open>The names after a cursor, in lexical order.\<close>

definition names_after :: "string option \<Rightarrow> string set \<Rightarrow> string list" where
  "names_after after N =
     sorted_list_of_set {k \<in> N. case after of None \<Rightarrow> True | Some cursor \<Rightarrow> cursor < k}"

locale event_streams = event_history ops inv history
  for ops :: "('e, 's) event_store_ops" and inv history +
  fixes names :: "'s \<Rightarrow> string set"
  assumes names_finite: "inv s \<Longrightarrow> finite (names s)"
    and names_law: "inv s \<Longrightarrow> 0 < n \<Longrightarrow> n \<le> max_event_store_page_size \<Longrightarrow>
      ev_stream_ids_page ops s after n =
        Inr \<lparr>si_ids = take n (names_after after (names s)),
             si_next_stream_id = (if n < length (names_after after (names s))
               then Some (last (take n (names_after after (names s)))) else None)\<rparr>"

lemma sorted_le_last:
  assumes "sorted xs" "x \<in> set xs"
  shows "x \<le> last xs"
proof -
  obtain i where "i < length xs" "x = xs ! i" using assms(2) by (auto simp: in_set_conv_nth)
  then show ?thesis
    using sorted_nth_mono [OF assms(1), of i "length xs - 1"] by (cases xs) (auto simp: last_conv_nth)
qed

lemma names_after_drop:
  assumes "finite N" "n < length (names_after after N)" "0 < n"
  shows "names_after (Some (last (take n (names_after after N)))) N = drop n (names_after after N)"
proof -
  let ?xs = "names_after after N"
  have sorted: "sorted_wrt (<) ?xs" and set: "set ?xs = {k \<in> N. case after of None \<Rightarrow> True | Some cursor \<Rightarrow> cursor < k}"
    using assms(1) by (simp_all add: names_after_def)
  define l where "l = last (take n ?xs)"
  have ne: "take n ?xs \<noteq> []" using assms(2,3) by (simp add: take_eq_Nil) (metis less_nat_zero_code list.size(3))
  then have l_in: "l \<in> set (take n ?xs)" unfolding l_def by (rule last_in_set)
  have low: "x \<le> l" if "x \<in> set (take n ?xs)" for x
    unfolding l_def by (rule sorted_le_last) (use sorted that strict_sorted_imp_sorted sorted_wrt_take in blast)+
  have high: "l < x" if "x \<in> set (drop n ?xs)" for x
    using sorted l_in that by (metis append_take_drop_id sorted_wrt_append)
  have "{k \<in> N. l < k} = set (drop n ?xs)"
  proof (intro set_eqI iffI)
    fix x assume "x \<in> {k \<in> N. l < k}"
    moreover have "case after of None \<Rightarrow> True | Some cursor \<Rightarrow> cursor < l"
      using in_set_takeD [OF l_in] set by simp
    ultimately have "x \<in> set ?xs" unfolding set by (auto split: option.splits)
    with low [of x] \<open>x \<in> {k \<in> N. l < k}\<close> show "x \<in> set (drop n ?xs)"
      by (metis append_take_drop_id Un_iff leD mem_Collect_eq set_append)
  next
    fix x assume x: "x \<in> set (drop n ?xs)"
    then show "x \<in> {k \<in> N. l < k}" using high [OF x] in_set_dropD [OF x] set by simp
  qed
  moreover have "sorted_wrt (<) (drop n ?xs)" using sorted by (rule sorted_wrt_drop)
  ultimately show ?thesis
    unfolding l_def [symmetric] names_after_def [of "Some l"]
    by (simp add: sorted_list_of_set.idem_if_sorted_distinct strict_sorted_iff sorted_list_of_set_sort_remdups
        distinct_remdups_id sorted_sort_id)
qed

context event_streams
begin

lemma stream_loop_all:
  assumes "\<forall>s \<in> set obs. inv s \<and> names s = N" "0 < n" "n \<le> max_event_store_page_size" "obs \<noteq> []"
    "length (names_after after N) \<le> n * length obs"
  shows "stream_loop (\<lambda>s after. ev_stream_ids_page ops s after n) body obs after st = run_ids body (names_after after N) st"
  using assms(1,4,5)
proof (induction obs arbitrary: after st)
  case (Cons s obs)
  let ?xs = "names_after after N"
  have s: "inv s" "names s = N" using Cons.prems(1) by simp_all
  note page = names_law [OF s(1) assms(2,3), of after, unfolded s(2)]
  show ?case
  proof (cases "n < length ?xs")
    case False
    then show ?thesis using page by (simp split: option.splits prod.splits sum.splits bool.splits)
  next
    case True
    then have obs: "obs \<noteq> []" using Cons.prems(3) by (cases obs) auto
    have drop: "names_after (Some (last (take n ?xs))) N = drop n ?xs"
      using names_after_drop [OF _ True assms(2)] names_finite [OF s(1)] s(2) by simp
    have "stream_loop (\<lambda>s after. ev_stream_ids_page ops s after n) body obs (Some (last (take n ?xs))) st' =
        run_ids body (drop n ?xs) st'" for st'
      using Cons.IH [of "Some (last (take n ?xs))" st'] Cons.prems obs unfolding drop by simp
    then show ?thesis
      using True page run_ids_append [of body "take n ?xs" "drop n ?xs" st]
      by (simp split: option.splits prod.splits sum.splits bool.splits)
  qed
qed simp

end

section \<open>The in-memory store\<close>

definition ahead :: "string option \<Rightarrow> string \<Rightarrow> bool" where
  "ahead after ident \<longleftrightarrow> \<not> (case after of None \<Rightarrow> False | Some cursor \<Rightarrow> ident \<le> cursor)"

lemma stream_ids_loop_keeps:
  assumes "length ids \<le> n"
  shows "stream_ids_loop after n xs (ids, b) =
    (keep_smallest n (filter (ahead after) xs) ids, b \<or> n < length ids + length (filter (ahead after) xs))"
  using assms(1)
proof (induction xs arbitrary: ids b)
  case (Cons x xs)
  show ?case
  proof (cases "ahead after x")
    case True
    have "length (heap_offer n x ids) \<le> n"
      using Cons.prems by (auto simp: heap_offer_def heap_push_def heap_pop_def heap_peek_def)
    moreover have "length (heap_offer n x ids) = (if length ids < n then Suc (length ids) else length ids)"
      by (auto simp: heap_offer_def heap_push_def heap_pop_def heap_peek_def)
    ultimately show ?thesis
      using True Cons.IH [of "heap_offer n x ids" "b \<or> \<not> length ids < n"] Cons.prems
      by (auto simp: heap_offer_def ahead_def)
  next
    case False
    then show ?thesis using Cons by (simp add: ahead_def)
  qed
qed simp

definition es_iter_inv :: "(memory_event_store \<Rightarrow> string list) \<Rightarrow> memory_event_store \<Rightarrow> bool" where
  "es_iter_inv iter s \<longleftrightarrow> es_inv s \<and> iterates (iter s) s"

lemma sort_filter_names:
  assumes "iterates ks s"
  shows "sort (filter (ahead after) ks) = names_after after (dom s)"
proof -
  let ?f = "filter (ahead after) ks"
  have "sort ?f = sorted_list_of_set (set ?f)"
    using assms unfolding sorted_list_of_set_sort_remdups by (simp add: iterates_def distinct_remdups_id)
  also have "set ?f = {k \<in> dom s. case after of None \<Rightarrow> True | Some cursor \<Rightarrow> cursor < k}"
    using assms by (auto simp: iterates_def ahead_def not_le split: option.splits)
  finally show ?thesis by (simp add: names_after_def)
qed

lemma stream_ids_page_exact:
  assumes "iterates ks s" "0 < n" "n \<le> max_event_store_page_size"
  shows "stream_ids_page ks after n =
    Inr \<lparr>si_ids = take n (names_after after (dom s)),
         si_next_stream_id = (if n < length (names_after after (dom s))
           then Some (last (take n (names_after after (dom s)))) else None)\<rparr>"
proof -
  let ?f = "filter (ahead after) ks"
  have f: "sort ?f = names_after after (dom s)" by (rule sort_filter_names [OF assms(1)])
  then have len: "length ?f = length (names_after after (dom s))" by (metis length_sort)
  have "sort (take n (names_after after (dom s))) = take n (names_after after (dom s))"
    unfolding f [symmetric] by (simp add: sorted_sort_id sorted_wrt_take)
  then show ?thesis
    using assms(2,3) stream_ids_loop_keeps [of "[]" n after ks False]
    by (auto simp: stream_ids_page_def valid_page_size keep_smallest_take f len)
qed

interpretation mst: event_streams "memory_event_ops iter" "es_iter_inv iter" stream_events dom for iter
proof (unfold_locales, goal_cases)
  case (6 s n after)
  then show ?case by (simp add: es_iter_inv_def memory_event_ops_def stream_ids_page_exact)
qed (simp_all add: es_iter_inv_def memory_event_ops_def stream_events_numbered read_page_law
    read_to_version_page_law read_to_time_page_law Let_def es_inv_def)

end
