(* ===== verification/Projections.thy ===== *)
theory Projections
  imports Event_Following
begin

text \<open>
  Projections (\<open>crates/catga-core/src/projection.rs\<close>, \<open>memory/projection.rs\<close>): a runner applies the events
  of every stream to a read model and checkpoints its progress after each event. The projection is user
  code behind a trait and changes a read model of its own; \<open>clock\<close> gives the instants at which the
  checkpoints are stamped.
\<close>

section \<open>Checkpoints\<close>

record projection_checkpoint =
  pc_projection_name :: string
  pc_stream_id :: string
  pc_version :: int
  pc_updated_at :: systime

definition checkpoint_new :: "string \<Rightarrow> string \<Rightarrow> int \<Rightarrow> systime \<Rightarrow> projection_checkpoint" where
  "checkpoint_new projection_name stream_id version now =
     \<lparr>pc_projection_name = projection_name, pc_stream_id = stream_id, pc_version = version, pc_updated_at = now\<rparr>"

record 'c checkpoint_ops =
  ck_save :: "projection_checkpoint \<Rightarrow> 'c \<Rightarrow> 'c \<times> unit catga_result"
  ck_load :: "'c \<Rightarrow> string \<Rightarrow> string \<Rightarrow> projection_checkpoint option catga_result"
  ck_delete :: "string \<Rightarrow> string \<Rightarrow> 'c \<Rightarrow> 'c \<times> unit catga_result"
  ck_delete_all :: "string \<Rightarrow> 'c \<Rightarrow> 'c \<times> unit catga_result"

type_synonym memory_checkpoints = "string \<rightharpoonup> (string \<rightharpoonup> projection_checkpoint)"

definition checkpoints_save :: "projection_checkpoint \<Rightarrow> memory_checkpoints \<Rightarrow> memory_checkpoints \<times> unit catga_result" where
  "checkpoints_save checkpoint c =
     (let streams = (case c (pc_projection_name checkpoint) of None \<Rightarrow> Map.empty | Some m \<Rightarrow> m)
      in (c(pc_projection_name checkpoint \<mapsto> streams(pc_stream_id checkpoint \<mapsto> checkpoint)), Inr ()))"

definition checkpoints_load ::
  "memory_checkpoints \<Rightarrow> string \<Rightarrow> string \<Rightarrow> projection_checkpoint option catga_result" where
  "checkpoints_load c projection_name stream_id =
     Inr (case c projection_name of None \<Rightarrow> None | Some streams \<Rightarrow> streams stream_id)"

definition checkpoints_delete :: "string \<Rightarrow> string \<Rightarrow> memory_checkpoints \<Rightarrow> memory_checkpoints \<times> unit catga_result" where
  "checkpoints_delete projection_name stream_id c =
     (case c projection_name of
        None \<Rightarrow> (c, Inr ())
      | Some streams \<Rightarrow> (c(projection_name \<mapsto> streams(stream_id := None)), Inr ()))"

definition checkpoints_delete_all :: "string \<Rightarrow> memory_checkpoints \<Rightarrow> memory_checkpoints \<times> unit catga_result" where
  "checkpoints_delete_all projection_name c = (c(projection_name := None), Inr ())"

definition memory_checkpoint_ops :: "memory_checkpoints checkpoint_ops" where
  "memory_checkpoint_ops =
     \<lparr>ck_save = checkpoints_save, ck_load = checkpoints_load, ck_delete = checkpoints_delete,
      ck_delete_all = checkpoints_delete_all\<rparr>"

section \<open>The runner\<close>

definition default_projection_batch_size :: nat where
  "default_projection_batch_size = 256"

record 'm projection =
  pj_name :: string
  pj_apply :: "stored_event \<Rightarrow> 'm \<Rightarrow> 'm \<times> unit catga_result"
  pj_reset :: "'m \<Rightarrow> 'm \<times> unit catga_result"

record projection_run =
  pn_applied :: nat
  pn_streams :: nat

text \<open>The live handler forwards an event without any checkpoint.\<close>

definition live_handle :: "'m projection \<Rightarrow> stored_event \<Rightarrow> 'm \<Rightarrow> 'm \<times> unit catga_result" where
  "live_handle pj event m = pj_apply pj event m"

definition next_version_after :: "int \<Rightarrow> u64 catga_result" where
  "next_version_after version =
     bind_r (ok_or (error_new Validation ''projection checkpoint version cannot advance beyond i64::MAX'')
       (i64_checked_add version 1)) (\<lambda>next.
       ok_or (error_new Validation ''projection checkpoint version cannot be negative'') (u64_of_i64 next))"

definition runner_batch_size :: "nat \<Rightarrow> nat" where
  "runner_batch_size batch_size = min batch_size max_event_store_page_size"

text \<open>One event: apply it, save the checkpoint, advance the cursor and count.\<close>

definition project_event ::
  "'m projection \<Rightarrow> 'c checkpoint_ops \<Rightarrow> (stored_event \<Rightarrow> systime) \<Rightarrow> string \<Rightarrow> stored_event
   \<Rightarrow> 'm \<times> 'c \<times> projection_run \<Rightarrow> ('m \<times> 'c \<times> projection_run) \<times> u64 option catga_result" where
  "project_event pj ck clock stream_id event st =
     (case st of (m, c, run) \<Rightarrow>
      case pj_apply pj event m of
        (m', Inl e) \<Rightarrow> ((m', c, run), Inl e)
      | (m', Inr _) \<Rightarrow>
          (case ck_save ck (checkpoint_new (pj_name pj) stream_id (se_version event) (clock event)) c of
             (c', Inl e) \<Rightarrow> ((m', c', run), Inl e)
           | (c', Inr _) \<Rightarrow>
               (case next_version_after (se_version event) of
                  Inl e \<Rightarrow> ((m', c', run), Inl e)
                | Inr next \<Rightarrow> ((m', c', run\<lparr>pn_applied := pn_applied run + 1\<rparr>), Inr (Some next)))))"

definition project_stream ::
  "'m projection \<Rightarrow> 'c checkpoint_ops \<Rightarrow> ('e, 's) event_store_ops \<Rightarrow> nat \<Rightarrow> (stored_event \<Rightarrow> systime) \<Rightarrow> string \<Rightarrow> 's list
   \<Rightarrow> 'm \<times> 'c \<times> projection_run \<Rightarrow> (('m \<times> 'c \<times> projection_run) \<times> unit catga_result) option" where
  "project_stream pj ck es batch_size clock stream_id obs st =
     (case ck_load ck (fst (snd st)) (pj_name pj) stream_id of
        Inl e \<Rightarrow> Some (st, Inl e)
      | Inr checkpoint \<Rightarrow>
          (case (case checkpoint of None \<Rightarrow> Inr 0 | Some x \<Rightarrow> next_version_after (pc_version x)) of
             Inl e \<Rightarrow> Some (st, Inl e)
           | Inr next_version \<Rightarrow>
               catch_up (\<lambda>s c. ev_read_page es s stream_id c batch_size)
                 (project_event pj ck clock stream_id) obs next_version st))"

definition projection_body ::
  "'m projection \<Rightarrow> 'c checkpoint_ops \<Rightarrow> ('e, 's) event_store_ops \<Rightarrow> nat \<Rightarrow> (stored_event \<Rightarrow> systime) \<Rightarrow> (string \<Rightarrow> 's list)
   \<Rightarrow> string \<Rightarrow> 'm \<times> 'c \<times> projection_run \<Rightarrow> (('m \<times> 'c \<times> projection_run) \<times> bool catga_result) option" where
  "projection_body pj ck es batch_size clock page_obs stream_id st =
     (case st of (m, c, run) \<Rightarrow>
      map_option (\<lambda>(st', r). (st', bind_r r (\<lambda>_. Inr False)))
        (project_stream pj ck es batch_size clock stream_id (page_obs stream_id)
          (m, c, run\<lparr>pn_streams := pn_streams run + 1\<rparr>)))"

text \<open>\<open>ids_obs\<close> are the stores the reads of stream names observe, \<open>page_obs k\<close> those the page reads of \<open>k\<close> observe.\<close>

definition projection_run_all ::
  "'m projection \<Rightarrow> 'c checkpoint_ops \<Rightarrow> ('e, 's) event_store_ops \<Rightarrow> nat \<Rightarrow> (stored_event \<Rightarrow> systime) \<Rightarrow> 's list \<Rightarrow> (string \<Rightarrow> 's list)
   \<Rightarrow> 'm \<times> 'c \<Rightarrow> (('m \<times> 'c) \<times> projection_run catga_result) option" where
  "projection_run_all pj ck es batch_size clock ids_obs page_obs mc =
     map_option (\<lambda>((m, c, run), r). ((m, c), bind_r r (\<lambda>_. Inr run)))
       (stream_loop (\<lambda>s after. ev_stream_ids_page es s after max_event_store_page_size)
          (projection_body pj ck es batch_size clock page_obs) ids_obs None
          (fst mc, snd mc, \<lparr>pn_applied = 0, pn_streams = 0\<rparr>))"

definition projection_rebuild ::
  "'m projection \<Rightarrow> 'c checkpoint_ops \<Rightarrow> ('e, 's) event_store_ops \<Rightarrow> nat \<Rightarrow> (stored_event \<Rightarrow> systime) \<Rightarrow> 's list \<Rightarrow> (string \<Rightarrow> 's list)
   \<Rightarrow> 'm \<times> 'c \<Rightarrow> (('m \<times> 'c) \<times> projection_run catga_result) option" where
  "projection_rebuild pj ck es batch_size clock ids_obs page_obs mc =
     (case pj_reset pj (fst mc) of
        (m, Inl e) \<Rightarrow> Some ((m, snd mc), Inl e)
      | (m, Inr _) \<Rightarrow>
          (case ck_delete_all ck (pj_name pj) (snd mc) of
             (c, Inl e) \<Rightarrow> Some ((m, c), Inl e)
           | (c, Inr _) \<Rightarrow> projection_run_all pj ck es batch_size clock ids_obs page_obs (m, c)))"

section \<open>One stream: in order, once, and resumable\<close>

text \<open>The number of events of a stream that the checkpoint covers.\<close>

definition checkpointed :: "memory_checkpoints \<Rightarrow> string \<Rightarrow> string \<Rightarrow> nat" where
  "checkpointed c name k =
     (case c name of None \<Rightarrow> 0 | Some streams \<Rightarrow> (case streams k of None \<Rightarrow> 0 | Some x \<Rightarrow> nat (pc_version x + 1)))"

definition checkpoints_inv :: "memory_checkpoints \<Rightarrow> string \<Rightarrow> bool" where
  "checkpoints_inv c name \<longleftrightarrow> (\<forall>streams k x. c name = Some streams \<longrightarrow> streams k = Some x \<longrightarrow> 0 \<le> pc_version x)"

lemma next_version_after_nat: "n < 2 ^ 63 - 1 \<Longrightarrow> next_version_after (int n) = Inr (word_of_nat (Suc n))"
  using u64_of_i64_nat [of "Suc n"] by (simp add: next_version_after_def i64_defs add.commute)

lemma steps_on_project: "steps_on (project_event pj ck clock k)"
  by (auto simp: steps_on_def project_event_def next_version_after_def u64_of_i64_def result_iffs i64_defs
      split: prod.splits sum.splits if_splits)

lemma checkpointed_save:
  "fst (checkpoints_save (checkpoint_new name k v t) c) = c' \<Longrightarrow>
   checkpointed c' name k = nat (v + 1) \<and> (\<forall>k'. k' \<noteq> k \<longrightarrow> checkpointed c' name k' = checkpointed c name k') \<and>
   (checkpoints_inv c name \<longrightarrow> 0 \<le> v \<longrightarrow> checkpoints_inv c' name)"
  by (auto simp: checkpoints_save_def checkpoint_new_def checkpointed_def checkpoints_inv_def Let_def split: option.splits if_splits)

lemma visit_all_project:
  assumes "\<forall>i < length evs. se_version (evs ! i) = int (c + i)" "c + length evs < 2 ^ 63"
    "checkpoints_inv cks (pj_name pj)" "checkpointed cks (pj_name pj) k = c"
  shows "\<exists>j m' cks' r mj. visit_all (project_event pj memory_checkpoint_ops clock k) evs (m, cks, run) =
      ((m', cks', run\<lparr>pn_applied := pn_applied run + j\<rparr>), r) \<and>
    j \<le> length evs \<and> apply_all (pj_apply pj) (take j evs) m = Some mj \<and> checkpoints_inv cks' (pj_name pj) \<and>
    checkpointed cks' (pj_name pj) k = c + j \<and>
    (\<forall>k'. k' \<noteq> k \<longrightarrow> checkpointed cks' (pj_name pj) k' = checkpointed cks (pj_name pj) k') \<and>
    (case r of Inr _ \<Rightarrow> j = length evs \<and> m' = mj | Inl e \<Rightarrow> j < length evs \<and> pj_apply pj (evs ! j) mj = (m', Inl e))"
  using assms
proof (induction evs arbitrary: c m cks run)
  case Nil
  then show ?case by simp
next
  case (Cons e evs)
  have ver: "se_version e = int c" using Cons.prems(1) by (auto dest: spec [of _ 0])
  obtain m1 r1 where ap: "pj_apply pj e m = (m1, r1)" by fastforce
  show ?case
  proof (cases r1)
    case (Inl err)
    then show ?thesis using ap Cons.prems
      by (intro exI [of _ 0] exI [of _ m1] exI [of _ cks] exI [of _ "Inl err"] exI [of _ m]) (simp add: project_event_def)
  next
    case (Inr u)
    obtain cks1 where sv: "checkpoints_save (checkpoint_new (pj_name pj) k (int c) (clock e)) cks = (cks1, Inr ())"
      by (simp add: checkpoints_save_def)
    note C = checkpointed_save [of "pj_name pj" k "int c" "clock e" cks cks1, unfolded sv fst_conv, OF refl]
    let ?run = "run\<lparr>pn_applied := pn_applied run + 1\<rparr>"
    have step: "project_event pj memory_checkpoint_ops clock k e (m, cks, run) = ((m1, cks1, ?run), Inr (Some (word_of_nat (Suc c))))"
      using ap Inr sv ver next_version_after_nat [of c] Cons.prems(2)
      by (simp add: project_event_def memory_checkpoint_ops_def)
    have rest: "\<forall>i < length evs. se_version (evs ! i) = int (Suc c + i)"
    proof (intro allI impI)
      fix i assume "i < length evs"
      with Cons.prems(1) [rule_format, of "Suc i"] show "se_version (evs ! i) = int (Suc c + i)" by simp
    qed
    have c1: "checkpoints_inv cks1 (pj_name pj)" "checkpointed cks1 (pj_name pj) k = Suc c"
      using C Cons.prems(3) by (simp_all add: nat_add_distrib)
    have short: "Suc c + length evs < 2 ^ 63" using Cons.prems(2) by simp
    obtain j m' cks' r mj where IH: "visit_all (project_event pj memory_checkpoint_ops clock k) evs (m1, cks1, ?run) =
        ((m', cks', ?run\<lparr>pn_applied := pn_applied ?run + j\<rparr>), r)"
      "j \<le> length evs" "apply_all (pj_apply pj) (take j evs) m1 = Some mj" "checkpoints_inv cks' (pj_name pj)"
      "checkpointed cks' (pj_name pj) k = Suc c + j"
      "\<forall>k'. k' \<noteq> k \<longrightarrow> checkpointed cks' (pj_name pj) k' = checkpointed cks1 (pj_name pj) k'"
      "case r of Inr _ \<Rightarrow> j = length evs \<and> m' = mj | Inl e \<Rightarrow> j < length evs \<and> pj_apply pj (evs ! j) mj = (m', Inl e)"
      using Cons.IH [OF rest short c1, of m1 ?run] by blast
    show ?thesis
      using step IH C ap Inr
      by (intro exI [of _ "Suc j"] exI [of _ m'] exI [of _ cks'] exI [of _ r] exI [of _ mj]) (auto split: sum.splits)
  qed
qed

lemma start_cursor:
  assumes "checkpoints_inv cks name" "checkpointed cks name k < 2 ^ 63"
  shows "bind_r (checkpoints_load cks name k) (\<lambda>cp. case cp of None \<Rightarrow> Inr 0 | Some x \<Rightarrow> next_version_after (pc_version x)) =
    Inr (word_of_nat (checkpointed cks name k))"
proof (cases "\<exists>streams x. cks name = Some streams \<and> streams k = Some x")
  case True
  then obtain streams x where x: "cks name = Some streams" "streams k = Some x" by blast
  then have pos: "0 \<le> pc_version x" using assms(1) by (simp add: checkpoints_inv_def)
  then have "next_version_after (int (nat (pc_version x))) = Inr (word_of_nat (Suc (nat (pc_version x))))"
    using assms(2) x by (intro next_version_after_nat) (simp add: checkpointed_def)
  then show ?thesis using x pos by (simp add: checkpoints_load_def checkpointed_def nat_add_distrib)
qed (auto simp: checkpoints_load_def checkpointed_def split: option.splits)

lemma project_stream_single_pass:
  assumes "mes.observes k obs" "mes.enough k c n obs" "0 < n" "n \<le> max_event_store_page_size"
    "checkpoints_inv cks (pj_name pj)" "c = checkpointed cks (pj_name pj) k" "c < 2 ^ 63"
  shows "\<exists>s \<in> set obs. project_stream pj memory_checkpoint_ops (memory_event_ops iter) n clock k obs (m, cks, run) =
    Some (visit_all (project_event pj memory_checkpoint_ops clock k) (drop c (stream_events s k)) (m, cks, run))"
proof -
  obtain s where s: "s \<in> set obs" "catch_up (\<lambda>s from. ev_read_page (memory_event_ops iter) s k from n)
      (project_event pj memory_checkpoint_ops clock k) obs (word_of_nat c) (m, cks, run) =
    Some (visit_all (project_event pj memory_checkpoint_ops clock k) (drop c (stream_events s k)) (m, cks, run))"
    using mes.catch_up_single_pass [OF assms(1-4) _ steps_on_project] assms(7) by fastforce
  have "project_stream pj memory_checkpoint_ops (memory_event_ops iter) n clock k obs (m, cks, run) =
      catch_up (\<lambda>s from. ev_read_page (memory_event_ops iter) s k from n)
        (project_event pj memory_checkpoint_ops clock k) obs (word_of_nat c) (m, cks, run)"
    using start_cursor [OF assms(5), of k] assms(6,7)
    by (cases "checkpoints_load cks (pj_name pj) k") (simp_all add: project_stream_def memory_checkpoint_ops_def)
  with s show ?thesis by auto
qed

text \<open>
  Property C19: a projection sees every event of a stream once and in order, and resumes where it stopped.
  The runner starts after the checkpoint and applies events one after the other while other tasks
  append. If it returns without an error, it applied exactly the events after the checkpoint and
  the checkpoint covers the stream; if applying an event failed, exactly the events before it were
  applied, the checkpoint covers exactly those, and the next run starts with the failed event.
\<close>

theorem projection_resumes:
  assumes "\<forall>s \<in> set obs. es_inv s" "sorted_wrt (\<lambda>s s'. prefix (stream_events s k) (stream_events s' k)) obs" "obs \<noteq> []"
    "0 < n" "n \<le> max_event_store_page_size" "checkpoints_inv cks (pj_name pj)" "c = checkpointed cks (pj_name pj) k"
    "c \<le> length (stream_events (hd obs) k)" "length (stream_events (last obs) k) \<le> c + n * length obs"
  shows "\<exists>s \<in> set obs. \<exists>j m' cks' r mj.
    project_stream pj memory_checkpoint_ops (memory_event_ops iter) n clock k obs (m, cks, run) =
      Some ((m', cks', run\<lparr>pn_applied := pn_applied run + j\<rparr>), r) \<and>
    apply_all (pj_apply pj) (take j (drop c (stream_events s k))) m = Some mj \<and>
    checkpoints_inv cks' (pj_name pj) \<and> checkpointed cks' (pj_name pj) k = c + j \<and>
    (\<forall>k'. k' \<noteq> k \<longrightarrow> checkpointed cks' (pj_name pj) k' = checkpointed cks (pj_name pj) k') \<and>
    (case r of
       Inr _ \<Rightarrow> c + j = length (stream_events s k) \<and> m' = mj
     | Inl e \<Rightarrow> c + j < length (stream_events s k) \<and> pj_apply pj (stream_events s k ! (c + j)) mj = (m', Inl e))"
proof -
  have obs: "mes.observes k obs" "mes.enough k c n obs" using assms by (simp_all add: mes.observes_def mes.enough_def)
  have c: "c < 2 ^ 63" using mes.observed_short [OF obs(1), of "hd obs"] assms(3,8) by simp
  obtain s where s: "s \<in> set obs" "project_stream pj memory_checkpoint_ops (memory_event_ops iter) n clock k obs (m, cks, run) =
      Some (visit_all (project_event pj memory_checkpoint_ops clock k) (drop c (stream_events s k)) (m, cks, run))"
    using project_stream_single_pass [OF obs assms(4-7) c] by blast
  have pre: "prefix (stream_events (hd obs) k) (stream_events s k)"
    using assms(2,3) s(1) by (cases obs) auto
  then have le: "c \<le> length (stream_events s k)" using assms(8) prefix_length_le by fastforce
  let ?evs = "drop c (stream_events s k)"
  have num: "numbered (stream_events s k)" using assms(1) s(1) stream_events_numbered by blast
  then have ver: "\<forall>i < length ?evs. se_version (?evs ! i) = int (c + i)" by (simp add: numbered_def)
  have len: "c + length ?evs < 2 ^ 63" using num le by (simp add: numbered_def)
  obtain j m' cks' r mj where V: "visit_all (project_event pj memory_checkpoint_ops clock k) ?evs (m, cks, run) =
      ((m', cks', run\<lparr>pn_applied := pn_applied run + j\<rparr>), r)" "j \<le> length ?evs" "apply_all (pj_apply pj) (take j ?evs) m = Some mj"
    "checkpoints_inv cks' (pj_name pj)" "checkpointed cks' (pj_name pj) k = c + j"
    "\<forall>k'. k' \<noteq> k \<longrightarrow> checkpointed cks' (pj_name pj) k' = checkpointed cks (pj_name pj) k'"
    "case r of Inr _ \<Rightarrow> j = length ?evs \<and> m' = mj | Inl e \<Rightarrow> j < length ?evs \<and> pj_apply pj (?evs ! j) mj = (m', Inl e)"
    using visit_all_project [OF ver len assms(6) assms(7) [symmetric]] by blast
  have "case r of Inr _ \<Rightarrow> c + j = length (stream_events s k) \<and> m' = mj
     | Inl e \<Rightarrow> c + j < length (stream_events s k) \<and> pj_apply pj (stream_events s k ! (c + j)) mj = (m', Inl e)"
    using V(7) le by (auto split: sum.splits)
  then show ?thesis using s V(1-6) by (intro bexI [of _ s] exI conjI) (auto)
qed

section \<open>Rebuilding a read model\<close>

lemma apply_all_total:
  assumes "\<And>e m. pj_apply pj e m = (g e m, Inr ())"
  shows "apply_all (pj_apply pj) evs m = Some (fold g evs m)"
  using assms by (induction evs arbitrary: m) auto

lemma constant_observations:
  assumes "obs \<noteq> []" "set obs = {s}" "es_inv s" "length (stream_events s k) \<le> c + n * length obs"
  shows "mes.observes k obs" "mes.enough k c n obs"
proof -
  have "last obs = s" using assms(1,2) last_in_set by fastforce
  moreover have "sorted_wrt R obs" if "R s s" for R
    using assms(2) that by (induction obs) (auto simp: subset_singleton_iff)
  ultimately show "mes.observes k obs" "mes.enough k c n obs"
    using assms by (auto simp: mes.observes_def mes.enough_def)
qed

lemma body_total:
  assumes "\<And>e m. pj_apply pj e m = (g e m, Inr ())" "es_inv s" "0 < n" "n \<le> max_event_store_page_size"
    "page_obs k \<noteq> []" "set (page_obs k) = {s}" "length (stream_events s k) \<le> n * length (page_obs k)"
    "checkpoints_inv cks (pj_name pj)" "checkpointed cks (pj_name pj) k = 0"
  shows "\<exists>cks'. projection_body pj memory_checkpoint_ops (memory_event_ops iter) n clock page_obs k (m, cks, run) =
      Some ((fold g (stream_events s k) m, cks', \<lparr>pn_applied = pn_applied run + length (stream_events s k),
        pn_streams = pn_streams run + 1\<rparr>), Inr False) \<and>
    checkpoints_inv cks' (pj_name pj) \<and> checkpointed cks' (pj_name pj) k = length (stream_events s k) \<and>
    (\<forall>k'. k' \<noteq> k \<longrightarrow> checkpointed cks' (pj_name pj) k' = checkpointed cks (pj_name pj) k')"
proof -
  let ?run = "run\<lparr>pn_streams := pn_streams run + 1\<rparr>"
  have c0: "0 = checkpointed cks (pj_name pj) k" using assms(9) by simp
  have obs: "mes.observes k (page_obs k)" "mes.enough k 0 n (page_obs k)"
    using constant_observations [OF assms(5,6,2), of k 0 n] assms(7) by simp_all
  have ps: "project_stream pj memory_checkpoint_ops (memory_event_ops iter) n clock k (page_obs k) (m, cks, ?run) =
      Some (visit_all (project_event pj memory_checkpoint_ops clock k) (stream_events s k) (m, cks, ?run))"
    using project_stream_single_pass [OF obs assms(3,4,8) c0, of iter clock m ?run] assms(6) by simp
  have num: "numbered (stream_events s k)" using assms(2) by (rule stream_events_numbered)
  then obtain j m' cks' r mj where V: "visit_all (project_event pj memory_checkpoint_ops clock k) (stream_events s k) (m, cks, ?run) =
      ((m', cks', ?run\<lparr>pn_applied := pn_applied ?run + j\<rparr>), r)" "apply_all (pj_apply pj) (take j (stream_events s k)) m = Some mj"
    "checkpoints_inv cks' (pj_name pj)" "checkpointed cks' (pj_name pj) k = 0 + j"
    "\<forall>k'. k' \<noteq> k \<longrightarrow> checkpointed cks' (pj_name pj) k' = checkpointed cks (pj_name pj) k'"
    "case r of Inr _ \<Rightarrow> j = length (stream_events s k) \<and> m' = mj
     | Inl e \<Rightarrow> j < length (stream_events s k) \<and> pj_apply pj (stream_events s k ! j) mj = (m', Inl e)"
    using visit_all_project [of "stream_events s k" 0 cks pj k clock m ?run] assms(8,9) by (auto simp: numbered_def)
  have "r = Inr ()" "j = length (stream_events s k)" "m' = fold g (stream_events s k) m"
    using V(2,6) assms(1) apply_all_total [of pj g, OF assms(1)] by (auto split: sum.splits)
  then show ?thesis using ps V by (intro exI [of _ cks']) (cases run, simp add: projection_body_def)
qed

lemma run_ids_total:
  assumes "\<And>e m. pj_apply pj e m = (g e m, Inr ())" "es_inv s" "0 < n" "n \<le> max_event_store_page_size"
    "\<And>k. page_obs k \<noteq> [] \<and> set (page_obs k) = {s} \<and> length (stream_events s k) \<le> n * length (page_obs k)"
    "checkpoints_inv cks (pj_name pj)" "\<forall>k \<in> set ks. checkpointed cks (pj_name pj) k = 0" "distinct ks"
  shows "\<exists>cks'. run_ids (projection_body pj memory_checkpoint_ops (memory_event_ops iter) n clock page_obs) ks (m, cks, run) =
      Some ((fold g (concat (map (stream_events s) ks)) m, cks',
        \<lparr>pn_applied = pn_applied run + length (concat (map (stream_events s) ks)), pn_streams = pn_streams run + length ks\<rparr>), Inr False) \<and>
    checkpoints_inv cks' (pj_name pj) \<and> (\<forall>k \<in> set ks. checkpointed cks' (pj_name pj) k = length (stream_events s k)) \<and>
    (\<forall>k. k \<notin> set ks \<longrightarrow> checkpointed cks' (pj_name pj) k = checkpointed cks (pj_name pj) k)"
  using assms(6-8)
proof (induction ks arbitrary: m cks run)
  case Nil
  then show ?case by (cases run) auto
next
  case (Cons k ks)
  obtain cks1 where B: "projection_body pj memory_checkpoint_ops (memory_event_ops iter) n clock page_obs k (m, cks, run) =
      Some ((fold g (stream_events s k) m, cks1, \<lparr>pn_applied = pn_applied run + length (stream_events s k),
        pn_streams = pn_streams run + 1\<rparr>), Inr False)"
    "checkpoints_inv cks1 (pj_name pj)" "checkpointed cks1 (pj_name pj) k = length (stream_events s k)"
    "\<forall>k'. k' \<noteq> k \<longrightarrow> checkpointed cks1 (pj_name pj) k' = checkpointed cks (pj_name pj) k'"
    using body_total [OF assms(1-4), where page_obs = page_obs and k = k and cks = cks and m = m and run = run] assms(5) Cons.prems(1,2)
    by (metis list.set_intros(1))
  have "\<forall>k' \<in> set ks. checkpointed cks1 (pj_name pj) k' = 0" using Cons.prems(2,3) B(4) by auto
  then obtain cks' where I: "run_ids (projection_body pj memory_checkpoint_ops (memory_event_ops iter) n clock page_obs) ks
      (fold g (stream_events s k) m, cks1, \<lparr>pn_applied = pn_applied run + length (stream_events s k), pn_streams = pn_streams run + 1\<rparr>) =
      Some ((fold g (concat (map (stream_events s) ks)) (fold g (stream_events s k) m), cks',
        \<lparr>pn_applied = pn_applied run + length (stream_events s k) + length (concat (map (stream_events s) ks)),
         pn_streams = pn_streams run + 1 + length ks\<rparr>), Inr False)"
    "checkpoints_inv cks' (pj_name pj)" "\<forall>k \<in> set ks. checkpointed cks' (pj_name pj) k = length (stream_events s k)"
    "\<forall>k. k \<notin> set ks \<longrightarrow> checkpointed cks' (pj_name pj) k = checkpointed cks1 (pj_name pj) k"
    using Cons.IH [OF B(2), of "fold g (stream_events s k) m" "\<lparr>pn_applied = pn_applied run + length (stream_events s k), pn_streams = pn_streams run + 1\<rparr>"] Cons.prems(3)
    by auto
  show ?case
    using B I Cons.prems(3) by (intro exI [of _ cks']) (auto simp: algebra_simps)
qed

text \<open>
  Property C20: rebuilding a read model applies everything once. Whatever checkpoints were left, and
  whatever the read model held, a rebuild over a store ends after enough reads, gives the reset model with
  every event of every stream applied once, stream by stream in lexical order, and counts them; the
  checkpoints then cover every stream.
\<close>

theorem projection_rebuild_complete:
  assumes "es_inv s" "iterates (iter s) s" "0 < n" "n \<le> max_event_store_page_size"
    "ids_obs \<noteq> []" "set ids_obs = {s}" "card (dom s) \<le> max_event_store_page_size * length ids_obs"
    "\<forall>k. page_obs k \<noteq> [] \<and> set (page_obs k) = {s} \<and> length (stream_events s k) \<le> n * length (page_obs k)"
    "\<forall>e m. pj_apply pj e m = (g e m, Inr ())" "pj_reset pj m = (m0, Inr ())"
  shows "\<exists>cks'. projection_rebuild pj memory_checkpoint_ops (memory_event_ops iter) n clock ids_obs page_obs (m, cks) =
      Some ((fold g (concat (map (stream_events s) (sorted_list_of_set (dom s)))) m0, cks'),
        Inr \<lparr>pn_applied = length (concat (map (stream_events s) (sorted_list_of_set (dom s)))), pn_streams = card (dom s)\<rparr>) \<and>
    (\<forall>k \<in> dom s. checkpointed cks' (pj_name pj) k = length (stream_events s k))"
proof -
  let ?ks = "sorted_list_of_set (dom s)" and ?c0 = "cks(pj_name pj := None)"
  let ?body = "projection_body pj memory_checkpoint_ops (memory_event_ops iter) n clock page_obs"
  have fin: "finite (dom s)" using assms(1) by (simp add: es_inv_def)
  have names: "names_after None (dom s) = ?ks" by (simp add: names_after_def)
  have "\<forall>t \<in> set ids_obs. es_iter_inv iter t \<and> dom t = dom s" using assms(1,2,6) by (simp add: es_iter_inv_def)
  then have loop: "stream_loop (\<lambda>s after. ev_stream_ids_page (memory_event_ops iter) s after max_event_store_page_size) ?body ids_obs None st = run_ids ?body ?ks st" for st
    using mst.stream_loop_all [of ids_obs iter "dom s" max_event_store_page_size None ?body st] assms(5,7) fin
    unfolding names by (simp add: max_event_store_page_size_def)
  have "checkpoints_inv ?c0 (pj_name pj)" "\<forall>k \<in> set ?ks. checkpointed ?c0 (pj_name pj) k = 0"
    by (simp_all add: checkpoints_inv_def checkpointed_def)
  then obtain cks' where R: "run_ids ?body ?ks (m0, ?c0, \<lparr>pn_applied = 0, pn_streams = 0\<rparr>) =
      Some ((fold g (concat (map (stream_events s) ?ks)) m0, cks',
        \<lparr>pn_applied = 0 + length (concat (map (stream_events s) ?ks)), pn_streams = 0 + length ?ks\<rparr>), Inr False)"
    "\<forall>k \<in> set ?ks. checkpointed cks' (pj_name pj) k = length (stream_events s k)"
    using run_ids_total [of pj g s n page_obs ?c0 ?ks iter clock m0 "\<lparr>pn_applied = 0, pn_streams = 0\<rparr>"] assms
    by (auto simp: distinct_sorted_list_of_set)
  moreover have del: "ck_delete_all memory_checkpoint_ops (pj_name pj) cks = (?c0, Inr ())"
    by (simp add: memory_checkpoint_ops_def checkpoints_delete_all_def)
  ultimately show ?thesis
    using assms(10) fin by (intro exI [of _ cks'])
      (simp add: projection_rebuild_def projection_run_all_def del loop)
qed

section \<open>A log of events\<close>

definition log_projection :: "stored_event list projection" where
  "log_projection = \<lparr>pj_name = ''log'', pj_apply = (\<lambda>e m. (m @ [e], Inr ())), pj_reset = (\<lambda>_. ([], Inr ()))\<rparr>"

definition log_event :: stored_event where
  "log_event = \<lparr>se_version = 0, se_envelope = demo_envelope, se_timestamp = 5\<rparr>"

definition log_store :: memory_event_store where
  "log_store = [''a'' \<mapsto> [log_event]]"

lemma log_store_inv: "es_inv log_store"
  by (simp add: es_inv_def log_store_def log_event_def numbered_def)

lemma log_store_events: "stream_events log_store k = (if k = ''a'' then [log_event] else [])"
  by (simp add: stream_events_def log_store_def)

theorem projection_resumes_witness:
  "\<exists>m' cks' run'. project_stream log_projection memory_checkpoint_ops (memory_event_ops (\<lambda>_. [''a''])) 1 se_timestamp ''a''
     [log_store] ([], Map.empty, \<lparr>pn_applied = 0, pn_streams = 0\<rparr>) = Some ((m', cks', run'), Inr ()) \<and>
   checkpointed cks' ''log'' ''a'' = 1"
proof -
  have "checkpoints_inv Map.empty (pj_name log_projection)" "0 = checkpointed Map.empty (pj_name log_projection) ''a''"
    by (simp_all add: checkpoints_inv_def checkpointed_def)
  moreover have "\<forall>s \<in> set [log_store]. es_inv s" "1 \<le> max_event_store_page_size"
    by (simp_all add: log_store_inv max_event_store_page_size_def)
  ultimately have "\<exists>s \<in> set [log_store]. \<exists>j m' cks' r mj.
    project_stream log_projection memory_checkpoint_ops (memory_event_ops (\<lambda>_. [''a''])) 1 se_timestamp ''a'' [log_store]
      ([], Map.empty, \<lparr>pn_applied = 0, pn_streams = 0\<rparr>) =
      Some ((m', cks', \<lparr>pn_applied = 0, pn_streams = 0\<rparr>\<lparr>pn_applied := pn_applied \<lparr>pn_applied = 0, pn_streams = 0\<rparr> + j\<rparr>), r) \<and>
    apply_all (pj_apply log_projection) (take j (drop 0 (stream_events s ''a''))) [] = Some mj \<and>
    checkpoints_inv cks' (pj_name log_projection) \<and> checkpointed cks' (pj_name log_projection) ''a'' = 0 + j \<and>
    (\<forall>k'. k' \<noteq> ''a'' \<longrightarrow> checkpointed cks' (pj_name log_projection) k' = checkpointed Map.empty (pj_name log_projection) k') \<and>
    (case r of
       Inr _ \<Rightarrow> 0 + j = length (stream_events s ''a'') \<and> m' = mj
     | Inl e \<Rightarrow> 0 + j < length (stream_events s ''a'') \<and> pj_apply log_projection (stream_events s ''a'' ! (0 + j)) mj = (m', Inl e))"
    by (intro projection_resumes) (simp_all add: log_store_events)
  then show ?thesis
  proof (elim bexE exE conjE, goal_cases)
    case (1 s j m' cks' r mj)
    then show ?case by (cases r) (auto simp: log_store_events log_projection_def)
  qed
qed

theorem projection_rebuild_complete_witness:
  "\<exists>cks'. projection_rebuild log_projection memory_checkpoint_ops (memory_event_ops (\<lambda>_. [''a''])) 1 se_timestamp
     [log_store] (\<lambda>_. [log_store]) ([log_event, log_event], Map.empty) =
       Some (([log_event], cks'), Inr \<lparr>pn_applied = 1, pn_streams = 1\<rparr>)"
proof -
  have names: "iterates [''a''] log_store" "dom log_store = {''a''}" by (simp_all add: iterates_def log_store_def)
  have "\<exists>cks'. projection_rebuild log_projection memory_checkpoint_ops (memory_event_ops (\<lambda>_. [''a''])) 1 se_timestamp
      [log_store] (\<lambda>_. [log_store]) ([log_event, log_event], Map.empty) =
    Some ((fold (\<lambda>e m. m @ [e]) (concat (map (stream_events log_store) (sorted_list_of_set (dom log_store)))) [], cks'),
      Inr \<lparr>pn_applied = length (concat (map (stream_events log_store) (sorted_list_of_set (dom log_store)))),
           pn_streams = card (dom log_store)\<rparr>) \<and>
    (\<forall>k \<in> dom log_store. checkpointed cks' (pj_name log_projection) k = length (stream_events log_store k))"
    by (rule projection_rebuild_complete)
      (simp_all add: log_store_inv names log_store_events log_projection_def max_event_store_page_size_def)
  then show ?thesis by (elim exE conjE) (simp add: names log_store_events)
qed

end
