(* ===== verification/Subscriptions.thy ===== *)
theory Subscriptions
  imports Event_Following
begin

text \<open>
  Durable subscriptions (\<open>crates/catga-core/src/subscription.rs\<close>, \<open>memory/subscription.rs\<close>): a runner
  delivers the selected events of the matching streams to a handler and checkpoints every inspected
  event; competing consumers take a lease on the subscription. The handler is user code that changes a
  state of its own; \<open>clock\<close> gives the instants at which checkpoints are stamped.
\<close>

section \<open>Subscriptions\<close>

definition subscription_loop_options_new :: "duration \<Rightarrow> duration catga_result" where
  "subscription_loop_options_new poll_interval =
     (if poll_interval = 0
      then Inl (error_new Validation ''subscription poll interval must be greater than zero'')
      else Inr poll_interval)"

definition subscription_loop_options_default :: duration where
  "subscription_loop_options_default = from_millis 100"

record persistent_subscription =
  ps_name :: string
  ps_stream_pattern :: string
  ps_event_types :: "string list"

definition subscription_new :: "string \<Rightarrow> string \<Rightarrow> persistent_subscription" where
  "subscription_new name stream_pattern =
     \<lparr>ps_name = name, ps_stream_pattern = stream_pattern, ps_event_types = []\<rparr>"

definition with_event_types :: "string list \<Rightarrow> persistent_subscription \<Rightarrow> persistent_subscription" where
  "with_event_types event_types sub = sub\<lparr>ps_event_types := event_types\<rparr>"

definition strip_star :: "string \<Rightarrow> string option" where
  "strip_star s = (if s \<noteq> [] \<and> last s = CHR ''*'' then Some (butlast s) else None)"

definition matches_stream :: "persistent_subscription \<Rightarrow> string \<Rightarrow> bool" where
  "matches_stream sub stream_id \<longleftrightarrow>
     (if ps_stream_pattern sub = ''*'' then True
      else (case strip_star (ps_stream_pattern sub) of
              None \<Rightarrow> ps_stream_pattern sub = stream_id
            | Some pre \<Rightarrow> prefix pre stream_id))"

definition matches_event_type :: "persistent_subscription \<Rightarrow> string \<Rightarrow> bool" where
  "matches_event_type sub event_type \<longleftrightarrow>
     ps_event_types sub = [] \<or> (\<exists>allowed \<in> set (ps_event_types sub). allowed = event_type)"

record subscription_checkpoint =
  sc_subscription_name :: string
  sc_stream_id :: string
  sc_version :: int
  sc_updated_at :: systime

section \<open>The in-memory store\<close>

record memory_subscriptions =
  ms_subscriptions :: "string \<rightharpoonup> persistent_subscription"
  ms_checkpoints :: "string \<rightharpoonup> (string \<rightharpoonup> subscription_checkpoint)"
  ms_leases :: "string \<rightharpoonup> string"

definition subscriptions_save :: "persistent_subscription \<Rightarrow> memory_subscriptions \<Rightarrow> memory_subscriptions \<times> unit catga_result" where
  "subscriptions_save sub c =
     (c\<lparr>ms_subscriptions := (ms_subscriptions c)(ps_name sub \<mapsto> sub)\<rparr>, Inr ())"

definition subscriptions_load :: "memory_subscriptions \<Rightarrow> string \<Rightarrow> persistent_subscription option catga_result" where
  "subscriptions_load c name = Inr (ms_subscriptions c name)"

definition subscriptions_delete :: "string \<Rightarrow> memory_subscriptions \<Rightarrow> memory_subscriptions \<times> unit catga_result" where
  "subscriptions_delete name c =
     (c\<lparr>ms_subscriptions := (ms_subscriptions c)(name := None),
        ms_checkpoints := (ms_checkpoints c)(name := None),
        ms_leases := (ms_leases c)(name := None)\<rparr>, Inr ())"

definition subscriptions_list :: "string list \<Rightarrow> memory_subscriptions \<Rightarrow> persistent_subscription list catga_result" where
  "subscriptions_list iter c = Inr (sort_key ps_name (List.map_filter (ms_subscriptions c) iter))"

definition save_checkpoint :: "subscription_checkpoint \<Rightarrow> memory_subscriptions \<Rightarrow> memory_subscriptions \<times> unit catga_result" where
  "save_checkpoint checkpoint c =
     (let streams = (case ms_checkpoints c (sc_subscription_name checkpoint) of None \<Rightarrow> Map.empty | Some m \<Rightarrow> m)
      in (c\<lparr>ms_checkpoints := (ms_checkpoints c)(sc_subscription_name checkpoint \<mapsto>
              streams(sc_stream_id checkpoint \<mapsto> checkpoint))\<rparr>, Inr ()))"

definition load_checkpoint ::
  "memory_subscriptions \<Rightarrow> string \<Rightarrow> string \<Rightarrow> subscription_checkpoint option catga_result" where
  "load_checkpoint c subscription_name stream_id =
     Inr (case ms_checkpoints c subscription_name of None \<Rightarrow> None | Some streams \<Rightarrow> streams stream_id)"

definition try_acquire :: "string \<Rightarrow> string \<Rightarrow> memory_subscriptions \<Rightarrow> memory_subscriptions \<times> bool catga_result" where
  "try_acquire subscription_name consumer_id c =
     (case ms_leases c subscription_name of
        Some _ \<Rightarrow> (c, Inr False)
      | None \<Rightarrow> (c\<lparr>ms_leases := (ms_leases c)(subscription_name \<mapsto> consumer_id)\<rparr>, Inr True))"

definition lease_release :: "string \<Rightarrow> string \<Rightarrow> memory_subscriptions \<Rightarrow> memory_subscriptions \<times> unit catga_result" where
  "lease_release subscription_name consumer_id c =
     (case ms_leases c subscription_name of
        Some holder \<Rightarrow>
          if holder = consumer_id
          then (c\<lparr>ms_leases := (ms_leases c)(subscription_name := None)\<rparr>, Inr ())
          else (c, Inr ())
      | None \<Rightarrow> (c, Inr ()))"

text \<open>The operations of the \<open>SubscriptionStore\<close> trait that the runners call.\<close>

record 'c subscription_ops =
  su_load :: "'c \<Rightarrow> string \<Rightarrow> persistent_subscription option catga_result"
  su_save_checkpoint :: "subscription_checkpoint \<Rightarrow> 'c \<Rightarrow> 'c \<times> unit catga_result"
  su_load_checkpoint :: "'c \<Rightarrow> string \<Rightarrow> string \<Rightarrow> subscription_checkpoint option catga_result"
  su_try_acquire :: "string \<Rightarrow> string \<Rightarrow> 'c \<Rightarrow> 'c \<times> bool catga_result"
  su_release :: "string \<Rightarrow> string \<Rightarrow> 'c \<Rightarrow> 'c \<times> unit catga_result"

definition memory_subscription_ops :: "memory_subscriptions subscription_ops" where
  "memory_subscription_ops =
     \<lparr>su_load = subscriptions_load, su_save_checkpoint = save_checkpoint, su_load_checkpoint = load_checkpoint,
      su_try_acquire = try_acquire, su_release = lease_release\<rparr>"

section \<open>The runner\<close>

definition default_subscription_batch_size :: nat where
  "default_subscription_batch_size = 256"

definition subscription_batch_size :: "nat \<Rightarrow> nat" where
  "subscription_batch_size batch_size = min batch_size max_event_store_page_size"

record subscription_run =
  sr_handled :: nat
  sr_streams :: nat

definition subscription_run_default :: subscription_run where
  "subscription_run_default = \<lparr>sr_handled = 0, sr_streams = 0\<rparr>"

definition subscription_run_combine :: "subscription_run \<Rightarrow> subscription_run \<Rightarrow> subscription_run" where
  "subscription_run_combine run other =
     \<lparr>sr_handled = usize_saturating_add (sr_handled run) (sr_handled other),
      sr_streams = usize_saturating_add (sr_streams run) (sr_streams other)\<rparr>"

definition advance_version :: "int \<Rightarrow> int option" where
  "advance_version version = i64_checked_add version 1"

text \<open>\<open>u64::try_from(next_version).unwrap_or(0)\<close>\<close>

definition read_position :: "int \<Rightarrow> u64" where
  "read_position next_version = (case u64_of_i64 next_version of None \<Rightarrow> 0 | Some c \<Rightarrow> c)"

type_synonym 'h handler = "stored_event \<Rightarrow> 'h \<Rightarrow> 'h \<times> unit catga_result"

text \<open>One event of a pass: handle it when selected, save the checkpoint, advance.\<close>

definition inspect_event ::
  "'h handler \<Rightarrow> 'c subscription_ops \<Rightarrow> (stored_event \<Rightarrow> systime) \<Rightarrow> persistent_subscription \<Rightarrow> string \<Rightarrow> stored_event
   \<Rightarrow> 'h \<times> 'c \<times> nat \<Rightarrow> ('h \<times> 'c \<times> nat) \<times> u64 option catga_result" where
  "inspect_event handle su clock sub stream_id event st =
     (case st of (h, c, handled) \<Rightarrow>
      case (if matches_event_type sub (env_message_type (se_envelope event))
            then (case handle event h of
                    (h', Inl e) \<Rightarrow> ((h', c, handled), Inl e)
                  | (h', Inr _) \<Rightarrow> ((h', c, handled + 1), Inr ()))
            else ((h, c, handled), Inr ())) of
        (st', Inl e) \<Rightarrow> (st', Inl e)
      | ((h', c', handled'), Inr _) \<Rightarrow>
          (case su_save_checkpoint su
                  \<lparr>sc_subscription_name = ps_name sub, sc_stream_id = stream_id,
                   sc_version = se_version event, sc_updated_at = clock event\<rparr> c' of
             (c'', Inl e) \<Rightarrow> ((h', c'', handled'), Inl e)
           | (c'', Inr _) \<Rightarrow>
               (case advance_version (se_version event) of
                  None \<Rightarrow> ((h', c'', handled'), Inr None)
                | Some next \<Rightarrow> ((h', c'', handled'), Inr (Some (read_position next))))))"

definition subscription_run_stream ::
  "'h handler \<Rightarrow> 'c subscription_ops \<Rightarrow> ('e, 's) event_store_ops \<Rightarrow> nat \<Rightarrow> (stored_event \<Rightarrow> systime)
   \<Rightarrow> persistent_subscription \<Rightarrow> string \<Rightarrow> 's list \<Rightarrow> 'h \<times> 'c \<Rightarrow> (('h \<times> 'c \<times> nat) \<times> unit catga_result) option" where
  "subscription_run_stream handle su es batch_size clock sub stream_id obs hc =
     (case su_load_checkpoint su (snd hc) (ps_name sub) stream_id of
        Inl e \<Rightarrow> Some ((fst hc, snd hc, 0), Inl e)
      | Inr checkpoint \<Rightarrow>
          (case (case checkpoint of None \<Rightarrow> Some 0 | Some x \<Rightarrow> advance_version (sc_version x)) of
             None \<Rightarrow> Some ((fst hc, snd hc, 0), Inr ())
           | Some next_version \<Rightarrow>
               catch_up (\<lambda>s c. ev_read_page es s stream_id c batch_size)
                 (inspect_event handle su clock sub stream_id) obs (read_position next_version)
                 (fst hc, snd hc, 0)))"

definition run_once_body ::
  "'h handler \<Rightarrow> 'c subscription_ops \<Rightarrow> ('e, 's) event_store_ops \<Rightarrow> nat \<Rightarrow> (stored_event \<Rightarrow> systime)
   \<Rightarrow> persistent_subscription \<Rightarrow> (string \<Rightarrow> 's list) \<Rightarrow> string
   \<Rightarrow> 'h \<times> 'c \<times> subscription_run \<Rightarrow> (('h \<times> 'c \<times> subscription_run) \<times> bool catga_result) option" where
  "run_once_body handle su es batch_size clock sub page_obs stream_id st =
     (case st of (h, c, run) \<Rightarrow>
      if \<not> matches_stream sub stream_id then Some ((h, c, run), Inr False)
      else
        (let run1 = run\<lparr>sr_streams := sr_streams run + 1\<rparr> in
         case subscription_run_stream handle su es batch_size clock sub stream_id (page_obs stream_id) (h, c) of
           None \<Rightarrow> None
         | Some ((h', c', handled), Inl e) \<Rightarrow> Some ((h', c', run1), Inl e)
         | Some ((h', c', handled), Inr _) \<Rightarrow>
             Some ((h', c', run1\<lparr>sr_handled := sr_handled run1 + handled\<rparr>), Inr False)))"

definition no_subscription :: catga_error where
  "no_subscription = error_new NotFound ''subscription does not exist''"

definition subscription_run_once ::
  "'h handler \<Rightarrow> 'c subscription_ops \<Rightarrow> ('e, 's) event_store_ops \<Rightarrow> nat \<Rightarrow> (stored_event \<Rightarrow> systime) \<Rightarrow> string
   \<Rightarrow> 's list \<Rightarrow> (string \<Rightarrow> 's list) \<Rightarrow> 'h \<times> 'c \<Rightarrow> (('h \<times> 'c) \<times> subscription_run catga_result) option" where
  "subscription_run_once handle su es batch_size clock name ids_obs page_obs hc =
     (case su_load su (snd hc) name of
        Inl e \<Rightarrow> Some (hc, Inl e)
      | Inr None \<Rightarrow> Some (hc, Inl no_subscription)
      | Inr (Some sub) \<Rightarrow>
          map_option (\<lambda>((h, c, run), r). ((h, c), bind_r r (\<lambda>_. Inr run)))
            (stream_loop (\<lambda>s after. ev_stream_ids_page es s after max_event_store_page_size)
               (run_once_body handle su es batch_size clock sub page_obs) ids_obs None
               (fst hc, snd hc, subscription_run_default)))"

text \<open>One event of \<open>run_next\<close>: the flag records that a selected event was handled, which ends the search.\<close>

definition inspect_next ::
  "'h handler \<Rightarrow> 'c subscription_ops \<Rightarrow> (stored_event \<Rightarrow> systime) \<Rightarrow> persistent_subscription \<Rightarrow> string \<Rightarrow> stored_event
   \<Rightarrow> 'h \<times> 'c \<times> bool \<Rightarrow> ('h \<times> 'c \<times> bool) \<times> u64 option catga_result" where
  "inspect_next handle su clock sub stream_id event st =
     (case st of (h, c, done) \<Rightarrow>
      let selected = matches_event_type sub (env_message_type (se_envelope event)) in
      case (if selected then handle event h else (h, Inr ())) of
        (h', Inl e) \<Rightarrow> ((h', c, done), Inl e)
      | (h', Inr _) \<Rightarrow>
          (case su_save_checkpoint su
                  \<lparr>sc_subscription_name = ps_name sub, sc_stream_id = stream_id,
                   sc_version = se_version event, sc_updated_at = clock event\<rparr> c of
             (c', Inl e) \<Rightarrow> ((h', c', done), Inl e)
           | (c', Inr _) \<Rightarrow>
               if selected then ((h', c', True), Inr None)
               else (case advance_version (se_version event) of
                       None \<Rightarrow> ((h', c', done), Inr None)
                     | Some next \<Rightarrow> ((h', c', done), Inr (Some (read_position next))))))"

definition run_next_in_stream ::
  "'h handler \<Rightarrow> 'c subscription_ops \<Rightarrow> ('e, 's) event_store_ops \<Rightarrow> nat \<Rightarrow> (stored_event \<Rightarrow> systime)
   \<Rightarrow> persistent_subscription \<Rightarrow> string \<Rightarrow> 's list \<Rightarrow> 'h \<times> 'c \<Rightarrow> (('h \<times> 'c) \<times> bool catga_result) option" where
  "run_next_in_stream handle su es batch_size clock sub stream_id obs hc =
     (case su_load_checkpoint su (snd hc) (ps_name sub) stream_id of
        Inl e \<Rightarrow> Some (hc, Inl e)
      | Inr checkpoint \<Rightarrow>
          (case (case checkpoint of None \<Rightarrow> Some 0 | Some x \<Rightarrow> advance_version (sc_version x)) of
             None \<Rightarrow> Some (hc, Inr False)
           | Some next_version \<Rightarrow>
               map_option (\<lambda>((h, c, done), r). ((h, c), bind_r r (\<lambda>_. Inr done)))
                 (catch_up (\<lambda>s c. ev_read_page es s stream_id c batch_size)
                    (inspect_next handle su clock sub stream_id) obs (read_position next_version)
                    (fst hc, snd hc, False))))"

definition subscription_run_next ::
  "'h handler \<Rightarrow> 'c subscription_ops \<Rightarrow> ('e, 's) event_store_ops \<Rightarrow> nat \<Rightarrow> (stored_event \<Rightarrow> systime) \<Rightarrow> string
   \<Rightarrow> 's list \<Rightarrow> (string \<Rightarrow> 's list) \<Rightarrow> 'h \<times> 'c \<Rightarrow> (('h \<times> 'c) \<times> bool catga_result) option" where
  "subscription_run_next handle su es batch_size clock name ids_obs page_obs hc =
     (case su_load su (snd hc) name of
        Inl e \<Rightarrow> Some (hc, Inl e)
      | Inr None \<Rightarrow> Some (hc, Inl no_subscription)
      | Inr (Some sub) \<Rightarrow>
          stream_loop (\<lambda>s after. ev_stream_ids_page es s after max_event_store_page_size)
            (\<lambda>k hc'. if \<not> matches_stream sub k then Some (hc', Inr False)
                     else run_next_in_stream handle su es batch_size clock sub k (page_obs k) hc') ids_obs None hc)"

text \<open>
  The continuous loop. One element of the list is one pass that found the token not cancelled, with the
  stores it observes; the flag tells whether the token is cancelled during the following delay.
\<close>

fun subscription_run_until_cancelled ::
  "'h handler \<Rightarrow> 'c subscription_ops \<Rightarrow> ('e, 's) event_store_ops \<Rightarrow> nat \<Rightarrow> (stored_event \<Rightarrow> systime) \<Rightarrow> string
   \<Rightarrow> ('s list \<times> (string \<Rightarrow> 's list) \<times> bool) list \<Rightarrow> subscription_run \<Rightarrow> 'h \<times> 'c
   \<Rightarrow> (('h \<times> 'c) \<times> subscription_run catga_result) option" where
  "subscription_run_until_cancelled handle su es n clock name [] total_run hc = Some (hc, Inr total_run)"
| "subscription_run_until_cancelled handle su es n clock name ((ids_obs, page_obs, cancelled) # passes) total_run hc =
     (case subscription_run_once handle su es n clock name ids_obs page_obs hc of
        None \<Rightarrow> None
      | Some (hc', Inl e) \<Rightarrow> Some (hc', Inl e)
      | Some (hc', Inr run) \<Rightarrow>
          (let total' = subscription_run_combine total_run run in
           if cancelled then Some (hc', Inr total')
           else subscription_run_until_cancelled handle su es n clock name passes total' hc'))"

section \<open>Competing consumers\<close>

text \<open>Take the lease, run, give it back whatever the run answered.\<close>

definition leased_run ::
  "'c subscription_ops \<Rightarrow> string \<Rightarrow> string \<Rightarrow> ('h \<times> 'c \<Rightarrow> (('h \<times> 'c) \<times> 'r catga_result) option) \<Rightarrow> 'h \<times> 'c
   \<Rightarrow> (('h \<times> 'c) \<times> 'r option catga_result) option" where
  "leased_run su name consumer_id run hc =
     (case su_try_acquire su name consumer_id (snd hc) of
        (c, Inl e) \<Rightarrow> Some ((fst hc, c), Inl e)
      | (c, Inr False) \<Rightarrow> Some ((fst hc, c), Inr None)
      | (c, Inr True) \<Rightarrow>
          (case run (fst hc, c) of
             None \<Rightarrow> None
           | Some ((h', c'), result) \<Rightarrow>
               (case su_release su name consumer_id c' of
                  (c'', release) \<Rightarrow>
                    Some ((h', c''),
                      (case result of
                         Inl e \<Rightarrow> Inl e
                       | Inr v \<Rightarrow> (case release of Inl e \<Rightarrow> Inl e | Inr _ \<Rightarrow> Inr (Some v)))))))"

definition try_run_once ::
  "'h handler \<Rightarrow> 'c subscription_ops \<Rightarrow> ('e, 's) event_store_ops \<Rightarrow> (stored_event \<Rightarrow> systime) \<Rightarrow> string \<Rightarrow> string
   \<Rightarrow> 's list \<Rightarrow> (string \<Rightarrow> 's list) \<Rightarrow> 'h \<times> 'c \<Rightarrow> (('h \<times> 'c) \<times> subscription_run option catga_result) option" where
  "try_run_once handle su es clock name consumer_id ids_obs page_obs hc =
     leased_run su name consumer_id
       (subscription_run_once handle su es (subscription_batch_size default_subscription_batch_size) clock name ids_obs page_obs) hc"

definition try_process_next ::
  "'h handler \<Rightarrow> 'c subscription_ops \<Rightarrow> ('e, 's) event_store_ops \<Rightarrow> (stored_event \<Rightarrow> systime) \<Rightarrow> string \<Rightarrow> string
   \<Rightarrow> 's list \<Rightarrow> (string \<Rightarrow> 's list) \<Rightarrow> 'h \<times> 'c \<Rightarrow> (('h \<times> 'c) \<times> bool option catga_result) option" where
  "try_process_next handle su es clock name consumer_id ids_obs page_obs hc =
     leased_run su name consumer_id
       (subscription_run_next handle su es (subscription_batch_size default_subscription_batch_size) clock name ids_obs page_obs) hc"

section \<open>Delivery\<close>

definition inspected :: "memory_subscriptions \<Rightarrow> string \<Rightarrow> string \<Rightarrow> nat" where
  "inspected c name k =
     (case ms_checkpoints c name of None \<Rightarrow> 0
      | Some streams \<Rightarrow> (case streams k of None \<Rightarrow> 0 | Some x \<Rightarrow> nat (sc_version x + 1)))"

definition inspected_inv :: "memory_subscriptions \<Rightarrow> string \<Rightarrow> bool" where
  "inspected_inv c name \<longleftrightarrow>
     (\<forall>streams k x. ms_checkpoints c name = Some streams \<longrightarrow> streams k = Some x \<longrightarrow> 0 \<le> sc_version x)"

definition selected :: "persistent_subscription \<Rightarrow> stored_event \<Rightarrow> bool" where
  "selected sub e \<longleftrightarrow> matches_event_type sub (env_message_type (se_envelope e))"

lemma read_position_nat: "read_position (int n) = word_of_nat n"
  by (simp add: read_position_def u64_of_i64_nat)

lemma advance_version_nat: "n < 2 ^ 63 - 1 \<Longrightarrow> advance_version (int n) = Some (int (Suc n))"
  by (simp add: advance_version_def i64_defs)

lemma steps_on_inspect: "steps_on (inspect_event handle su clock sub k)"
  by (auto simp: steps_on_def inspect_event_def advance_version_def read_position_def u64_of_i64_def i64_defs
      split: prod.splits sum.splits if_splits)

lemma inspected_save:
  "fst (save_checkpoint \<lparr>sc_subscription_name = name, sc_stream_id = k, sc_version = v, sc_updated_at = t\<rparr> c) = c' \<Longrightarrow>
   inspected c' name k = nat (v + 1) \<and> (\<forall>k'. k' \<noteq> k \<longrightarrow> inspected c' name k' = inspected c name k') \<and>
   (inspected_inv c name \<longrightarrow> 0 \<le> v \<longrightarrow> inspected_inv c' name) \<and> ms_leases c' = ms_leases c"
  by (auto simp: save_checkpoint_def inspected_def inspected_inv_def Let_def split: option.splits if_splits)

lemma inspect_selected:
  assumes "se_version e = int c" "c < 2 ^ 63 - 1"
    "save_checkpoint \<lparr>sc_subscription_name = ps_name sub, sc_stream_id = k, sc_version = int c, sc_updated_at = clock e\<rparr> cs = (cs1, Inr ())"
  shows "inspect_event handle memory_subscription_ops clock sub k e (h, cs, n) =
    (if selected sub e
     then (case handle e h of
             (h', Inl err) \<Rightarrow> ((h', cs, n), Inl err)
           | (h', Inr _) \<Rightarrow> ((h', cs1, Suc n), Inr (Some (word_of_nat (Suc c)))))
     else ((h, cs1, n), Inr (Some (word_of_nat (Suc c)))))"
  using assms advance_version_nat [OF assms(2)] read_position_nat [of "Suc c"]
  by (auto simp: inspect_event_def memory_subscription_ops_def selected_def split: prod.splits sum.splits)

lemma visit_all_inspect:
  assumes "\<forall>i < length evs. se_version (evs ! i) = int (c + i)" "c + length evs < 2 ^ 63"
    "inspected_inv cs (ps_name sub)" "inspected cs (ps_name sub) k = c"
  shows "\<exists>j h' cs' r hj. visit_all (inspect_event handle memory_subscription_ops clock sub k) evs (h, cs, n) =
      ((h', cs', n + length (filter (selected sub) (take j evs))), r) \<and>
    j \<le> length evs \<and> apply_all handle (filter (selected sub) (take j evs)) h = Some hj \<and>
    inspected_inv cs' (ps_name sub) \<and> inspected cs' (ps_name sub) k = c + j \<and>
    (\<forall>k'. k' \<noteq> k \<longrightarrow> inspected cs' (ps_name sub) k' = inspected cs (ps_name sub) k') \<and>
    (case r of Inr _ \<Rightarrow> j = length evs \<and> h' = hj
     | Inl e \<Rightarrow> j < length evs \<and> selected sub (evs ! j) \<and> handle (evs ! j) hj = (h', Inl e))"
  using assms
proof (induction evs arbitrary: c h cs n)
  case Nil
  then show ?case by simp
next
  case (Cons e evs)
  have ver: "se_version e = int c" using Cons.prems(1) by (auto dest: spec [of _ 0])
  have c: "c < 2 ^ 63 - 1" and short: "Suc c + length evs < 2 ^ 63" using Cons.prems(2) by simp_all
  obtain cs1 where sv: "save_checkpoint \<lparr>sc_subscription_name = ps_name sub, sc_stream_id = k, sc_version = int c,
      sc_updated_at = clock e\<rparr> cs = (cs1, Inr ())"
    by (simp add: save_checkpoint_def)
  note C = inspected_save [of "ps_name sub" k "int c" "clock e" cs cs1, unfolded sv fst_conv, OF refl]
  note I = inspect_selected [where handle = handle and h = h and n = n and clock = clock and sub = sub, OF ver c sv]
  have cs1: "inspected_inv cs1 (ps_name sub)" "inspected cs1 (ps_name sub) k = Suc c"
    using C Cons.prems(3) by (simp_all add: nat_add_distrib)
  have rest: "\<forall>i < length evs. se_version (evs ! i) = int (Suc c + i)"
  proof (intro allI impI)
    fix i assume "i < length evs"
    with Cons.prems(1) [rule_format, of "Suc i"] show "se_version (evs ! i) = int (Suc c + i)" by simp
  qed
  note IH = Cons.IH [OF rest short cs1]
  obtain h1 r1 where hd: "handle e h = (h1, r1)" by fastforce
  consider (fails) err where "selected sub e" "r1 = Inl err"
    | (goes) h2 n2 where
      "inspect_event handle memory_subscription_ops clock sub k e (h, cs, n) = ((h2, cs1, n2), Inr (Some (word_of_nat (Suc c))))"
      "\<And>xs. n2 + length (filter (selected sub) xs) = n + length (filter (selected sub) (e # xs))"
      "\<And>xs. apply_all handle (filter (selected sub) (e # xs)) h = apply_all handle (filter (selected sub) xs) h2"
    using I hd by (cases "selected sub e"; cases r1; simp)
  then show ?case
  proof cases
    case fails
    then show ?thesis using I hd Cons.prems
      by (intro exI [of _ 0] exI [of _ h1] exI [of _ cs] exI [of _ "Inl err"] exI [of _ h]) simp
  next
    case goes
    from IH [of h2 n2] obtain j h' cs' r hj where
      "visit_all (inspect_event handle memory_subscription_ops clock sub k) evs (h2, cs1, n2) =
        ((h', cs', n2 + length (filter (selected sub) (take j evs))), r)"
      "j \<le> length evs" "apply_all handle (filter (selected sub) (take j evs)) h2 = Some hj"
      "inspected_inv cs' (ps_name sub)" "inspected cs' (ps_name sub) k = Suc c + j"
      "\<forall>k'. k' \<noteq> k \<longrightarrow> inspected cs' (ps_name sub) k' = inspected cs1 (ps_name sub) k'"
      "case r of Inr _ \<Rightarrow> j = length evs \<and> h' = hj
       | Inl e \<Rightarrow> j < length evs \<and> selected sub (evs ! j) \<and> handle (evs ! j) hj = (h', Inl e)" by blast
    then show ?thesis using goes C
      by (intro exI [of _ "Suc j"] exI [of _ h'] exI [of _ cs'] exI [of _ r] exI [of _ hj])
        (simp add: goes(2,3) del: filter.simps split: sum.splits)
  qed
qed

lemma inspect_start:
  assumes "inspected_inv cs name" "inspected cs name k < 2 ^ 63"
  shows "\<exists>cp x. load_checkpoint cs name k = Inr cp \<and>
    (case cp of None \<Rightarrow> Some 0 | Some y \<Rightarrow> advance_version (sc_version y)) = Some x \<and>
    read_position x = word_of_nat (inspected cs name k)"
proof (cases "\<exists>streams y. ms_checkpoints cs name = Some streams \<and> streams k = Some y")
  case True
  then obtain streams y where y: "ms_checkpoints cs name = Some streams" "streams k = Some y" by blast
  then have pos: "0 \<le> sc_version y" using assms(1) by (simp add: inspected_inv_def)
  then obtain v where v: "sc_version y = int v" using nonneg_int_cases by blast
  then have "advance_version (sc_version y) = Some (int (Suc v))" "inspected cs name k = Suc v"
    using assms(2) y by (simp_all add: advance_version_nat inspected_def nat_add_distrib)
  then show ?thesis using y read_position_nat [of "Suc v"] by (simp add: load_checkpoint_def)
next
  case False
  then have "load_checkpoint cs name k = Inr None" "inspected cs name k = 0"
    by (auto simp: load_checkpoint_def inspected_def split: option.splits)
  then show ?thesis using read_position_nat [of 0] by simp
qed

text \<open>
  Property C21: a subscription delivers the selected events of a stream once and in order. Starting after
  the checkpoint, while other tasks append, the runner hands exactly the events of the selected types to
  the handler, one after the other, counts them, and checkpoints every event it inspected, selected or
  not. If the handler fails, the checkpoint covers exactly what came before the failed event, so the
  next pass delivers that event first.
\<close>

theorem subscription_delivers:
  assumes "\<forall>s \<in> set obs. es_inv s" "sorted_wrt (\<lambda>s s'. prefix (stream_events s k) (stream_events s' k)) obs" "obs \<noteq> []"
    "0 < n" "n \<le> max_event_store_page_size" "inspected_inv cs (ps_name sub)" "c = inspected cs (ps_name sub) k"
    "c \<le> length (stream_events (hd obs) k)" "length (stream_events (last obs) k) \<le> c + n * length obs"
  shows "\<exists>s \<in> set obs. \<exists>j h' cs' r hj.
    subscription_run_stream handle memory_subscription_ops (memory_event_ops iter) n clock sub k obs (h, cs) =
      Some ((h', cs', length (filter (selected sub) (take j (drop c (stream_events s k))))), r) \<and>
    apply_all handle (filter (selected sub) (take j (drop c (stream_events s k)))) h = Some hj \<and>
    inspected_inv cs' (ps_name sub) \<and> inspected cs' (ps_name sub) k = c + j \<and>
    (\<forall>k'. k' \<noteq> k \<longrightarrow> inspected cs' (ps_name sub) k' = inspected cs (ps_name sub) k') \<and>
    (case r of
       Inr _ \<Rightarrow> c + j = length (stream_events s k) \<and> h' = hj
     | Inl e \<Rightarrow> c + j < length (stream_events s k) \<and> handle (stream_events s k ! (c + j)) hj = (h', Inl e))"
proof -
  have obs: "mes.observes k obs" "mes.enough k c n obs" using assms by (simp_all add: mes.observes_def mes.enough_def)
  have c: "c < 2 ^ 63" using mes.observed_short [OF obs(1), of "hd obs"] assms(3,8) by simp
  let ?visit = "inspect_event handle memory_subscription_ops clock sub k"
  obtain s where s: "s \<in> set obs" "catch_up (\<lambda>s from. ev_read_page (memory_event_ops iter) s k from n) ?visit obs (word_of_nat c) (h, cs, 0) =
      Some (visit_all ?visit (drop c (stream_events s k)) (h, cs, 0))"
    using mes.catch_up_single_pass [OF obs assms(4,5) _ steps_on_inspect] c by fastforce
  have run: "subscription_run_stream handle memory_subscription_ops (memory_event_ops iter) n clock sub k obs (h, cs) =
      Some (visit_all ?visit (drop c (stream_events s k)) (h, cs, 0))"
    using inspect_start [OF assms(6), of k] c s(2) assms(7)
    by (auto simp: subscription_run_stream_def) (auto simp: memory_subscription_ops_def)
  have "prefix (stream_events (hd obs) k) (stream_events s k)" using assms(2,3) s(1) by (cases obs) auto
  then have le: "c \<le> length (stream_events s k)" using assms(8) prefix_length_le by fastforce
  let ?evs = "drop c (stream_events s k)"
  have num: "numbered (stream_events s k)" using assms(1) s(1) stream_events_numbered by blast
  then have "\<forall>i < length ?evs. se_version (?evs ! i) = int (c + i)" "c + length ?evs < 2 ^ 63"
    using le by (simp_all add: numbered_def)
  from visit_all_inspect [OF this assms(6) assms(7) [symmetric], of handle clock h 0]
  obtain j h' cs' r hj where V: "visit_all ?visit ?evs (h, cs, 0) = ((h', cs', 0 + length (filter (selected sub) (take j ?evs))), r)"
    "j \<le> length ?evs" "apply_all handle (filter (selected sub) (take j ?evs)) h = Some hj"
    "inspected_inv cs' (ps_name sub)" "inspected cs' (ps_name sub) k = c + j"
    "\<forall>k'. k' \<noteq> k \<longrightarrow> inspected cs' (ps_name sub) k' = inspected cs (ps_name sub) k'"
    "case r of Inr _ \<Rightarrow> j = length ?evs \<and> h' = hj
     | Inl e \<Rightarrow> j < length ?evs \<and> selected sub (?evs ! j) \<and> handle (?evs ! j) hj = (h', Inl e)" by blast
  have "case r of Inr _ \<Rightarrow> c + j = length (stream_events s k) \<and> h' = hj
     | Inl e \<Rightarrow> c + j < length (stream_events s k) \<and> handle (stream_events s k ! (c + j)) hj = (h', Inl e)"
    using V(7) le by (auto split: sum.splits)
  then show ?thesis using s(1) run V(1-6) by (intro bexI [of _ s] exI conjI) auto
qed

section \<open>Leases\<close>

lemma save_checkpoint_leases: "save_checkpoint cp c = (c', r) \<Longrightarrow> ms_leases c' = ms_leases c"
  by (auto simp: save_checkpoint_def Let_def)

lemma inspect_leases:
  "ms_leases (fst (snd st)) = L \<Longrightarrow> ms_leases (fst (snd (fst (inspect_event handle memory_subscription_ops clock sub k e st)))) = L"
  by (auto simp: inspect_event_def memory_subscription_ops_def dest!: save_checkpoint_leases
      split: prod.splits sum.splits option.splits if_splits)

lemma inspect_next_leases:
  assumes "ms_leases (fst (snd st)) = L"
  shows "ms_leases (fst (snd (fst (inspect_next handle memory_subscription_ops clock sub k e st)))) = L"
proof -
  obtain h c d where st: "st = (h, c, d)" by (cases st)
  obtain c1 where sv: "save_checkpoint \<lparr>sc_subscription_name = ps_name sub, sc_stream_id = k, sc_version = se_version e,
      sc_updated_at = clock e\<rparr> c = (c1, Inr ())" "ms_leases c1 = L"
    using assms by (simp add: save_checkpoint_def Let_def st)
  obtain h1 r1 where hd: "handle e h = (h1, r1)" by fastforce
  show ?thesis
    using sv hd assms by (cases "matches_event_type sub (env_message_type (se_envelope e))"; cases r1; cases "advance_version (se_version e)")
      (simp_all add: inspect_next_def memory_subscription_ops_def Let_def st)
qed

lemma run_stream_leases:
  assumes "subscription_run_stream handle memory_subscription_ops es n clock sub k obs (h, c) = Some ((h', c', m), r)"
  shows "ms_leases c' = ms_leases c"
proof -
  have "c' = c \<or> (\<exists>w. catch_up (\<lambda>s c. ev_read_page es s k c n) (inspect_event handle memory_subscription_ops clock sub k) obs w (h, c, 0) =
      Some ((h', c', m), r))"
    using assms by (auto simp: subscription_run_stream_def split: sum.splits option.splits)
  then show ?thesis
  proof (elim disjE exE)
    fix w assume "catch_up (\<lambda>s c. ev_read_page es s k c n) (inspect_event handle memory_subscription_ops clock sub k) obs w (h, c, 0) =
      Some ((h', c', m), r)"
    from catch_up_keeps [where P = "\<lambda>st. ms_leases (fst (snd st)) = ms_leases c", OF inspect_leases _ this] show ?thesis
      by simp
  qed simp
qed

lemma run_next_in_stream_leases:
  assumes "run_next_in_stream handle memory_subscription_ops es n clock sub k obs (h, c) = Some ((h', c'), r)"
  shows "ms_leases c' = ms_leases c"
proof -
  have "c' = c \<or> (\<exists>w d r'. catch_up (\<lambda>s c. ev_read_page es s k c n) (inspect_next handle memory_subscription_ops clock sub k) obs w (h, c, False) =
      Some ((h', c', d), r'))"
    using assms by (auto simp: run_next_in_stream_def split: sum.splits option.splits)
  then show ?thesis
  proof (elim disjE exE)
    fix w d r' assume "catch_up (\<lambda>s c. ev_read_page es s k c n) (inspect_next handle memory_subscription_ops clock sub k) obs w (h, c, False) =
      Some ((h', c', d), r')"
    from catch_up_keeps [where P = "\<lambda>st. ms_leases (fst (snd st)) = ms_leases c", OF inspect_next_leases _ this] show ?thesis
      by simp
  qed simp
qed

lemma run_once_body_leases:
  assumes "ms_leases (fst (snd st)) = L" "run_once_body handle memory_subscription_ops es n clock sub page_obs k st = Some (st', r)"
  shows "ms_leases (fst (snd st')) = L"
proof -
  obtain h c run where st: "st = (h, c, run)" by (cases st)
  obtain h' c' run' where st': "st' = (h', c', run')" by (cases st')
  have "c' = c \<or> (\<exists>m r'. subscription_run_stream handle memory_subscription_ops es n clock sub k (page_obs k) (h, c) = Some ((h', c', m), r'))"
    using assms(2) by (auto simp: run_once_body_def Let_def st st' split: if_splits option.splits sum.splits)
  then show ?thesis using run_stream_leases assms(1) st st' by auto
qed

lemma run_once_leases:
  assumes "subscription_run_once handle memory_subscription_ops es n clock name ids_obs page_obs (h, c) = Some ((h', c'), r)"
  shows "ms_leases c' = ms_leases c"
proof -
  have "c' = c \<or> (\<exists>sub run r'. stream_loop (\<lambda>s after. ev_stream_ids_page es s after max_event_store_page_size)
      (run_once_body handle memory_subscription_ops es n clock sub page_obs) ids_obs None (h, c, subscription_run_default) =
      Some ((h', c', run), r'))"
    using assms by (auto simp: subscription_run_once_def split: sum.splits option.splits)
  then show ?thesis
  proof (elim disjE exE)
    fix sub run r' assume "stream_loop (\<lambda>s after. ev_stream_ids_page es s after max_event_store_page_size)
      (run_once_body handle memory_subscription_ops es n clock sub page_obs) ids_obs None (h, c, subscription_run_default) =
      Some ((h', c', run), r')"
    from stream_loop_keeps [where P = "\<lambda>st. ms_leases (fst (snd st)) = ms_leases c", OF run_once_body_leases _ this]
    show ?thesis by simp
  qed simp
qed

lemma run_next_leases:
  assumes "subscription_run_next handle memory_subscription_ops es n clock name ids_obs page_obs (h, c) = Some ((h', c'), r)"
  shows "ms_leases c' = ms_leases c"
proof -
  have body: "ms_leases (snd hc') = L"
    if "ms_leases (snd hc) = L" "(if \<not> matches_stream sub k then Some (hc, Inr False)
        else run_next_in_stream handle memory_subscription_ops es n clock sub k (page_obs k) hc) = Some (hc', r')" for L hc hc' r' k sub
  proof -
    obtain h1 c1 h2 c2 where "hc = (h1, c1)" "hc' = (h2, c2)" by (cases hc, cases hc')
    with that show ?thesis
      using run_next_in_stream_leases [of handle es n clock sub k "page_obs k" h1 c1 h2 c2 r'] by (auto split: if_splits)
  qed
  have "c' = c \<or> (\<exists>sub r'. stream_loop (\<lambda>s after. ev_stream_ids_page es s after max_event_store_page_size)
      (\<lambda>k hc'. if \<not> matches_stream sub k then Some (hc', Inr False)
               else run_next_in_stream handle memory_subscription_ops es n clock sub k (page_obs k) hc') ids_obs None (h, c) = Some ((h', c'), r'))"
    using assms by (auto simp: subscription_run_next_def split: sum.splits option.splits)
  then show ?thesis
  proof (elim disjE exE)
    fix sub r' assume "stream_loop (\<lambda>s after. ev_stream_ids_page es s after max_event_store_page_size)
      (\<lambda>k hc'. if \<not> matches_stream sub k then Some (hc', Inr False)
               else run_next_in_stream handle memory_subscription_ops es n clock sub k (page_obs k) hc') ids_obs None (h, c) = Some ((h', c'), r')"
    from stream_loop_keeps [where P = "\<lambda>hc. ms_leases (snd hc) = ms_leases c", OF body _ this] show ?thesis by simp
  qed simp
qed

lemma leased_run_held:
  assumes "ms_leases c name = Some holder"
  shows "leased_run memory_subscription_ops name consumer run (h, c) = Some ((h, c), Inr None)"
  using assms by (simp add: leased_run_def memory_subscription_ops_def try_acquire_def)

lemma leased_run_free:
  assumes "ms_leases c name = None" "leased_run memory_subscription_ops name consumer run (h, c) = Some ((h', c'), r)"
    "\<And>c1 h' c' r. run (h, c1) = Some ((h', c'), r) \<Longrightarrow> ms_leases c' = ms_leases c1"
  shows "ms_leases c' = ms_leases c \<and> r \<noteq> Inr None"
proof -
  let ?c1 = "c\<lparr>ms_leases := (ms_leases c)(name \<mapsto> consumer)\<rparr>"
  obtain h2 c2 r2 where run: "run (h, ?c1) = Some ((h2, c2), r2)"
    using assms(1,2) by (auto simp: leased_run_def memory_subscription_ops_def try_acquire_def split: option.splits)
  have "ms_leases c2 = (ms_leases c)(name \<mapsto> consumer)" using assms(3) [OF run] by simp
  with run assms(1,2) show ?thesis
    by (auto simp: leased_run_def memory_subscription_ops_def try_acquire_def lease_release_def split: sum.splits)
qed


section \<open>A subscription to everything\<close>

definition audit_subscriptions :: "(string \<rightharpoonup> string) \<Rightarrow> memory_subscriptions" where
  "audit_subscriptions leases = \<lparr>ms_subscriptions = [''audit'' \<mapsto> subscription_new ''audit'' ''*''],
     ms_checkpoints = Map.empty, ms_leases = leases\<rparr>"

definition audit_event :: stored_event where
  "audit_event = \<lparr>se_version = 0, se_envelope = demo_envelope, se_timestamp = 5\<rparr>"

definition audit_store :: memory_event_store where
  "audit_store = [''a'' \<mapsto> [audit_event]]"

theorem subscription_delivers_witness:
  "\<exists>h' cs'. subscription_run_stream (\<lambda>e log. (log @ [e], Inr ())) memory_subscription_ops (memory_event_ops (\<lambda>_. [''a''])) 1
      se_timestamp (subscription_new ''audit'' ''*'') ''a'' [audit_store] ([], audit_subscriptions Map.empty) =
     Some ((h', cs', 1), Inr ()) \<and> inspected cs' ''audit'' ''a'' = 1"
proof -
  let ?sub = "subscription_new ''audit'' ''*''" and ?cs = "audit_subscriptions Map.empty"
  let ?f = "\<lambda>e log. (log @ [e], Inr ())"
  have ev: "stream_events audit_store ''a'' = [audit_event]" by (simp add: stream_events_def audit_store_def)
  have name: "ps_name ?sub = ''audit''" "selected ?sub e" for e
    by (simp_all add: subscription_new_def selected_def matches_event_type_def)
  have "inspected_inv ?cs (ps_name ?sub)" "0 = inspected ?cs (ps_name ?sub) ''a''"
    by (simp_all add: audit_subscriptions_def inspected_inv_def inspected_def)
  moreover have "\<forall>s \<in> set [audit_store]. es_inv s" "1 \<le> max_event_store_page_size"
    by (simp_all add: audit_store_def es_inv_def numbered_def audit_event_def max_event_store_page_size_def)
  ultimately have "\<exists>s \<in> set [audit_store]. \<exists>j h' cs' r hj.
    subscription_run_stream ?f memory_subscription_ops (memory_event_ops (\<lambda>_. [''a''])) 1 se_timestamp ?sub ''a'' [audit_store] ([], ?cs) =
      Some ((h', cs', length (filter (selected ?sub) (take j (drop 0 (stream_events s ''a''))))), r) \<and>
    apply_all ?f (filter (selected ?sub) (take j (drop 0 (stream_events s ''a'')))) [] = Some hj \<and>
    inspected_inv cs' (ps_name ?sub) \<and> inspected cs' (ps_name ?sub) ''a'' = 0 + j \<and>
    (\<forall>k'. k' \<noteq> ''a'' \<longrightarrow> inspected cs' (ps_name ?sub) k' = inspected ?cs (ps_name ?sub) k') \<and>
    (case r of
       Inr _ \<Rightarrow> 0 + j = length (stream_events s ''a'') \<and> h' = hj
     | Inl e \<Rightarrow> 0 + j < length (stream_events s ''a'') \<and> ?f (stream_events s ''a'' ! (0 + j)) hj = (h', Inl e))"
    by (intro subscription_delivers) (simp_all add: ev)
  then show ?thesis
  proof (elim bexE exE conjE, goal_cases)
    case (1 s j h' cs' r hj)
    then show ?case by (cases r) (auto simp: ev name)
  qed
qed


end
