(* ===== verification/Snowflake.thy ===== *)
theory Snowflake
  imports Catga_Errors
begin

text \<open>
  Distributed identifiers (\<open>crates/catga-core/src/distributed_id.rs\<close>): the bit layout, the reservation of
  sequence numbers in one atomic word, the filling of a buffer, the decoding of an identifier and its
  decimal form. The compare-and-exchange loop of \<open>reserve_at\<close> is given twice, as one uninterrupted call
  and as the steps of any number of threads.
\<close>

section \<open>Layout\<close>

definition initialized :: u64 where
  "initialized = push_bit 63 1"

definition default_epoch_millis :: u64 where
  "default_epoch_millis = 1704067200000"

record snowflake_layout =
  ly_timestamp_bits :: u8
  ly_worker_id_bits :: u8
  ly_sequence_bits :: u8
  ly_epoch_millis :: u64

definition max_worker_id :: "snowflake_layout \<Rightarrow> u32" where
  "max_worker_id ly = ucast (push_bit (unat (ly_worker_id_bits ly)) (1 :: u64) - 1)"

definition max_sequence :: "snowflake_layout \<Rightarrow> u64" where
  "max_sequence ly = push_bit (unat (ly_sequence_bits ly)) 1 - 1"

definition timestamp_shift :: "snowflake_layout \<Rightarrow> u8" where
  "timestamp_shift ly = ly_worker_id_bits ly + ly_sequence_bits ly"

definition worker_id_shift :: "snowflake_layout \<Rightarrow> u8" where
  "worker_id_shift ly = ly_sequence_bits ly"

definition layout_validate :: "snowflake_layout \<Rightarrow> unit catga_result" where
  "layout_validate ly =
     (if (ucast (ly_timestamp_bits ly) :: u16) + ucast (ly_worker_id_bits ly) + ucast (ly_sequence_bits ly) \<noteq> 63
      then Inl (error_new Validation ''Snowflake timestamp, worker, and sequence bits must total 63'')
      else if \<not> (30 \<le> ly_timestamp_bits ly \<and> ly_timestamp_bits ly \<le> 50)
              \<or> ly_worker_id_bits ly > 20 \<or> ly_sequence_bits ly > 20
      then Inl (error_new Validation ''Snowflake bit allocation is outside the supported ranges'')
      else Inr ())"

definition layout_new :: "u8 \<Rightarrow> u8 \<Rightarrow> u8 \<Rightarrow> u64 \<Rightarrow> snowflake_layout catga_result" where
  "layout_new timestamp_bits worker_id_bits sequence_bits epoch_millis =
     (let layout = \<lparr>ly_timestamp_bits = timestamp_bits, ly_worker_id_bits = worker_id_bits,
                    ly_sequence_bits = sequence_bits, ly_epoch_millis = epoch_millis\<rparr>
      in bind_r (layout_validate layout) (\<lambda>_. Inr layout))"

definition layout_default :: snowflake_layout where
  "layout_default = \<lparr>ly_timestamp_bits = 44, ly_worker_id_bits = 8, ly_sequence_bits = 11,
     ly_epoch_millis = default_epoch_millis\<rparr>"

record id_metadata =
  im_timestamp_millis :: u64
  im_worker_id :: u32
  im_sequence :: u64

section \<open>Generator\<close>

text \<open>A generator is its layout, its worker and one atomic word; the word is passed and returned.\<close>

record snowflake =
  sf_worker_id :: u32
  sf_layout :: snowflake_layout

definition generator_new :: "u32 \<Rightarrow> snowflake_layout \<Rightarrow> (snowflake \<times> u64) catga_result" where
  "generator_new worker_id ly =
     bind_r (layout_validate ly) (\<lambda>_.
       if worker_id > max_worker_id ly
       then Inl (error_new Validation ''Snowflake worker identifier exceeds the configured layout'')
       else Inr (\<lparr>sf_worker_id = worker_id, sf_layout = ly\<rparr>, 0))"

record id_reservation =
  ir_timestamp_offset :: u64
  ir_start_sequence :: u64
  ir_count :: nat

definition now_offset :: "snowflake_layout \<Rightarrow> systime \<Rightarrow> u64 catga_result" where
  "now_offset ly now =
     bind_r (unix_ms_or (error_new Internal ''system time predates Unix epoch'')
               (error_new Internal ''system milliseconds overflow u64'') now) (\<lambda>ms.
       ok_or (error_new Transient ''Snowflake clock precedes the configured epoch'')
         (checked_sub ms (ly_epoch_millis ly)))"

text \<open>The loop reads the clock until it has moved on; it wants another read when the list is over.\<close>

fun wait_for_next_millis ::
  "snowflake_layout \<Rightarrow> u64 \<Rightarrow> systime list \<Rightarrow> u64 catga_result option" where
  "wait_for_next_millis ly last_offset [] = None"
| "wait_for_next_millis ly last_offset (now # clock) =
     (case now_offset ly now of
        Inl e \<Rightarrow> Some (Inl e)
      | Inr off \<Rightarrow> if off > last_offset then Some (Inr off) else wait_for_next_millis ly last_offset clock)"

text \<open>
  One pass of the loop of \<open>reserve_at\<close>, from the word it loaded: it returns, or it tries to exchange
  the word for the next one.
\<close>

datatype reserve_pass =
    Leave "id_reservation option catga_result"
  | Exchange u64 id_reservation

definition reserve_pass_of ::
  "snowflake_layout \<Rightarrow> u64 \<Rightarrow> u64 \<Rightarrow> (u64 \<times> u64) option catga_result" where
  "reserve_pass_of ly timestamp_offset current =
     (if current AND initialized = 0 then Inr (Some (timestamp_offset, 0))
      else let packed = current AND NOT initialized;
               last_timestamp = drop_bit (unat (ly_sequence_bits ly)) packed;
               last_sequence = packed AND max_sequence ly
           in if timestamp_offset < last_timestamp
              then Inl (error_new Transient ''Snowflake clock moved backwards'')
              else if timestamp_offset > last_timestamp then Inr (Some (timestamp_offset, 0))
              else if last_sequence < max_sequence ly then Inr (Some (last_timestamp, last_sequence + 1))
              else Inr None)"

definition reserve_pass :: "snowflake_layout \<Rightarrow> u64 \<Rightarrow> nat \<Rightarrow> u64 \<Rightarrow> reserve_pass" where
  "reserve_pass ly timestamp_offset requested current =
     (case reserve_pass_of ly timestamp_offset current of
        Inl e \<Rightarrow> Leave (Inl e)
      | Inr None \<Rightarrow> Leave (Inr None)
      | Inr (Some (reserved_timestamp, start_sequence)) \<Rightarrow>
          let available = max_sequence ly - start_sequence + 1;
              count = min requested (unat available);
              end_sequence = start_sequence + word_of_nat count - 1
          in Exchange (initialized OR push_bit (unat (ly_sequence_bits ly)) reserved_timestamp OR end_sequence)
               \<lparr>ir_timestamp_offset = reserved_timestamp, ir_start_sequence = start_sequence, ir_count = count\<rparr>)"

definition lifetime_over :: "snowflake_layout \<Rightarrow> u64 \<Rightarrow> bool" where
  "lifetime_over ly timestamp_offset \<longleftrightarrow> timestamp_offset \<ge> push_bit (unat (ly_timestamp_bits ly)) 1"

definition reserve_at ::
  "snowflake_layout \<Rightarrow> u64 \<Rightarrow> nat \<Rightarrow> u64 \<Rightarrow> u64 \<times> id_reservation option catga_result" where
  "reserve_at ly timestamp_offset requested st =
     (if requested = 0 then (st, Inr None)
      else if lifetime_over ly timestamp_offset
      then (st, Inl (error_new Validation ''Snowflake timestamp exceeds the configured layout lifetime''))
      else case reserve_pass ly timestamp_offset requested st of
             Leave r \<Rightarrow> (st, r)
           | Exchange next r \<Rightarrow> (next, Inr (Some r)))"

text \<open>The identifiers a reservation stands for, as \<open>fill\<close> writes them.\<close>

definition reservation_ids :: "snowflake \<Rightarrow> id_reservation \<Rightarrow> u64 list" where
  "reservation_ids g r =
     (let base = push_bit (unat (timestamp_shift (sf_layout g))) (ir_timestamp_offset r)
                 OR push_bit (unat (worker_id_shift (sf_layout g))) (ucast (sf_worker_id g))
      in map (\<lambda>offset. base OR (ir_start_sequence r + word_of_nat offset)) [0..<ir_count r])"

text \<open>
  The loop of \<open>fill\<close>. Each round is what the other threads did to the word before this thread's
  reservation took effect, and the clock readings of the round. \<open>written\<close> is the filled part of the buffer of \<open>n\<close> identifiers;
  \<^const>\<open>None\<close> means that the loop wants another round.
\<close>

fun fill_loop ::
  "snowflake \<Rightarrow> nat \<Rightarrow> ((u64 \<Rightarrow> u64) \<times> systime list) list \<Rightarrow> u64 \<Rightarrow> u64 list \<Rightarrow> u64
   \<Rightarrow> (u64 \<times> u64 list \<times> unit catga_result) option" where
  "fill_loop g n rounds timestamp_offset written st =
     (if length written \<ge> n then Some (st, written, Inr ())
      else case rounds of
        [] \<Rightarrow> None
      | (others, clock) # rounds' \<Rightarrow>
          (case reserve_at (sf_layout g) timestamp_offset (n - length written) (others st) of
             (st', Inl e) \<Rightarrow> Some (st', written, Inl e)
           | (st', Inr None) \<Rightarrow>
               (case wait_for_next_millis (sf_layout g) timestamp_offset clock of
                  None \<Rightarrow> None
                | Some (Inl e) \<Rightarrow> Some (st', written, Inl e)
                | Some (Inr off) \<Rightarrow> fill_loop g n rounds' off written st')
           | (st', Inr (Some r)) \<Rightarrow>
               (case clock of
                  [] \<Rightarrow> None
                | now # _ \<Rightarrow>
                    (case now_offset (sf_layout g) now of
                       Inl e \<Rightarrow> Some (st', written @ reservation_ids g r, Inl e)
                     | Inr off \<Rightarrow> fill_loop g n rounds' off (written @ reservation_ids g r) st'))))"

definition fill ::
  "snowflake \<Rightarrow> nat \<Rightarrow> systime \<Rightarrow> ((u64 \<Rightarrow> u64) \<times> systime list) list \<Rightarrow> u64
   \<Rightarrow> (u64 \<times> u64 list \<times> unit catga_result) option" where
  "fill g n now rounds st =
     (case now_offset (sf_layout g) now of
        Inl e \<Rightarrow> Some (st, [], Inl e)
      | Inr off \<Rightarrow> fill_loop g n rounds off [] st)"

definition next_id ::
  "snowflake \<Rightarrow> systime \<Rightarrow> ((u64 \<Rightarrow> u64) \<times> systime list) list \<Rightarrow> u64 \<Rightarrow> (u64 \<times> u64 catga_result) option" where
  "next_id g now rounds st =
     map_option (\<lambda>(st', ids, r). (st', bind_r r (\<lambda>_. Inr (hd ids)))) (fill g 1 now rounds st)"

definition id_parse :: "snowflake \<Rightarrow> u64 \<Rightarrow> id_metadata" where
  "id_parse g ident =
     (let ly = sf_layout g in
      \<lparr>im_timestamp_millis = drop_bit (unat (timestamp_shift ly)) ident + ly_epoch_millis ly,
       im_worker_id = ucast (drop_bit (unat (worker_id_shift ly)) ident AND ucast (max_worker_id ly)),
       im_sequence = ident AND max_sequence ly\<rparr>)"

section \<open>Decimal form\<close>

function count_digits :: "u64 \<Rightarrow> nat" where
  "count_digits remaining = (if remaining \<ge> 10 then count_digits (remaining div 10) + 1 else 1)"
  by pat_completeness auto
termination
proof (relation "measure unat")
  fix r :: u64
  assume "10 \<le> r"
  then show "(r div 10, r) \<in> measure unat"
    by (simp add: unat_div word_le_nat_alt)
qed simp

text \<open>The \<open>for\<close> loop that writes the digits backwards, from the given index down to the first byte.\<close>

fun write_digits :: "nat \<Rightarrow> u64 \<Rightarrow> u8 list \<Rightarrow> u8 list" where
  "write_digits 0 v destination = destination"
| "write_digits (Suc index) v destination =
     write_digits index (v div 10) (destination[index := 48 + ucast (v mod 10)])"

definition write_decimal_u64 :: "u64 \<Rightarrow> u8 list \<Rightarrow> u8 list \<times> nat option" where
  "write_decimal_u64 v destination =
     (let digits = count_digits v in
      if length destination < digits then (destination, None)
      else (write_digits digits v destination, Some digits))"

definition try_write_next_id ::
  "snowflake \<Rightarrow> systime \<Rightarrow> ((u64 \<Rightarrow> u64) \<times> systime list) list \<Rightarrow> u8 list \<Rightarrow> u64
   \<Rightarrow> (u64 \<times> u8 list \<times> nat option catga_result) option" where
  "try_write_next_id g now rounds destination st =
     map_option (\<lambda>(st', r). case r of
         Inl e \<Rightarrow> (st', destination, Inl e)
       | Inr ident \<Rightarrow> (case write_decimal_u64 ident destination of (d, w) \<Rightarrow> (st', d, Inr w)))
       (next_id g now rounds st)"

declare count_digits.simps [simp del] fill_loop.simps [simp del]

section \<open>The layout\<close>

lemma layout_bits:
  assumes "layout_validate ly = Inr ()"
  shows "unat (ly_timestamp_bits ly) + unat (ly_worker_id_bits ly) + unat (ly_sequence_bits ly) = 63"
    and "unat (ly_timestamp_bits ly) \<le> 50" "unat (ly_worker_id_bits ly) \<le> 20"
    and "unat (ly_sequence_bits ly) \<le> 20" "30 \<le> unat (ly_timestamp_bits ly)"
proof -
  from assms show le: "unat (ly_timestamp_bits ly) \<le> 50" "unat (ly_worker_id_bits ly) \<le> 20"
    "unat (ly_sequence_bits ly) \<le> 20" "30 \<le> unat (ly_timestamp_bits ly)"
    by (auto simp: layout_validate_def word_le_nat_alt word_less_nat_alt split: if_splits)
  from assms have "(ucast (ly_timestamp_bits ly) :: u16) + ucast (ly_worker_id_bits ly) + ucast (ly_sequence_bits ly) = 63"
    by (auto simp: layout_validate_def split: if_splits)
  then have "unat ((ucast (ly_timestamp_bits ly) :: u16) + ucast (ly_worker_id_bits ly) + ucast (ly_sequence_bits ly)) = 63"
    by simp
  then show "unat (ly_timestamp_bits ly) + unat (ly_worker_id_bits ly) + unat (ly_sequence_bits ly) = 63"
    using le by (simp add: unat_word_ariths unsigned_ucast_eq take_bit_nat_eq_self)
qed


section \<open>Slots\<close>

text \<open>
  A slot is a pair of a millisecond and a sequence number, counted in order. The word stands for the
  number of the first slot that has not been handed out.
\<close>

definition next_slot :: "u64 \<Rightarrow> nat" where
  "next_slot st = (if st = 0 then 0 else unat st - 2 ^ 63 + 1)"

definition slots_below :: "snowflake_layout \<Rightarrow> nat" where
  "slots_below ly = 2 ^ (unat (ly_timestamp_bits ly) + unat (ly_sequence_bits ly))"

definition snow_inv :: "snowflake_layout \<Rightarrow> u64 \<Rightarrow> bool" where
  "snow_inv ly st \<longleftrightarrow> st = 0 \<or> 2 ^ 63 \<le> unat st \<and> unat st - 2 ^ 63 < slots_below ly"

definition first_slot :: "snowflake_layout \<Rightarrow> id_reservation \<Rightarrow> nat" where
  "first_slot ly r =
     unat (ir_timestamp_offset r) * 2 ^ unat (ly_sequence_bits ly) + unat (ir_start_sequence r)"

definition slot_id :: "snowflake \<Rightarrow> nat \<Rightarrow> nat" where
  "slot_id g k =
     (let sb = unat (ly_sequence_bits (sf_layout g)); wb = unat (ly_worker_id_bits (sf_layout g)) in
      k div 2 ^ sb * 2 ^ (wb + sb) + unat (sf_worker_id g) * 2 ^ sb + k mod 2 ^ sb)"

lemma unat_initialized_or:
  fixes x :: u64
  assumes "unat x < 2 ^ 63"
  shows "unat (initialized OR x) = 2 ^ 63 + unat x"
  using unat_push_or [of x 63 1] assms by (simp add: initialized_def del: push_bit_of_1)

lemma bit_initialized: "bit initialized n \<longleftrightarrow> n = 63"
  unfolding initialized_def bit_push_bit_iff by (auto simp: bit_1_iff)

lemma and_initialized:
  fixes w :: u64
  assumes "2 ^ 63 \<le> unat w"
  shows "w AND initialized \<noteq> 0" and "unat (w AND NOT initialized) = unat w - 2 ^ 63"
proof -
  have "unat w < 2 ^ 64" using unsigned_less [of w, where 'a = nat] by simp
  then have "unat w div 2 ^ 63 = 1" using assms by simp
  then have "bit (unat w) 63" by (simp add: bit_iff_odd)
  then have "bit w 63" by (simp add: bit_unsigned_iff)
  then have "bit (w AND initialized) 63" by (simp add: bit_and_iff bit_initialized)
  then show "w AND initialized \<noteq> 0" by auto
  have "(w AND NOT initialized) + initialized = w"
  proof -
    have "(w AND NOT initialized) AND initialized = 0" by (rule bit_eqI) (auto simp: bit_simps)
    then have "(w AND NOT initialized) + initialized = (w AND NOT initialized) OR initialized"
      by (rule disjunctive_add_eq_or)
    also have "\<dots> = w"
      using \<open>bit w 63\<close> by (intro bit_eqI) (auto simp: bit_simps bit_initialized)
    finally show ?thesis .
  qed
  then have "w AND NOT initialized = w - initialized" by (metis add_diff_cancel_right')
  moreover have "unat initialized = 2 ^ 63" unfolding initialized_def by (rule unat_exp) simp
  moreover from this assms have "initialized \<le> w" by (simp add: word_le_nat_alt)
  ultimately show "unat (w AND NOT initialized) = unat w - 2 ^ 63" by (simp add: unat_sub)
qed


lemma max_sequence_unat:
  assumes "layout_validate ly = Inr ()"
  shows "unat (max_sequence ly) = 2 ^ unat (ly_sequence_bits ly) - 1"
  unfolding max_sequence_def using layout_bits(4) [OF assms] by (intro unat_exp_minus_1) simp

lemma sequence_less:
  assumes "layout_validate ly = Inr ()" "unat s \<le> unat (max_sequence ly)"
  shows "unat s < 2 ^ unat (ly_sequence_bits ly)"
  using assms by (simp add: max_sequence_unat) (metis Suc_pred le_imp_less_Suc zero_less_numeral zero_less_power)

lemma in_lifetime:
  assumes "layout_validate ly = Inr ()" "\<not> lifetime_over ly ts"
  shows "unat ts < 2 ^ unat (ly_timestamp_bits ly)"
  using assms(2) unat_exp [of "unat (ly_timestamp_bits ly)", where 'a = 64] layout_bits(2) [OF assms(1)]
  by (simp add: lifetime_over_def word_le_nat_alt not_le del: push_bit_of_1)

lemma slots_below_le:
  assumes "layout_validate ly = Inr ()"
  shows "slots_below ly \<le> 2 ^ 63"
  unfolding slots_below_def using layout_bits(1) [OF assms] by (intro power_increasing) simp_all

text \<open>The word after a reservation, and the slots it took.\<close>

lemma packed_word:
  assumes "layout_validate ly = Inr ()" "unat ts < 2 ^ unat (ly_timestamp_bits ly)"
    "unat s < 2 ^ unat (ly_sequence_bits ly)"
  defines "w \<equiv> initialized OR push_bit (unat (ly_sequence_bits ly)) ts OR s"
  shows "snow_inv ly w" and "next_slot w = unat ts * 2 ^ unat (ly_sequence_bits ly) + unat s + 1"
proof -
  let ?sb = "unat (ly_sequence_bits ly)"
  have b: "unat ts * 2 ^ ?sb + unat s < slots_below ly"
    unfolding slots_below_def using assms(2,3) by (rule slot_bounded)
  then have "unat ts * 2 ^ ?sb < 2 ^ LENGTH(64)" using slots_below_le [OF assms(1)] by simp
  with assms(3) have x: "unat (push_bit ?sb ts OR s) = unat ts * 2 ^ ?sb + unat s" by (rule unat_push_or)
  with b have "unat (push_bit ?sb ts OR s) < 2 ^ 63" using slots_below_le [OF assms(1)] by simp
  then have w: "unat w = 2 ^ 63 + (unat ts * 2 ^ ?sb + unat s)"
    unfolding w_def x [symmetric] by (rule unat_initialized_or)
  then show "snow_inv ly w" using b by (simp add: snow_inv_def)
  from w have "w \<noteq> 0" by auto
  with w show "next_slot w = unat ts * 2 ^ ?sb + unat s + 1" by (simp add: next_slot_def)
qed

lemma unpacked_word:
  assumes "layout_validate ly = Inr ()" "snow_inv ly st"
  shows "st AND initialized = 0 \<longleftrightarrow> st = 0"
    and "st \<noteq> 0 \<Longrightarrow> unat (drop_bit (unat (ly_sequence_bits ly)) (st AND NOT initialized)) =
      (next_slot st - 1) div 2 ^ unat (ly_sequence_bits ly)"
    and "st \<noteq> 0 \<Longrightarrow> unat ((st AND NOT initialized) AND max_sequence ly) =
      (next_slot st - 1) mod 2 ^ unat (ly_sequence_bits ly)"
proof -
  have big: "2 ^ 63 \<le> unat st" if "st \<noteq> 0" using that assms(2) by (simp add: snow_inv_def)
  show "st AND initialized = 0 \<longleftrightarrow> st = 0" using and_initialized(1) [OF big] by auto
  show "unat (drop_bit (unat (ly_sequence_bits ly)) (st AND NOT initialized)) =
      (next_slot st - 1) div 2 ^ unat (ly_sequence_bits ly)" if "st \<noteq> 0"
    using that unfolding unat_drop and_initialized(2) [OF big [OF that]] by (simp add: next_slot_def)
  show "unat ((st AND NOT initialized) AND max_sequence ly) =
      (next_slot st - 1) mod 2 ^ unat (ly_sequence_bits ly)" if "st \<noteq> 0"
    unfolding max_sequence_def using layout_bits(4) [OF assms(1)] that
    by (subst unat_and_mask) (simp_all add: and_initialized(2) [OF big [OF that]] next_slot_def)
qed


lemma reserve_start:
  assumes "layout_validate ly = Inr ()" "snow_inv ly st"
    "reserve_pass_of ly ts st = Inr (Some (rt, ss))"
  shows "rt = ts" and "unat ss \<le> unat (max_sequence ly)"
    and "next_slot st \<le> unat ts * 2 ^ unat (ly_sequence_bits ly) + unat ss"
proof -
  let ?p = "2 ^ unat (ly_sequence_bits ly) :: nat"
  note un = unpacked_word [OF assms(1,2)]
  consider (fresh) "rt = ts" "ss = 0" "st = 0"
    | (later) "rt = ts" "ss = 0" "st \<noteq> 0" "(next_slot st - 1) div ?p < unat ts"
    | (same) "rt = ts" "st \<noteq> 0" "(next_slot st - 1) div ?p = unat ts"
        "(next_slot st - 1) mod ?p < unat (max_sequence ly)" "unat ss = (next_slot st - 1) mod ?p + 1"
  proof -
    let ?lt = "drop_bit (unat (ly_sequence_bits ly)) (st AND NOT initialized)"
    let ?ls = "(st AND NOT initialized) AND max_sequence ly"
    have succ: "unat (?ls + 1) = unat ?ls + 1" if "?ls < max_sequence ly"
      using that unsigned_less [of "max_sequence ly", where 'a = nat] by (simp add: unat_word_ariths word_less_nat_alt)
    from assms(3) consider "st AND initialized = 0" "rt = ts" "ss = 0"
      | "st AND initialized \<noteq> 0" "?lt < ts" "rt = ts" "ss = 0"
      | "st AND initialized \<noteq> 0" "?lt = ts" "?ls < max_sequence ly" "rt = ?lt" "ss = ?ls + 1"
      by (auto simp: reserve_pass_of_def Let_def not_less split: if_splits)
    then show ?thesis
      using that un succ by cases (auto simp: word_less_nat_alt)
  qed
  then have "rt = ts \<and> unat ss \<le> unat (max_sequence ly) \<and> next_slot st \<le> unat ts * ?p + unat ss"
  proof cases
    case fresh
    then show ?thesis by (simp add: next_slot_def)
  next
    case later
    then have "Suc ((next_slot st - 1) div ?p) * ?p \<le> unat ts * ?p" by (intro mult_right_mono) simp_all
    moreover have "next_slot st - 1 < Suc ((next_slot st - 1) div ?p) * ?p"
      using dividend_less_times_div [of ?p "next_slot st - 1"] by (simp add: mult.commute)
    ultimately show ?thesis using later by simp
  next
    case same
    have "(next_slot st - 1) div ?p * ?p + (next_slot st - 1) mod ?p = next_slot st - 1" by (rule div_mult_mod_eq)
    with same show ?thesis by simp
  qed
  then show "rt = ts" "unat ss \<le> unat (max_sequence ly)"
    "next_slot st \<le> unat ts * ?p + unat ss" by simp_all
qed

lemma reserve_pass_slots:
  assumes "layout_validate ly = Inr ()" "snow_inv ly st" "\<not> lifetime_over ly ts" "0 < requested"
    "reserve_pass ly ts requested st = Exchange nxt r"
  shows "snow_inv ly nxt \<and> next_slot st \<le> first_slot ly r \<and> next_slot nxt = first_slot ly r + ir_count r
    \<and> 0 < ir_count r \<and> ir_count r \<le> requested \<and> ir_timestamp_offset r = ts
    \<and> unat (ir_start_sequence r) + ir_count r \<le> 2 ^ unat (ly_sequence_bits ly)"
proof -
  let ?p = "2 ^ unat (ly_sequence_bits ly) :: nat"
  let ?m = "unat (max_sequence ly)"
  from assms(5) obtain rt ss where of: "reserve_pass_of ly ts st = Inr (Some (rt, ss))"
    and r: "r = \<lparr>ir_timestamp_offset = rt, ir_start_sequence = ss, ir_count = min requested (unat (max_sequence ly - ss + 1))\<rparr>"
    and nxt: "nxt = initialized OR push_bit (unat (ly_sequence_bits ly)) rt OR
      (ss + word_of_nat (min requested (unat (max_sequence ly - ss + 1))) - 1)"
    by (auto simp: reserve_pass_def Let_def split: sum.splits option.splits)
  note st = reserve_start [OF assms(1,2) of]
  have m: "Suc ?m = ?p" using max_sequence_unat [OF assms(1)] by simp
  have "?p \<le> 2 ^ 20" using layout_bits(4) [OF assms(1)] by (intro power_increasing) simp_all
  then have m20: "?m < 2 ^ 20" using m by simp
  have av: "unat (max_sequence ly - ss + 1) = ?m - unat ss + 1"
  proof -
    have "unat (max_sequence ly - ss) = ?m - unat ss" using st(2) by (simp add: unat_sub word_le_nat_alt)
    moreover have "?m - unat ss + 1 < 2 ^ 64" using m20 by simp
    ultimately show ?thesis by (simp add: unat_word_ariths)
  qed
  define c where "c = min requested (unat (max_sequence ly - ss + 1))"
  have c: "0 < c" "c \<le> requested" "unat ss + c \<le> ?p"
    using assms(4) st(2) m by (auto simp: c_def av)
  have "unat (word_of_nat c :: u64) = c" using c(3) m m20 by (simp add: unat_of_nat)
  then have sum: "unat (ss + word_of_nat c) = unat ss + c"
    using c(3) m m20 by (simp add: unat_word_ariths)
  then have "1 \<le> ss + word_of_nat c" using c(1) by (simp add: word_le_nat_alt)
  then have e: "unat (ss + word_of_nat c - 1) = unat ss + c - 1" using sum by (simp add: unat_sub)
  then have "unat (ss + word_of_nat c - 1) < ?p" using c(1,3) by simp
  from packed_word [OF assms(1) in_lifetime [OF assms(1,3)] this]
  show ?thesis
    using c st e unfolding r nxt c_def [symmetric] by (simp add: first_slot_def)
qed


section \<open>Identifiers\<close>

definition generator_ok :: "snowflake \<Rightarrow> bool" where
  "generator_ok g \<longleftrightarrow> layout_validate (sf_layout g) = Inr () \<and> sf_worker_id g \<le> max_worker_id (sf_layout g)"

definition reservation_ok :: "snowflake_layout \<Rightarrow> id_reservation \<Rightarrow> bool" where
  "reservation_ok ly r \<longleftrightarrow> unat (ir_timestamp_offset r) < 2 ^ unat (ly_timestamp_bits ly) \<and>
     unat (ir_start_sequence r) + ir_count r \<le> 2 ^ unat (ly_sequence_bits ly)"

lemma worker_fits:
  assumes "generator_ok g"
  shows "unat (sf_worker_id g) < 2 ^ unat (ly_worker_id_bits (sf_layout g))"
    and "unat (max_worker_id (sf_layout g)) = 2 ^ unat (ly_worker_id_bits (sf_layout g)) - 1"
proof -
  let ?wb = "unat (ly_worker_id_bits (sf_layout g))"
  have wb: "?wb \<le> 20" using assms layout_bits(3) by (simp add: generator_ok_def)
  then have p: "(2 :: nat) ^ ?wb \<le> 2 ^ 20" by (intro power_increasing) simp_all
  show m: "unat (max_worker_id (sf_layout g)) = 2 ^ ?wb - 1"
    unfolding max_worker_id_def unsigned_ucast_eq
    using wb p by (simp add: unat_exp_minus_1 take_bit_nat_eq_self del: push_bit_of_1)
  have "unat (sf_worker_id g) \<le> 2 ^ ?wb - 1"
    using assms unfolding generator_ok_def word_le_nat_alt m by blast
  moreover have "(0 :: nat) < 2 ^ ?wb" by simp
  ultimately show "unat (sf_worker_id g) < 2 ^ ?wb" by linarith
qed

lemma timestamp_shift_unat:
  assumes "layout_validate ly = Inr ()"
  shows "unat (timestamp_shift ly) = unat (ly_worker_id_bits ly) + unat (ly_sequence_bits ly)"
  using layout_bits(3,4) [OF assms] by (simp add: timestamp_shift_def unat_word_ariths)

text \<open>An identifier is the number its three fields spell.\<close>

lemma id_fields:
  fixes ts s :: u64
  assumes "generator_ok g" "unat ts < 2 ^ unat (ly_timestamp_bits (sf_layout g))"
    "unat s < 2 ^ unat (ly_sequence_bits (sf_layout g))"
  shows "unat ((push_bit (unat (timestamp_shift (sf_layout g))) ts
      OR push_bit (unat (worker_id_shift (sf_layout g))) (ucast (sf_worker_id g))) OR s) =
    unat ts * 2 ^ (unat (ly_worker_id_bits (sf_layout g)) + unat (ly_sequence_bits (sf_layout g)))
      + unat (sf_worker_id g) * 2 ^ unat (ly_sequence_bits (sf_layout g)) + unat s"
proof -
  let ?ly = "sf_layout g"
  let ?wb = "unat (ly_worker_id_bits ?ly)" and ?sb = "unat (ly_sequence_bits ?ly)" and ?tb = "unat (ly_timestamp_bits ?ly)"
  have v: "layout_validate ?ly = Inr ()" using assms(1) by (simp add: generator_ok_def)
  have w: "unat (ucast (sf_worker_id g) :: u64) = unat (sf_worker_id g)"
    using unsigned_less [of "sf_worker_id g", where 'a = nat] by (simp add: unsigned_ucast_eq take_bit_nat_eq_self)
  have low: "unat (sf_worker_id g) * 2 ^ ?sb + unat s < 2 ^ (?wb + ?sb)"
    using worker_fits(1) [OF assms(1)] assms(3) by (rule slot_bounded)
  also have le: "(2 :: nat) ^ (?wb + ?sb) \<le> 2 ^ 64"
    using layout_bits(3,4) [OF v] by (intro power_increasing) simp_all
  finally have x: "unat (push_bit ?sb (ucast (sf_worker_id g) :: u64) OR s) = unat (sf_worker_id g) * 2 ^ ?sb + unat s"
    using assms(3) by (subst unat_push_or) (simp_all add: w)
  have "unat ts * 2 ^ (?wb + ?sb) + 0 < 2 ^ (?tb + (?wb + ?sb))" using assms(2) by (rule slot_bounded) simp
  also have "\<dots> = 2 ^ 63" using layout_bits(1) [OF v] by (simp add: add.assoc)
  finally have "unat (push_bit (?wb + ?sb) ts OR (push_bit ?sb (ucast (sf_worker_id g)) OR s)) =
    unat ts * 2 ^ (?wb + ?sb) + (unat (sf_worker_id g) * 2 ^ ?sb + unat s)"
    using low by (subst unat_push_or) (simp_all add: x)
  then show ?thesis by (simp add: timestamp_shift_unat [OF v] worker_id_shift_def or.assoc add.assoc)
qed

lemma reservation_ids_slots:
  assumes "generator_ok g" "reservation_ok (sf_layout g) r"
  shows "map unat (reservation_ids g r) = map (slot_id g) [first_slot (sf_layout g) r..<first_slot (sf_layout g) r + ir_count r]"
proof (rule nth_equalityI)
  fix i assume "i < length (map unat (reservation_ids g r))"
  then have i: "i < ir_count r" by (simp add: reservation_ids_def)
  let ?ly = "sf_layout g"
  let ?sb = "unat (ly_sequence_bits ?ly)"
  have v: "layout_validate ?ly = Inr ()" using assms(1) by (simp add: generator_ok_def)
  have "(2 :: nat) ^ ?sb \<le> 2 ^ 20" using layout_bits(4) [OF v] by (intro power_increasing) simp_all
  then have si: "unat (ir_start_sequence r) + i < 2 ^ 20" "unat (ir_start_sequence r) + i < 2 ^ ?sb"
    using assms(2) i by (auto simp: reservation_ok_def)
  then have s: "unat (ir_start_sequence r + word_of_nat i) = unat (ir_start_sequence r) + i"
    by (simp add: unat_word_ariths unat_of_nat)
  have slot: "slot_id g (first_slot ?ly r + i) = unat (ir_timestamp_offset r) *
      2 ^ (unat (ly_worker_id_bits ?ly) + ?sb) + unat (sf_worker_id g) * 2 ^ ?sb + (unat (ir_start_sequence r) + i)"
    unfolding slot_id_def Let_def first_slot_def add.assoc slot_div_mod [OF si(2)] by simp
  from id_fields [OF assms(1), of "ir_timestamp_offset r" "ir_start_sequence r + word_of_nat i"] assms(2) si(2) s
  show "map unat (reservation_ids g r) ! i =
      map (slot_id g) [first_slot ?ly r..<first_slot ?ly r + ir_count r] ! i"
    using i by (simp add: reservation_ids_def reservation_ok_def slot Let_def)
qed (simp add: reservation_ids_def)

lemma slot_id_mono: "strict_mono (slot_id g)" if "generator_ok g"
proof (rule strict_monoI)
  fix a b :: nat
  assume ab: "a < b"
  let ?sb = "unat (ly_sequence_bits (sf_layout g))" and ?wb = "unat (ly_worker_id_bits (sf_layout g))"
  let ?w = "unat (sf_worker_id g) * 2 ^ ?sb"
  show "slot_id g a < slot_id g b"
  proof (cases "a div 2 ^ ?sb = b div 2 ^ ?sb")
    case True
    then have "a mod 2 ^ ?sb < b mod 2 ^ ?sb"
      using ab by (intro mod_less_of_div_eq)
    with True show ?thesis by (simp add: slot_id_def Let_def)
  next
    case False
    then have "a div 2 ^ ?sb < b div 2 ^ ?sb" using div_le_mono [OF less_imp_le [OF ab], of "2 ^ ?sb"] by linarith
    then have "Suc (a div 2 ^ ?sb) * 2 ^ (?wb + ?sb) \<le> b div 2 ^ ?sb * 2 ^ (?wb + ?sb)"
      by (intro mult_right_mono) simp_all
    moreover have "?w + a mod 2 ^ ?sb < 2 ^ (?wb + ?sb)"
      using worker_fits(1) [OF that] by (rule slot_bounded) simp
    ultimately show ?thesis by (simp add: slot_id_def Let_def)
  qed
qed


lemma parse_fields:
  assumes "generator_ok g" "unat s < 2 ^ unat (ly_sequence_bits (sf_layout g))"
    "unat ident = unat ts * 2 ^ (unat (ly_worker_id_bits (sf_layout g)) + unat (ly_sequence_bits (sf_layout g)))
      + unat (sf_worker_id g) * 2 ^ unat (ly_sequence_bits (sf_layout g)) + unat s"
  shows "id_parse g ident = \<lparr>im_timestamp_millis = ts + ly_epoch_millis (sf_layout g),
    im_worker_id = sf_worker_id g, im_sequence = s\<rparr>"
proof -
  let ?ly = "sf_layout g"
  let ?wb = "unat (ly_worker_id_bits ?ly)" and ?sb = "unat (ly_sequence_bits ?ly)" and ?w = "unat (sf_worker_id g)"
  have v: "layout_validate ?ly = Inr ()" using assms(1) by (simp add: generator_ok_def)
  have low: "?w * 2 ^ ?sb + unat s < 2 ^ (?wb + ?sb)"
    using worker_fits(1) [OF assms(1)] assms(2) by (rule slot_bounded)
  have spelled: "unat ident = (unat ts * 2 ^ ?wb + ?w) * 2 ^ ?sb + unat s"
    unfolding assms(3) by (simp add: power_add algebra_simps)
  have "drop_bit (unat (timestamp_shift ?ly)) ident = ts"
    unfolding word_unat_eq_iff unat_drop timestamp_shift_unat [OF v] assms(3) add.assoc
    by (rule slot_div_mod(1) [OF low])
  moreover have "unat (drop_bit ?sb ident AND ucast (max_worker_id ?ly)) = ?w"
  proof -
    have d: "unat (drop_bit ?sb ident) = unat ts * 2 ^ ?wb + ?w"
      unfolding unat_drop spelled by (rule slot_div_mod(1) [OF assms(2)])
    have "unat (ucast (max_worker_id ?ly) :: u64) = mask ?wb"
      using worker_fits(2) [OF assms(1)] unsigned_less [of "max_worker_id ?ly", where 'a = nat]
      by (simp add: unsigned_ucast_eq take_bit_nat_eq_self mask_eq_exp_minus_1)
    then have "unat (drop_bit ?sb ident AND ucast (max_worker_id ?ly)) = (unat ts * 2 ^ ?wb + ?w) mod 2 ^ ?wb"
      by (simp only: unsigned_and_eq d flip: take_bit_eq_mask) (simp add: take_bit_eq_mod)
    then show ?thesis unfolding slot_div_mod(2) [OF worker_fits(1) [OF assms(1)]] .
  qed
  then have "(ucast (drop_bit ?sb ident AND ucast (max_worker_id ?ly)) :: u32) = sf_worker_id g"
    using unsigned_less [of "sf_worker_id g", where 'a = nat]
    by (simp add: word_unat_eq_iff unsigned_ucast_eq take_bit_nat_eq_self)
  moreover have "ident AND max_sequence ?ly = s"
  proof -
    have sb: "?sb < LENGTH(64)" using layout_bits(4) [OF v] by simp
    show ?thesis
      unfolding word_unat_eq_iff max_sequence_def unat_and_mask [OF sb] spelled by (rule slot_div_mod(2) [OF assms(2)])
  qed
  ultimately show ?thesis by (simp add: id_parse_def Let_def worker_id_shift_def)
qed


lemma reservation_parse:
  assumes "generator_ok g" "reservation_ok (sf_layout g) r" "i < ir_count r"
  shows "id_parse g (reservation_ids g r ! i) =
    \<lparr>im_timestamp_millis = ir_timestamp_offset r + ly_epoch_millis (sf_layout g),
     im_worker_id = sf_worker_id g, im_sequence = ir_start_sequence r + word_of_nat i\<rparr>"
proof -
  let ?ly = "sf_layout g"
  let ?sb = "unat (ly_sequence_bits ?ly)"
  have v: "layout_validate ?ly = Inr ()" using assms(1) by (simp add: generator_ok_def)
  have "(2 :: nat) ^ ?sb \<le> 2 ^ 20" using layout_bits(4) [OF v] by (intro power_increasing) simp_all
  then have "unat (ir_start_sequence r) + i < 2 ^ 20" "unat (ir_start_sequence r) + i < 2 ^ ?sb"
    using assms(2,3) by (auto simp: reservation_ok_def)
  then have s: "unat (ir_start_sequence r + word_of_nat i) < 2 ^ ?sb" by (simp add: unat_word_ariths unat_of_nat)
  have ts: "unat (ir_timestamp_offset r) < 2 ^ unat (ly_timestamp_bits ?ly)"
    using assms(2) by (simp add: reservation_ok_def)
  show ?thesis
    using parse_fields [OF assms(1) s id_fields [OF assms(1) ts s]] assms(3)
    by (simp add: reservation_ids_def Let_def)
qed

lemma slot_id_bound:
  assumes "generator_ok g" "k < slots_below (sf_layout g)"
  shows "slot_id g k < 2 ^ 63"
proof -
  let ?ly = "sf_layout g"
  let ?wb = "unat (ly_worker_id_bits ?ly)" and ?sb = "unat (ly_sequence_bits ?ly)" and ?tb = "unat (ly_timestamp_bits ?ly)"
  have v: "layout_validate ?ly = Inr ()" using assms(1) by (simp add: generator_ok_def)
  have "unat (sf_worker_id g) * 2 ^ ?sb + k mod 2 ^ ?sb < 2 ^ (?wb + ?sb)"
    using worker_fits(1) [OF assms(1)] by (rule slot_bounded) simp
  with less_mult_imp_div_less [of k "2 ^ ?tb" "2 ^ ?sb"] assms(2)
  have "k div 2 ^ ?sb * 2 ^ (?wb + ?sb) + (unat (sf_worker_id g) * 2 ^ ?sb + k mod 2 ^ ?sb) < 2 ^ (?tb + (?wb + ?sb))"
    by (intro slot_bounded [of "k div 2 ^ ?sb"]) (simp_all add: slots_below_def power_add)
  also have "\<dots> = 2 ^ 63" using layout_bits(1) [OF v] by (simp add: add.assoc)
  finally show ?thesis by (simp add: slot_id_def Let_def)
qed


section \<open>Interleaved reservations\<close>

text \<open>
  Any number of threads in the loop of \<open>reserve_at\<close>: a thread starts with a time offset and a number of
  identifiers that passed the guards, loads the word, and leaves, exchanges the word or, when another
  thread was faster, starts over. The log lists the reservations in the order of their exchanges.
\<close>

datatype snow_position = SIdle | SStart u64 nat | SLoaded u64 nat u64

record 't snow_state =
  sn_word :: u64
  sn_at :: "'t \<Rightarrow> snow_position"
  sn_log :: "id_reservation list"

inductive snow_step :: "snowflake_layout \<Rightarrow> 't snow_state \<Rightarrow> 't snow_state \<Rightarrow> bool" for ly where
  snow_start:
    "sn_at s t = SIdle \<Longrightarrow> requested \<noteq> 0 \<Longrightarrow> \<not> lifetime_over ly ts \<Longrightarrow>
     snow_step ly s (s\<lparr>sn_at := (sn_at s)(t := SStart ts requested)\<rparr>)"
| snow_load:
    "sn_at s t = SStart ts requested \<Longrightarrow>
     snow_step ly s (s\<lparr>sn_at := (sn_at s)(t := SLoaded ts requested (sn_word s))\<rparr>)"
| snow_leave:
    "sn_at s t = SLoaded ts requested current \<Longrightarrow> reserve_pass ly ts requested current = Leave r \<Longrightarrow>
     snow_step ly s (s\<lparr>sn_at := (sn_at s)(t := SIdle)\<rparr>)"
| snow_exchange:
    "sn_at s t = SLoaded ts requested current \<Longrightarrow> reserve_pass ly ts requested current = Exchange nxt r \<Longrightarrow>
     sn_word s = current \<Longrightarrow>
     snow_step ly s (s\<lparr>sn_word := nxt, sn_at := (sn_at s)(t := SIdle), sn_log := sn_log s @ [r]\<rparr>)"
| snow_spin:
    "sn_at s t = SLoaded ts requested current \<Longrightarrow> reserve_pass ly ts requested current = Exchange nxt r \<Longrightarrow>
     sn_word s \<noteq> current \<Longrightarrow>
     snow_step ly s (s\<lparr>sn_at := (sn_at s)(t := SStart ts requested)\<rparr>)"

definition snow_init :: "u64 \<Rightarrow> 't snow_state" where
  "snow_init st = \<lparr>sn_word = st, sn_at = (\<lambda>_. SIdle), sn_log = []\<rparr>"

definition slots :: "snowflake_layout \<Rightarrow> id_reservation \<Rightarrow> nat list" where
  "slots ly r = [first_slot ly r..<first_slot ly r + ir_count r]"

fun position_ok :: "snowflake_layout \<Rightarrow> snow_position \<Rightarrow> bool" where
  "position_ok ly SIdle = True"
| "position_ok ly (SStart ts requested) = (0 < requested \<and> \<not> lifetime_over ly ts)"
| "position_ok ly (SLoaded ts requested current) = (0 < requested \<and> \<not> lifetime_over ly ts)"

definition log_inv :: "snowflake_layout \<Rightarrow> 't snow_state \<Rightarrow> bool" where
  "log_inv ly s \<longleftrightarrow> snow_inv ly (sn_word s) \<and> (\<forall>t. position_ok ly (sn_at s t)) \<and>
     (\<forall>r \<in> set (sn_log s). reservation_ok ly r) \<and>
     sorted_wrt (<) (concat (map (slots ly) (sn_log s))) \<and>
     (\<forall>k \<in> set (concat (map (slots ly) (sn_log s))). k < next_slot (sn_word s))"

lemma log_inv_exchange:
  assumes "layout_validate ly = Inr ()" "log_inv ly s" "sn_at s t = SLoaded ts requested (sn_word s)"
    "reserve_pass ly ts requested (sn_word s) = Exchange nxt r"
  shows "log_inv ly (s\<lparr>sn_word := nxt, sn_at := (sn_at s)(t := SIdle), sn_log := sn_log s @ [r]\<rparr>)"
proof -
  have p: "0 < requested" "\<not> lifetime_over ly ts" and w: "snow_inv ly (sn_word s)"
    using assms(2,3) unfolding log_inv_def by (metis position_ok.simps(3))+
  note R = reserve_pass_slots [OF assms(1) w p(2,1) assms(4)]
  have "reservation_ok ly r" using R in_lifetime [OF assms(1) p(2)] by (simp add: reservation_ok_def)
  moreover have "\<forall>k \<in> set (slots ly r). next_slot (sn_word s) \<le> k \<and> k < next_slot nxt"
    using R by (auto simp: slots_def)
  moreover have "next_slot (sn_word s) \<le> next_slot nxt" using R by simp
  moreover have "sorted_wrt (<) (slots ly r)" by (simp add: slots_def)
  ultimately show ?thesis
    using assms(2) R by (fastforce simp: log_inv_def sorted_wrt_append)
qed

lemma log_inv_step:
  assumes "snow_step ly s s'" "layout_validate ly = Inr ()" "log_inv ly s"
  shows "log_inv ly s'"
  using assms(1)
proof cases
  case (snow_exchange t ts requested current nxt r)
  then show ?thesis using log_inv_exchange [OF assms(2,3)] by blast
next
  case (snow_load t ts requested)
  then have "position_ok ly (SStart ts requested)" using assms(3) by (metis log_inv_def)
  then show ?thesis using snow_load assms(3) by (simp add: log_inv_def)
next
  case (snow_spin t ts requested current nxt r)
  then have "position_ok ly (SLoaded ts requested current)" using assms(3) by (metis log_inv_def)
  then show ?thesis using snow_spin assms(3) by (simp add: log_inv_def)
qed (use assms(3) in \<open>simp_all add: log_inv_def\<close>)

lemma log_inv_reachable:
  assumes "(snow_step ly)\<^sup>*\<^sup>* (snow_init 0) s" "layout_validate ly = Inr ()"
  shows "log_inv ly s"
  using assms(1)
proof (induction rule: rtranclp_induct)
  case base
  show ?case by (simp add: log_inv_def snow_init_def snow_inv_def)
next
  case (step y z)
  then show ?case using log_inv_step assms(2) by blast
qed

lemma reserve_leave [simp]: "reserve_pass ly ts requested current \<noteq> Leave (Inr (Some r))"
  by (auto simp: reserve_pass_def Let_def split: sum.splits option.splits)

text \<open>An uninterrupted call of \<open>reserve_at\<close> is a run of these steps.\<close>

lemma reserve_at_run:
  assumes "reserve_at ly ts requested (sn_word s) = (nxt, Inr (Some r))" "sn_at s t = SIdle"
  shows "(snow_step ly)\<^sup>*\<^sup>* s (s\<lparr>sn_word := nxt, sn_log := sn_log s @ [r]\<rparr>)"
proof -
  have g: "requested \<noteq> 0" "\<not> lifetime_over ly ts"
    and x: "reserve_pass ly ts requested (sn_word s) = Exchange nxt r"
    using assms(1) by (auto simp: reserve_at_def split: if_splits reserve_pass.splits)
  let ?a = "s\<lparr>sn_at := (sn_at s)(t := SStart ts requested)\<rparr>"
  let ?b = "?a\<lparr>sn_at := (sn_at ?a)(t := SLoaded ts requested (sn_word ?a))\<rparr>"
  let ?c = "?b\<lparr>sn_word := nxt, sn_at := (sn_at ?b)(t := SIdle), sn_log := sn_log ?b @ [r]\<rparr>"
  have "snow_step ly s ?a" using assms(2) g by (rule snow_start)
  moreover have "snow_step ly ?a ?b" by (rule snow_load) simp
  moreover have "snow_step ly ?b ?c" by (rule snow_exchange [OF _ x]) simp_all
  moreover have "?c = s\<lparr>sn_word := nxt, sn_log := sn_log s @ [r]\<rparr>"
    using fun_upd_idem [of "sn_at s" t SIdle] assms(2) by simp
  ultimately show ?thesis by (metis (no_types, lifting) converse_rtranclp_into_rtranclp rtranclp.rtrancl_refl)
qed


lemma generator_new_ok:
  assumes "generator_new worker ly = Inr (g, st)"
  shows "generator_ok g" "sf_layout g = ly" "sf_worker_id g = worker" "st = 0"
  using assms by (auto simp: generator_new_def generator_ok_def bind_r_Inr_iff split: if_splits)

lemma issued_slots:
  assumes "generator_ok g" "\<forall>r \<in> set rs. reservation_ok (sf_layout g) r"
  shows "map unat (concat (map (reservation_ids g) rs)) = map (slot_id g) (concat (map (slots (sf_layout g)) rs))"
  using assms(2) by (induction rs) (simp_all add: reservation_ids_slots [OF assms(1)] slots_def)

lemma sorted_ids:
  assumes "generator_ok g" "map unat ids = map (slot_id g) ks" "sorted_wrt (<) ks"
  shows "sorted_wrt (<) (ids :: u64 list)"
proof -
  have "sorted_wrt (<) (map (slot_id g) ks)"
    using assms(3) slot_id_mono [OF assms(1)] by (simp add: sorted_wrt_map strict_mono_less)
  then show ?thesis unfolding assms(2) [symmetric] sorted_wrt_map by (rule sorted_wrt_mono_rel [rotated]) (simp add: word_less_nat_alt)
qed

lemma reservation_ids_length [simp]: "length (reservation_ids g r) = ir_count r"
  by (simp add: reservation_ids_def)

lemma issued_member:
  "x \<in> set (concat (map (reservation_ids g) rs)) \<longleftrightarrow>
     (\<exists>r \<in> set rs. \<exists>i < ir_count r. x = reservation_ids g r ! i)"
proof -
  have "x \<in> set (reservation_ids g r) \<longleftrightarrow> (\<exists>i < ir_count r. x = reservation_ids g r ! i)" for r
    by (auto simp: in_set_conv_nth)
  then show ?thesis by auto
qed

text \<open>What the threads sharing one generator issued.\<close>

lemma issued_inv:
  assumes "generator_new worker ly = Inr (g, st)" "(snow_step ly)\<^sup>*\<^sup>* (snow_init st) s"
  shows "log_inv ly s" "\<forall>r \<in> set (sn_log s). reservation_ok (sf_layout g) r"
    and "map unat (concat (map (reservation_ids g) (sn_log s))) = map (slot_id g) (concat (map (slots ly) (sn_log s)))"
proof -
  note G = generator_new_ok [OF assms(1)]
  have v: "layout_validate ly = Inr ()" using G by (simp add: generator_ok_def)
  show I: "log_inv ly s" using log_inv_reachable [OF assms(2) [unfolded G(4)] v] .
  then show "\<forall>r \<in> set (sn_log s). reservation_ok (sf_layout g) r" by (simp add: log_inv_def G(2))
  then show "map unat (concat (map (reservation_ids g) (sn_log s))) = map (slot_id g) (concat (map (slots ly) (sn_log s)))"
    using issued_slots [OF G(1)] by (simp add: G(2))
qed

lemma issued_bound:
  assumes "generator_new worker ly = Inr (g, st)" "(snow_step ly)\<^sup>*\<^sup>* (snow_init st) s"
    "x \<in> set (concat (map (reservation_ids g) (sn_log s)))"
  shows "unat x < 2 ^ 63"
proof -
  note G = generator_new_ok [OF assms(1)] and I = issued_inv [OF assms(1,2)]
  have "unat x \<in> set (map unat (concat (map (reservation_ids g) (sn_log s))))"
    using assms(3) by (simp del: set_concat)
  then obtain k where k: "k \<in> set (concat (map (slots ly) (sn_log s)))" "unat x = slot_id g k"
    unfolding I(3) by (auto simp del: set_concat)
  then have "k < next_slot (sn_word s)" and "snow_inv ly (sn_word s)" using I(1) by (auto simp: log_inv_def)
  then have "k < slots_below ly" by (auto simp: next_slot_def snow_inv_def split: if_splits)
  then show ?thesis using slot_id_bound [OF G(1)] k(2) by (simp add: G(2))
qed

lemma issued_worker:
  assumes "generator_new worker ly = Inr (g, st)" "(snow_step ly)\<^sup>*\<^sup>* (snow_init st) s"
    "x \<in> set (concat (map (reservation_ids g) (sn_log s)))"
  shows "im_worker_id (id_parse g x) = worker"
proof -
  note G = generator_new_ok [OF assms(1)] and I = issued_inv [OF assms(1,2)]
  from assms(3) obtain r i where "r \<in> set (sn_log s)" "i < ir_count r" "x = reservation_ids g r ! i"
    unfolding issued_member by blast
  with I(2) show ?thesis by (simp add: reservation_parse [OF G(1)] G(3))
qed

text \<open>
  Property C24: identifiers are unique, increasing and decodable. However the threads that share a
  generator interleave in its lock-free loop, the identifiers of all reservations, in the order the
  reservations took effect, increase strictly, so none is ever issued twice; each fits in 63 bits and
  decodes to its time, worker and sequence number; and no generator of another worker with the same
  layout ever issues one of them.
\<close>

theorem snowflake_ids_unique:
  assumes "generator_new worker ly = Inr (g, st)" "(snow_step ly)\<^sup>*\<^sup>* (snow_init st) s"
  shows "sorted_wrt (<) (concat (map (reservation_ids g) (sn_log s))) \<and>
    (\<forall>r \<in> set (sn_log s). \<forall>i < ir_count r.
       unat (reservation_ids g r ! i) < 2 ^ 63 \<and>
       id_parse g (reservation_ids g r ! i) =
         \<lparr>im_timestamp_millis = ir_timestamp_offset r + ly_epoch_millis ly, im_worker_id = worker,
          im_sequence = ir_start_sequence r + word_of_nat i\<rparr>) \<and>
    (\<forall>worker' g' st' s'. generator_new worker' ly = Inr (g', st') \<longrightarrow> worker' \<noteq> worker \<longrightarrow>
       (snow_step ly)\<^sup>*\<^sup>* (snow_init st') s' \<longrightarrow>
       set (concat (map (reservation_ids g) (sn_log s))) \<inter> set (concat (map (reservation_ids g') (sn_log s'))) = {})"
proof (intro conjI ballI allI impI)
  note G = generator_new_ok [OF assms(1)] and I = issued_inv [OF assms]
  show "sorted_wrt (<) (concat (map (reservation_ids g) (sn_log s)))"
    using sorted_ids [OF G(1) I(3)] I(1) by (simp add: log_inv_def)
  fix r i assume r: "r \<in> set (sn_log s)" and i: "i < ir_count r"
  show "unat (reservation_ids g r ! i) < 2 ^ 63"
    using issued_bound [OF assms] issued_member r i by blast
  show "id_parse g (reservation_ids g r ! i) =
      \<lparr>im_timestamp_millis = ir_timestamp_offset r + ly_epoch_millis ly, im_worker_id = worker,
       im_sequence = ir_start_sequence r + word_of_nat i\<rparr>"
    using reservation_parse [OF G(1) bspec [OF I(2) r] i] by (simp add: G(2,3))
next
  fix worker' g' st' s'
  assume o: "generator_new worker' ly = Inr (g', st')" "worker' \<noteq> worker" "(snow_step ly)\<^sup>*\<^sup>* (snow_init st') s'"
  have "id_parse g' = id_parse g"
    using generator_new_ok(2) [OF assms(1)] generator_new_ok(2) [OF o(1)] by (simp add: id_parse_def fun_eq_iff)
  then show "set (concat (map (reservation_ids g) (sn_log s))) \<inter> set (concat (map (reservation_ids g') (sn_log s'))) = {}"
    using issued_worker [OF assms] issued_worker [OF o(1,3)] o(2) by (metis disjoint_iff)
qed


theorem snowflake_ids_unique_witness:
  "\<exists>g (s :: unit snow_state). generator_new 7 layout_default = Inr (g, 0) \<and>
     (snow_step layout_default)\<^sup>*\<^sup>* (snow_init 0) s \<and> (\<exists>r. sn_log s = [r] \<and> ir_count r = 2) \<and>
     sorted_wrt (<) (concat (map (reservation_ids g) (sn_log s)))"
proof -
  let ?ly = layout_default
  let ?g = "\<lparr>sf_worker_id = 7, sf_layout = ?ly\<rparr>"
  have m: "max_sequence ?ly = 2047" by (simp add: max_sequence_def layout_default_def)
  have "layout_validate ?ly = Inr ()" by (simp add: layout_validate_def layout_default_def)
  moreover have "max_worker_id ?ly = 255" by (simp add: max_worker_id_def layout_default_def)
  ultimately have g: "generator_new 7 ?ly = Inr (?g, 0)" by (simp add: generator_new_def)
  define nxt where "nxt = initialized OR push_bit (unat (ly_sequence_bits ?ly)) 5 OR 1"
  define r where "r = \<lparr>ir_timestamp_offset = 5, ir_start_sequence = 0, ir_count = 2\<rparr>"
  have "reserve_pass ?ly 5 2 0 = Exchange nxt r"
    by (simp add: reserve_pass_def reserve_pass_of_def m nxt_def r_def)
  moreover have "\<not> lifetime_over ?ly 5" by (simp add: lifetime_over_def layout_default_def)
  ultimately have r: "reserve_at ?ly 5 2 (sn_word (snow_init 0 :: unit snow_state)) = (nxt, Inr (Some r))" "ir_count r = 2"
    by (simp_all add: reserve_at_def snow_init_def r_def)
  let ?s = "(snow_init 0 :: unit snow_state)\<lparr>sn_word := nxt, sn_log := sn_log (snow_init 0 :: unit snow_state) @ [r]\<rparr>"
  have run: "(snow_step ?ly)\<^sup>*\<^sup>* (snow_init 0) ?s"
    by (rule reserve_at_run [OF r(1), of "()"]) (simp add: snow_init_def)
  from snowflake_ids_unique [OF g run]
  have "sorted_wrt (<) (concat (map (reservation_ids ?g) (sn_log ?s)))" by blast
  moreover have "sn_log ?s = [r]" by (simp add: snow_init_def)
  ultimately show ?thesis using g run r(2) by (intro exI [of _ ?g] exI [of _ ?s]) blast
qed

text \<open>Interference of other threads moves the word forward only.\<close>

definition forward :: "snowflake_layout \<Rightarrow> (u64 \<Rightarrow> u64) \<Rightarrow> bool" where
  "forward ly others \<longleftrightarrow> (\<forall>st. snow_inv ly st \<longrightarrow> snow_inv ly (others st) \<and> next_slot st \<le> next_slot (others st))"

lemma reserve_at_slots:
  assumes "layout_validate ly = Inr ()" "snow_inv ly st" "reserve_at ly ts requested st = (st', r)"
  shows "snow_inv ly st' \<and> next_slot st \<le> next_slot st' \<and>
    (\<forall>x. r = Inr (Some x) \<longrightarrow> reservation_ok ly x \<and> next_slot st \<le> first_slot ly x \<and>
       next_slot st' = first_slot ly x + ir_count x \<and> 0 < ir_count x \<and> ir_count x \<le> requested)"
proof (cases "requested = 0 \<or> lifetime_over ly ts")
  case True
  then show ?thesis using assms(2,3) by (auto simp: reserve_at_def split: if_splits)
next
  case False
  then have g: "0 < requested" "\<not> lifetime_over ly ts" by simp_all
  show ?thesis
  proof (cases "reserve_pass ly ts requested st")
    case (Leave x)
    then show ?thesis using assms(2,3) g by (auto simp: reserve_at_def)
  next
    case (Exchange nxt x)
    note R = reserve_pass_slots [OF assms(1,2) g(2,1) Exchange]
    then have "reservation_ok ly x" using in_lifetime [OF assms(1) g(2)] by (simp add: reservation_ok_def)
    then show ?thesis using R Exchange assms(3) g by (auto simp: reserve_at_def)
  qed
qed

text \<open>
  \<open>fill\<close> under interference: the buffer receives the identifiers of increasing slots that were free
  when it started, and exactly as many as it has places when it succeeds.
\<close>

definition filled :: "snowflake \<Rightarrow> nat \<Rightarrow> u64 list \<Rightarrow> u64 \<Rightarrow> u64 \<times> u64 list \<times> unit catga_result \<Rightarrow> bool" where
  "filled g n written st = (\<lambda>(st', ids, r). \<exists>new ks. ids = written @ new \<and> map unat new = map (slot_id g) ks \<and>
     sorted_wrt (<) ks \<and> (\<forall>k \<in> set ks. next_slot st \<le> k \<and> k < next_slot st') \<and>
     snow_inv (sf_layout g) st' \<and> next_slot st \<le> next_slot st' \<and> length ids \<le> n \<and> (r = Inr () \<longrightarrow> length ids = n))"

lemma filled_none:
  assumes "snow_inv (sf_layout g) st'" "next_slot st \<le> next_slot st'" "length written \<le> n"
    "r = Inr () \<Longrightarrow> length written = n"
  shows "filled g n written st (st', written, r)"
  unfolding filled_def using assms by (auto intro!: exI [of _ "[]"])

lemma filled_more:
  assumes "filled g n (written @ reservation_ids g x) st1 out" "generator_ok g" "reservation_ok (sf_layout g) x"
    "next_slot st \<le> first_slot (sf_layout g) x" "next_slot st1 = first_slot (sf_layout g) x + ir_count x"
  shows "filled g n written st out"
proof -
  obtain st' ids r where out: "out = (st', ids, r)" by (cases out)
  with assms(1) obtain new ks where n: "ids = (written @ reservation_ids g x) @ new" "map unat new = map (slot_id g) ks"
    "sorted_wrt (<) ks" "\<forall>k \<in> set ks. next_slot st1 \<le> k \<and> k < next_slot st'"
    "snow_inv (sf_layout g) st'" "next_slot st1 \<le> next_slot st'" "length ids \<le> n" "r = Inr () \<longrightarrow> length ids = n"
    unfolding filled_def by blast
  have "map unat (reservation_ids g x @ new) = map (slot_id g) (slots (sf_layout g) x @ ks)"
    using n(2) reservation_ids_slots [OF assms(2,3)] by (simp add: slots_def)
  moreover have "sorted_wrt (<) (slots (sf_layout g) x @ ks)"
    using n(3,4) assms(5) by (fastforce simp: sorted_wrt_append slots_def)
  moreover have "\<forall>k \<in> set (slots (sf_layout g) x @ ks). next_slot st \<le> k \<and> k < next_slot st'"
    using n(4,6) assms(4,5) by (auto simp: slots_def)
  ultimately show ?thesis
    unfolding filled_def out prod.case using n(1,5,6,7,8) assms(4,5)
    by (intro exI [of _ "reservation_ids g x @ new"] exI [of _ "slots (sf_layout g) x @ ks"]) simp
qed

lemma filled_later:
  assumes "filled g n written st1 out" "next_slot st \<le> next_slot st1"
  shows "filled g n written st out"
proof -
  obtain st' ids r where out: "out = (st', ids, r)" by (cases out)
  with assms(1) obtain new ks where "ids = written @ new" "map unat new = map (slot_id g) ks"
    "sorted_wrt (<) ks" "\<forall>k \<in> set ks. next_slot st1 \<le> k \<and> k < next_slot st'"
    "snow_inv (sf_layout g) st'" "next_slot st1 \<le> next_slot st'" "length ids \<le> n" "r = Inr () \<longrightarrow> length ids = n"
    unfolding filled_def by blast
  then show ?thesis unfolding filled_def out prod.case using assms(2)
    by (intro exI [of _ new] exI [of _ ks]) auto
qed

lemma fill_loop_slots:
  assumes "generator_ok g" "snow_inv (sf_layout g) st" "\<forall>(others, _) \<in> set rounds. forward (sf_layout g) others"
    "length written \<le> n" "fill_loop g n rounds off written st = Some out"
  shows "filled g n written st out"
  using assms(2-)
proof (induction rounds arbitrary: off written st)
  case Nil
  then show ?case by (auto simp: fill_loop.simps intro!: filled_none split: if_splits)
next
  case (Cons x rounds)
  obtain others clock where x: "x = (others, clock)" by fastforce
  have v: "layout_validate (sf_layout g) = Inr ()" using assms(1) by (simp add: generator_ok_def)
  have f: "snow_inv (sf_layout g) (others st)" "next_slot st \<le> next_slot (others st)"
    using Cons.prems(1,2) by (auto simp: x forward_def)
  obtain st1 res where res: "reserve_at (sf_layout g) off (n - length written) (others st) = (st1, res)" by fastforce
  note R = reserve_at_slots [OF v f(1) res]
  have keep: "\<forall>(others, _) \<in> set rounds. forward (sf_layout g) others" using Cons.prems(2) by simp
  note eq = Cons.prems(4) [unfolded x fill_loop.simps [of g n "(others, clock) # rounds"], simplified]
  consider "length written = n" | (err) e where "length written < n" "res = Inl e"
    | (none) "length written < n" "res = Inr None" | (some) y where "length written < n" "res = Inr (Some y)"
    using Cons.prems(3) by (cases res) (auto simp: le_less split: option.splits)
  then show ?case
  proof cases
    case 1
    then show ?thesis using eq Cons.prems(1) by (auto intro!: filled_none)
  next
    case err
    then show ?thesis using eq R f by (auto simp: res intro!: filled_none)
  next
    case none
    have "next_slot st \<le> next_slot st1" using R f by simp
    moreover have "filled g n written st1 out"
      using eq none R Cons.IH [OF _ keep Cons.prems(3)]
      by (auto simp: res intro!: filled_none split: option.splits sum.splits)
    ultimately show ?thesis using filled_later by blast
  next
    case (some y)
    have y: "reservation_ok (sf_layout g) y" "next_slot st \<le> first_slot (sf_layout g) y"
      "next_slot st1 = first_slot (sf_layout g) y + ir_count y" "length (written @ reservation_ids g y) \<le> n"
      "0 < ir_count y"
      using R f some Cons.prems(3) by auto
    have "filled g n (written @ reservation_ids g y) st1 out"
      using eq some R Cons.IH [OF _ keep y(4)] y(4)
      by (auto simp: res intro!: filled_none split: list.splits sum.splits)
    then show ?thesis using filled_more [OF _ assms(1) y(1,2,3)] by blast
  qed
qed


lemma fill_exact:
  assumes "generator_ok g" "snow_inv (sf_layout g) st" "\<forall>(others, _) \<in> set rounds. forward (sf_layout g) others"
    "fill g n now rounds st = Some (st', ids, Inr ())"
  shows "length ids = n \<and> sorted_wrt (<) ids \<and>
    (\<forall>x \<in> set ids. \<exists>k. unat x = slot_id g k \<and> next_slot st \<le> k \<and> k < next_slot st')"
proof -
  from assms(4) obtain off where "fill_loop g n rounds off [] st = Some (st', ids, Inr ())"
    by (auto simp: fill_def split: sum.splits)
  with fill_loop_slots [OF assms(1-3), of "[]"] have "filled g n [] st (st', ids, Inr ())" by simp
  then obtain ks where ks: "map unat ids = map (slot_id g) ks" "sorted_wrt (<) ks"
    "\<forall>k \<in> set ks. next_slot st \<le> k \<and> k < next_slot st'" and "length ids = n"
    by (auto simp: filled_def)
  have "\<exists>k. unat x = slot_id g k \<and> next_slot st \<le> k \<and> k < next_slot st'" if "x \<in> set ids" for x
  proof -
    have "unat x \<in> set (map unat ids)" using that by simp
    then show ?thesis unfolding ks(1) using ks(3) by auto
  qed
  then show ?thesis using sorted_ids [OF assms(1) ks(1,2)] \<open>length ids = n\<close> by blast
qed

text \<open>
  The documentation promises a positive identifier, but worker zero issues zero for its first identifier
  when the clock shows the epoch of the layout.
\<close>

lemma first_id_may_be_zero:
  "next_id \<lparr>sf_worker_id = 0, sf_layout = layout_default\<rparr> (1704067200000 * 1000000)
     [(\<lambda>st. st, [1704067200000 * 1000000])] 0 = Some (initialized, Inr 0)"
proof -
  have now: "now_offset layout_default (1704067200000 * 1000000) = Inr 0"
    by (simp add: now_offset_def unix_ms_or_def duration_since_epoch_def as_millis_def u64_try_from_def
        layout_default_def default_epoch_millis_def checked_sub_def)
  have m: "max_sequence layout_default = 2047" by (simp add: max_sequence_def layout_default_def)
  have "reserve_at layout_default 0 1 0 =
    (initialized, Inr (Some \<lparr>ir_timestamp_offset = 0, ir_start_sequence = 0, ir_count = 1\<rparr>))"
    by (simp add: reserve_at_def lifetime_over_def reserve_pass_def reserve_pass_of_def m)
      (simp add: layout_default_def)
  then show ?thesis
    using now by (simp add: next_id_def fill_def fill_loop.simps reservation_ids_def)
qed

section \<open>The decimal form spells the identifier\<close>

definition decimal_value :: "u8 list \<Rightarrow> nat" where
  "decimal_value = foldl (\<lambda>a d. 10 * a + (unat d - 48)) 0"

lemma count_digits_bound: "unat v < 10 ^ count_digits v"
proof (induction v rule: count_digits.induct)
  case (1 r)
  show ?case
  proof (cases "10 \<le> r")
    case True
    with 1 have "unat r div 10 < 10 ^ count_digits (r div 10)" by (simp add: unat_div)
    then show ?thesis using True by (subst count_digits.simps) auto
  next
    case False
    then show ?thesis by (subst count_digits.simps) (simp add: word_le_nat_alt)
  qed
qed

lemma write_digits_frame:
  "length (write_digits n v d) = length d" "n \<le> i \<Longrightarrow> write_digits n v d ! i = d ! i"
  by (induction n v d rule: write_digits.induct) auto

lemma write_digits_value:
  assumes "n \<le> length d" "unat v < 10 ^ n"
  shows "decimal_value (take n (write_digits n v d)) = unat v"
  using assms
proof (induction n arbitrary: v d)
  case 0
  then show ?case by (simp add: decimal_value_def)
next
  case (Suc n)
  let ?d = "d[n := 48 + ucast (v mod 10)]"
  have "decimal_value (take n (write_digits n (v div 10) ?d)) = unat v div 10"
    using Suc.IH [of ?d "v div 10"] Suc.prems by (simp add: unat_div less_mult_imp_div_less mult.commute)
  moreover have "write_digits n (v div 10) ?d ! n = 48 + ucast (v mod 10)"
    using Suc.prems(1) write_digits_frame(2) [of n n] by simp
  moreover have "unat (48 + ucast (v mod 10) :: u8) - 48 = unat v mod 10"
  proof -
    have "unat (ucast (v mod 10) :: u8) = unat v mod 10"
      by (simp add: unsigned_ucast_eq unat_mod take_bit_nat_eq_self)
    moreover have "unat v mod 10 < 10" by simp
    ultimately show ?thesis by (simp add: unat_word_ariths)
  qed
  ultimately show ?case
    using Suc.prems(1) write_digits_frame(1) [of n "v div 10" ?d]
    by (simp add: take_Suc_conv_app_nth decimal_value_def)
qed

lemma write_decimal_spells:
  assumes "write_decimal_u64 v d = (d', Some n)"
  shows "length d' = length d \<and> decimal_value (take n d') = unat v \<and> drop n d' = drop n d"
proof -
  have n: "n = count_digits v" "n \<le> length d" "d' = write_digits n v d"
    using assms by (auto simp: write_decimal_u64_def Let_def split: if_splits)
  moreover have "drop n (write_digits n v d) = drop n d"
    by (rule nth_equalityI) (simp_all add: write_digits_frame)
  ultimately show ?thesis
    using write_digits_value [OF n(2), of v] count_digits_bound [of v] by (simp add: write_digits_frame)
qed

end
