(* ===== verification/Circuit_Breaker.thy ===== *)
theory Circuit_Breaker
  imports Catga_Errors
begin

text \<open>
  Circuit breaking (\<open>crates/catga-core/src/behaviors/circuit_breaker.rs\<close> and the circuit of
  \<open>crates/catga-core/src/resilience.rs\<close>, which is the same mechanism with its own messages): the validated
  options, the window of recent outcomes, admission, and the recording of results. Every operation is
  given as one uninterrupted call; the atomic accesses of \<open>permit\<close> are also given as the steps of any
  number of threads. A clock reading is the number of nanoseconds since the breaker was created.
\<close>

section \<open>Options\<close>

definition max_sampling_window :: nat where
  "max_sampling_window = 10000"

record breaker_options =
  bo_failure_threshold :: nat
  bo_reset_timeout :: duration
  bo_sampling_window :: nat
  bo_minimum_throughput :: nat
  bo_failure_ratio_numerator :: u32
  bo_failure_ratio_denominator :: u32

definition options_builder :: "nat \<Rightarrow> duration \<Rightarrow> breaker_options" where
  "options_builder failure_threshold reset_timeout =
     \<lparr>bo_failure_threshold = failure_threshold, bo_reset_timeout = reset_timeout,
      bo_sampling_window = failure_threshold, bo_minimum_throughput = failure_threshold,
      bo_failure_ratio_numerator = 1, bo_failure_ratio_denominator = 1\<rparr>"

definition builder_sampling_window :: "nat \<Rightarrow> breaker_options \<Rightarrow> breaker_options" where
  "builder_sampling_window sampling_window b = b\<lparr>bo_sampling_window := sampling_window\<rparr>"

definition builder_minimum_throughput :: "nat \<Rightarrow> breaker_options \<Rightarrow> breaker_options" where
  "builder_minimum_throughput minimum_throughput b = b\<lparr>bo_minimum_throughput := minimum_throughput\<rparr>"

definition builder_failure_ratio :: "u32 \<Rightarrow> u32 \<Rightarrow> breaker_options \<Rightarrow> breaker_options" where
  "builder_failure_ratio numerator denominator b =
     b\<lparr>bo_failure_ratio_numerator := numerator, bo_failure_ratio_denominator := denominator\<rparr>"

definition options_build :: "breaker_options \<Rightarrow> breaker_options catga_result" where
  "options_build b =
     (if bo_failure_threshold b = 0
      then Inl (error_new Validation ''circuit breaker failure threshold must be greater than zero'')
      else if bo_reset_timeout b = 0
      then Inl (error_new Validation ''circuit breaker reset timeout must be greater than zero'')
      else if bo_sampling_window b = 0 \<or> bo_sampling_window b > max_sampling_window
      then Inl (error_new Validation ''circuit breaker sampling window must be between one and 10000'')
      else if bo_minimum_throughput b = 0 \<or> bo_minimum_throughput b > bo_sampling_window b
      then Inl (error_new Validation ''circuit breaker minimum throughput must fit within the sampling window'')
      else if bo_failure_ratio_numerator b = 0 \<or> bo_failure_ratio_denominator b = 0
              \<or> bo_failure_ratio_numerator b > bo_failure_ratio_denominator b
      then Inl (error_new Validation ''circuit breaker failure ratio must be a positive fraction no greater than one'')
      else Inr b)"

section \<open>Window of outcomes\<close>

record outcome_window =
  ow_outcomes :: "bool list"
  ow_failures :: nat
  ow_limit :: nat

definition window_new :: "nat \<Rightarrow> outcome_window" where
  "window_new limit = \<lparr>ow_outcomes = [], ow_failures = 0, ow_limit = limit\<rparr>"

definition window_clear :: "outcome_window \<Rightarrow> outcome_window" where
  "window_clear w = w\<lparr>ow_outcomes := [], ow_failures := 0\<rparr>"

text \<open>
  The front is removed as soon as the window is full, also when it is a success; only a removed
  failure changes the counter.
\<close>

definition pop_front :: "'a list \<Rightarrow> 'a list \<times> 'a option" where
  "pop_front xs = (case xs of [] \<Rightarrow> ([], None) | x # xs' \<Rightarrow> (xs', Some x))"

definition window_push :: "bool \<Rightarrow> outcome_window \<Rightarrow> outcome_window" where
  "window_push success w =
     (let (outcomes, popped) = (if length (ow_outcomes w) = ow_limit w then pop_front (ow_outcomes w)
                                else (ow_outcomes w, None));
          failures = (if popped = Some False then ow_failures w - 1 else ow_failures w);
          failures = (if \<not> success then usize_saturating_add failures 1 else failures)
      in w\<lparr>ow_outcomes := outcomes @ [success], ow_failures := failures\<rparr>)"

section \<open>Breaker\<close>

definition CLOSED :: u8 where
  "CLOSED = 0"

definition OPEN :: u8 where
  "OPEN = 1"

definition HALF_OPEN :: u8 where
  "HALF_OPEN = 2"

record breaker =
  br_outcomes :: outcome_window
  br_state :: u8
  br_opened_at :: u64
  br_probe :: bool
  br_options :: breaker_options

definition with_options :: "breaker_options \<Rightarrow> breaker" where
  "with_options b =
     \<lparr>br_outcomes = window_new (bo_sampling_window b), br_state = CLOSED, br_opened_at = 0, br_probe = False,
      br_options = b\<rparr>"

definition breaker_new :: "nat \<Rightarrow> duration \<Rightarrow> breaker catga_result" where
  "breaker_new failure_threshold reset_timeout =
     bind_r (options_build (options_builder failure_threshold reset_timeout)) (\<lambda>b. Inr (with_options b))"

definition elapsed_since_open :: "u64 \<Rightarrow> breaker \<Rightarrow> duration" where
  "elapsed_since_open now b = unat (saturating_sub now (br_opened_at b))"

definition circuit_open_error :: catga_error where
  "circuit_open_error = error_new Transient ''circuit breaker is open''"

text \<open>
  \<open>permit\<close> without interference: the exchange from open to half open succeeds, and the next pass of the
  loop takes the branch of the half-open state.
\<close>

definition permit_half_open :: "catga_error \<Rightarrow> breaker \<Rightarrow> breaker \<times> bool catga_result" where
  "permit_half_open rejected b =
     (if \<not> br_probe b then (b\<lparr>br_probe := True\<rparr>, Inr True) else (b, Inl rejected))"

definition permit_with :: "catga_error \<Rightarrow> catga_error \<Rightarrow> u64 \<Rightarrow> breaker \<Rightarrow> breaker \<times> bool catga_result" where
  "permit_with rejected invalid now b =
     (if br_state b = CLOSED then (b, Inr False)
      else if br_state b = OPEN
      then if elapsed_since_open now b < bo_reset_timeout (br_options b) then (b, Inl rejected)
           else permit_half_open rejected (b\<lparr>br_state := HALF_OPEN, br_probe := False\<rparr>)
      else if br_state b = HALF_OPEN then permit_half_open rejected b
      else (b, Inl invalid))"

definition permit :: "u64 \<Rightarrow> breaker \<Rightarrow> breaker \<times> bool catga_result" where
  "permit = permit_with circuit_open_error (error_new Internal ''circuit breaker has an invalid state'')"

definition breaker_open :: "u64 \<Rightarrow> breaker \<Rightarrow> breaker" where
  "breaker_open now b =
     (if br_state b = OPEN then b\<lparr>br_state := OPEN\<rparr>
      else b\<lparr>br_state := OPEN, br_opened_at := now, br_probe := False\<rparr>)"

definition breaker_success :: "bool \<Rightarrow> breaker \<Rightarrow> breaker" where
  "breaker_success probe b =
     (if probe then b\<lparr>br_outcomes := window_clear (br_outcomes b), br_probe := False, br_state := CLOSED\<rparr>
      else b\<lparr>br_outcomes := window_push True (br_outcomes b)\<rparr>)"

definition u128_saturating_mul :: "nat \<Rightarrow> nat \<Rightarrow> nat" where
  "u128_saturating_mul a b = min (2 ^ 128 - 1) (a * b)"

definition opens :: "breaker_options \<Rightarrow> outcome_window \<Rightarrow> bool" where
  "opens o1 w \<longleftrightarrow>
     length (ow_outcomes w) \<ge> bo_minimum_throughput o1 \<and>
     u128_saturating_mul (ow_failures w) (unat (bo_failure_ratio_denominator o1))
       \<ge> u128_saturating_mul (length (ow_outcomes w)) (unat (bo_failure_ratio_numerator o1))"

definition record_outcome_failure :: "u64 \<Rightarrow> breaker \<Rightarrow> breaker" where
  "record_outcome_failure now b =
     (let outcomes = window_push False (br_outcomes b);
          b' = b\<lparr>br_outcomes := outcomes\<rparr>
      in if opens (br_options b) outcomes then breaker_open now b' else b')"

definition breaker_failure :: "bool \<Rightarrow> u64 \<Rightarrow> breaker \<Rightarrow> breaker" where
  "breaker_failure probe now b = (if probe then breaker_open now b else record_outcome_failure now b)"

definition recoverable :: "catga_error \<Rightarrow> bool" where
  "recoverable e \<longleftrightarrow> ce_code e \<noteq> Cancelled \<and> error_is_retryable e"

text \<open>The guard of a call: its completion, and its drop when the call ended without a result.\<close>

definition guard_complete :: "bool \<Rightarrow> u64 \<Rightarrow> 'r catga_result \<Rightarrow> breaker \<Rightarrow> breaker" where
  "guard_complete probe now result b =
     (case result of
        Inr _ \<Rightarrow> breaker_success probe b
      | Inl e \<Rightarrow>
          if recoverable e then breaker_failure probe now b
          else if probe then breaker_success True b else b)"

definition guard_drop :: "bool \<Rightarrow> bool \<Rightarrow> u64 \<Rightarrow> breaker \<Rightarrow> breaker" where
  "guard_drop probe completed now b = (if probe \<and> \<not> completed then breaker_open now b else b)"

text \<open>
  A whole call: \<^const>\<open>None\<close> as the outcome of the pipeline means that the call was dropped or panicked
  while it ran. The pipeline may call the breaker too, through other requests.
\<close>

definition breaker_handle ::
  "u64 \<Rightarrow> u64 \<Rightarrow> (breaker \<times> 'w \<Rightarrow> (breaker \<times> 'w) \<times> 'r catga_result option) \<Rightarrow> breaker \<times> 'w
   \<Rightarrow> (breaker \<times> 'w) \<times> 'r catga_result option" where
  "breaker_handle now later run bw =
     (case permit now (fst bw) of
        (b, Inl e) \<Rightarrow> ((b, snd bw), Some (Inl e))
      | (b, Inr probe) \<Rightarrow>
          (case run (b, snd bw) of
             ((b', w), Some result) \<Rightarrow> ((guard_drop probe True later (guard_complete probe later result b'), w), Some result)
           | ((b', w), None) \<Rightarrow> ((guard_drop probe False later b', w), None)))"

section \<open>The circuit of the resilience executor\<close>

definition resilience_circuit_open :: catga_error where
  "resilience_circuit_open = error_new Transient ''resilience circuit is open''"

definition circuit_permit :: "u64 \<Rightarrow> breaker \<Rightarrow> breaker \<times> bool catga_result" where
  "circuit_permit = permit_with resilience_circuit_open (error_new Internal ''resilience circuit has an invalid state'')"

definition circuit_complete :: "bool \<Rightarrow> u64 \<Rightarrow> 'r catga_result \<Rightarrow> breaker \<Rightarrow> breaker" where
  "circuit_complete probe now result b =
     (case result of
        Inr _ \<Rightarrow> breaker_success probe b
      | Inl e \<Rightarrow>
          if \<not> recoverable e \<and> probe then breaker_success True b
          else if \<not> recoverable e then b
          else if probe then breaker_open now b
          else record_outcome_failure now b)"

lemma circuit_complete_eq: "circuit_complete = guard_complete"
  by (auto simp: circuit_complete_def guard_complete_def breaker_failure_def fun_eq_iff split: sum.splits)

section \<open>The window holds the most recent outcomes\<close>

definition last_n :: "nat \<Rightarrow> 'a list \<Rightarrow> 'a list" where
  "last_n n xs = drop (length xs - n) xs"

definition window_inv :: "outcome_window \<Rightarrow> bool" where
  "window_inv w \<longleftrightarrow> 0 < ow_limit w \<and> ow_limit w \<le> max_sampling_window \<and>
     length (ow_outcomes w) \<le> ow_limit w \<and> ow_failures w = count_list (ow_outcomes w) False"

lemma last_n_short: "length xs \<le> n \<Longrightarrow> last_n n xs = xs"
  by (simp add: last_n_def)

lemma length_last_n: "length (last_n n xs) = min n (length xs)"
  by (simp add: last_n_def)

lemma last_n_snoc:
  assumes "0 < n"
  shows "last_n n (last_n n xs @ [x]) = last_n n (xs @ [x])"
proof (cases "length xs \<le> n")
  case True
  then show ?thesis by (simp add: last_n_short)
next
  case False
  with assms show ?thesis by (simp add: last_n_def Suc_diff_le)
qed

lemma count_list_snoc: "count_list (xs @ [x]) y = count_list xs y + (if x = y then 1 else 0)"
  by (induction xs) auto

lemma count_list_drop_1:
  "xs \<noteq> [] \<Longrightarrow> count_list (drop 1 xs) y = count_list xs y - (if hd xs = y then 1 else 0)"
  by (cases xs) auto

lemma window_push_inv:
  assumes "window_inv w"
  shows "window_inv (window_push b w)" "ow_limit (window_push b w) = ow_limit w"
    and "ow_outcomes (window_push b w) = last_n (ow_limit w) (ow_outcomes w @ [b])"
proof -
  let ?xs = "ow_outcomes w"
  have lim: "0 < ow_limit w" "ow_limit w \<le> 10000" "length ?xs \<le> ow_limit w"
    using assms by (auto simp: window_inv_def max_sampling_window_def)
  have sat: "usize_saturating_add n 1 = n + 1" if "n \<le> 10000" for n
    using that by (simp add: usize_saturating_add_def)
  show "ow_limit (window_push b w) = ow_limit w" by (simp add: window_push_def Let_def split: prod.splits)
  have "ow_outcomes (window_push b w) = last_n (ow_limit w) (?xs @ [b]) \<and>
    ow_failures (window_push b w) = count_list (last_n (ow_limit w) (?xs @ [b])) False"
  proof (cases "length ?xs = ow_limit w")
    case True
    with lim obtain x xs' where xs: "?xs = x # xs'" by (cases ?xs) auto
    have "count_list xs' False \<le> length xs'" by (rule count_le_length)
    then show ?thesis
      using True xs assms lim sat
      by (auto simp: window_push_def pop_front_def window_inv_def last_n_def count_list_snoc)
  next
    case False
    have "count_list ?xs False \<le> length ?xs" by (rule count_le_length)
    then show ?thesis
      using False assms lim sat
      by (auto simp: window_push_def window_inv_def last_n_short count_list_snoc)
  qed
  then show "window_inv (window_push b w)" "ow_outcomes (window_push b w) = last_n (ow_limit w) (?xs @ [b])"
    using lim \<open>ow_limit (window_push b w) = ow_limit w\<close>
    by (simp_all add: window_inv_def length_last_n max_sampling_window_def)
qed

text \<open>When a history of outcomes opens the circuit.\<close>

definition trips :: "breaker_options \<Rightarrow> bool list \<Rightarrow> bool" where
  "trips o1 history \<longleftrightarrow>
     (let recent = last_n (bo_sampling_window o1) history in
      history \<noteq> [] \<and> \<not> last history \<and> bo_minimum_throughput o1 \<le> length recent \<and>
      length recent * unat (bo_failure_ratio_numerator o1) \<le> count_list recent False * unat (bo_failure_ratio_denominator o1))"

lemma opens_iff:
  assumes "window_inv w"
  shows "opens o1 w \<longleftrightarrow> bo_minimum_throughput o1 \<le> length (ow_outcomes w) \<and>
    length (ow_outcomes w) * unat (bo_failure_ratio_numerator o1)
      \<le> count_list (ow_outcomes w) False * unat (bo_failure_ratio_denominator o1)"
proof -
  have "u128_saturating_mul n (unat (r :: u32)) = n * unat r" if "n \<le> 10000" for n r
  proof -
    have "unat r < 2 ^ 32" using unsigned_less [of r, where 'a = nat] by simp
    then have "n * unat r \<le> 10000 * 2 ^ 32" using that by (intro mult_le_mono) simp_all
    then show ?thesis by (simp add: u128_saturating_mul_def)
  qed
  moreover have "length (ow_outcomes w) \<le> 10000" "count_list (ow_outcomes w) False \<le> 10000"
    using assms count_le_length [of "ow_outcomes w" False] by (auto simp: window_inv_def max_sampling_window_def)
  ultimately show ?thesis using assms by (auto simp: opens_def window_inv_def)
qed

section \<open>Tripping, cooling down and probing\<close>

text \<open>Results of admitted calls, each with the time it was recorded, and the time they open the circuit at.\<close>

fun record_outcome :: "bool \<times> u64 \<Rightarrow> breaker \<Rightarrow> breaker" where
  "record_outcome (success, now) b = (if success then breaker_success False b else breaker_failure False now b)"

fun opened_by :: "breaker_options \<Rightarrow> bool list \<Rightarrow> (bool \<times> u64) list \<Rightarrow> u64 option" where
  "opened_by o1 history [] = None"
| "opened_by o1 history ((success, now) # rest) =
     (if trips o1 (history @ [success]) then Some now else opened_by o1 (history @ [success]) rest)"

definition remembers :: "breaker_options \<Rightarrow> bool list \<Rightarrow> breaker \<Rightarrow> bool" where
  "remembers o1 history b \<longleftrightarrow> br_options b = o1 \<and> window_inv (br_outcomes b) \<and>
     ow_limit (br_outcomes b) = bo_sampling_window o1 \<and>
     ow_outcomes (br_outcomes b) = last_n (bo_sampling_window o1) history"

lemmas breaker_defs = breaker_success_def breaker_failure_def record_outcome_failure_def breaker_open_def Let_def

lemma remembers_record:
  assumes "remembers o1 history b"
  shows "remembers o1 (history @ [fst x]) (record_outcome x b)"
proof -
  have "last_n (bo_sampling_window o1) (last_n (bo_sampling_window o1) history @ [v]) =
      last_n (bo_sampling_window o1) (history @ [v])" for v
    using assms by (intro last_n_snoc) (auto simp: remembers_def window_inv_def)
  then show ?thesis
    using assms by (cases x) (auto simp: remembers_def breaker_defs window_push_inv)
qed

lemma remembers_fold:
  "remembers o1 history b \<Longrightarrow> remembers o1 (history @ map fst ocs) (fold record_outcome ocs b)"
proof (induction ocs arbitrary: history b)
  case (Cons x ocs)
  then show ?case using Cons.IH [OF remembers_record [OF Cons.prems, of x]] by simp
qed simp

lemma opens_trips:
  assumes "remembers o1 history b"
  shows "opens o1 (window_push False (br_outcomes b)) \<longleftrightarrow> trips o1 (history @ [False])"
proof -
  have w: "window_inv (window_push False (br_outcomes b))"
    using assms by (intro window_push_inv(1)) (simp add: remembers_def)
  have "ow_outcomes (window_push False (br_outcomes b)) = last_n (bo_sampling_window o1) (history @ [False])"
    using remembers_record [OF assms, of "(False, 0)"]
    by (auto simp: remembers_def breaker_defs split: if_splits)
  then show ?thesis unfolding opens_iff [OF w] by (simp add: trips_def Let_def)
qed

lemma record_closed:
  assumes "remembers o1 history b" "br_state b = CLOSED" "\<not> br_probe b"
  shows "if trips o1 (history @ [success])
    then br_state (record_outcome (success, now) b) = OPEN \<and> br_opened_at (record_outcome (success, now) b) = now
    else br_state (record_outcome (success, now) b) = CLOSED \<and> \<not> br_probe (record_outcome (success, now) b)"
proof (cases success)
  case True
  then have "\<not> trips o1 (history @ [success])" by (simp add: trips_def)
  then show ?thesis using True assms by (simp add: breaker_defs)
next
  case False
  have "br_options b = o1" using assms(1) by (simp add: remembers_def)
  then show ?thesis
    using False assms(2,3) opens_trips [OF assms(1)] by (simp add: breaker_defs CLOSED_def OPEN_def)
qed

lemma record_open:
  assumes "br_state b = OPEN"
  shows "br_state (record_outcome x b) = OPEN \<and> br_opened_at (record_outcome x b) = br_opened_at b"
  using assms by (cases x) (simp add: breaker_defs)

lemma recorded_open:
  assumes "br_state b = OPEN" "remembers o1 history b"
  shows "br_state (fold record_outcome ocs b) = OPEN \<and> br_opened_at (fold record_outcome ocs b) = br_opened_at b
    \<and> br_options (fold record_outcome ocs b) = o1"
  using assms
proof (induction ocs arbitrary: b history)
  case Nil
  then show ?case by (simp add: remembers_def)
next
  case (Cons x ocs)
  then show ?case
    using record_open [OF Cons.prems(1), of x] Cons.IH [OF _ remembers_record [OF Cons.prems(2), of x]] by simp
qed

lemma recorded_state:
  assumes "remembers o1 history b" "br_state b = CLOSED" "\<not> br_probe b"
  shows "br_options (fold record_outcome ocs b) = o1 \<and>
    (case opened_by o1 history ocs of
       None \<Rightarrow> br_state (fold record_outcome ocs b) = CLOSED
     | Some t \<Rightarrow> br_state (fold record_outcome ocs b) = OPEN \<and> br_opened_at (fold record_outcome ocs b) = t)"
  using assms
proof (induction ocs arbitrary: b history)
  case Nil
  then show ?case by (simp add: remembers_def)
next
  case (Cons x ocs)
  obtain success now where x: "x = (success, now)" by fastforce
  note R = remembers_record [OF Cons.prems(1), of x] record_closed [OF Cons.prems, of success now]
  show ?case
  proof (cases "trips o1 (history @ [success])")
    case True
    then show ?thesis using R recorded_open [OF _ R(1), of ocs] by (simp add: x)
  next
    case False
    then show ?thesis using R Cons.IH [OF R(1)] by (simp add: x cong: option.case_cong del: record_outcome.simps)
  qed
qed

lemma remembers_new:
  assumes "options_build o0 = Inr o1"
  shows "remembers o1 [] (with_options o1)"
  using assms
  by (auto simp: options_build_def remembers_def with_options_def window_new_def window_inv_def last_n_def split: if_splits)

text \<open>An open circuit with its options: what it answers until its probe has reported.\<close>

lemma permit_open:
  assumes "br_state b = OPEN" "0 < bo_reset_timeout (br_options b)"
  shows "unat now < unat (br_opened_at b) + bo_reset_timeout (br_options b) \<Longrightarrow> permit now b = (b, Inl circuit_open_error)"
    and "unat (br_opened_at b) + bo_reset_timeout (br_options b) \<le> unat now \<Longrightarrow>
      permit now b = (b\<lparr>br_state := HALF_OPEN, br_probe := True\<rparr>, Inr True)"
  using assms
  by (auto simp: permit_def permit_with_def permit_half_open_def elapsed_since_open_def saturating_sub_unat
      CLOSED_def OPEN_def HALF_OPEN_def)

lemma permit_probing:
  assumes "br_state b = HALF_OPEN" "br_probe b"
  shows "permit now b = (b, Inl circuit_open_error)"
  using assms by (simp add: permit_def permit_with_def permit_half_open_def CLOSED_def OPEN_def HALF_OPEN_def)

lemma probe_failed:
  assumes "br_state b = HALF_OPEN" "recoverable e"
  shows "guard_complete True later (Inl e) b = b\<lparr>br_state := OPEN, br_opened_at := later, br_probe := False\<rparr>"
    and "guard_drop True False later b = b\<lparr>br_state := OPEN, br_opened_at := later, br_probe := False\<rparr>"
  using assms by (simp_all add: guard_complete_def guard_drop_def breaker_failure_def breaker_open_def HALF_OPEN_def OPEN_def)

lemma probe_recovered:
  assumes "br_options b = o1" "ow_limit (br_outcomes b) = bo_sampling_window o1"
    "\<forall>e. result = Inl e \<longrightarrow> \<not> recoverable e"
  shows "guard_complete True later result b = (with_options o1)\<lparr>br_opened_at := br_opened_at b\<rparr>"
  using assms
  by (auto simp: guard_complete_def breaker_success_def with_options_def window_clear_def window_new_def split: sum.splits)

text \<open>
  Property C25: the circuit breaker trips exactly when its options say, cools down and recovers. After any
  results of admitted calls the circuit is closed unless some failure so far made up, with the outcomes in the
  sampling window, the minimum throughput and the failure ratio. From the first such failure on every call is
  rejected until the reset timeout has passed; then one call is admitted as a probe and every other is
  rejected until it reports. A recoverable failure or a dropped probe opens the circuit again for a whole
  timeout, any other result of the probe closes it with an empty window.
\<close>

theorem circuit_breaker_trips_exactly:
  assumes "options_build o0 = Inr o1" "b = fold record_outcome ocs (with_options o1)"
  shows "case opened_by o1 [] ocs of
      None \<Rightarrow> permit now b = (b, Inr False)
    | Some t \<Rightarrow>
        (unat now < unat t + bo_reset_timeout o1 \<longrightarrow> permit now b = (b, Inl circuit_open_error)) \<and>
        (unat t + bo_reset_timeout o1 \<le> unat now \<longrightarrow>
           (\<exists>b1. permit now b = (b1, Inr True) \<and>
              (\<forall>later. permit later b1 = (b1, Inl circuit_open_error)) \<and>
              (\<forall>later e. recoverable e \<longrightarrow>
                 guard_complete True later (Inl e) b1 = b1\<lparr>br_state := OPEN, br_opened_at := later, br_probe := False\<rparr> \<and>
                 guard_drop True False later b1 = b1\<lparr>br_state := OPEN, br_opened_at := later, br_probe := False\<rparr>) \<and>
              (\<forall>later result. (\<forall>e. result = Inl e \<longrightarrow> \<not> recoverable e) \<longrightarrow>
                 guard_complete True later result b1 = (with_options o1)\<lparr>br_opened_at := t\<rparr>)))"
proof -
  have R: "remembers o1 [] (with_options o1)" using assms(1) by (rule remembers_new)
  have new: "br_state (with_options o1) = CLOSED" "\<not> br_probe (with_options o1)" by (simp_all add: with_options_def)
  note S = recorded_state [OF R new, of ocs, folded assms(2)]
  have lim: "ow_limit (br_outcomes b) = bo_sampling_window o1"
    using remembers_fold [OF R, of ocs] by (simp add: remembers_def assms(2))
  have pos: "0 < bo_reset_timeout o1" using assms(1) by (auto simp: options_build_def split: if_splits)
  show ?thesis
  proof (cases "opened_by o1 [] ocs")
    case None
    then show ?thesis using S by (simp add: permit_def permit_with_def)
  next
    case (Some t)
    then have b: "br_options b = o1" "br_state b = OPEN" "br_opened_at b = t" using S by auto
    let ?b1 = "b\<lparr>br_state := HALF_OPEN, br_probe := True\<rparr>"
    note P = permit_open [OF b(2), unfolded b(1,3), OF pos, of now]
    have "permit later ?b1 = (?b1, Inl circuit_open_error)" for later by (rule permit_probing) simp_all
    with Some P show ?thesis
      using probe_failed [of ?b1] probe_recovered [of ?b1 o1] b lim by (auto intro!: exI [of _ ?b1])
  qed
qed

definition demo_options :: breaker_options where
  "demo_options = options_builder 1 10"

theorem circuit_breaker_trips_exactly_witness:
  "options_build demo_options = Inr demo_options \<and>
   opened_by demo_options [] [(False, 5)] = Some 5 \<and>
   permit 7 (fold record_outcome [(False, 5)] (with_options demo_options)) =
     (fold record_outcome [(False, 5)] (with_options demo_options), Inl circuit_open_error)"
proof -
  have o1: "options_build demo_options = Inr demo_options"
    by (simp add: demo_options_def options_builder_def options_build_def max_sampling_window_def)
  moreover have opened: "opened_by demo_options [] [(False, 5)] = Some 5"
    by (simp add: trips_def demo_options_def options_builder_def last_n_def)
  moreover have "unat (7 :: u64) < unat (5 :: u64) + bo_reset_timeout demo_options"
    by (simp add: demo_options_def options_builder_def)
  ultimately show ?thesis
    using circuit_breaker_trips_exactly [OF o1 refl, of 7 "[(False, 5)]"] by simp
qed

section \<open>Interleaved admission\<close>

text \<open>
  The accesses of \<open>permit\<close> as steps of any number of threads: a thread loads the state and, when it is open,
  the clock and the opening time; it exchanges open for half open and only then clears the probe flag; it
  exchanges the flag. Every step is one the code can take without interruption.
\<close>

datatype permit_position = PStart | PExpired | PEntered | PHalfOpen | PAdmitted bool | PRejected

record 't permit_state =
  pm_breaker :: breaker
  pm_clock :: u64
  pm_at :: "'t \<Rightarrow> permit_position"

inductive permit_step :: "'t permit_state \<Rightarrow> 't permit_state \<Rightarrow> bool" where
  permit_tick:
    "pm_clock s < now \<Longrightarrow> permit_step s (s\<lparr>pm_clock := now\<rparr>)"
| permit_closed:
    "pm_at s t = PStart \<Longrightarrow> br_state (pm_breaker s) = CLOSED \<Longrightarrow>
     permit_step s (s\<lparr>pm_at := (pm_at s)(t := PAdmitted False)\<rparr>)"
| permit_cooling:
    "pm_at s t = PStart \<Longrightarrow> br_state (pm_breaker s) = OPEN \<Longrightarrow>
     elapsed_since_open (pm_clock s) (pm_breaker s) < bo_reset_timeout (br_options (pm_breaker s)) \<Longrightarrow>
     permit_step s (s\<lparr>pm_at := (pm_at s)(t := PRejected)\<rparr>)"
| permit_expired:
    "pm_at s t = PStart \<Longrightarrow> br_state (pm_breaker s) = OPEN \<Longrightarrow>
     \<not> elapsed_since_open (pm_clock s) (pm_breaker s) < bo_reset_timeout (br_options (pm_breaker s)) \<Longrightarrow>
     permit_step s (s\<lparr>pm_at := (pm_at s)(t := PExpired)\<rparr>)"
| permit_exchange:
    "pm_at s t = PExpired \<Longrightarrow> br_state (pm_breaker s) = OPEN \<Longrightarrow>
     permit_step s (s\<lparr>pm_breaker := (pm_breaker s)\<lparr>br_state := HALF_OPEN\<rparr>, pm_at := (pm_at s)(t := PEntered)\<rparr>)"
| permit_exchange_lost:
    "pm_at s t = PExpired \<Longrightarrow> br_state (pm_breaker s) \<noteq> OPEN \<Longrightarrow>
     permit_step s (s\<lparr>pm_at := (pm_at s)(t := PStart)\<rparr>)"
| permit_clear:
    "pm_at s t = PEntered \<Longrightarrow>
     permit_step s (s\<lparr>pm_breaker := (pm_breaker s)\<lparr>br_probe := False\<rparr>, pm_at := (pm_at s)(t := PStart)\<rparr>)"
| permit_half:
    "pm_at s t = PStart \<Longrightarrow> br_state (pm_breaker s) = HALF_OPEN \<Longrightarrow>
     permit_step s (s\<lparr>pm_at := (pm_at s)(t := PHalfOpen)\<rparr>)"
| permit_probe:
    "pm_at s t = PHalfOpen \<Longrightarrow> \<not> br_probe (pm_breaker s) \<Longrightarrow>
     permit_step s (s\<lparr>pm_breaker := (pm_breaker s)\<lparr>br_probe := True\<rparr>, pm_at := (pm_at s)(t := PAdmitted True)\<rparr>)"
| permit_probe_taken:
    "pm_at s t = PHalfOpen \<Longrightarrow> br_probe (pm_breaker s) \<Longrightarrow>
     permit_step s (s\<lparr>pm_at := (pm_at s)(t := PRejected)\<rparr>)"

definition permit_init :: "u64 \<Rightarrow> breaker \<Rightarrow> 't permit_state" where
  "permit_init now b = \<lparr>pm_breaker = b, pm_clock = now, pm_at = (\<lambda>_. PStart)\<rparr>"

lemma rtranclp_step: "r x y \<Longrightarrow> r\<^sup>*\<^sup>* y z \<Longrightarrow> r\<^sup>*\<^sup>* x z"
  by (rule converse_rtranclp_into_rtranclp)

text \<open>
  Property C28: two probes can run at once. When the reset timeout of an open circuit has passed and two calls
  arrive, one of them can be admitted as the probe between the moment the other makes the circuit half open and the
  moment that other clears the probe flag, which then admits the second probe.
\<close>

theorem two_probes_admitted:
  assumes "br_state b = OPEN" "\<not> br_probe b"
    "\<not> elapsed_since_open now b < bo_reset_timeout (br_options b)" "t \<noteq> u"
  shows "\<exists>s. permit_step\<^sup>*\<^sup>* (permit_init now b) s \<and> pm_at s t = PAdmitted True \<and> pm_at s u = PAdmitted True"
proof -
  let ?s0 = "permit_init now b"
  let ?s1 = "?s0\<lparr>pm_at := (pm_at ?s0)(t := PExpired)\<rparr>"
  let ?s2 = "?s1\<lparr>pm_breaker := (pm_breaker ?s1)\<lparr>br_state := HALF_OPEN\<rparr>, pm_at := (pm_at ?s1)(t := PEntered)\<rparr>"
  let ?s3 = "?s2\<lparr>pm_at := (pm_at ?s2)(u := PHalfOpen)\<rparr>"
  let ?s4 = "?s3\<lparr>pm_breaker := (pm_breaker ?s3)\<lparr>br_probe := True\<rparr>, pm_at := (pm_at ?s3)(u := PAdmitted True)\<rparr>"
  let ?s5 = "?s4\<lparr>pm_breaker := (pm_breaker ?s4)\<lparr>br_probe := False\<rparr>, pm_at := (pm_at ?s4)(t := PStart)\<rparr>"
  let ?s6 = "?s5\<lparr>pm_at := (pm_at ?s5)(t := PHalfOpen)\<rparr>"
  let ?s7 = "?s6\<lparr>pm_breaker := (pm_breaker ?s6)\<lparr>br_probe := True\<rparr>, pm_at := (pm_at ?s6)(t := PAdmitted True)\<rparr>"
  have 1: "permit_step ?s0 ?s1" using assms by (intro permit_expired) (simp_all add: permit_init_def)
  have 2: "permit_step ?s1 ?s2" using assms by (intro permit_exchange) (simp_all add: permit_init_def)
  have 3: "permit_step ?s2 ?s3" using assms by (intro permit_half) (simp_all add: permit_init_def)
  have 4: "permit_step ?s3 ?s4" using assms by (intro permit_probe) (simp_all add: permit_init_def)
  have 5: "permit_step ?s4 ?s5" using assms by (intro permit_clear) (simp_all add: permit_init_def)
  have 6: "permit_step ?s5 ?s6" using assms by (intro permit_half) (simp_all add: permit_init_def)
  have 7: "permit_step ?s6 ?s7" using assms by (intro permit_probe) (simp_all add: permit_init_def)
  have "permit_step\<^sup>*\<^sup>* ?s0 ?s7"
    by (rule rtranclp_step [OF 1 rtranclp_step [OF 2 rtranclp_step [OF 3 rtranclp_step [OF 4
          rtranclp_step [OF 5 rtranclp_step [OF 6 r_into_rtranclp [of permit_step, OF 7]]]]]]])
  then show ?thesis using assms(4) by (intro exI [of _ ?s7]) simp
qed

theorem two_probes_admitted_witness:
  "\<exists>s. permit_step\<^sup>*\<^sup>* (permit_init 20 ((with_options demo_options)\<lparr>br_state := OPEN, br_opened_at := 5\<rparr>)) s \<and>
     pm_at s False = PAdmitted True \<and> pm_at s True = PAdmitted True"
  by (rule two_probes_admitted)
    (simp_all add: with_options_def demo_options_def options_builder_def elapsed_since_open_def saturating_sub_def)

text \<open>
  The executor of \<open>resilience.rs\<close> has no guard: when the future of a probe is dropped nobody reports, and the
  circuit rejects every later call at every later time.
\<close>

lemma dropped_probe_wedges_circuit:
  assumes "circuit_permit now b = (b1, Inr True)"
  shows "fold (\<lambda>t b. fst (circuit_permit t b)) ts b1 = b1 \<and> circuit_permit later b1 = (b1, Inl resilience_circuit_open)"
proof -
  have "br_state b1 = HALF_OPEN" "br_probe b1"
    using assms by (auto simp: circuit_permit_def permit_with_def permit_half_open_def split: if_splits)
  then have p: "circuit_permit t b1 = (b1, Inl resilience_circuit_open)" for t
    by (simp add: circuit_permit_def permit_with_def permit_half_open_def CLOSED_def OPEN_def HALF_OPEN_def)
  then have "fold (\<lambda>t b. fst (circuit_permit t b)) ts b1 = b1" by (induction ts) simp_all
  then show ?thesis using p by simp
qed

end
