(* ===== verification/Retries.thy ===== *)
theory Retries
  imports Circuit_Breaker
begin

text \<open>
  Bounded retries (\<open>crates/catga-core/src/retry_jitter.rs\<close>, \<open>crates/catga-core/src/behaviors/retry.rs\<close> and
  \<open>crates/catga-core/src/resilience.rs\<close>): the jitter policies, the exponential delays, the retry behavior, and
  the executor that admits, attempts and reports to its circuit. The pipeline or operation is a
  function on the state of the world; sleeping is the list of delays that were waited for.
\<close>

section \<open>Jitter\<close>

datatype retry_jitter = JNone | JFull u64 | JFixed duration

definition default_full_jitter_seed :: u64 where
  "default_full_jitter_seed = 0xd1b54a32d192ed03"

definition production_default :: retry_jitter where
  "production_default = JFull default_full_jitter_seed"

definition duration_max :: duration where
  "duration_max = 2 ^ 64 * 1000000000 - 1"

definition u128_saturating_add :: "nat \<Rightarrow> nat \<Rightarrow> nat" where
  "u128_saturating_add a b = min (2 ^ 128 - 1) (a + b)"

definition duration_from_nanos :: "nat \<Rightarrow> duration" where
  "duration_from_nanos nanos =
     (let seconds = nanos div 1000000000 in
      if seconds > 2 ^ 64 - 1 then duration_max else seconds * 1000000000 + nanos mod 1000000000)"

definition scale_duration :: "duration \<Rightarrow> u64 \<Rightarrow> duration" where
  "scale_duration base sample =
     (let divisor = 2 ^ 64 - 1;
          whole = base div divisor;
          remainder = base mod divisor
      in duration_from_nanos
           (u128_saturating_add (u128_saturating_mul whole (unat sample))
              (u128_saturating_mul remainder (unat sample) div divisor)))"

fun delay_for_sample :: "retry_jitter \<Rightarrow> duration \<Rightarrow> u64 \<Rightarrow> duration" where
  "delay_for_sample JNone base sample = base"
| "delay_for_sample (JFixed delay) base sample = delay"
| "delay_for_sample (JFull seed) base sample = scale_duration base sample"

definition mix64 :: "u64 \<Rightarrow> u64" where
  "mix64 v =
     (let v = (v XOR drop_bit 30 v) * 0xbf58476d1ce4e5b9;
          v = (v XOR drop_bit 27 v) * 0x94d049bb133111eb
      in v XOR drop_bit 31 v)"

definition jitter_state_new :: "retry_jitter \<Rightarrow> u64" where
  "jitter_state_new jitter = (case jitter of JFull seed \<Rightarrow> seed | _ \<Rightarrow> 0)"

text \<open>The exchange loop of \<open>next_sample\<close> adds the increment to whatever word it finds.\<close>

definition next_sample :: "u64 \<Rightarrow> u64 \<times> u64" where
  "next_sample current = (let next = current + 0x9e3779b97f4a7c15 in (next, mix64 next))"

definition jitter_delay :: "retry_jitter \<Rightarrow> duration \<Rightarrow> u64 \<Rightarrow> u64 \<times> duration" where
  "jitter_delay jitter base st =
     (case jitter of
        JFull seed \<Rightarrow> (case next_sample st of (st', sample) \<Rightarrow> (st', delay_for_sample jitter base sample))
      | _ \<Rightarrow> (st, delay_for_sample jitter base 0))"

section \<open>Delays\<close>

definition duration_saturating_mul :: "duration \<Rightarrow> nat \<Rightarrow> duration" where
  "duration_saturating_mul d m = min duration_max (d * m)"

definition backoff_multiplier :: "nat \<Rightarrow> nat" where
  "backoff_multiplier retry = (if retry < 2 ^ 32 \<and> retry < 32 then 2 ^ retry else 2 ^ 32 - 1)"

definition retry_delay :: "duration \<Rightarrow> nat \<Rightarrow> duration" where
  "retry_delay initial_delay retry = duration_saturating_mul initial_delay (backoff_multiplier retry)"

definition delay_for :: "retry_jitter \<Rightarrow> duration \<Rightarrow> nat \<Rightarrow> u64 \<Rightarrow> u64 \<times> duration" where
  "delay_for jitter initial_delay retry st =
     jitter_delay jitter (duration_saturating_mul initial_delay (backoff_multiplier retry)) st"

section \<open>Retry behavior\<close>

text \<open>
  The loop \<open>for retry in 0..=max_retries\<close>; \<open>left\<close> is the number of retries after this attempt, so the branch
  guard \<open>retry < max_retries\<close> is \<open>left > 0\<close>. The slept delays are collected.
\<close>

fun retry_loop ::
  "retry_jitter \<Rightarrow> duration \<Rightarrow> ('w \<Rightarrow> 'w \<times> 'r catga_result) \<Rightarrow> nat \<Rightarrow> nat \<Rightarrow> 'w \<Rightarrow> u64
   \<Rightarrow> ('w \<times> u64 \<times> duration list) \<times> 'r catga_result" where
  "retry_loop jitter initial_delay next retry left w st =
     (case next w of
        (w', Inr v) \<Rightarrow> ((w', st, []), Inr v)
      | (w', Inl e) \<Rightarrow>
          if recoverable e
          then (case left of
                  0 \<Rightarrow> ((w', st, []), Inl e)
                | Suc left' \<Rightarrow>
                    (case delay_for jitter initial_delay retry st of
                       (st', delay) \<Rightarrow>
                         (case retry_loop jitter initial_delay next (retry + 1) left' w' st' of
                            ((w'', st'', slept), r) \<Rightarrow> ((w'', st'', if delay = 0 then slept else delay # slept), r))))
          else ((w', st, []), Inl e))"

declare retry_loop.simps [simp del]

definition retry_handle ::
  "retry_jitter \<Rightarrow> duration \<Rightarrow> nat \<Rightarrow> ('w \<Rightarrow> 'w \<times> 'r catga_result) \<Rightarrow> 'w \<Rightarrow> u64
   \<Rightarrow> ('w \<times> u64 \<times> duration list) \<times> 'r catga_result" where
  "retry_handle jitter initial_delay max_retries next w st = retry_loop jitter initial_delay next 0 max_retries w st"

section \<open>Resilience executor\<close>

record resilience_options =
  ro_max_concurrent :: nat
  ro_max_queued :: nat
  ro_timeout :: duration
  ro_max_retries :: u32
  ro_retry_delay :: duration
  ro_circuit_failure_threshold :: nat
  ro_circuit_reset_timeout :: duration

definition resilience_default :: resilience_options where
  "resilience_default =
     \<lparr>ro_max_concurrent = 0, ro_max_queued = 0, ro_timeout = from_secs 3, ro_max_retries = 0, ro_retry_delay = 0,
      ro_circuit_failure_threshold = 20, ro_circuit_reset_timeout = from_secs 30\<rparr>"

definition resilience_validate :: "resilience_options \<Rightarrow> unit catga_result" where
  "resilience_validate opt =
     (if ro_max_concurrent opt = 0 \<and> ro_max_queued opt \<noteq> 0
      then Inl (error_new Validation ''resilience max_queued requires max_concurrent'')
      else if ro_timeout opt = 0
      then Inl (error_new Validation ''resilience timeout must be positive'')
      else Inr ())"

record resilience =
  re_options :: resilience_options
  re_waiting :: nat
  re_jitter :: retry_jitter
  re_jitter_state :: u64
  re_circuit :: breaker

definition with_policies :: "resilience_options \<Rightarrow> breaker_options \<Rightarrow> retry_jitter \<Rightarrow> resilience catga_result" where
  "with_policies opt circuit_options jitter =
     bind_r (resilience_validate opt) (\<lambda>_.
       Inr \<lparr>re_options = opt, re_waiting = 0, re_jitter = jitter, re_jitter_state = jitter_state_new jitter,
            re_circuit = with_options circuit_options\<rparr>)"

definition with_jitter :: "resilience_options \<Rightarrow> retry_jitter \<Rightarrow> resilience catga_result" where
  "with_jitter opt jitter =
     bind_r (options_build (options_builder (ro_circuit_failure_threshold opt) (ro_circuit_reset_timeout opt)))
       (\<lambda>circuit. with_policies opt circuit jitter)"

definition resilience_new :: "resilience_options \<Rightarrow> resilience catga_result" where
  "resilience_new opt = with_jitter opt production_default"

definition res_cancelled :: catga_error where
  "res_cancelled = error_new Cancelled ''resilience operation was cancelled''"

definition res_unavailable :: "string \<Rightarrow> catga_error" where
  "res_unavailable message = error_new Unavailable message"

text \<open>
  The semaphore is a library: what it answers at once, and how the wait in the queue ends, are arguments.
  The waiting counter is raised while the call queues and lowered afterwards.
\<close>

datatype try_permit = PermitNow | PermitClosed | NoPermits
datatype queue_end = QueueCancelled | QueueGranted | QueueClosed

definition res_acquire :: "try_permit \<Rightarrow> queue_end \<Rightarrow> resilience \<Rightarrow> bool catga_result" where
  "res_acquire tryp queue x =
     (if ro_max_concurrent (re_options x) = 0 then Inr False
      else case tryp of
        PermitNow \<Rightarrow> Inr True
      | PermitClosed \<Rightarrow> Inl (res_unavailable ''resilience executor is closed'')
      | NoPermits \<Rightarrow>
          if re_waiting x \<ge> ro_max_queued (re_options x)
          then Inl (res_unavailable ''resilience executor admission queue is full'')
          else (case queue of
                  QueueCancelled \<Rightarrow> Inl res_cancelled
                | QueueGranted \<Rightarrow> Inr True
                | QueueClosed \<Rightarrow> Inl (res_unavailable ''resilience executor is closed'')))"

text \<open>One attempt: the caller cancelled it, it ran into the timeout, or it returned.\<close>

datatype 'r attempt = AttemptCancelled | AttemptTimedOut | AttemptDone "'r catga_result"

definition attempt_result :: "'r attempt \<Rightarrow> 'r catga_result" where
  "attempt_result a =
     (case a of
        AttemptCancelled \<Rightarrow> Inl res_cancelled
      | AttemptTimedOut \<Rightarrow> Inl (error_new Timeout ''resilience operation timed out'')
      | AttemptDone r \<Rightarrow> r)"

text \<open>
  The attempts. \<open>gone\<close> tells whether the caller has cancelled before the given attempt, \<open>asleep\<close> whether it
  cancels during the delay after it.
\<close>

fun attempts ::
  "retry_jitter \<Rightarrow> duration \<Rightarrow> (nat \<Rightarrow> bool) \<Rightarrow> (nat \<Rightarrow> bool) \<Rightarrow> ('w \<Rightarrow> 'w \<times> 'r attempt) \<Rightarrow> nat \<Rightarrow> nat \<Rightarrow> 'w \<Rightarrow> u64
   \<Rightarrow> ('w \<times> u64) \<times> 'r catga_result" where
  "attempts jitter delay gone asleep operation retry left w st =
     (if gone retry then ((w, st), Inl res_cancelled)
      else case operation w of
        (w', a) \<Rightarrow>
          (case attempt_result a of
             Inr v \<Rightarrow> ((w', st), Inr v)
           | Inl e \<Rightarrow>
               (case left of
                  0 \<Rightarrow> ((w', st), Inl e)
                | Suc left' \<Rightarrow>
                    if recoverable e
                    then (case jitter_delay jitter (retry_delay delay retry) st of
                            (st', d) \<Rightarrow>
                              if d \<noteq> 0 \<and> asleep retry then ((w', st'), Inl res_cancelled)
                              else attempts jitter delay gone asleep operation (retry + 1) left' w' st')
                    else ((w', st), Inl e))))"

declare attempts.simps [simp del]

definition res_execute ::
  "try_permit \<Rightarrow> queue_end \<Rightarrow> bool \<Rightarrow> (nat \<Rightarrow> bool) \<Rightarrow> (nat \<Rightarrow> bool) \<Rightarrow> u64 \<Rightarrow> u64
   \<Rightarrow> ('w \<Rightarrow> 'w \<times> 'r attempt) \<Rightarrow> resilience \<times> 'w \<Rightarrow> (resilience \<times> 'w) \<times> 'r catga_result" where
  "res_execute tryp queue cancelled gone asleep now later operation xw =
     (case xw of (x, w) \<Rightarrow>
      if cancelled then ((x, w), Inl res_cancelled)
      else case res_acquire tryp queue x of
        Inl e \<Rightarrow> ((x, w), Inl e)
      | Inr _ \<Rightarrow>
          (case circuit_permit now (re_circuit x) of
             (c, Inl e) \<Rightarrow> ((x\<lparr>re_circuit := c\<rparr>, w), Inl e)
           | (c, Inr probe) \<Rightarrow>
               (case attempts (re_jitter x) (ro_retry_delay (re_options x)) gone asleep operation 0
                       (unat (ro_max_retries (re_options x))) w (re_jitter_state x) of
                  ((w', st), result) \<Rightarrow>
                    ((x\<lparr>re_jitter_state := st, re_circuit := circuit_complete probe later result c\<rparr>, w'), result))))"

section \<open>Delays are bounded\<close>

lemma scale_duration_le:
  assumes "base \<le> duration_max"
  shows "scale_duration base sample \<le> base"
proof -
  let ?d = "2 ^ 64 - 1 :: nat"
  have s: "unat sample \<le> ?d" using unsigned_less [of sample, where 'a = nat] by simp
  have "u128_saturating_mul (base div ?d) (unat sample) \<le> base div ?d * ?d"
    using mult_le_mono2 [OF s] unfolding u128_saturating_mul_def by (rule min.coboundedI2)
  moreover have "u128_saturating_mul (base mod ?d) (unat sample) div ?d \<le> base mod ?d"
  proof -
    have "u128_saturating_mul (base mod ?d) (unat sample) \<le> base mod ?d * ?d"
      using mult_le_mono2 [OF s] unfolding u128_saturating_mul_def by (rule min.coboundedI2)
    then have "u128_saturating_mul (base mod ?d) (unat sample) div ?d \<le> base mod ?d * ?d div ?d" by (rule div_le_mono)
    then show ?thesis by simp
  qed
  ultimately have "u128_saturating_add (u128_saturating_mul (base div ?d) (unat sample))
      (u128_saturating_mul (base mod ?d) (unat sample) div ?d) \<le> base div ?d * ?d + base mod ?d"
    unfolding u128_saturating_add_def by (intro min.coboundedI2 add_mono)
  moreover have "duration_from_nanos n \<le> base" if "n \<le> base" for n
  proof -
    have "n div 1000000000 \<le> duration_max div 1000000000" using that assms by (intro div_le_mono) simp
    also have "\<dots> = 2 ^ 64 - 1" by (simp add: duration_max_def)
    finally show ?thesis using that by (simp add: duration_from_nanos_def Let_def)
  qed
  ultimately show ?thesis unfolding scale_duration_def Let_def by (simp only: div_mult_mod_eq)
qed

definition delay_bound :: "retry_jitter \<Rightarrow> duration \<Rightarrow> nat \<Rightarrow> duration" where
  "delay_bound jitter initial_delay retry =
     (case jitter of JFixed d \<Rightarrow> d | _ \<Rightarrow> retry_delay initial_delay retry)"

lemma delay_for_le: "snd (delay_for jitter initial_delay retry st) \<le> delay_bound jitter initial_delay retry"
proof -
  have "duration_saturating_mul initial_delay (backoff_multiplier retry) \<le> duration_max"
    by (simp add: duration_saturating_mul_def)
  then show ?thesis
    by (cases jitter) (auto simp: delay_for_def jitter_delay_def delay_bound_def retry_delay_def scale_duration_le split: prod.splits)
qed

section \<open>Retries are exact\<close>

text \<open>The state after the pipeline has run a number of times, and the result of the run that comes next.\<close>

fun after_runs :: "('w \<Rightarrow> 'w \<times> 'r catga_result) \<Rightarrow> nat \<Rightarrow> 'w \<Rightarrow> 'w" where
  "after_runs next 0 w = w"
| "after_runs next (Suc n) w = after_runs next n (fst (next w))"

definition run_result :: "('w \<Rightarrow> 'w \<times> 'r catga_result) \<Rightarrow> nat \<Rightarrow> 'w \<Rightarrow> 'r catga_result" where
  "run_result next n w = snd (next (after_runs next n w))"

definition retried :: "'r catga_result \<Rightarrow> bool" where
  "retried r \<longleftrightarrow> (case r of Inl e \<Rightarrow> recoverable e | Inr _ \<Rightarrow> False)"

lemma run_result_Suc: "run_result next (Suc n) w = run_result next n (fst (next w))"
  by (simp add: run_result_def)

lemma retry_loop_exact:
  "\<exists>k \<le> left. \<exists>st' slept.
     retry_loop jitter d next retry left w st = ((after_runs next (Suc k) w, st', slept), run_result next k w) \<and>
     (\<forall>i < k. retried (run_result next i w)) \<and> (k < left \<longrightarrow> \<not> retried (run_result next k w)) \<and>
     length slept \<le> k \<and> (\<forall>x \<in> set slept. \<exists>i < k. x \<le> delay_bound jitter d (retry + i))"
proof (induction left arbitrary: retry w st)
  case 0
  show ?case
    by (subst retry_loop.simps) (auto simp: run_result_def split: prod.splits sum.splits)
next
  case (Suc left)
  show ?case
  proof (cases "retried (run_result next 0 w)")
    case False
    then have "retry_loop jitter d next retry (Suc left) w st = ((after_runs next (Suc 0) w, st, []), run_result next 0 w)"
      by (subst retry_loop.simps) (auto simp: run_result_def retried_def split: prod.splits sum.splits)
    with False show ?thesis by (intro exI [of _ "0 :: nat"] conjI exI [of _ st] exI [of _ "[]"]) simp_all
  next
    case True
    then obtain w' e where next_w: "next w = (w', Inl e)" and e: "recoverable e"
      by (cases "next w") (auto simp: run_result_def retried_def split: sum.splits)
    obtain st1 delay where delay: "delay_for jitter d retry st = (st1, delay)" by fastforce
    from Suc.IH [of "retry + 1" w' st1] obtain k st' slept where k: "k \<le> left"
      "retry_loop jitter d next (retry + 1) left w' st1 = ((after_runs next (Suc k) w', st', slept), run_result next k w')"
      "\<forall>i < k. retried (run_result next i w')" "k < left \<longrightarrow> \<not> retried (run_result next k w')"
      "length slept \<le> k" "\<forall>x \<in> set slept. \<exists>i < k. x \<le> delay_bound jitter d (retry + 1 + i)" by blast
    let ?slept = "if delay = 0 then slept else delay # slept"
    have "retry_loop jitter d next retry (Suc left) w st =
        ((after_runs next (Suc (Suc k)) w, st', ?slept), run_result next (Suc k) w)"
      using k(2) delay e by (subst retry_loop.simps) (simp add: next_w run_result_Suc)
    moreover have "\<forall>i < Suc k. retried (run_result next i w)"
      using k(3) True by (auto simp: less_Suc_eq_0_disj run_result_Suc next_w)
    moreover have "\<forall>x \<in> set ?slept. \<exists>i < Suc k. x \<le> delay_bound jitter d (retry + i)"
    proof
      fix x assume "x \<in> set ?slept"
      then consider "x = delay" | "x \<in> set slept" by (auto split: if_splits)
      then show "\<exists>i < Suc k. x \<le> delay_bound jitter d (retry + i)"
      proof cases
        case 1
        then show ?thesis using delay_for_le [of jitter d retry st] delay by (intro exI [of _ 0]) simp
      next
        case 2
        then obtain i where "i < k" "x \<le> delay_bound jitter d (retry + 1 + i)" using k(6) by blast
        then show ?thesis by (intro exI [of _ "Suc i"]) simp
      qed
    qed
    moreover have "length ?slept \<le> Suc k" using k(5) by simp
    moreover have "Suc k < Suc left \<longrightarrow> \<not> retried (run_result next (Suc k) w)"
      using k(4) by (simp add: run_result_Suc next_w)
    ultimately show ?thesis using k(1) by (intro exI [of _ "Suc k"]) blast
  qed
qed

text \<open>
  Property C26: retries are exact and bounded. The retry behavior runs the pipeline once and again after each
  recoverable failure, never after a success, a cancellation or another failure, and at most \<open>max_retries\<close> times
  more; it returns the result of the last run; and it sleeps at most once between two runs, never longer than
  the saturated exponential delay of that retry or the fixed delay of its policy.
\<close>

theorem retry_exact:
  "\<exists>k \<le> max_retries. \<exists>st' slept.
     retry_handle jitter initial_delay max_retries next w st = ((after_runs next (Suc k) w, st', slept), run_result next k w) \<and>
     (\<forall>i < k. retried (run_result next i w)) \<and> (k < max_retries \<longrightarrow> \<not> retried (run_result next k w)) \<and>
     length slept \<le> k \<and> (\<forall>x \<in> set slept. \<exists>i < k. x \<le> delay_bound jitter initial_delay i)"
  using retry_loop_exact [of max_retries jitter initial_delay "next" 0 w st] by (simp add: retry_handle_def)

definition flaky :: "nat \<Rightarrow> nat \<times> nat catga_result" where
  "flaky w = (w + 1, if w < 2 then Inl (error_new Transient ''try again'') else Inr w)"

theorem retry_exact_witness:
  "\<exists>st' slept. retry_handle JNone 0 5 flaky 0 0 = ((3, st', slept), Inr 2)"
proof -
  have runs: "run_result flaky 0 0 = Inl (error_new Transient ''try again'')"
    "run_result flaky 1 0 = Inl (error_new Transient ''try again'')" "run_result flaky 2 0 = Inr 2"
    "after_runs flaky (Suc 2) 0 = 3"
    by (simp_all add: run_result_def flaky_def numeral_2_eq_2)
  have again: "retried (run_result flaky 0 0)" "retried (run_result flaky 1 0)" "\<not> retried (run_result flaky 2 0)"
    by (simp_all only: runs) (simp_all add: retried_def recoverable_def error_new_def)
  from retry_exact [of 5 JNone 0 flaky 0 0] obtain k st' slept where k: "k \<le> 5"
    "retry_handle JNone 0 5 flaky 0 0 = ((after_runs flaky (Suc k) 0, st', slept), run_result flaky k 0)"
    "\<forall>i < k. retried (run_result flaky i 0)" "k < 5 \<longrightarrow> \<not> retried (run_result flaky k 0)" by blast
  have "\<not> (k = 0 \<or> k = 1)" using k(4) again(1,2) by (intro notI, elim disjE) simp_all
  moreover have "\<not> 2 < k" using k(3) again(3) by blast
  ultimately have "k = 2" by presburger
  with k(2) runs show ?thesis by simp
qed

end
