(* ===== verification/Flows.thy ===== *)
theory Flows
  imports Catga_Errors
begin

text \<open>
  Durable flow state (\<open>crates/catga-core/src/flow/state.rs\<close>), its wire form (with the time encoding of
  \<open>flow/memorypack.rs\<close>), the store interface (\<open>flow/store.rs\<close>) and the in-memory store
  (\<open>memory/flow.rs\<close>). A compare-and-swap loop of the store takes effect at its successful exchange, so each
  operation is one atomic function on the map of flows.
\<close>

section \<open>Flow state\<close>

definition max_flow_data_bytes :: nat where
  "max_flow_data_bytes = 1024 * 1024"

datatype flow_status = FRunning | FCompensating | FSuspended | FDone | FFailed | FCancelled

fun is_terminal :: "flow_status \<Rightarrow> bool" where
  "is_terminal FDone = True"
| "is_terminal FFailed = True"
| "is_terminal FCancelled = True"
| "is_terminal _ = False"

record flow_state =
  fl_id :: string
  fl_type :: string
  fl_status :: flow_status
  fl_step :: u32
  fl_version :: int
  fl_owner :: "string option"
  fl_heartbeat :: systime
  fl_data :: bytes
  fl_error :: "catga_error option"

definition flow_new :: "string \<Rightarrow> string \<Rightarrow> bytes \<Rightarrow> string \<Rightarrow> systime \<Rightarrow> flow_state" where
  "flow_new ident flow_type data owner now =
     \<lparr>fl_id = ident, fl_type = flow_type, fl_status = FRunning, fl_step = 0, fl_version = 0, fl_owner = Some owner,
      fl_heartbeat = now, fl_data = data, fl_error = None\<rparr>"

definition flow_validate :: "flow_state \<Rightarrow> unit catga_result" where
  "flow_validate f =
     (if length (fl_data f) > max_flow_data_bytes
      then Inl (error_new Validation (''flow input payload exceeds '' @ dec max_flow_data_bytes @ '' bytes'')) else Inr ())"

definition claimed_by :: "string \<Rightarrow> systime \<Rightarrow> flow_state \<Rightarrow> flow_state" where
  "claimed_by owner now f = f\<lparr>fl_owner := Some owner, fl_heartbeat := now\<rparr>"

definition heartbeated_at :: "systime \<Rightarrow> flow_state \<Rightarrow> flow_state" where
  "heartbeated_at heartbeat f = f\<lparr>fl_heartbeat := heartbeat\<rparr>"

definition at_step :: "u32 \<Rightarrow> flow_state \<Rightarrow> flow_state" where
  "at_step step f = f\<lparr>fl_step := step\<rparr>"

definition flow_compensating :: "flow_state \<Rightarrow> flow_state" where
  "flow_compensating f = f\<lparr>fl_status := FCompensating\<rparr>"

definition with_error :: "catga_error \<Rightarrow> flow_state \<Rightarrow> flow_state" where
  "with_error e f = f\<lparr>fl_error := Some e\<rparr>"

definition flow_suspended :: "flow_state \<Rightarrow> flow_state" where
  "flow_suspended f = f\<lparr>fl_status := FSuspended, fl_owner := None\<rparr>"

definition flow_running :: "flow_state \<Rightarrow> flow_state" where
  "flow_running f = f\<lparr>fl_status := FRunning\<rparr>"

definition flow_done :: "u32 \<Rightarrow> flow_state \<Rightarrow> flow_state" where
  "flow_done step f = f\<lparr>fl_status := FDone, fl_step := step, fl_owner := None, fl_error := None\<rparr>"

definition flow_failed :: "catga_error \<Rightarrow> flow_state \<Rightarrow> flow_state" where
  "flow_failed e f = f\<lparr>fl_status := FFailed, fl_owner := None, fl_error := Some e\<rparr>"

definition flow_cancelled :: "flow_state \<Rightarrow> flow_state" where
  "flow_cancelled f = f\<lparr>fl_status := FCancelled, fl_owner := None, fl_error := None\<rparr>"

definition next_version :: "flow_state \<Rightarrow> flow_state catga_result" where
  "next_version f =
     bind_r (ok_or (error_new Conflict ''flow state version cannot advance beyond i64::MAX'') (i64_checked_add (fl_version f) 1))
       (\<lambda>version. Inr (f\<lparr>fl_version := version\<rparr>))"

definition is_next_version :: "int \<Rightarrow> int \<Rightarrow> bool" where
  "is_next_version expected nxt \<longleftrightarrow> i64_checked_add expected 1 = Some nxt"

section \<open>Wire form\<close>

fun encode_flow_status :: "flow_status \<Rightarrow> u8" where
  "encode_flow_status FRunning = 0"
| "encode_flow_status FCompensating = 1"
| "encode_flow_status FSuspended = 2"
| "encode_flow_status FDone = 3"
| "encode_flow_status FFailed = 4"
| "encode_flow_status FCancelled = 5"

definition decode_flow_status :: "u8 \<Rightarrow> memory_pack_error + flow_status" where
  "decode_flow_status v =
     (if v = 0 then Inr FRunning else if v = 1 then Inr FCompensating else if v = 2 then Inr FSuspended
      else if v = 3 then Inr FDone else if v = 4 then Inr FFailed else if v = 5 then Inr FCancelled
      else Inl (DeserializationError (''invalid flow status: '' @ dec (unat v))))"

record time_wire =
  tw_before_epoch :: bool
  tw_seconds :: u64
  tw_nanoseconds :: u32

text \<open>A \<open>SystemTime\<close> holds a signed 64-bit number of seconds and the nanoseconds above it.\<close>

definition systime_ok :: "systime \<Rightarrow> bool" where
  "systime_ok t \<longleftrightarrow> - (2 ^ 63) * 1000000000 \<le> t \<and> t < 2 ^ 63 * 1000000000"

definition encode_time :: "systime \<Rightarrow> time_wire" where
  "encode_time t =
     (let (before_epoch, elapsed) = (if 0 \<le> t then (False, nat t) else (True, nat (- t)))
      in \<lparr>tw_before_epoch = before_epoch, tw_seconds = word_of_nat (elapsed div 1000000000),
          tw_nanoseconds = word_of_nat (elapsed mod 1000000000)\<rparr>)"

definition decode_time :: "time_wire \<Rightarrow> memory_pack_error + systime" where
  "decode_time w =
     (if tw_nanoseconds w \<ge> 1000000000
      then Inl (DeserializationError ''flow timestamp nanoseconds are out of range'')
      else let elapsed = unat (tw_seconds w) * 1000000000 + unat (tw_nanoseconds w);
               t = (if tw_before_epoch w then - int elapsed else int elapsed)
           in if systime_ok t then Inr t else Inl (DeserializationError ''flow timestamp is out of range''))"

record flow_state_wire =
  fw_id :: string
  fw_type :: string
  fw_status :: u8
  fw_step :: u32
  fw_version :: int
  fw_owner :: "string option"
  fw_heartbeat :: time_wire
  fw_data :: bytes
  fw_error :: "catga_error_wire option"

definition flow_to_wire :: "flow_state \<Rightarrow> memory_pack_error + flow_state_wire" where
  "flow_to_wire f =
     (case flow_validate f of
        Inl e \<Rightarrow> Inl (SerializationError (ce_message e))
      | Inr _ \<Rightarrow>
          Inr \<lparr>fw_id = fl_id f, fw_type = fl_type f, fw_status = encode_flow_status (fl_status f),
               fw_step = fl_step f, fw_version = fl_version f, fw_owner = fl_owner f,
               fw_heartbeat = encode_time (fl_heartbeat f), fw_data = fl_data f,
               fw_error = map_option wire_from_error (fl_error f)\<rparr>)"

definition decode_error_option :: "catga_error_wire option \<Rightarrow> memory_pack_error + catga_error option" where
  "decode_error_option w =
     (case w of None \<Rightarrow> Inr None | Some x \<Rightarrow> bind_r (error_try_from_wire x) (\<lambda>e. Inr (Some e)))"

definition flow_from_wire :: "flow_state_wire \<Rightarrow> memory_pack_error + flow_state" where
  "flow_from_wire w =
     bind_r (decode_flow_status (fw_status w)) (\<lambda>status.
     bind_r (decode_time (fw_heartbeat w)) (\<lambda>heartbeat.
     bind_r (decode_error_option (fw_error w)) (\<lambda>error.
       let state = \<lparr>fl_id = fw_id w, fl_type = fw_type w, fl_status = status, fl_step = fw_step w,
                    fl_version = fw_version w, fl_owner = fw_owner w, fl_heartbeat = heartbeat,
                    fl_data = fw_data w, fl_error = error\<rparr>
       in case flow_validate state of
            Inl e \<Rightarrow> Inl (DeserializationError (''invalid flow state: '' @ ce_message e))
          | Inr _ \<Rightarrow> Inr state)))"

lemma decode_encode_flow_status [simp]: "decode_flow_status (encode_flow_status st) = Inr st"
  by (cases st) (simp_all add: decode_flow_status_def)

lemma decode_encode_time:
  assumes "systime_ok t"
  shows "decode_time (encode_time t) = Inr t"
proof -
  define n where "n = nat \<bar>t\<bar>"
  have t: "t < 0 \<Longrightarrow> - int n = t" "\<not> t < 0 \<Longrightarrow> int n = t" by (simp_all add: n_def)
  have "n div 1000000000 < 2 ^ 64" using assms by (auto simp: systime_ok_def n_def)
  then have s: "unat (word_of_nat (n div 1000000000) :: u64) = n div 1000000000" by (simp add: unat_of_nat take_bit_nat_eq_self)
  have m: "unat (word_of_nat (n mod 1000000000) :: u32) = n mod 1000000000" by (simp add: unat_of_nat take_bit_nat_def)
  have e: "encode_time t = \<lparr>tw_before_epoch = (t < 0), tw_seconds = word_of_nat (n div 1000000000),
      tw_nanoseconds = word_of_nat (n mod 1000000000)\<rparr>"
    by (simp add: encode_time_def n_def)
  have "\<not> 1000000000 \<le> (word_of_nat (n mod 1000000000) :: u32)" by (simp add: word_le_nat_alt m)
  moreover have "n div 1000000000 * 1000000000 + n mod 1000000000 = n" by simp
  ultimately show ?thesis using assms t unfolding decode_time_def e
    by (cases "t < 0") (simp_all add: s m Let_def del: of_nat_add of_nat_mult)
qed

text \<open>A stored flow comes back from the wire as it was, its error without the process-local source.\<close>

lemma flow_wire_roundtrip:
  assumes "flow_validate f = Inr ()" "systime_ok (fl_heartbeat f)" "\<And>e. fl_error f = Some e \<Longrightarrow> error_wf e"
  shows "bind_r (flow_to_wire f) flow_from_wire = Inr (f\<lparr>fl_error := map_option error_clone (fl_error f)\<rparr>)"
proof -
  have "error_try_from_wire (wire_from_error e) = Inr (error_clone e)" if "error_wf e" for e
    using that error_wire_decode [of e] by (cases e) (auto simp: error_wf_def error_is_retryable.simps)
  then have "decode_error_option (map_option wire_from_error (fl_error f)) = Inr (map_option error_clone (fl_error f))"
    using assms(3) by (cases "fl_error f") (auto simp: decode_error_option_def)
  then show ?thesis using assms(1,2)
    by (simp add: flow_to_wire_def flow_from_wire_def decode_encode_time flow_validate_def split: if_splits)
qed

section \<open>Stores\<close>

definition max_flow_store_batch :: nat where
  "max_flow_store_batch = 1024"

definition validate_flow_batch_size :: "nat \<Rightarrow> unit catga_result" where
  "validate_flow_batch_size batch =
     (if batch > max_flow_store_batch
      then Inl (error_new Validation ''flow batch size exceeds the supported maximum'') else Inr ())"

text \<open>
  The operations of a store; \<open>'e\<close> is what a claim reads of its surroundings, the clock and the order in
  which it meets the flows.
\<close>

record ('e, 's) flow_ops =
  fo_create :: "flow_state \<Rightarrow> 's \<Rightarrow> 's \<times> bool catga_result"
  fo_update :: "int \<Rightarrow> flow_state \<Rightarrow> 's \<Rightarrow> 's \<times> bool catga_result"
  fo_get :: "'s \<Rightarrow> string \<Rightarrow> flow_state option catga_result"
  fo_try_claim :: "string \<Rightarrow> string \<Rightarrow> duration \<Rightarrow> 'e \<Rightarrow> 's \<Rightarrow> 's \<times> flow_state option catga_result"
  fo_heartbeat :: "string \<Rightarrow> string \<Rightarrow> int \<Rightarrow> systime \<Rightarrow> 's \<Rightarrow> 's \<times> bool catga_result"

fun create_each :: "('e, 's) flow_ops \<Rightarrow> flow_state list \<Rightarrow> 's \<Rightarrow> 's \<times> bool list catga_result" where
  "create_each ops [] s = (s, Inr [])"
| "create_each ops (state # states) s =
     (case fo_create ops state s of
        (s', Inl e) \<Rightarrow> (s', Inl e)
      | (s', Inr flag) \<Rightarrow>
          (case create_each ops states s' of (s'', r) \<Rightarrow> (s'', bind_r r (\<lambda>flags. Inr (flag # flags)))))"

definition create_batch :: "('e, 's) flow_ops \<Rightarrow> flow_state list \<Rightarrow> 's \<Rightarrow> 's \<times> bool list catga_result" where
  "create_batch ops states s =
     (case validate_flow_batch_size (length states) of Inl e \<Rightarrow> (s, Inl e) | Inr _ \<Rightarrow> create_each ops states s)"

type_synonym memory_flows = "string \<rightharpoonup> flow_state"

definition flows_create :: "flow_state \<Rightarrow> memory_flows \<Rightarrow> memory_flows \<times> bool catga_result" where
  "flows_create state s =
     (case flow_validate state of
        Inl e \<Rightarrow> (s, Inl e)
      | Inr _ \<Rightarrow>
          (case s (fl_id state) of
             None \<Rightarrow> (s(fl_id state \<mapsto> state), Inr True)
           | Some _ \<Rightarrow> (s, Inr False)))"

definition flows_update :: "int \<Rightarrow> flow_state \<Rightarrow> memory_flows \<Rightarrow> memory_flows \<times> bool catga_result" where
  "flows_update expected_version nxt s =
     (case flow_validate nxt of
        Inl e \<Rightarrow> (s, Inl e)
      | Inr _ \<Rightarrow>
          if \<not> is_next_version expected_version (fl_version nxt) then (s, Inr False)
          else (case s (fl_id nxt) of
                  None \<Rightarrow> (s, Inr False)
                | Some current \<Rightarrow>
                    if fl_version current \<noteq> expected_version then (s, Inr False)
                    else (s(fl_id nxt \<mapsto> nxt), Inr True)))"

definition flows_get :: "memory_flows \<Rightarrow> string \<Rightarrow> flow_state option catga_result" where
  "flows_get s ident =
     (case s ident of
        None \<Rightarrow> Inr None
      | Some state \<Rightarrow> bind_r (flow_validate state) (\<lambda>_. Inr (Some state)))"

definition flow_is_stale :: "systime \<Rightarrow> systime \<Rightarrow> duration \<Rightarrow> bool" where
  "flow_is_stale heartbeat now stale_after \<longleftrightarrow> heartbeat \<le> now \<and> nat (now - heartbeat) \<ge> stale_after"

fun flows_claim_loop ::
  "string \<Rightarrow> string \<Rightarrow> duration \<Rightarrow> systime \<Rightarrow> systime \<Rightarrow> string list \<Rightarrow> memory_flows
   \<Rightarrow> memory_flows \<times> flow_state option catga_result" where
  "flows_claim_loop flow_type owner stale_after now now' [] s = (s, Inr None)"
| "flows_claim_loop flow_type owner stale_after now now' (k # ks) s =
     (case s k of
        None \<Rightarrow> flows_claim_loop flow_type owner stale_after now now' ks s
      | Some current \<Rightarrow>
          (case flow_validate current of
             Inl e \<Rightarrow> (s, Inl e)
           | Inr _ \<Rightarrow>
               if fl_type current \<noteq> flow_type \<or> fl_status current \<noteq> FRunning
                  \<or> \<not> flow_is_stale (fl_heartbeat current) now stale_after
               then flows_claim_loop flow_type owner stale_after now now' ks s
               else (case next_version (claimed_by owner now' current) of
                       Inl e \<Rightarrow> (s, Inl e)
                     | Inr nxt \<Rightarrow> (s(k \<mapsto> nxt), Inr (Some nxt)))))"

definition flows_try_claim ::
  "string \<Rightarrow> string \<Rightarrow> duration \<Rightarrow> systime \<times> systime \<times> string list \<Rightarrow> memory_flows
   \<Rightarrow> memory_flows \<times> flow_state option catga_result" where
  "flows_try_claim flow_type owner stale_after e s =
     (case e of (now, now', iter) \<Rightarrow> flows_claim_loop flow_type owner stale_after now now' iter s)"

definition flows_heartbeat :: "string \<Rightarrow> string \<Rightarrow> int \<Rightarrow> systime \<Rightarrow> memory_flows \<Rightarrow> memory_flows \<times> bool catga_result" where
  "flows_heartbeat ident owner version now s =
     (case s ident of
        None \<Rightarrow> (s, Inr False)
      | Some current \<Rightarrow>
          if fl_owner current \<noteq> Some owner \<or> fl_version current \<noteq> version then (s, Inr False)
          else (s(ident \<mapsto> heartbeated_at now current), Inr True))"

definition memory_flow_ops :: "(systime \<times> systime \<times> string list, memory_flows) flow_ops" where
  "memory_flow_ops =
     \<lparr>fo_create = flows_create, fo_update = flows_update, fo_get = flows_get, fo_try_claim = flows_try_claim,
      fo_heartbeat = flows_heartbeat\<rparr>"

section \<open>What every store keeps\<close>

text \<open>
  A stored flow is filed under its identity, within the payload bound, unowned when it is terminal and with
  an error when it failed.
\<close>

definition flow_ok :: "string \<Rightarrow> flow_state \<Rightarrow> bool" where
  "flow_ok k f \<longleftrightarrow> fl_id f = k \<and> flow_validate f = Inr () \<and> (is_terminal (fl_status f) \<longrightarrow> fl_owner f = None) \<and>
     (fl_status f = FFailed \<longrightarrow> fl_error f \<noteq> None)"

lemma flow_ok_heartbeat [simp]: "flow_ok k (heartbeated_at now f) \<longleftrightarrow> flow_ok k f"
  by (simp add: flow_ok_def heartbeated_at_def flow_validate_def)

text \<open>
  How a flow may change: a flow that is not terminal moves to a higher version, and at one version only the
  heartbeat of a flow that is not terminal changes.
\<close>

definition flow_le :: "flow_state \<Rightarrow> flow_state \<Rightarrow> bool" where
  "flow_le f f' \<longleftrightarrow> fl_id f' = fl_id f \<and> fl_type f' = fl_type f \<and>
     (fl_version f < fl_version f' \<and> \<not> is_terminal (fl_status f) \<or>
      fl_version f' = fl_version f \<and> f' = f\<lparr>fl_heartbeat := fl_heartbeat f'\<rparr> \<and> (is_terminal (fl_status f) \<longrightarrow> f' = f))"

lemma flow_le_refl [simp, intro]: "flow_le f f"
  by (simp add: flow_le_def)

lemma flow_le_heartbeat:
  assumes "flow_le f f'" "fl_version f' = fl_version f"
  shows "f' = f\<lparr>fl_heartbeat := fl_heartbeat f'\<rparr>" "fl_status f' = fl_status f" "fl_owner f' = fl_owner f"
proof -
  show *: "f' = f\<lparr>fl_heartbeat := fl_heartbeat f'\<rparr>" using assms by (auto simp: flow_le_def)
  show "fl_status f' = fl_status f" by (subst *) simp
  show "fl_owner f' = fl_owner f" by (subst *) simp
qed

lemma flow_le_terminal: "flow_le f f' \<Longrightarrow> is_terminal (fl_status f) \<Longrightarrow> f' = f"
  by (auto simp: flow_le_def)

lemma flow_le_trans:
  assumes "flow_le f g" "flow_le g h"
  shows "flow_le f h"
proof (cases "fl_version g = fl_version f")
  case False
  then have "fl_version f < fl_version g" "\<not> is_terminal (fl_status f)" using assms(1) by (auto simp: flow_le_def)
  moreover have "fl_version g \<le> fl_version h" using assms(2) by (auto simp: flow_le_def)
  ultimately show ?thesis using assms by (auto simp: flow_le_def)
next
  case True
  note g = flow_le_heartbeat [OF assms(1) True]
  show ?thesis
  proof (cases "fl_version h = fl_version g")
    case False
    then show ?thesis using assms True g(2) by (auto simp: flow_le_def)
  next
    case same: True
    have "h = f\<lparr>fl_heartbeat := fl_heartbeat h\<rparr>"
      using flow_le_heartbeat(1) [OF assms(2) same] g(1) by (metis (no_types, lifting) flow_state.update_convs(7) flow_state.surjective)
    moreover have "is_terminal (fl_status f) \<longrightarrow> h = f"
      using flow_le_terminal [OF assms(1)] flow_le_terminal [OF assms(2)] by auto
    ultimately show ?thesis using assms True same by (auto simp: flow_le_def)
  qed
qed

text \<open>
  What an executor relies on: the store returns what it filed, creates a flow only once, replaces it only at the
  expected version, renews a heartbeat only for the owner at its version, and claims only a stale running flow.
\<close>

locale flow_store =
  fixes ops :: "('e, 's) flow_ops" and inv :: "'s \<Rightarrow> bool" and flow :: "'s \<Rightarrow> string \<Rightarrow> flow_state option"
  assumes stored_ok: "inv s \<Longrightarrow> flow s k = Some f \<Longrightarrow> flow_ok k f"
    and get_law: "inv s \<Longrightarrow> fo_get ops s k = Inr (flow s k)"
    and create_law: "inv s \<Longrightarrow> flow_ok (fl_id f) f \<Longrightarrow> fo_create ops f s = (s', r) \<Longrightarrow>
      (if flow s (fl_id f) = None then r = Inr True \<and> inv s' \<and> flow s' = (flow s)(fl_id f \<mapsto> f) else r = Inr False \<and> s' = s)"
    and update_law: "inv s \<Longrightarrow> flow_ok (fl_id f) f \<Longrightarrow> is_next_version v (fl_version f) \<Longrightarrow> fo_update ops v f s = (s', r) \<Longrightarrow>
      (if \<exists>c. flow s (fl_id f) = Some c \<and> fl_version c = v
       then r = Inr True \<and> inv s' \<and> flow s' = (flow s)(fl_id f \<mapsto> f) else r = Inr False \<and> s' = s)"
    and heartbeat_law: "inv s \<Longrightarrow> fo_heartbeat ops k owner v now s = (s', r) \<Longrightarrow>
      (if \<exists>c. flow s k = Some c \<and> fl_owner c = Some owner \<and> fl_version c = v
       then r = Inr True \<and> inv s' \<and> flow s' = (flow s)(k \<mapsto> heartbeated_at now (the (flow s k))) else r = Inr False \<and> s' = s)"
    and claim_law: "inv s \<Longrightarrow> fo_try_claim ops ty owner stale e s = (s', rc) \<Longrightarrow>
      (case rc of
         Inr (Some f) \<Rightarrow> (\<exists>c t. flow s (fl_id f) = Some c \<and> fl_status c = FRunning \<and> fl_type c = ty \<and>
           next_version (claimed_by owner t c) = Inr f \<and> inv s' \<and> flow s' = (flow s)(fl_id f \<mapsto> f))
       | _ \<Rightarrow> s' = s)"
begin

text \<open>The store only moves forward.\<close>

definition forth :: "'s \<Rightarrow> 's \<Rightarrow> bool" where
  "forth s s' \<longleftrightarrow> inv s' \<and> (\<forall>k f. flow s k = Some f \<longrightarrow> (\<exists>f'. flow s' k = Some f' \<and> flow_le f f'))"

definition cooperates :: "('s \<Rightarrow> 's) \<Rightarrow> bool" where
  "cooperates others \<longleftrightarrow> (\<forall>s. inv s \<longrightarrow> forth s (others s))"

lemma forth_refl: "inv s \<Longrightarrow> forth s s"
  by (auto simp: forth_def)

lemma forth_trans: "forth s s' \<Longrightarrow> forth s' s'' \<Longrightarrow> forth s s''"
  unfolding forth_def using flow_le_trans by metis

lemma cooperatesD: "cooperates others \<Longrightarrow> inv s \<Longrightarrow> forth s (others s) \<and> inv (others s)"
  by (auto simp: cooperates_def forth_def)

lemma forth_update:
  assumes "inv s" "inv s'" "flow s' = (flow s)(k \<mapsto> f)" "\<And>c. flow s k = Some c \<Longrightarrow> flow_le c f"
  shows "forth s s'"
  using assms by (auto simp: forth_def)

lemma forth_flow: "forth s s' \<Longrightarrow> flow s k = Some f \<Longrightarrow> \<exists>f'. flow s' k = Some f' \<and> flow_le f f'"
  by (auto simp: forth_def)

end

definition flows_inv :: "memory_flows \<Rightarrow> bool" where
  "flows_inv s \<longleftrightarrow> (\<forall>k f. s k = Some f \<longrightarrow> flow_ok k f)"

lemma claim_loop_law:
  assumes "flows_inv s" "flows_claim_loop ty owner stale now now' ks s = (s', r)"
  shows "case r of
      Inr (Some f) \<Rightarrow> (\<exists>c t. s (fl_id f) = Some c \<and> fl_status c = FRunning \<and> fl_type c = ty \<and>
        next_version (claimed_by owner t c) = Inr f \<and> flows_inv s' \<and> s' = s(fl_id f \<mapsto> f))
    | _ \<Rightarrow> s' = s"
  using assms
proof (induction ks)
  case Nil
  then show ?case by auto
next
  case (Cons k ks)
  show ?case
  proof (cases "s k")
    case None
    then show ?thesis using Cons by simp
  next
    case (Some c)
    have c: "flow_ok k c" using Cons.prems(1) Some by (simp add: flows_inv_def)
    then have v: "flow_validate c = Inr ()" by (simp add: flow_ok_def)
    show ?thesis
    proof (cases "fl_type c \<noteq> ty \<or> fl_status c \<noteq> FRunning \<or> \<not> flow_is_stale (fl_heartbeat c) now stale")
      case True
      then show ?thesis using Cons Some v by simp
    next
      case False
      show ?thesis
      proof (cases "next_version (claimed_by owner now' c)")
        case (Inl e)
        then show ?thesis using Cons.prems Some v False by auto
      next
        case (Inr f)
        have f: "fl_id f = k" "flow_ok k f"
          using Inr c False by (auto simp: next_version_def claimed_by_def bind_r_Inr_iff flow_ok_def flow_validate_def)
        moreover have "s' = s(k \<mapsto> f)" "r = Inr (Some f)" using Cons.prems(2) Some v False Inr by auto
        ultimately show ?thesis
          using Inr Cons.prems(1) Some False by (auto simp: flows_inv_def)
      qed
    qed
  qed
qed

interpretation mfl: flow_store memory_flow_ops flows_inv "\<lambda>s. s"
proof (unfold_locales, goal_cases)
  case (1 s k f)
  then show ?case by (simp add: flows_inv_def)
next
  case (2 s k)
  then show ?case
    by (auto simp: memory_flow_ops_def flows_get_def flows_inv_def flow_ok_def split: option.splits)
next
  case (3 s f s' r)
  then show ?case
    by (auto simp: memory_flow_ops_def flows_create_def flows_inv_def flow_ok_def split: option.splits if_splits)
next
  case (4 s f v s' r)
  then show ?case
    by (auto simp: memory_flow_ops_def flows_update_def flows_inv_def flow_ok_def split: option.splits if_splits)
next
  case (5 s k owner v now s' r)
  then show ?case
    by (auto simp: memory_flow_ops_def flows_heartbeat_def flows_inv_def split: option.splits if_splits)
next
  case (6 s ty owner stale e s' r)
  obtain now now' ks where e: "e = (now, now', ks)" by (metis prod_cases3)
  with 6 have "flows_claim_loop ty owner stale now now' ks s = (s', r)"
    by (simp add: memory_flow_ops_def flows_try_claim_def)
  from claim_loop_law [OF 6(1) this] show ?case by (simp split: sum.splits option.splits)
qed

end
