(* ===== verification/Flow_Executor.thy ===== *)
theory Flow_Executor
  imports Flows
begin

text \<open>
  Durable execution (\<open>crates/catga-core/src/flow/executor.rs\<close>, results from \<open>flow/dsl.rs\<close>). An executor calls
  its store several times, and between two calls other executors change it: every call takes the
  function \<open>others\<close> that stands for what they did since the previous call. The work itself is a function
  on the state of the world. Loops take the list of what happens in their passes, and \<^const>\<open>None\<close>
  means that the loop wants another pass.
\<close>

section \<open>Results\<close>

datatype flow_result = FlowOk u32 duration | FlowErr u32 catga_error duration

fun completed_steps :: "flow_result \<Rightarrow> u32" where
  "completed_steps (FlowOk n d) = n"
| "completed_steps (FlowErr n e d) = n"

fun result_error :: "flow_result \<Rightarrow> catga_error option" where
  "result_error (FlowOk n d) = None"
| "result_error (FlowErr n e d) = Some e"

definition flow_success :: "u32 \<Rightarrow> flow_result" where
  "flow_success n = FlowOk n 0"

definition flow_failure :: "u32 \<Rightarrow> catga_error \<Rightarrow> flow_result" where
  "flow_failure n e = FlowErr n e 0"

definition heartbeat_options_new :: "duration \<Rightarrow> duration catga_result" where
  "heartbeat_options_new interval =
     (if interval = 0 then Inl (error_new Validation ''flow heartbeat interval must be greater than zero'')
      else Inr interval)"

definition recovery_options_new :: "nat \<Rightarrow> duration \<Rightarrow> (nat \<times> duration) catga_result" where
  "recovery_options_new max_claims poll_interval =
     (if max_claims = 0 then Inl (error_new Validation ''flow recovery max_claims must be greater than zero'')
      else if poll_interval = 0
      then Inl (error_new Validation ''flow recovery poll_interval must be greater than zero'')
      else Inr (max_claims, poll_interval))"

section \<open>Execution\<close>

definition terminal_state :: "flow_state \<Rightarrow> flow_result \<Rightarrow> flow_state catga_result" where
  "terminal_state state result =
     (case result_error result of
        Some e \<Rightarrow> next_version (flow_failed (error_clone e) (at_step (completed_steps result) state))
      | None \<Rightarrow> next_version (flow_done (completed_steps result) state))"

definition terminal_result :: "flow_state \<Rightarrow> flow_result catga_result option" where
  "terminal_result state =
     (case fl_status state of
        FDone \<Rightarrow> Some (Inr (flow_success (fl_step state)))
      | FFailed \<Rightarrow> Some (case fl_error state of
            Some e \<Rightarrow> Inr (flow_failure (fl_step state) (error_clone e))
          | None \<Rightarrow> Inl (error_new Internal ''a failed flow has no stored error''))
      | FCancelled \<Rightarrow> Some (Inr (flow_failure (fl_step state) (error_new Cancelled ''flow was cancelled'')))
      | _ \<Rightarrow> None)"

datatype existing_flow = Run flow_state | Complete flow_result

definition load_running_or_terminal ::
  "('e, 's) flow_ops \<Rightarrow> string \<Rightarrow> 's \<Rightarrow> existing_flow catga_result" where
  "load_running_or_terminal ops ident s =
     bind_r (fo_get ops s ident) (\<lambda>found.
     bind_r (ok_or (error_new Transient ''flow disappeared while ownership was changing'') found) (\<lambda>current.
     bind_r (flow_validate current) (\<lambda>_.
       case (if is_terminal (fl_status current) then terminal_result current else None) of
         Some result \<Rightarrow> bind_r result (\<lambda>r. Inr (Complete r))
       | None \<Rightarrow> Inl (error_new Transient ''flow ownership changed before execution began''))))"

text \<open>The clock is read for the staleness check and for the claim.\<close>

definition claim_or_load ::
  "('e, 's) flow_ops \<Rightarrow> string \<Rightarrow> duration \<Rightarrow> systime \<Rightarrow> systime \<Rightarrow> ('s \<Rightarrow> 's) \<Rightarrow> ('s \<Rightarrow> 's) \<Rightarrow> ('s \<Rightarrow> 's)
   \<Rightarrow> flow_state \<Rightarrow> 's \<Rightarrow> 's \<times> existing_flow catga_result" where
  "claim_or_load ops owner stale_after now now' others1 others2 others3 expected s =
     (let s1 = others1 s in
      case bind_r (fo_get ops s1 (fl_id expected)) (\<lambda>found.
           bind_r (ok_or (error_new Transient ''flow disappeared before it could be loaded'') found) (\<lambda>current.
           bind_r (flow_validate current) (\<lambda>_. Inr current))) of
        Inl e \<Rightarrow> (s1, Inl e)
      | Inr current \<Rightarrow>
          if fl_type current \<noteq> fl_type expected
          then (s1, Inl (error_new Conflict ''a flow with this identity has a different type''))
          else (case (if is_terminal (fl_status current) then terminal_result current else None) of
            Some result \<Rightarrow> (s1, bind_r result (\<lambda>r. Inr (Complete r)))
          | None \<Rightarrow>
              if \<not> flow_is_stale (fl_heartbeat current) now stale_after
              then (s1, Inl (error_new Transient ''flow is already running on another owner''))
              else (case next_version (claimed_by owner now' current) of
                Inl e \<Rightarrow> (s1, Inl e)
              | Inr claimed \<Rightarrow>
                  (case fo_update ops (fl_version current) claimed (others2 s1) of
                     (s2, Inl e) \<Rightarrow> (s2, Inl e)
                   | (s2, Inr True) \<Rightarrow> (s2, Inr (Run claimed))
                   | (s2, Inr False) \<Rightarrow> (others3 s2, load_running_or_terminal ops (fl_id expected) (others3 s2))))))"

definition run_work :: "(flow_state \<Rightarrow> 'w \<Rightarrow> 'w \<times> flow_result catga_result) \<Rightarrow> flow_state \<Rightarrow> 'w \<Rightarrow> 'w \<times> flow_result" where
  "run_work work state w =
     (case work state w of
        (w', Inr result) \<Rightarrow> (w', result)
      | (w', Inl e) \<Rightarrow> (w', flow_failure (fl_step state) e))"

text \<open>
  One pass of the loop is what the others did before the update and before the read that follows a
  lost update.
\<close>

fun persist_loop ::
  "('e, 's) flow_ops \<Rightarrow> string \<Rightarrow> int \<Rightarrow> flow_result \<Rightarrow> (('s \<Rightarrow> 's) \<times> ('s \<Rightarrow> 's)) list \<Rightarrow> flow_state \<Rightarrow> 's
   \<Rightarrow> ('s \<times> flow_result catga_result) option" where
  "persist_loop ops owner version result passes current s =
     (case passes of
        [] \<Rightarrow> None
      | (others1, others2) # passes' \<Rightarrow>
          (case terminal_state current result of
             Inl e \<Rightarrow> Some (s, Inl e)
           | Inr nxt \<Rightarrow>
               (case fo_update ops version nxt (others1 s) of
                  (s1, Inl e) \<Rightarrow> Some (s1, Inl e)
                | (s1, Inr True) \<Rightarrow> Some (s1, Inr result)
                | (s1, Inr False) \<Rightarrow>
                    (let s2 = others2 s1 in
                     case bind_r (fo_get ops s2 (fl_id current)) (\<lambda>found.
                          bind_r (ok_or (error_new Transient ''flow disappeared while saving its result'') found) (\<lambda>observed.
                          bind_r (flow_validate observed) (\<lambda>_. Inr observed))) of
                       Inl e \<Rightarrow> Some (s2, Inl e)
                     | Inr observed \<Rightarrow>
                         if is_terminal (fl_status observed)
                         then Some (s2, case terminal_result observed of
                                          Some terminal \<Rightarrow> terminal
                                        | None \<Rightarrow> Inl (error_new Internal ''terminal flow state has no result''))
                         else if fl_status observed = FRunning \<and> fl_owner observed = Some owner \<and> fl_version observed = version
                         then persist_loop ops owner version result passes' observed s2
                         else Some (s2, Inl (error_new Transient ''flow ownership changed before its result was saved''))))))"

declare persist_loop.simps [simp del]

definition persist_result ::
  "('e, 's) flow_ops \<Rightarrow> string \<Rightarrow> (('s \<Rightarrow> 's) \<times> ('s \<Rightarrow> 's)) list \<Rightarrow> flow_state \<Rightarrow> flow_result \<Rightarrow> 's
   \<Rightarrow> ('s \<times> flow_result catga_result) option" where
  "persist_result ops owner passes state result s = persist_loop ops owner (fl_version state) result passes state s"

text \<open>Obtaining the flow: created, claimed, or already complete.\<close>

record 's begin_env =
  be_created :: systime
  be_now :: systime
  be_claimed :: systime
  be_others :: "nat \<Rightarrow> 's \<Rightarrow> 's"

definition begin_flow ::
  "('e, 's) flow_ops \<Rightarrow> string \<Rightarrow> duration \<Rightarrow> 's begin_env \<Rightarrow> string \<Rightarrow> string \<Rightarrow> bytes \<Rightarrow> 's
   \<Rightarrow> 's \<times> existing_flow catga_result" where
  "begin_flow ops owner stale_after env ident flow_type data s =
     (let initial = flow_new ident flow_type data owner (be_created env) in
      case flow_validate initial of
        Inl e \<Rightarrow> (s, Inl e)
      | Inr _ \<Rightarrow>
          (case fo_create ops initial (be_others env 0 s) of
             (s1, Inl e) \<Rightarrow> (s1, Inl e)
           | (s1, Inr True) \<Rightarrow> (s1, Inr (Run initial))
           | (s1, Inr False) \<Rightarrow>
               claim_or_load ops owner stale_after (be_now env) (be_claimed env)
                 (be_others env 1) (be_others env 2) (be_others env 3) initial s1))"

definition execute ::
  "('e, 's) flow_ops \<Rightarrow> string \<Rightarrow> duration \<Rightarrow> 's begin_env \<Rightarrow> (('s \<Rightarrow> 's) \<times> ('s \<Rightarrow> 's)) list
   \<Rightarrow> (flow_state \<Rightarrow> 'w \<Rightarrow> 'w \<times> flow_result catga_result) \<Rightarrow> string \<Rightarrow> string \<Rightarrow> bytes \<Rightarrow> 's \<times> 'w
   \<Rightarrow> (('s \<times> 'w) \<times> flow_result catga_result) option" where
  "execute ops owner stale_after env passes work ident flow_type data sw =
     (case begin_flow ops owner stale_after env ident flow_type data (fst sw) of
        (s, Inl e) \<Rightarrow> Some ((s, snd sw), Inl e)
      | (s, Inr (Complete result)) \<Rightarrow> Some ((s, snd sw), Inr result)
      | (s, Inr (Run state)) \<Rightarrow>
          (case run_work work state (snd sw) of
             (w, result) \<Rightarrow>
               map_option (\<lambda>(s', r). ((s', w), r)) (persist_result ops owner passes state result s)))"

section \<open>Execution with heartbeats\<close>

definition heartbeat ::
  "('e, 's) flow_ops \<Rightarrow> string \<Rightarrow> string \<Rightarrow> int \<Rightarrow> systime \<Rightarrow> 's \<Rightarrow> 's \<times> bool catga_result" where
  "heartbeat ops owner ident version now s = fo_heartbeat ops ident owner version now s"

text \<open>What the \<open>select!\<close> sees next: cancellation, the end of the work, or the heartbeat timer.\<close>

datatype ('w, 's) supervised =
    Cancel
  | WorkEnds "'w \<Rightarrow> 'w \<times> flow_result catga_result"
  | Beat "'s \<Rightarrow> 's" systime

fun heartbeat_loop ::
  "('e, 's) flow_ops \<Rightarrow> string \<Rightarrow> flow_state \<Rightarrow> ('w, 's) supervised list \<Rightarrow> 's \<times> 'w
   \<Rightarrow> (('s \<times> 'w) \<times> flow_result catga_result) option" where
  "heartbeat_loop ops owner state [] sw = None"
| "heartbeat_loop ops owner state (Cancel # evs) sw =
     Some (sw, Inl (error_new Cancelled ''durable flow work was cancelled''))"
| "heartbeat_loop ops owner state (WorkEnds work # evs) sw =
     (case work (snd sw) of
        (w, Inr result) \<Rightarrow> Some ((fst sw, w), Inr result)
      | (w, Inl e) \<Rightarrow> Some ((fst sw, w), Inr (flow_failure (fl_step state) e)))"
| "heartbeat_loop ops owner state (Beat others now # evs) sw =
     (case heartbeat ops owner (fl_id state) (fl_version state) now (others (fst sw)) of
        (s, Inl e) \<Rightarrow> Some ((s, snd sw), Inl e)
      | (s, Inr False) \<Rightarrow>
          Some ((s, snd sw), Inl (error_new Conflict ''durable flow ownership was lost while heartbeating''))
      | (s, Inr True) \<Rightarrow> heartbeat_loop ops owner state evs (s, snd sw))"

definition execute_with_heartbeat ::
  "('e, 's) flow_ops \<Rightarrow> string \<Rightarrow> duration \<Rightarrow> 's begin_env \<Rightarrow> ('w, 's) supervised list \<Rightarrow> (('s \<Rightarrow> 's) \<times> ('s \<Rightarrow> 's)) list
   \<Rightarrow> string \<Rightarrow> string \<Rightarrow> bytes \<Rightarrow> 's \<times> 'w \<Rightarrow> (('s \<times> 'w) \<times> flow_result catga_result) option" where
  "execute_with_heartbeat ops owner stale_after env evs passes ident flow_type data sw =
     (case begin_flow ops owner stale_after env ident flow_type data (fst sw) of
        (s, Inl e) \<Rightarrow> Some ((s, snd sw), Inl e)
      | (s, Inr (Complete result)) \<Rightarrow> Some ((s, snd sw), Inr result)
      | (s, Inr (Run state)) \<Rightarrow>
          (case heartbeat_loop ops owner state evs (s, snd sw) of
             None \<Rightarrow> None
           | Some ((s', w), Inl e) \<Rightarrow> Some ((s', w), Inl e)
           | Some ((s', w), Inr result) \<Rightarrow>
               map_option (\<lambda>(s'', r). ((s'', w), r)) (persist_result ops owner passes state result s')))"

section \<open>Recovery\<close>

text \<open>One round: what the others did before the claim, what the claim reads, and the passes of the save.\<close>

fun recover_stale ::
  "('e, 's) flow_ops \<Rightarrow> string \<Rightarrow> duration \<Rightarrow> string \<Rightarrow> nat \<Rightarrow> (flow_state \<Rightarrow> 'w \<Rightarrow> 'w \<times> flow_result catga_result)
   \<Rightarrow> (('s \<Rightarrow> 's) \<times> 'e \<times> (('s \<Rightarrow> 's) \<times> ('s \<Rightarrow> 's)) list) list \<Rightarrow> nat \<Rightarrow> 's \<times> 'w
   \<Rightarrow> (('s \<times> 'w) \<times> nat catga_result) option" where
  "recover_stale ops owner stale_after flow_type max_claims work rounds recovered sw =
     (if \<not> recovered < max_claims then Some (sw, Inr recovered)
      else case rounds of
        [] \<Rightarrow> None
      | (others, e, passes) # rounds' \<Rightarrow>
          (case fo_try_claim ops flow_type owner stale_after e (others (fst sw)) of
             (s, Inl err) \<Rightarrow> Some ((s, snd sw), Inl err)
           | (s, Inr None) \<Rightarrow> Some ((s, snd sw), Inr recovered)
           | (s, Inr (Some state)) \<Rightarrow>
               (case flow_validate state of
                  Inl err \<Rightarrow> Some ((s, snd sw), Inl err)
                | Inr _ \<Rightarrow>
                    (case run_work work state (snd sw) of
                       (w, result) \<Rightarrow>
                         (case persist_result ops owner passes state result s of
                            None \<Rightarrow> None
                          | Some (s', Inl err) \<Rightarrow> Some ((s', w), Inl err)
                          | Some (s', Inr _) \<Rightarrow>
                              recover_stale ops owner stale_after flow_type max_claims work rounds'
                                (usize_saturating_add recovered 1) (s', w))))))"

declare recover_stale.simps [simp del]

fun run_recovery_loop ::
  "('e, 's) flow_ops \<Rightarrow> string \<Rightarrow> duration \<Rightarrow> string \<Rightarrow> nat \<Rightarrow> (flow_state \<Rightarrow> 'w \<Rightarrow> 'w \<times> flow_result catga_result)
   \<Rightarrow> (bool \<times> (('s \<Rightarrow> 's) \<times> 'e \<times> (('s \<Rightarrow> 's) \<times> ('s \<Rightarrow> 's)) list) list \<times> bool) list \<Rightarrow> 's \<times> 'w
   \<Rightarrow> (('s \<times> 'w) \<times> unit catga_result) option" where
  "run_recovery_loop ops owner stale_after flow_type max_claims work [] sw = None"
| "run_recovery_loop ops owner stale_after flow_type max_claims work ((cancelled, rounds, stopped) # sweeps) sw =
     (if cancelled then Some (sw, Inr ())
      else case recover_stale ops owner stale_after flow_type max_claims work rounds 0 sw of
        None \<Rightarrow> None
      | Some (sw', Inl e) \<Rightarrow> Some (sw', Inl e)
      | Some (sw', Inr _) \<Rightarrow>
          if stopped then Some (sw', Inr ())
          else run_recovery_loop ops owner stale_after flow_type max_claims work sweeps sw')"

section \<open>The outcome of a flow is durable\<close>

definition outcome :: "flow_result \<Rightarrow> u32 \<times> catga_error option" where
  "outcome r = (completed_steps r, map_option error_clone (result_error r))"

lemma terminal_result_ok:
  "flow_ok k f \<Longrightarrow> is_terminal (fl_status f) \<Longrightarrow> \<exists>r. terminal_result f = Some (Inr r)"
  by (cases "fl_status f") (auto simp: terminal_result_def flow_ok_def)

lemma terminal_result_running: "\<not> is_terminal (fl_status f) \<Longrightarrow> terminal_result f = None"
  by (cases "fl_status f") (auto simp: terminal_result_def)

lemma next_version_facts:
  assumes "next_version f = Inr g"
  shows "g = f\<lparr>fl_version := fl_version f + 1\<rparr>" "is_next_version (fl_version f) (fl_version g)"
  using assms by (auto simp: next_version_def is_next_version_def bind_r_Inr_iff i64_defs split: if_splits)

lemma terminal_state_facts:
  assumes "terminal_state f result = Inr g" "flow_ok k f"
  shows "flow_ok k g" "is_terminal (fl_status g)" "fl_type g = fl_type f" "fl_version g = fl_version f + 1"
    and "is_next_version (fl_version f) (fl_version g)"
    and "\<exists>r. terminal_result g = Some (Inr r) \<and> outcome r = outcome result"
proof -
  define h where "h = (case result_error result of
      Some e \<Rightarrow> flow_failed (error_clone e) (at_step (completed_steps result) f)
    | None \<Rightarrow> flow_done (completed_steps result) f)"
  have "next_version h = Inr g"
    using assms(1) by (auto simp: terminal_state_def h_def split: option.splits)
  note N = next_version_facts [OF this]
  have h: "fl_version h = fl_version f" by (simp add: h_def flow_failed_def flow_done_def at_step_def split: option.splits)
  show "flow_ok k g" "is_terminal (fl_status g)" "fl_type g = fl_type f" "fl_version g = fl_version f + 1"
    using assms(2) unfolding N(1) h
    by (auto simp: h_def flow_failed_def flow_done_def at_step_def flow_ok_def flow_validate_def split: option.splits)
  show "is_next_version (fl_version f) (fl_version g)" using N(2) by (simp add: h)
  show "\<exists>r. terminal_result g = Some (Inr r) \<and> outcome r = outcome result"
    unfolding N(1) by (cases result)
      (auto simp: h_def flow_failed_def flow_done_def at_step_def terminal_result_def outcome_def flow_success_def
        flow_failure_def error_clone_def)
qed

lemma flow_new_ok:
  "flow_validate (flow_new ident ty data owner now) = Inr () \<Longrightarrow> flow_ok ident (flow_new ident ty data owner now)"
  by (simp add: flow_ok_def flow_new_def)

context flow_store
begin

definition settled :: "'s \<Rightarrow> string \<Rightarrow> flow_result \<Rightarrow> bool" where
  "settled s k res \<longleftrightarrow> (\<exists>f res'. flow s k = Some f \<and> is_terminal (fl_status f) \<and>
     terminal_result f = Some (Inr res') \<and> outcome res' = outcome res)"

text \<open>Reading a flow the way the executor does.\<close>

lemma get_checked:
  assumes "inv s"
  shows "bind_r (fo_get ops s k) (\<lambda>found. bind_r (ok_or e found) (\<lambda>c. bind_r (flow_validate c) (\<lambda>_. Inr c))) =
    (case flow s k of None \<Rightarrow> Inl e | Some c \<Rightarrow> Inr c)"
proof (cases "flow s k")
  case None
  then show ?thesis using get_law [OF assms, of k] by simp
next
  case (Some c)
  then have "flow_validate c = Inr ()" using stored_ok [OF assms Some] by (simp add: flow_ok_def)
  then show ?thesis using get_law [OF assms, of k] Some by simp
qed

lemma load_law:
  assumes "inv s" "load_running_or_terminal ops k s = Inr (Complete res)"
  shows "settled s k res"
proof -
  from assms get_law [OF assms(1), of k] obtain c where c: "flow s k = Some c" "is_terminal (fl_status c)"
    "terminal_result c = Some (Inr res)"
    by (auto simp: load_running_or_terminal_def bind_r_Inr_iff split: if_splits option.splits)
  then show ?thesis by (auto simp: settled_def)
qed

lemma load_not_run: "load_running_or_terminal ops k s \<noteq> Inr (Run f)"
  by (auto simp: load_running_or_terminal_def bind_r_Inr_iff split: option.splits)

lemma update_forth:
  assumes "inv s" "flow s k = Some c" "flow_le f c" "\<not> is_terminal (fl_status f)" "flow_ok k g"
    "fl_type g = fl_type f" "is_next_version (fl_version f) (fl_version g)" "fo_update ops (fl_version f) g s = (s', r)"
  shows "forth s s' \<and> inv s' \<and> (r = Inr True \<and> flow s' k = Some g \<or> r = Inr False \<and> s' = s \<and> fl_version f < fl_version c)"
proof (cases "fl_version c = fl_version f")
  case True
  have k: "fl_id g = k" using assms(5) by (simp add: flow_ok_def)
  have U: "r = Inr True" "inv s'" "flow s' = (flow s)(k \<mapsto> g)"
    using update_law [OF assms(1) _ assms(7,8)] assms(2,5) True k by (auto split: if_splits)
  have "fl_id c = k" using stored_ok [OF assms(1,2)] by (simp add: flow_ok_def)
  moreover have "fl_type c = fl_type f" using assms(3) by (simp add: flow_le_def)
  moreover have "fl_version c < fl_version g" using assms(7) True by (auto simp: is_next_version_def i64_defs split: if_splits)
  moreover have "\<not> is_terminal (fl_status c)" using flow_le_heartbeat(2) [OF assms(3) True] assms(4) by simp
  ultimately have "flow_le c g" using assms(6) k by (simp add: flow_le_def)
  then have "forth s s'" using forth_update [OF assms(1) U(2,3)] assms(2) by simp
  then show ?thesis using U by simp
next
  case False
  have k: "fl_id g = k" using assms(5) by (simp add: flow_ok_def)
  have "\<not> (\<exists>c. flow s (fl_id g) = Some c \<and> fl_version c = fl_version f)" using False assms(2) k by simp
  then have "r = Inr False \<and> s' = s"
    using update_law [OF assms(1) _ assms(7,8)] assms(5) k by (auto split: if_splits)
  moreover have "fl_version f < fl_version c" using assms(3) False by (auto simp: flow_le_def)
  ultimately show ?thesis using forth_refl assms(1) by simp
qed

lemma claim_or_load_law:
  assumes "inv s" "cooperates o1" "cooperates o2" "cooperates o3"
    "claim_or_load ops owner stale now now' o1 o2 o3 x s = (s', r)"
  shows "forth s s' \<and> inv s' \<and> (case r of
      Inr (Run f) \<Rightarrow> flow s' (fl_id x) = Some f \<and> \<not> is_terminal (fl_status f)
    | Inr (Complete res) \<Rightarrow> settled s' (fl_id x) res
    | Inl e \<Rightarrow> True)"
proof -
  let ?k = "fl_id x"
  note s1 = cooperatesD [OF assms(2,1)]
  show ?thesis
  proof (cases "flow (o1 s) ?k")
    case None
    then show ?thesis using assms(5) s1 get_checked [of "o1 s"] by (auto simp: claim_or_load_def Let_def)
  next
    case (Some c)
    note eq = assms(5) [unfolded claim_or_load_def Let_def get_checked [OF conjunct2 [OF s1]] Some option.case sum.case]
    have c: "flow_ok ?k c" using stored_ok [OF _ Some] s1 by simp
    show ?thesis
    proof (cases "is_terminal (fl_status c)")
      case True
      obtain res where "terminal_result c = Some (Inr res)" using terminal_result_ok [OF c True] by blast
      then show ?thesis using eq True s1 Some by (auto simp: settled_def split: if_splits)
    next
      case False
      consider (stop) "s' = o1 s" "\<exists>e. r = Inl e" | (claim) g where "next_version (claimed_by owner now' c) = Inr g"
          "(case fo_update ops (fl_version c) g (o2 (o1 s)) of
             (s2, Inl e) \<Rightarrow> (s2, Inl e)
           | (s2, Inr True) \<Rightarrow> (s2, Inr (Run g))
           | (s2, Inr False) \<Rightarrow> (o3 s2, load_running_or_terminal ops ?k (o3 s2))) = (s', r)"
        using eq False by (auto split: if_splits sum.splits)
      then show ?thesis
      proof cases
        case stop
        then show ?thesis using s1 by auto
      next
        case (claim g)
        note s2 = cooperatesD [OF assms(3) conjunct2 [OF s1]]
        obtain d where d: "flow (o2 (o1 s)) ?k = Some d" "flow_le c d"
          using forth_flow [OF conjunct1 [OF s2] Some] by blast
        note N = next_version_facts [OF claim(1)]
        have g: "flow_ok ?k g" "fl_type g = fl_type c" "\<not> is_terminal (fl_status g)" "is_next_version (fl_version c) (fl_version g)"
          using c False N(2) unfolding N(1) by (auto simp: claimed_by_def flow_ok_def flow_validate_def)
        obtain s2' u where u: "fo_update ops (fl_version c) g (o2 (o1 s)) = (s2', u)" by fastforce
        note U = update_forth [OF conjunct2 [OF s2] d False g(1,2,4) u]
        have f2: "forth s s2'" by (rule forth_trans [OF conjunct1 [OF s1] forth_trans [OF conjunct1 [OF s2] conjunct1 [OF U]]])
        from U consider "u = Inr True" "flow s2' ?k = Some g" | "u = Inr False" by blast
        then show ?thesis
        proof cases
          case 1
          then have "s' = s2'" "r = Inr (Run g)" using claim(2) u by simp_all
          then show ?thesis using 1 f2 U g(3) by simp
        next
          case 2
          then have s': "s' = o3 s2'" "r = load_running_or_terminal ops ?k (o3 s2')" using claim(2) u by auto
          have s3: "forth s2' s'" "inv s'" using cooperatesD [OF assms(4)] U s'(1) by blast+
          have "settled s' ?k res" if "r = Inr (Complete res)" for res
            using load_law [OF s3(2)] that s' by simp
          moreover have "r \<noteq> Inr (Run f)" for f using load_not_run s'(2) by simp
          ultimately show ?thesis
            using forth_trans [OF f2 s3(1)] s3(2) by (auto split: sum.splits existing_flow.splits)
        qed
      qed
    qed
  qed
qed

text \<open>The executor only takes up a flow of the type it was asked for.\<close>

lemma cooperates_id: "cooperates (\<lambda>s. s)"
  by (simp add: cooperates_def forth_refl)

lemma claim_or_load_type:
  assumes "inv s" "cooperates o1" "cooperates o2" "cooperates o3"
    "claim_or_load ops owner stale now now' o1 o2 o3 x s = (s', Inr r)"
  shows "\<exists>f. flow s' (fl_id x) = Some f \<and> fl_type f = fl_type x"
proof -
  note s1 = cooperatesD [OF assms(2,1)]
  have "claim_or_load ops owner stale now now' (\<lambda>s. s) o2 o3 x (o1 s) = (s', Inr r)"
    using assms(5) by (simp add: claim_or_load_def)
  from claim_or_load_law [OF conjunct2 [OF s1] cooperates_id assms(3,4) this] have "forth (o1 s) s'" by simp
  moreover obtain c where "flow (o1 s) (fl_id x) = Some c" "fl_type c = fl_type x"
    using assms(5) get_checked [OF conjunct2 [OF s1]]
    by (auto simp: claim_or_load_def Let_def split: option.splits if_splits)
  ultimately show ?thesis using forth_flow by (fastforce simp: flow_le_def)
qed

lemma begin_flow_law:
  assumes "inv s" "\<forall>i. cooperates (be_others env i)" "begin_flow ops owner stale env k ty data s = (s', r)"
  shows "forth s s' \<and> inv s' \<and> (case r of
      Inr (Run f) \<Rightarrow> flow s' k = Some f \<and> \<not> is_terminal (fl_status f)
    | Inr (Complete res) \<Rightarrow> settled s' k res
    | Inl e \<Rightarrow> True)"
proof -
  let ?x = "flow_new k ty data owner (be_created env)"
  note s0 = cooperatesD [OF spec [OF assms(2), of 0] assms(1)]
  obtain s1 c where c: "fo_create ops ?x (be_others env 0 s) = (s1, c)" by fastforce
  show ?thesis
  proof (cases "flow_validate ?x")
    case (Inl e)
    then show ?thesis using assms(1,3) by (auto simp: begin_flow_def forth_refl)
  next
    case (Inr u)
    then have ok: "flow_ok k ?x" by (intro flow_new_ok) simp
    then have id: "fl_id ?x = k" by (simp add: flow_ok_def)
    note C = create_law [OF conjunct2 [OF s0] _ c, unfolded id, OF ok]
    show ?thesis
    proof (cases "flow (be_others env 0 s) k = None")
      case True
      then have "c = Inr True" "inv s1" "flow s1 = (flow (be_others env 0 s))(k \<mapsto> ?x)" using C by simp_all
      moreover from this True have "forth (be_others env 0 s) s1" using s0 by (auto simp: forth_def)
      moreover have "\<not> is_terminal (fl_status ?x)" by (simp add: flow_new_def)
      ultimately show ?thesis
        using assms(3) Inr c forth_trans [OF conjunct1 [OF s0]] by (auto simp: begin_flow_def)
    next
      case False
      then have "c = Inr False" "s1 = be_others env 0 s" using C by simp_all
      then have "claim_or_load ops owner stale (be_now env) (be_claimed env)
          (be_others env 1) (be_others env 2) (be_others env 3) ?x (be_others env 0 s) = (s', r)"
        using assms(3) Inr c by (simp add: begin_flow_def)
      from claim_or_load_law [OF conjunct2 [OF s0] _ _ _ this, unfolded id] assms(2)
      show ?thesis using forth_trans [OF conjunct1 [OF s0]] by auto
    qed
  qed
qed

lemma begin_flow_type:
  assumes "inv s" "\<forall>i. cooperates (be_others env i)" "begin_flow ops owner stale env k ty data s = (s', Inr r)"
  shows "\<exists>f. flow s' k = Some f \<and> fl_type f = ty"
proof -
  let ?x = "flow_new k ty data owner (be_created env)"
  note s0 = cooperatesD [OF spec [OF assms(2), of 0] assms(1)]
  have id: "fl_id ?x = k" "fl_type ?x = ty" by (simp_all add: flow_new_def)
  obtain s1 c where c: "fo_create ops ?x (be_others env 0 s) = (s1, c)" by fastforce
  have "flow_validate ?x = Inr ()" using assms(3) by (cases "flow_validate ?x") (auto simp: begin_flow_def)
  note v = this and C = create_law [OF conjunct2 [OF s0] _ c, unfolded id, OF flow_new_ok [OF this]]
  show ?thesis
  proof (cases "flow (be_others env 0 s) k = None")
    case True
    then show ?thesis using C id v c assms(3) by (auto simp: begin_flow_def)
  next
    case False
    then have "c = Inr False" "s1 = be_others env 0 s" using C by simp_all
    then have "claim_or_load ops owner stale (be_now env) (be_claimed env)
        (be_others env 1) (be_others env 2) (be_others env 3) ?x (be_others env 0 s) = (s', Inr r)"
      using assms(3) v c by (simp add: begin_flow_def)
    from claim_or_load_type [OF conjunct2 [OF s0] _ _ _ this, unfolded id] assms(2) show ?thesis by simp
  qed
qed

text \<open>
  Saving a result for a flow this executor holds: one pass is enough, and a flow that has moved on is left
  alone.
\<close>

lemma persist_law:
  assumes "inv s" "flow s k = Some c" "flow_le f c" "flow_ok k f" "\<not> is_terminal (fl_status f)"
    "cooperates o1" "cooperates o2"
  shows "\<exists>s' r. persist_result ops owner ((o1, o2) # passes) f result s = Some (s', r) \<and> forth s s' \<and> inv s' \<and>
    (\<forall>res. r = Inr res \<longrightarrow> settled s' k res) \<and> (fl_version f < fl_version c \<longrightarrow> s' = s \<or> s' = o2 (o1 s))"
proof (cases "terminal_state f result")
  case (Inl e)
  then show ?thesis using assms(1) by (auto simp: persist_result_def persist_loop.simps forth_refl)
next
  case (Inr g)
  note G = terminal_state_facts [OF Inr assms(4)]
  note s1 = cooperatesD [OF assms(6,1)]
  obtain c1 where c1: "flow (o1 s) k = Some c1" "flow_le c c1" using forth_flow [OF conjunct1 [OF s1] assms(2)] by blast
  have le: "flow_le f c1" by (rule flow_le_trans [OF assms(3) c1(2)])
  obtain s1' u where u: "fo_update ops (fl_version f) g (o1 s) = (s1', u)" by fastforce
  note U = update_forth [OF conjunct2 [OF s1] c1(1) le assms(5) G(1,3,5) u]
  have id: "fl_id f = k" using assms(4) by (simp add: flow_ok_def)
  from U consider (saved) "u = Inr True" "flow s1' k = Some g" | (lost) "u = Inr False" "s1' = o1 s" "fl_version f < fl_version c1"
    by blast
  then show ?thesis
  proof cases
    case saved
    have "\<not> fl_version f < fl_version c"
    proof
      assume "fl_version f < fl_version c"
      then have "fl_version f < fl_version c1" using c1(2) by (auto simp: flow_le_def)
      then show False using update_law [OF conjunct2 [OF s1] _ G(5) u] G(1) c1(1) saved(1) by (auto simp: flow_ok_def split: if_splits)
    qed
    moreover have "settled s1' k result" using G(2,6) saved(2) by (auto simp: settled_def)
    ultimately show ?thesis
      using saved Inr u U forth_trans [OF conjunct1 [OF s1]] by (auto simp: persist_result_def persist_loop.simps)
  next
    case lost
    let ?s2 = "o2 (o1 s)"
    note s2 = cooperatesD [OF assms(7) conjunct2 [OF s1]]
    obtain c2 where c2: "flow ?s2 k = Some c2" "flow_le c1 c2" using forth_flow [OF conjunct1 [OF s2] c1(1)] by blast
    then have "fl_version c2 \<noteq> fl_version f" using lost(3) by (auto simp: flow_le_def)
    moreover have "\<exists>res. terminal_result c2 = Some (Inr res)" if "is_terminal (fl_status c2)"
      using terminal_result_ok [OF stored_ok [OF conjunct2 [OF s2] c2(1)] that] .
    ultimately have "\<exists>r. persist_result ops owner ((o1, o2) # passes) f result s = Some (?s2, r) \<and> (\<forall>res. r = Inr res \<longrightarrow> settled ?s2 k res)"
      using lost(1,2) Inr u c2(1) get_checked [OF conjunct2 [OF s2], of k] id
      by (auto simp: persist_result_def persist_loop.simps settled_def Let_def split: option.splits)
    then show ?thesis using forth_trans [OF conjunct1 [OF s1] conjunct1 [OF s2]] s2 by auto
  qed
qed

lemma execute_law:
  assumes "inv s" "\<forall>i. cooperates (be_others env i)" "cooperates o1" "cooperates o2"
  shows "\<exists>s' w' r. execute ops owner stale env ((o1, o2) # passes) work k ty data (s, w) = Some ((s', w'), r) \<and>
    forth s s' \<and> inv s' \<and>
    (\<forall>res. r = Inr res \<longrightarrow> settled s' k res \<and> (\<exists>f. flow s' k = Some f \<and> fl_type f = ty))"
proof -
  obtain s1 b where b: "begin_flow ops owner stale env k ty data s = (s1, b)" by fastforce
  note B = begin_flow_law [OF assms(1,2) b]
  show ?thesis
  proof (cases b)
    case (Inl e)
    then show ?thesis using b B by (auto simp: execute_def)
  next
    case (Inr x)
    note T = begin_flow_type [OF assms(1,2) b [unfolded Inr]]
    show ?thesis
    proof (cases x)
      case (Complete res)
      then show ?thesis using b B T Inr by (auto simp: execute_def)
    next
      case (Run f)
      then have f: "flow s1 k = Some f" "\<not> is_terminal (fl_status f)" "inv s1" "forth s s1" using B Inr by auto
      obtain w' result where w: "run_work work f w = (w', result)" by fastforce
      obtain s' r where p: "persist_result ops owner ((o1, o2) # passes) f result s1 = Some (s', r)" "forth s1 s'" "inv s'"
          "\<forall>res. r = Inr res \<longrightarrow> settled s' k res"
        using persist_law [OF f(3,1) flow_le_refl stored_ok [OF f(3,1)] f(2) assms(3,4), of owner passes result] by blast
      have "\<exists>g. flow s' k = Some g \<and> fl_type g = ty" using forth_flow [OF p(2) f(1)] T f(1) by (auto simp: flow_le_def)
      then show ?thesis using b w p Run Inr forth_trans [OF f(4) p(2)] by (auto simp: execute_def)
    qed
  qed
qed

text \<open>A terminal flow answers every later execution, whose work is not run.\<close>

lemma execute_settled:
  assumes "inv s" "\<forall>i. cooperates (be_others env i)" "flow s k = Some f" "is_terminal (fl_status f)"
    "terminal_result f = Some (Inr res)"
  shows "\<exists>s' r. execute ops owner stale env passes work k ty data (s, w) = Some ((s', w), r) \<and> flow s' k = Some f \<and>
    (if length data \<le> max_flow_data_bytes \<and> ty = fl_type f then r = Inr res else \<exists>e. r = Inl e)"
proof -
  let ?x = "flow_new k ty data owner (be_created env)"
  have id: "fl_id ?x = k" "fl_type ?x = ty" by (simp_all add: flow_new_def)
  note s0 = cooperatesD [OF spec [OF assms(2), of 0] assms(1)]
  note s1 = cooperatesD [OF spec [OF assms(2), of 1] conjunct2 [OF s0]]
  have f0: "flow (be_others env 0 s) k = Some f"
    using forth_flow [OF conjunct1 [OF s0] assms(3)] flow_le_terminal [OF _ assms(4)] by blast
  have f1: "flow (be_others env 1 (be_others env 0 s)) k = Some f"
    using forth_flow [OF conjunct1 [OF s1] f0] flow_le_terminal [OF _ assms(4)] by blast
  show ?thesis
  proof (cases "length data \<le> max_flow_data_bytes")
    case False
    then have "\<exists>e. flow_validate ?x = Inl e" by (simp add: flow_validate_def flow_new_def)
    then show ?thesis using False assms(3) by (auto simp: execute_def begin_flow_def)
  next
    case True
    then have v: "flow_validate ?x = Inr ()" by (simp add: flow_validate_def flow_new_def)
    obtain s2 c where c: "fo_create ops ?x (be_others env 0 s) = (s2, c)" by fastforce
    have "c = Inr False" "s2 = be_others env 0 s"
      using create_law [OF conjunct2 [OF s0] _ c] flow_new_ok [OF v] f0 id by auto
    then show ?thesis
      using True v c f1 get_checked [OF conjunct2 [OF s1], of k] id assms(4,5)
      by (auto simp: execute_def begin_flow_def claim_or_load_def Let_def)
  qed
qed

lemma heartbeat_forth:
  assumes "inv s" "heartbeat ops owner k v now s = (s', r)"
  shows "forth s s' \<and> inv s' \<and> (\<exists>b. r = Inr b)"
proof (cases "\<exists>c. flow s k = Some c \<and> fl_owner c = Some owner \<and> fl_version c = v")
  case True
  then obtain c where c: "flow s k = Some c" "fl_owner c = Some owner" by blast
  then have nt: "\<not> is_terminal (fl_status c)" using stored_ok [OF assms(1)] by (fastforce simp: flow_ok_def)
  have H: "r = Inr True" "inv s'" "flow s' = (flow s)(k \<mapsto> heartbeated_at now c)"
    using heartbeat_law [OF assms(1) assms(2) [unfolded heartbeat_def]] True c(1) by auto
  have "flow_le c (heartbeated_at now c)" using nt by (simp add: flow_le_def heartbeated_at_def)
  then show ?thesis using forth_update [OF assms(1) H(2,3)] c(1) H by auto
next
  case False
  then show ?thesis
    using heartbeat_law [OF assms(1) assms(2) [unfolded heartbeat_def]] forth_refl [OF assms(1)] assms(1) by auto
qed

text \<open>
  Heartbeats keep the flow at the version the executor holds or find that it is gone, and the loop ends with
  the work or its cancellation.
\<close>

lemma heartbeat_loop_law:
  assumes "inv s" "\<forall>others now. Beat others now \<in> set evs \<longrightarrow> cooperates others"
    "heartbeat_loop ops owner f evs (s, w) = Some ((s', w'), r)"
  shows "forth s s' \<and> inv s'"
  using assms
proof (induction evs arbitrary: s)
  case (Cons ev evs)
  show ?case
  proof (cases ev)
    case (Beat others now)
    then have "cooperates others" using Cons.prems(2) by auto
    note s1 = cooperatesD [OF this Cons.prems(1)]
    obtain s2 b where h: "heartbeat ops owner (fl_id f) (fl_version f) now (others s) = (s2, b)" by fastforce
    note H = heartbeat_forth [OF conjunct2 [OF s1] h]
    have f2: "forth s s2" by (rule forth_trans [OF conjunct1 [OF s1] conjunct1 [OF H]])
    show ?thesis
    proof (cases "b = Inr True")
      case True
      then have "heartbeat_loop ops owner f evs (s2, w) = Some ((s', w'), r)" using Cons.prems(3) Beat h by simp
      moreover have "\<forall>others now. Beat others now \<in> set evs \<longrightarrow> cooperates others" using Cons.prems(2) by simp
      ultimately have "forth s2 s' \<and> inv s'" using Cons.IH H by blast
      then show ?thesis using forth_trans [OF f2] by blast
    next
      case False
      then have "s' = s2" using Cons.prems(3) Beat h H by (auto split: bool.splits)
      then show ?thesis using f2 H by simp
    qed
  qed (use Cons.prems in \<open>auto simp: forth_refl split: prod.splits sum.splits\<close>)
qed simp

lemma heartbeat_loop_ends:
  assumes "inv s" "\<forall>others now. Beat others now \<in> set evs \<longrightarrow> cooperates others" "ev \<in> set evs" "\<forall>others now. ev \<noteq> Beat others now"
  shows "heartbeat_loop ops owner f evs (s, w) \<noteq> None"
  using assms(1-3)
proof (induction evs arbitrary: s)
  case (Cons e evs)
  show ?case
  proof (cases e)
    case (Beat others now)
    then have "cooperates others" using Cons.prems(2) by auto
    note s1 = cooperatesD [OF this Cons.prems(1)]
    obtain s2 b where h: "heartbeat ops owner (fl_id f) (fl_version f) now (others s) = (s2, b)" by fastforce
    note H = heartbeat_forth [OF conjunct2 [OF s1] h]
    have "ev \<in> set evs" using Cons.prems(3) assms(4) Beat by auto
    moreover have "\<forall>others now. Beat others now \<in> set evs \<longrightarrow> cooperates others" using Cons.prems(2) by simp
    ultimately have "heartbeat_loop ops owner f evs (s2, w) \<noteq> None" using Cons.IH H by blast
    then show ?thesis using Beat h H by (auto split: bool.splits)
  qed (auto split: prod.splits sum.splits)
qed simp

lemma execute_with_heartbeat_law:
  assumes "inv s" "\<forall>i. cooperates (be_others env i)" "cooperates o1" "cooperates o2"
    "\<forall>others now. Beat others now \<in> set evs \<longrightarrow> cooperates others" "ev \<in> set evs" "\<forall>others now. ev \<noteq> Beat others now"
  shows "\<exists>s' w' r. execute_with_heartbeat ops owner stale env evs ((o1, o2) # passes) k ty data (s, w) = Some ((s', w'), r) \<and>
    forth s s' \<and> inv s' \<and> (\<forall>res. r = Inr res \<longrightarrow> settled s' k res)"
proof -
  obtain s1 b where b: "begin_flow ops owner stale env k ty data s = (s1, b)" by fastforce
  note B = begin_flow_law [OF assms(1,2) b]
  consider (err) e where "b = Inl e" | (complete) res where "b = Inr (Complete res)" | (run) f where "b = Inr (Run f)"
    by (metis sum.exhaust existing_flow.exhaust)
  then show ?thesis
  proof cases
    case (run f)
    then have f: "flow s1 k = Some f" "\<not> is_terminal (fl_status f)" "inv s1" "forth s s1" using B by auto
    obtain s2 w' h where h: "heartbeat_loop ops owner f evs (s1, w) = Some ((s2, w'), h)"
      using heartbeat_loop_ends [OF f(3) assms(5-7)] by (metis not_None_eq prod.exhaust)
    have s2: "forth s1 s2" "inv s2" using heartbeat_loop_law [OF f(3) assms(5) h] by blast+
    obtain c where c: "flow s2 k = Some c" "flow_le f c" using forth_flow [OF s2(1) f(1)] by blast
    show ?thesis
    proof (cases h)
      case (Inl e)
      then show ?thesis using b run h forth_trans [OF f(4) s2(1)] s2 by (auto simp: execute_with_heartbeat_def)
    next
      case (Inr result)
      obtain s' r where p: "persist_result ops owner ((o1, o2) # passes) f result s2 = Some (s', r)" "forth s2 s'" "inv s'"
          "\<forall>res. r = Inr res \<longrightarrow> settled s' k res"
        using persist_law [OF s2(2) c stored_ok [OF f(3,1)] f(2) assms(3,4), of owner passes result] by blast
      show ?thesis
        using b run h Inr p forth_trans [OF f(4) forth_trans [OF s2(1) p(2)]] by (auto simp: execute_with_heartbeat_def)
    qed
  qed (use b B in \<open>auto simp: execute_with_heartbeat_def\<close>)
qed

text \<open>A recovery sweep with a round for every claim it may make returns, within its bound.\<close>

definition round_ok :: "('s \<Rightarrow> 's) \<times> 'e \<times> (('s \<Rightarrow> 's) \<times> ('s \<Rightarrow> 's)) list \<Rightarrow> bool" where
  "round_ok rnd \<longleftrightarrow> (case rnd of (others, e, passes) \<Rightarrow> cooperates others \<and>
     (case passes of [] \<Rightarrow> False | (o1, o2) # _ \<Rightarrow> cooperates o1 \<and> cooperates o2))"

lemma claim_forth:
  assumes "inv s" "fo_try_claim ops ty owner stale e s = (s', Inr (Some f))"
  shows "forth s s'" "inv s'" "flow s' (fl_id f) = Some f" "\<not> is_terminal (fl_status f)" "flow_ok (fl_id f) f"
proof -
  from claim_law [OF assms] obtain c t where c: "flow s (fl_id f) = Some c" "fl_status c = FRunning"
      "next_version (claimed_by owner t c) = Inr f" "inv s'" "flow s' = (flow s)(fl_id f \<mapsto> f)" by auto
  note N = next_version_facts [OF c(3)]
  show "inv s'" "flow s' (fl_id f) = Some f" by (simp_all add: c)
  then show "flow_ok (fl_id f) f" by (rule stored_ok)
  show "\<not> is_terminal (fl_status f)" by (subst N(1)) (simp add: claimed_by_def c(2))
  have "fl_id f = fl_id c" "fl_type f = fl_type c" "fl_version c < fl_version f"
    by (simp_all add: N(1) claimed_by_def)
  then have "flow_le c f" using c(2) by (simp add: flow_le_def)
  then show "forth s s'" using forth_update [OF assms(1) c(4,5)] c(1) by simp
qed

lemma recover_stale_law:
  assumes "inv s" "\<forall>rnd \<in> set rounds. round_ok rnd" "max_claims \<le> n + length rounds" "n \<le> max_claims" "max_claims < 2 ^ 64"
  shows "\<exists>s' w' r. recover_stale ops owner stale ty max_claims work rounds n (s, w) = Some ((s', w'), r) \<and> forth s s' \<and>
    (\<forall>m. r = Inr m \<longrightarrow> n \<le> m \<and> m \<le> max_claims)"
  using assms
proof (induction rounds arbitrary: s n w)
  case Nil
  then show ?case by (auto simp: recover_stale.simps forth_refl)
next
  case (Cons rnd rounds)
  show ?case
  proof (cases "n < max_claims")
    case False
    then show ?thesis using Cons.prems by (auto simp: recover_stale.simps forth_refl)
  next
    case True
    from Cons.prems(2) obtain others e o1 o2 passes where rnd: "rnd = (others, e, (o1, o2) # passes)"
        "cooperates others" "cooperates o1" "cooperates o2"
      by (auto simp: round_ok_def split: prod.splits list.splits)
    note s1 = cooperatesD [OF rnd(2) Cons.prems(1)]
    obtain s2 c where c: "fo_try_claim ops ty owner stale e (others s) = (s2, c)" by fastforce
    note C = claim_law [OF conjunct2 [OF s1] c]
    show ?thesis
    proof (cases "\<exists>f. c = Inr (Some f)")
      case False
      then have "s2 = others s" using C by (auto split: sum.splits option.splits)
      then show ?thesis using False True rnd(1) c s1 Cons.prems(4)
        by (auto simp: recover_stale.simps split: sum.splits option.splits)
    next
      case ex: True
      then obtain f where f: "c = Inr (Some f)" by blast
      note F = claim_forth [OF conjunct2 [OF s1] c [unfolded f]]
      have v: "flow_validate f = Inr ()" using F(5) by (simp add: flow_ok_def)
      obtain w2 result where w2: "run_work work f w = (w2, result)" by fastforce
      obtain s3 r where p: "persist_result ops owner ((o1, o2) # passes) f result s2 = Some (s3, r)" "forth s2 s3" "inv s3"
        using persist_law [OF F(2,3) flow_le_refl F(5,4) rnd(3,4), of owner passes result] by blast
      have f3: "forth s s3" by (rule forth_trans [OF conjunct1 [OF s1] forth_trans [OF F(1) p(2)]])
      have n: "usize_saturating_add n 1 = n + 1" using True Cons.prems(5) by (simp add: usize_saturating_add_def)
      show ?thesis
      proof (cases r)
        case (Inl err)
        then show ?thesis using True rnd(1) c f v w2 p(1) f3 by (auto simp: recover_stale.simps)
      next
        case (Inr res)
        have step: "recover_stale ops owner stale ty max_claims work (rnd # rounds) n (s, w) =
            recover_stale ops owner stale ty max_claims work rounds (n + 1) (s3, w2)"
          using True rnd(1) c f v w2 p(1) n Inr by (subst recover_stale.simps) simp
        obtain s' w' r' where R: "recover_stale ops owner stale ty max_claims work rounds (n + 1) (s3, w2) = Some ((s', w'), r')"
            "forth s3 s'" "\<forall>m. r' = Inr m \<longrightarrow> n + 1 \<le> m \<and> m \<le> max_claims"
          using Cons.IH [of s3 "n + 1" w2] p(3) Cons.prems True by auto
        then show ?thesis using forth_trans [OF f3 R(2)] by (auto simp: step)
      qed
    qed
  qed
qed

end

section \<open>Flows over the memory store\<close>

definition flows_forth :: "memory_flows \<Rightarrow> memory_flows \<Rightarrow> bool" where
  "flows_forth s s' \<longleftrightarrow> flows_inv s' \<and> (\<forall>k f. s k = Some f \<longrightarrow> (\<exists>f'. s' k = Some f' \<and> flow_le f f'))"

definition flows_cooperate :: "(memory_flows \<Rightarrow> memory_flows) \<Rightarrow> bool" where
  "flows_cooperate others \<longleftrightarrow> (\<forall>s. flows_inv s \<longrightarrow> flows_forth s (others s))"

lemma mfl_forth: "mfl.forth = flows_forth"
  by (simp add: fun_eq_iff mfl.forth_def flows_forth_def)

lemma mfl_cooperates: "mfl.cooperates = flows_cooperate"
  by (simp add: fun_eq_iff mfl.cooperates_def flows_cooperate_def mfl_forth)

lemma flows_cooperate_id: "flows_cooperate (\<lambda>s. s)"
  using mfl.cooperates_id by (simp add: mfl_cooperates)

text \<open>
  Property C23: the outcome of a durable flow is final. Whatever other executors do to the memory store
  between the calls of this one, as long as they only move its flows forward (a new version of a flow that is
  not terminal, or a heartbeat), \<open>execute\<close> returns after at most one pass of the saving loop, it moves the
  store forward itself, and when it returns a result the store holds the flow as terminal, with the type that
  was asked for and that outcome. On every later store, every later execution of the flow by any owner
  returns that outcome without running its work.
\<close>

theorem flow_outcome_durable:
  assumes "flows_inv s" "\<forall>i. flows_cooperate (be_others env i)" "flows_cooperate o1" "flows_cooperate o2"
  shows "\<exists>s' w' r. execute memory_flow_ops owner stale env ((o1, o2) # passes) work ident ty data (s, w) = Some ((s', w'), r) \<and>
    flows_forth s s' \<and>
    (\<forall>res. r = Inr res \<longrightarrow> (\<exists>f res'. s' ident = Some f \<and> is_terminal (fl_status f) \<and> fl_type f = ty \<and>
       outcome res' = outcome res \<and>
       (\<forall>s2 env2. flows_forth s' s2 \<and> (\<forall>i. flows_cooperate (be_others env2 i)) \<longrightarrow>
         (\<forall>owner2 stale2 passes2 work2 data2 w2. length data2 \<le> max_flow_data_bytes \<longrightarrow>
           (\<exists>s3. s3 ident = Some f \<and>
              execute memory_flow_ops owner2 stale2 env2 passes2 work2 ident ty data2 (s2, w2) = Some ((s3, w2 :: 'v), Inr res'))))))"
proof -
  obtain s' w' r where x: "execute memory_flow_ops owner stale env ((o1, o2) # passes) work ident ty data (s, w) = Some ((s', w'), r)"
      "flows_forth s s'" "\<forall>res. r = Inr res \<longrightarrow> mfl.settled s' ident res \<and> (\<exists>f. s' ident = Some f \<and> fl_type f = ty)"
    using mfl.execute_law [unfolded mfl_cooperates mfl_forth, OF assms, of owner stale passes work ident ty data w] by blast
  have "\<exists>f res'. s' ident = Some f \<and> is_terminal (fl_status f) \<and> fl_type f = ty \<and> outcome res' = outcome res \<and>
      terminal_result f = Some (Inr res')" if "r = Inr res" for res
    using x(3) that by (auto simp: mfl.settled_def)
  moreover have "\<exists>s3. s3 ident = Some f \<and>
        execute memory_flow_ops owner2 stale2 env2 passes2 work2 ident ty data2 (s2, w2) = Some ((s3, w2 :: 'v), Inr res')"
    if f: "s' ident = Some f" "is_terminal (fl_status f)" "fl_type f = ty" "terminal_result f = Some (Inr res')"
      and s2: "flows_forth s' s2" "\<forall>i. flows_cooperate (be_others env2 i)" and d: "length data2 \<le> max_flow_data_bytes"
    for f res' s2 env2 owner2 stale2 passes2 work2 data2 w2
  proof -
    have i2: "flows_inv s2" and f2: "s2 ident = Some f"
      using s2(1) f(1) flow_le_terminal [OF _ f(2)] by (auto simp: flows_forth_def)
    show ?thesis
      using mfl.execute_settled [unfolded mfl_cooperates, OF i2 s2(2) f2 f(2,4), of owner2 stale2 passes2 work2 ty data2 w2] d f(3)
      by auto
  qed
  ultimately show ?thesis using x(1,2) by (intro exI [of _ s'] exI [of _ w'] exI [of _ r] conjI) (simp, simp, metis)
qed

definition sample_env :: "memory_flows begin_env" where
  "sample_env = \<lparr>be_created = 10, be_now = 20, be_claimed = 30, be_others = (\<lambda>i s. s)\<rparr>"

definition sample_run :: "string \<Rightarrow> nat \<Rightarrow> memory_flows \<times> nat \<Rightarrow> ((memory_flows \<times> nat) \<times> flow_result catga_result) option" where
  "sample_run owner steps = execute memory_flow_ops owner 5 sample_env [((\<lambda>s. s), (\<lambda>s. s))]
     (\<lambda>f runs. (runs + 1, Inr (flow_success (of_nat steps)))) ''order-1'' ''order'' []"

lemma sample_first_run:
  "sample_run ''a'' 3 (Map.empty, 0) =
     Some ((Map.empty(''order-1'' \<mapsto> \<lparr>fl_id = ''order-1'', fl_type = ''order'', fl_status = FDone, fl_step = 3, fl_version = 1,
       fl_owner = None, fl_heartbeat = 10, fl_data = [], fl_error = None\<rparr>), 1), Inr (flow_success 3))"
  by (simp add: sample_run_def sample_env_def execute_def begin_flow_def Let_def flow_new_def flow_validate_def
    memory_flow_ops_def flows_create_def flows_update_def run_work_def persist_result_def persist_loop.simps terminal_state_def
    flow_success_def flow_done_def next_version_def is_next_version_def i64_defs)

text \<open>The first run does the work and a second owner gets its outcome without running anything.\<close>

theorem flow_outcome_durable_witness:
  "flows_inv Map.empty \<and> (\<exists>s s' res. sample_run ''a'' 3 (Map.empty, 0) = Some ((s, 1), Inr (flow_success 3)) \<and>
     sample_run ''b'' 7 (s, 1) = Some ((s', 1), Inr res) \<and> outcome res = outcome (flow_success 3))"
proof -
  have env: "\<forall>i. flows_cooperate (be_others sample_env i)" by (simp add: sample_env_def flows_cooperate_id)
  have inv: "flows_inv Map.empty" by (simp add: flows_inv_def)
  from flow_outcome_durable [OF inv env flows_cooperate_id flows_cooperate_id, where owner = "''a''" and stale = 5 and passes = "[]"
      and work = "\<lambda>f runs. (runs + 1, Inr (flow_success (of_nat 3)))" and ident = "''order-1''" and ty = "''order''"
      and data = "[]" and w = "0 :: nat" and ?'v = nat, folded sample_run_def]
  obtain s w' r where s: "sample_run ''a'' 3 (Map.empty, 0) = Some ((s, w'), r)" "flows_forth Map.empty s"
    and D: "\<And>res. r = Inr res \<Longrightarrow> \<exists>res'. outcome res' = outcome res \<and>
       (\<forall>s2 env2. flows_forth s s2 \<and> (\<forall>i. flows_cooperate (be_others env2 i)) \<longrightarrow>
         (\<forall>owner2 stale2 passes2 work2 data2 (w2 :: nat). length data2 \<le> max_flow_data_bytes \<longrightarrow>
           (\<exists>s3. execute memory_flow_ops owner2 stale2 env2 passes2 work2 ''order-1'' ''order'' data2 (s2, w2) = Some ((s3, w2), Inr res'))))"
    by metis
  have r: "r = Inr (flow_success 3)" "w' = 1" using s(1) sample_first_run by auto
  have "flows_forth s s" using s(2) by (auto simp: flows_forth_def)
  with D [OF r(1)] env obtain res s3 where "outcome res = outcome (flow_success 3)" "sample_run ''b'' 7 (s, 1) = Some ((s3, 1), Inr res)"
    unfolding sample_run_def by (metis le0 list.size(3))
  then show ?thesis using inv s(1) r by blast
qed

definition flows_round_ok ::
  "(memory_flows \<Rightarrow> memory_flows) \<times> (systime \<times> systime \<times> string list) \<times>
   ((memory_flows \<Rightarrow> memory_flows) \<times> (memory_flows \<Rightarrow> memory_flows)) list \<Rightarrow> bool" where
  "flows_round_ok rnd \<longleftrightarrow> (case rnd of (others, e, passes) \<Rightarrow> flows_cooperate others \<and>
     (case passes of [] \<Rightarrow> False | (o1, o2) # _ \<Rightarrow> flows_cooperate o1 \<and> flows_cooperate o2))"

text \<open>
  Property C27: a recovery sweep terminates within its bound. With a round for each of the \<open>max_claims\<close>
  claims it may make, and one saving pass per round, \<open>recover_stale\<close> returns whatever the work does and
  whatever cooperating executors do in between; it only moves flows forward, and the number of flows it
  reports is at most \<open>max_claims\<close>.
\<close>

theorem recovery_sweep_terminates:
  assumes "flows_inv s" "\<forall>rnd \<in> set rounds. flows_round_ok rnd" "max_claims \<le> length rounds" "max_claims < 2 ^ 64"
  shows "\<exists>s' w' r. recover_stale memory_flow_ops owner stale ty max_claims work rounds 0 (s, w) = Some ((s', w'), r) \<and>
    flows_forth s s' \<and> (\<forall>m. r = Inr m \<longrightarrow> m \<le> max_claims)"
proof -
  have "mfl.round_ok = flows_round_ok"
    by (simp add: fun_eq_iff mfl.round_ok_def flows_round_ok_def mfl_cooperates split: list.splits)
  then show ?thesis
    using mfl.recover_stale_law [OF assms(1), of rounds max_claims 0 owner stale ty work w] assms(2-4) by (simp add: mfl_forth)
qed

definition sample_stale :: memory_flows where
  "sample_stale = Map.empty(''order-2'' \<mapsto> flow_new ''order-2'' ''order'' [] ''gone'' 0)"

theorem recovery_sweep_terminates_witness:
  "flows_inv sample_stale \<and>
   (\<exists>s'. recover_stale memory_flow_ops ''a'' 5 ''order'' 1 (\<lambda>f runs. (runs + 1, Inr (flow_success 1)))
      [((\<lambda>s. s), (100, 101, [''order-2'']), [((\<lambda>s. s), (\<lambda>s. s))])] 0 (sample_stale, 0 :: nat) = Some ((s', 1), Inr 1) \<and>
    flows_forth sample_stale s')"
proof -
  let ?rounds = "[((\<lambda>s :: memory_flows. s), (100 :: systime, 101 :: systime, [''order-2'']), [((\<lambda>s :: memory_flows. s), (\<lambda>s :: memory_flows. s))])]"
  let ?run = "recover_stale memory_flow_ops ''a'' 5 ''order'' 1 (\<lambda>f runs. (runs + 1, Inr (flow_success 1))) ?rounds 0 (sample_stale, 0 :: nat)"
  have inv: "flows_inv sample_stale" by (simp add: flows_inv_def sample_stale_def flow_ok_def flow_new_def flow_validate_def)
  have ok: "\<forall>rnd \<in> set ?rounds. flows_round_ok rnd" by (simp add: flows_round_ok_def flows_cooperate_id)
  have "\<exists>s'. ?run = Some ((s', 1), Inr 1)"
    by (simp add: recover_stale.simps memory_flow_ops_def flows_try_claim_def sample_stale_def flow_new_def flow_validate_def
      flow_is_stale_def claimed_by_def next_version_def is_next_version_def i64_defs run_work_def persist_result_def persist_loop.simps
      terminal_state_def flow_success_def flow_done_def flows_update_def usize_saturating_add_def)
  then show ?thesis
    using recovery_sweep_terminates [OF inv ok, where max_claims = 1 and owner = "''a''" and stale = 5 and ty = "''order''"
      and work = "\<lambda>f runs. (runs + 1, Inr (flow_success 1))" and w = "0 :: nat"] inv by auto
qed

end
