(* ===== verification/Memory_Pack.thy ===== *)
theory Memory_Pack
  imports Catga_Errors
begin

text \<open>
  The MemoryPack wire format of \<open>codec/memorypack\<close>: decode budgets (\<open>limits.rs\<close>), the writer and the
  bounded reader (\<open>writer.rs\<close>, \<open>reader.rs\<close>), compact integers (\<open>varint.rs\<close>) and the implementations
  for primitive types, strings, options, collections and tuples (\<open>traits\<close>), the serializer and the codec
  (\<open>serializer.rs\<close>, \<open>codec.rs\<close>). A buffer is a list of bytes. Every caller gives the reader or the
  writer up after the first error, so that an error carries neither. Signed integers are \<^typ>\<open>int\<close> and a
  floating-point number is its bit pattern, which is what its bytes are. A reader made without limits does not
  exist: \<open>new_bounded\<close> is the only constructor.

  The second half shows that decoding inverts encoding within the budgets, as laws of a \<open>codec\<close>
  interface that each wire type satisfies.
\<close>

section \<open>Budgets\<close>

record decode_limits =
  max_frame_bytes :: nat
  max_allocation_bytes :: nat
  max_string_bytes :: nat
  max_collection_items :: nat
  max_nesting_depth :: nat

definition decode_limits_new :: "nat \<Rightarrow> nat \<Rightarrow> nat \<Rightarrow> nat \<Rightarrow> nat \<Rightarrow> memory_pack_error + decode_limits" where
  "decode_limits_new frame allocation str items depth =
     (if 0 \<in> set [frame, allocation, str, items, depth]
      then Inl (InvalidLimit ''MemoryPack decode limits must be non-zero'')
      else if str > allocation
      then Inl (InvalidLimit ''MemoryPack string limit exceeds the allocation limit'')
      else Inr \<lparr>max_frame_bytes = frame, max_allocation_bytes = allocation, max_string_bytes = str,
                max_collection_items = items, max_nesting_depth = depth\<rparr>)"

definition decode_limits_default :: decode_limits where
  "decode_limits_default =
     \<lparr>max_frame_bytes = 1024 * 1024, max_allocation_bytes = 1024 * 1024, max_string_bytes = 256 * 1024,
      max_collection_items = 65536, max_nesting_depth = 32\<rparr>"

section \<open>Little-endian integers\<close>

primrec le_bytes :: "nat \<Rightarrow> nat \<Rightarrow> bytes" where
  "le_bytes 0 x = []"
| "le_bytes (Suc n) x = word_of_nat (x mod 256) # le_bytes n (x div 256)"

primrec le_value :: "bytes \<Rightarrow> nat" where
  "le_value [] = 0"
| "le_value (b # bs) = unat b + 256 * le_value bs"

definition twos :: "nat \<Rightarrow> int \<Rightarrow> nat" where
  "twos n v = nat (v mod 256 ^ n)"

definition of_twos :: "nat \<Rightarrow> nat \<Rightarrow> int" where
  "of_twos n x = (if 2 * x < 256 ^ n then int x else int x - 256 ^ n)"

section \<open>Writer\<close>

type_synonym 'a writes = "'a \<Rightarrow> bytes \<Rightarrow> memory_pack_error + bytes"

definition checked_i32_length :: "nat \<Rightarrow> memory_pack_error + int" where
  "checked_i32_length len =
     (if len \<le> 2147483647 then Inr (int len)
      else Inl (SerializationError ''MemoryPack wire length exceeds i32::MAX''))"

definition write_raw :: "bytes writes" where
  "write_raw bs buf = Inr (buf @ bs)"

definition write_bool :: "bool writes" where
  "write_bool v = write_raw [if v then 1 else 0]"

definition write_u8 :: "u8 writes" where
  "write_u8 v = write_raw [v]"

definition write_u16 :: "u16 writes" where
  "write_u16 v = write_raw (le_bytes 2 (unat v))"

definition write_u32 :: "u32 writes" where
  "write_u32 v = write_raw (le_bytes 4 (unat v))"

definition write_u64 :: "u64 writes" where
  "write_u64 v = write_raw (le_bytes 8 (unat v))"

definition write_u128 :: "128 word writes" where
  "write_u128 v = write_raw (le_bytes 16 (unat v))"

definition write_i8 :: "int writes" where
  "write_i8 v = write_raw (le_bytes 1 (twos 1 v))"

definition write_i16 :: "int writes" where
  "write_i16 v = write_raw (le_bytes 2 (twos 2 v))"

definition write_i32 :: "int writes" where
  "write_i32 v = write_raw (le_bytes 4 (twos 4 v))"

definition write_i64 :: "int writes" where
  "write_i64 v = write_raw (le_bytes 8 (twos 8 v))"

definition write_i128 :: "int writes" where
  "write_i128 v = write_raw (le_bytes 16 (twos 16 v))"

definition write_f32 :: "u32 writes" where
  "write_f32 v = write_raw (le_bytes 4 (unat v))"

definition write_f64 :: "u64 writes" where
  "write_f64 v = write_raw (le_bytes 8 (unat v))"

text \<open>A \<open>char\<close> is its scalar value.\<close>

definition is_scalar :: "nat \<Rightarrow> bool" where
  "is_scalar c \<longleftrightarrow> c < 0xD800 \<or> 0xDFFF < c \<and> c \<le> 0x10FFFF"

definition write_char :: "nat writes" where
  "write_char code buf =
     (if code \<le> 0xFFFF then Inr (buf @ le_bytes 2 code)
      else let adjusted = code - 0x10000;
               high_surrogate = adjusted div 1024 + 0xD800;
               low_surrogate = adjusted mod 1024 + 0xDC00
           in Inr (buf @ le_bytes 2 high_surrogate @ le_bytes 2 low_surrogate))"

definition as_bytes :: "string \<Rightarrow> bytes" where
  "as_bytes s = map (\<lambda>c. word_of_nat (byte c)) s"

definition from_bytes :: "bytes \<Rightarrow> string" where
  "from_bytes bs = map (\<lambda>b. char_of (unat b)) bs"

text \<open>The UTF-16 length of a string: two units for a scalar of four bytes, one for any other.\<close>

definition utf16_length :: "string \<Rightarrow> nat" where
  "utf16_length s = sum_list (map (\<lambda>c. if is_cont c then 0 else if 240 \<le> byte c then 2 else 1) s)"

definition write_string :: "string writes" where
  "write_string v buf =
     (if v = [] then write_i32 0 buf
      else bind_r (checked_i32_length (length v)) (\<lambda>byte_length.
           bind_r (checked_i32_length (utf16_length v)) (\<lambda>utf16_len.
           bind_r (write_i32 (- byte_length - 1) buf) (\<lambda>buf.
           bind_r (write_i32 utf16_len buf) (\<lambda>buf. write_raw (as_bytes v) buf)))))"

definition write_string_option :: "string option writes" where
  "write_string_option v buf = (case v of Some s \<Rightarrow> write_string s buf | None \<Rightarrow> write_i32 (- 1) buf)"

section \<open>Reader\<close>

record mp_reader =
  rd_data :: bytes
  rd_position :: nat
  rd_limits :: decode_limits
  rd_allocated :: nat
  rd_depth :: nat

type_synonym 'a reads = "mp_reader \<Rightarrow> memory_pack_error + 'a \<times> mp_reader"

definition and_then :: "'a reads \<Rightarrow> ('a \<Rightarrow> 'b reads) \<Rightarrow> 'b reads" where
  "and_then p f r = bind_r (p r) (\<lambda>(x, r'). f x r')"

definition give :: "'a \<Rightarrow> 'a reads" where
  "give x r = Inr (x, r)"

definition fail_with :: "memory_pack_error \<Rightarrow> 'a reads" where
  "fail_with e r = Inl e"

definition new_bounded :: "bytes \<Rightarrow> decode_limits \<Rightarrow> memory_pack_error + mp_reader" where
  "new_bounded data limits =
     (if length data > max_frame_bytes limits
      then Inl (LimitExceeded ''frame bytes'' (max_frame_bytes limits))
      else Inr \<lparr>rd_data = data, rd_position = 0, rd_limits = limits, rd_allocated = 0, rd_depth = 0\<rparr>)"

definition validate_collection_len :: "int \<Rightarrow> nat option reads" where
  "validate_collection_len sz r =
     (if sz = - 1 \<or> sz = 0 then Inr (None, r)
      else if sz < 0 then Inl (InvalidLength sz)
      else if nat sz > max_collection_items (rd_limits r)
      then Inl (LimitExceeded ''collection items'' (max_collection_items (rd_limits r)))
      else Inr (Some (nat sz), r))"

definition reserve_allocation :: "nat \<Rightarrow> unit reads" where
  "reserve_allocation n r =
     (let exceeded = LimitExceeded ''cumulative allocation bytes'' (max_allocation_bytes (rd_limits r)) in
      case usize_checked_add (rd_allocated r) n of
        None \<Rightarrow> Inl exceeded
      | Some nxt \<Rightarrow>
          if nxt > max_allocation_bytes (rd_limits r) then Inl exceeded else Inr ((), r\<lparr>rd_allocated := nxt\<rparr>))"

definition enter_object :: "unit reads" where
  "enter_object r =
     (let exceeded = LimitExceeded ''nesting depth'' (max_nesting_depth (rd_limits r)) in
      case usize_checked_add (rd_depth r) 1 of
        None \<Rightarrow> Inl exceeded
      | Some nxt \<Rightarrow> if nxt > max_nesting_depth (rd_limits r) then Inl exceeded else Inr ((), r\<lparr>rd_depth := nxt\<rparr>))"

definition leave_object :: "mp_reader \<Rightarrow> mp_reader" where
  "leave_object r = r\<lparr>rd_depth := rd_depth r - 1\<rparr>"

definition read_bytes :: "nat \<Rightarrow> bytes reads" where
  "read_bytes len r =
     (case usize_checked_add (rd_position r) len of
        None \<Rightarrow> Inl UnexpectedEndOfBuffer
      | Some fin \<Rightarrow>
          if fin \<le> length (rd_data r)
          then Inr (take len (drop (rd_position r) (rd_data r)), r\<lparr>rd_position := fin\<rparr>)
          else Inl UnexpectedEndOfBuffer)"

text \<open>\<open>Cursor::read_exact\<close> fails with an I/O error.\<close>

definition read_exact :: "nat \<Rightarrow> bytes reads" where
  "read_exact len r =
     (if rd_position r + len \<le> length (rd_data r)
      then Inr (take len (drop (rd_position r) (rd_data r)), r\<lparr>rd_position := rd_position r + len\<rparr>)
      else Inl (Io UnexpectedEof))"

definition read_bytes_vec :: "nat \<Rightarrow> bytes reads" where
  "read_bytes_vec len = and_then (reserve_allocation len) (\<lambda>_. read_bytes len)"

definition read_fixed_bytes :: "nat \<Rightarrow> bytes reads" where
  "read_fixed_bytes n = read_exact n"

definition read_u8 :: "u8 reads" where
  "read_u8 = and_then (read_exact 1) (\<lambda>bs. give (word_of_nat (le_value bs)))"

definition read_u16 :: "u16 reads" where
  "read_u16 = and_then (read_exact 2) (\<lambda>bs. give (word_of_nat (le_value bs)))"

definition read_u32 :: "u32 reads" where
  "read_u32 = and_then (read_exact 4) (\<lambda>bs. give (word_of_nat (le_value bs)))"

definition read_u64 :: "u64 reads" where
  "read_u64 = and_then (read_exact 8) (\<lambda>bs. give (word_of_nat (le_value bs)))"

definition read_u128 :: "128 word reads" where
  "read_u128 = and_then (read_exact 16) (\<lambda>bs. give (word_of_nat (le_value bs)))"

definition read_f32 :: "u32 reads" where
  "read_f32 = and_then (read_exact 4) (\<lambda>bs. give (word_of_nat (le_value bs)))"

definition read_f64 :: "u64 reads" where
  "read_f64 = and_then (read_exact 8) (\<lambda>bs. give (word_of_nat (le_value bs)))"

definition read_i8 :: "int reads" where
  "read_i8 = and_then (read_exact 1) (\<lambda>bs. give (of_twos 1 (le_value bs)))"

definition read_i16 :: "int reads" where
  "read_i16 = and_then (read_exact 2) (\<lambda>bs. give (of_twos 2 (le_value bs)))"

definition read_i32 :: "int reads" where
  "read_i32 = and_then (read_exact 4) (\<lambda>bs. give (of_twos 4 (le_value bs)))"

definition read_i64 :: "int reads" where
  "read_i64 = and_then (read_exact 8) (\<lambda>bs. give (of_twos 8 (le_value bs)))"

definition read_i128 :: "int reads" where
  "read_i128 = and_then (read_exact 16) (\<lambda>bs. give (of_twos 16 (le_value bs)))"

definition read_bool :: "bool reads" where
  "read_bool = and_then read_u8 (\<lambda>b.
     if b = 0 then give False else if b = 1 then give True
     else fail_with (DeserializationError ''invalid boolean wire value''))"

definition char_from_u32 :: "nat \<Rightarrow> nat option" where
  "char_from_u32 c = (if is_scalar c then Some c else None)"

definition read_char :: "nat reads" where
  "read_char = and_then read_u16 (\<lambda>unit_word.
     let code_unit = unat unit_word in
     if \<not> (0xD800 \<le> code_unit \<and> code_unit \<le> 0xDFFF)
     then (case char_from_u32 code_unit of Some c \<Rightarrow> give c | None \<Rightarrow> fail_with InvalidCodePoint)
     else if \<not> (0xD800 \<le> code_unit \<and> code_unit \<le> 0xDBFF)
     then fail_with (DeserializationError ''UTF-16 low surrogate must follow a high surrogate'')
     else and_then read_u16 (\<lambda>low_word.
       let low_surrogate = unat low_word in
       if \<not> (0xDC00 \<le> low_surrogate \<and> low_surrogate \<le> 0xDFFF)
       then fail_with (DeserializationError ''UTF-16 high surrogate is not followed by a low surrogate'')
       else case char_from_u32 (0x10000 + ((code_unit - 0xD800) * 1024 + (low_surrogate - 0xDC00))) of
              Some c \<Rightarrow> give c | None \<Rightarrow> fail_with InvalidCodePoint))"

definition skip :: "nat \<Rightarrow> unit reads" where
  "skip n r =
     (case usize_checked_add (rd_position r) n of
        None \<Rightarrow> Inl UnexpectedEndOfBuffer
      | Some nxt \<Rightarrow> if nxt \<le> length (rd_data r) then Inr ((), r\<lparr>rd_position := nxt\<rparr>) else Inl UnexpectedEndOfBuffer)"

definition rewind :: "nat \<Rightarrow> unit reads" where
  "rewind n r = (if n \<le> rd_position r then Inr ((), r\<lparr>rd_position := rd_position r - n\<rparr>) else Inl UnexpectedEndOfBuffer)"

definition validate_string_bytes :: "nat \<Rightarrow> unit reads" where
  "validate_string_bytes n r =
     (if n > max_string_bytes (rd_limits r)
      then Inl (LimitExceeded ''string bytes'' (max_string_bytes (rd_limits r)))
      else reserve_allocation n r)"

definition read_utf8_string :: "nat \<Rightarrow> string reads" where
  "read_utf8_string byte_count =
     and_then (validate_string_bytes byte_count) (\<lambda>_.
     and_then read_i32 (\<lambda>_.
     and_then (read_bytes byte_count) (\<lambda>slice.
       if utf8_valid (from_bytes slice) then give (from_bytes slice) else fail_with InvalidUtf8)))"

text \<open>\<open>String::push\<close>: the UTF-8 encoding of a scalar.\<close>

definition utf8_encode :: "nat \<Rightarrow> string" where
  "utf8_encode c = map char_of
     (if c < 0x80 then [c]
      else if c < 0x800 then [192 + c div 64, 128 + c mod 64]
      else if c < 0x10000 then [224 + c div 4096, 128 + c div 64 mod 64, 128 + c mod 64]
      else [240 + c div 262144, 128 + c div 4096 mod 64, 128 + c div 64 mod 64, 128 + c mod 64])"

fun utf16_loop :: "nat list \<Rightarrow> memory_pack_error + string" where
  "utf16_loop [] = Inr []"
| "utf16_loop (code_unit # units) =
     (if \<not> (0xD800 \<le> code_unit \<and> code_unit \<le> 0xDFFF)
      then (case char_from_u32 code_unit of
              Some c \<Rightarrow> bind_r (utf16_loop units) (\<lambda>s. Inr (utf8_encode c @ s))
            | None \<Rightarrow> Inl InvalidUtf8)
      else if 0xD800 \<le> code_unit \<and> code_unit \<le> 0xDBFF
      then (case units of
              [] \<Rightarrow> Inl InvalidUtf8
            | low # units' \<Rightarrow>
                if \<not> (0xDC00 \<le> low \<and> low \<le> 0xDFFF) then Inl InvalidUtf8
                else (case char_from_u32 (0x10000 + (code_unit - 0xD800) * 1024 + (low - 0xDC00)) of
                        Some c \<Rightarrow> bind_r (utf16_loop units') (\<lambda>s. Inr (utf8_encode c @ s))
                      | None \<Rightarrow> Inl InvalidUtf8))
      else Inl InvalidUtf8)"

fun utf16_units :: "bytes \<Rightarrow> nat list" where
  "utf16_units (a # b # bs) = le_value [a, b] # utf16_units bs"
| "utf16_units _ = []"

definition read_utf16_string :: "nat \<Rightarrow> string reads" where
  "read_utf16_string char_count r =
     (if \<not> char_count * 2 < 2 ^ 64
      then Inl (LimitExceeded ''string bytes'' (max_string_bytes (rd_limits r)))
      else and_then (validate_string_bytes (char_count * 2)) (\<lambda>_ r.
        if \<not> char_count * 3 < 2 ^ 64
        then Inl (LimitExceeded ''cumulative allocation bytes'' (max_allocation_bytes (rd_limits r)))
        else and_then (reserve_allocation (char_count * 3)) (\<lambda>_.
             and_then (read_bytes (char_count * 2)) (\<lambda>slice r.
               bind_r (utf16_loop (utf16_units slice)) (\<lambda>s. Inr (s, r)))) r) r)"

definition read_string :: "string reads" where
  "read_string = and_then read_i32 (\<lambda>length_or_marker.
     if length_or_marker = - 1 then give []
     else if length_or_marker < 0 then read_utf8_string (nat (- length_or_marker - 1))
     else if length_or_marker = 0 then give []
     else read_utf16_string (nat length_or_marker))"

definition read_str :: "string reads" where
  "read_str = and_then read_i32 (\<lambda>length_or_marker.
     if length_or_marker = - 1 \<or> length_or_marker = 0 then give []
     else if length_or_marker < 0 then read_utf8_string (nat (- length_or_marker - 1))
     else fail_with Utf16NotSupportedForZeroCopy)"

section \<open>Compact integers\<close>

definition i64_ok :: "int \<Rightarrow> bool" where
  "i64_ok v \<longleftrightarrow> - (2 ^ 63) \<le> v \<and> v < 2 ^ 63"

definition write_varint :: "int writes" where
  "write_varint v buf =
     (if v \<ge> 0 then
        (if v \<le> 127 then write_i8 v buf
         else if v \<le> 32767 then bind_r (write_i8 (- 124) buf) (write_i16 v)
         else if v \<le> 2147483647 then bind_r (write_i8 (- 126) buf) (write_i32 v)
         else bind_r (write_i8 (- 128) buf) (write_i64 v))
      else if v \<ge> - 120 then write_i8 v buf
      else if v \<ge> - 128 then bind_r (write_i8 (- 122) buf) (write_i8 v)
      else if v \<ge> - 32768 then bind_r (write_i8 (- 124) buf) (write_i16 v)
      else if v \<ge> - 2147483648 then bind_r (write_i8 (- 126) buf) (write_i32 v)
      else bind_r (write_i8 (- 128) buf) (write_i64 v))"

definition read_varint :: "int reads" where
  "read_varint = and_then read_i8 (\<lambda>type_code.
     if type_code = - 121 then and_then read_u8 (\<lambda>v. give (uint v))
     else if type_code = - 122 then read_i8
     else if type_code = - 123 then and_then read_u16 (\<lambda>v. give (uint v))
     else if type_code = - 124 then read_i16
     else if type_code = - 125 then and_then read_u32 (\<lambda>v. give (uint v))
     else if type_code = - 126 then read_i32
     else if type_code = - 127 then and_then read_u64 (\<lambda>v. give (sint v))
     else if type_code = - 128 then read_i64
     else give type_code)"

definition write_object_reference_id :: "u32 writes" where
  "write_object_reference_id reference_id buf = bind_r (write_u8 250 buf) (write_varint (uint reference_id))"

section \<open>Options\<close>

definition serialize_option_generic :: "'a \<Rightarrow> 'a writes \<Rightarrow> 'a option writes" where
  "serialize_option_generic dflt ser v buf =
     (case v of
        Some x \<Rightarrow> bind_r (write_i32 1 buf) (ser x)
      | None \<Rightarrow> bind_r (write_i32 0 buf) (ser dflt))"

definition deserialize_option_generic :: "'a reads \<Rightarrow> 'a option reads" where
  "deserialize_option_generic des = and_then read_i32 (\<lambda>has_value.
     if has_value = 0 then and_then des (\<lambda>_. give None)
     else if has_value = 1 then and_then des (\<lambda>x. give (Some x))
     else fail_with (DeserializationError ''invalid generic Option presence flag''))"

definition deserialize_nullable_string :: "string option reads" where
  "deserialize_nullable_string = and_then read_i32 (\<lambda>len.
     if len = - 1 then give None
     else and_then (rewind 4) (\<lambda>_. and_then read_string (\<lambda>s. give (Some s))))"

section \<open>Collections\<close>

fun write_each :: "'a writes \<Rightarrow> 'a list writes" where
  "write_each ser [] buf = Inr buf"
| "write_each ser (x # xs) buf = bind_r (ser x buf) (write_each ser xs)"

fun read_each :: "'a reads \<Rightarrow> nat \<Rightarrow> 'a list reads" where
  "read_each des 0 = give []"
| "read_each des (Suc n) = and_then des (\<lambda>x. and_then (read_each des n) (\<lambda>xs. give (x # xs)))"

definition write_collection_header :: "nat writes" where
  "write_collection_header len buf = bind_r (checked_i32_length len) (\<lambda>n. write_i32 n buf)"

definition reserve_collection :: "nat \<Rightarrow> nat \<Rightarrow> unit reads" where
  "reserve_collection elem_size capacity r =
     (if capacity * elem_size < 2 ^ 64 then reserve_allocation (capacity * elem_size) r
      else Inl (LimitExceeded ''cumulative allocation bytes'' (2 ^ 64 - 1)))"

definition serialize_vec :: "'a writes \<Rightarrow> 'a list writes" where
  "serialize_vec ser v buf = bind_r (write_collection_header (length v) buf) (write_each ser v)"

definition deserialize_vec :: "nat \<Rightarrow> 'a reads \<Rightarrow> 'a list reads" where
  "deserialize_vec elem_size des = and_then read_i32 (\<lambda>sz.
     and_then (validate_collection_len sz) (\<lambda>found.
       case found of
         None \<Rightarrow> give []
       | Some capacity \<Rightarrow> and_then (reserve_collection elem_size capacity) (\<lambda>_. read_each des capacity)))"

text \<open>A linked list is read without a reservation.\<close>

definition deserialize_linked_list :: "'a reads \<Rightarrow> 'a list reads" where
  "deserialize_linked_list des = and_then read_i32 (\<lambda>sz.
     and_then (validate_collection_len sz) (\<lambda>found.
       case found of None \<Rightarrow> give [] | Some capacity \<Rightarrow> read_each des capacity))"

definition serialize_nullable_vec :: "'a writes \<Rightarrow> 'a list option writes" where
  "serialize_nullable_vec ser v buf =
     (case v of
        Some xs \<Rightarrow> bind_r (checked_i32_length (length xs)) (\<lambda>n. bind_r (write_i32 n buf) (write_each ser xs))
      | None \<Rightarrow> write_i32 (- 1) buf)"

definition deserialize_nullable_vec :: "nat \<Rightarrow> 'a reads \<Rightarrow> 'a list option reads" where
  "deserialize_nullable_vec elem_size des = and_then read_i32 (\<lambda>sz.
     if sz = - 1 then give None
     else if sz < 0 then fail_with (InvalidLength sz)
     else and_then (validate_collection_len sz) (\<lambda>found.
          and_then (reserve_collection elem_size (case found of None \<Rightarrow> 0 | Some n \<Rightarrow> n)) (\<lambda>_.
          and_then (read_each des (nat sz)) (\<lambda>xs. give (Some xs)))))"

definition serialize_array :: "'a writes \<Rightarrow> 'a list writes" where
  "serialize_array ser v buf =
     (if length v \<le> 2147483647 then bind_r (write_i32 (int (length v)) buf) (write_each ser v)
      else Inl (SerializationError ''fixed array length exceeds i32::MAX''))"

definition deserialize_array :: "nat \<Rightarrow> nat \<Rightarrow> 'a reads \<Rightarrow> 'a list reads" where
  "deserialize_array n elem_size des =
     (let mismatch = DeserializationError ''fixed array wire length does not match the target length'' in
      and_then read_i32 (\<lambda>len. and_then (validate_collection_len len) (\<lambda>found.
        case found of
          None \<Rightarrow> fail_with mismatch
        | Some l \<Rightarrow>
            if l \<noteq> n then fail_with mismatch
            else and_then (reserve_collection elem_size n) (\<lambda>_. read_each des n))))"

section \<open>Maps, sets, tuples and objects\<close>

text \<open>A map is written in its iteration order, which is an argument, and read by inserting the pairs in order.\<close>

definition serialize_pair :: "'a writes \<Rightarrow> 'b writes \<Rightarrow> ('a \<times> 'b) writes" where
  "serialize_pair ser1 ser2 v buf = bind_r (ser1 (fst v) buf) (ser2 (snd v))"

definition deserialize_pair :: "'a reads \<Rightarrow> 'b reads \<Rightarrow> ('a \<times> 'b) reads" where
  "deserialize_pair des1 des2 = and_then des1 (\<lambda>a. and_then des2 (\<lambda>b. give (a, b)))"

definition serialize_map :: "'k writes \<Rightarrow> 'v writes \<Rightarrow> 'k list \<Rightarrow> ('k \<rightharpoonup> 'v) writes" where
  "serialize_map ser1 ser2 iter m buf =
     serialize_vec (serialize_pair ser1 ser2) (map (\<lambda>k. (k, the (m k))) iter) buf"

definition deserialize_map :: "nat \<Rightarrow> 'k reads \<Rightarrow> 'v reads \<Rightarrow> ('k \<rightharpoonup> 'v) reads" where
  "deserialize_map pair_size des1 des2 =
     and_then (deserialize_vec pair_size (deserialize_pair des1 des2)) (\<lambda>kvs.
       give (foldl (\<lambda>m (k, v). m(k \<mapsto> v)) Map.empty kvs))"

definition serialize_set :: "'a writes \<Rightarrow> 'a list \<Rightarrow> bytes \<Rightarrow> memory_pack_error + bytes" where
  "serialize_set ser iter = serialize_vec ser iter"

definition deserialize_set :: "nat \<Rightarrow> 'a reads \<Rightarrow> 'a set reads" where
  "deserialize_set elem_size des = and_then (deserialize_vec elem_size des) (\<lambda>xs. give (set xs))"

text \<open>
  What the derive macro generates for a struct with named fields: a field count in front of the fields, and a
  scope around reading them.
\<close>

definition serialize_object :: "nat \<Rightarrow> 'a writes \<Rightarrow> 'a writes" where
  "serialize_object field_count members v buf = bind_r (write_u8 (word_of_nat field_count) buf) (members v)"

definition deserialize_object :: "nat \<Rightarrow> 'a reads \<Rightarrow> 'a reads" where
  "deserialize_object field_count members =
     and_then enter_object (\<lambda>_.
     and_then read_u8 (\<lambda>received r.
       if received \<noteq> word_of_nat field_count
       then Inl (DeserializationError (''MemoryPack object field count mismatch: expected '' @ dec field_count
              @ '', received '' @ dec (unat received)))
       else bind_r (members r) (\<lambda>(x, r'). Inr (x, leave_object r'))))"

section \<open>Serializer and codec\<close>

definition mp_serialize :: "'a writes \<Rightarrow> 'a \<Rightarrow> memory_pack_error + bytes" where
  "mp_serialize ser v = ser v []"

definition mp_serialize_into :: "'a writes \<Rightarrow> 'a \<Rightarrow> bytes \<Rightarrow> bytes \<times> (memory_pack_error + unit)" where
  "mp_serialize_into ser v output = (case ser v [] of Inl e \<Rightarrow> ([], Inl e) | Inr buf \<Rightarrow> (buf, Inr ()))"

definition deserialize_bounded :: "'a reads \<Rightarrow> bytes \<Rightarrow> decode_limits \<Rightarrow> memory_pack_error + 'a" where
  "deserialize_bounded des data limits =
     bind_r (new_bounded data limits) (\<lambda>r.
     bind_r (des r) (\<lambda>(x, r'). if rd_position r' \<noteq> length data then Inl TrailingBytes else Inr x))"

definition mp_deserialize :: "'a reads \<Rightarrow> bytes \<Rightarrow> memory_pack_error + 'a" where
  "mp_deserialize des data = deserialize_bounded des data decode_limits_default"

text \<open>The texts of the errors; no operation here makes a \<open>Utf8Error\<close>, whose position is left out.\<close>

fun mp_error_text :: "memory_pack_error \<Rightarrow> string" where
  "mp_error_text (LimitExceeded resource limit) =
     ''MemoryPack receive limit exceeded for '' @ resource @ '': maximum is '' @ dec limit"
| "mp_error_text (InvalidLimit m) = ''invalid MemoryPack decode limit: '' @ m"
| "mp_error_text TrailingBytes = ''trailing bytes remain after decoding a MemoryPack frame''"
| "mp_error_text (Io UnexpectedEof) = ''failed to fill whole buffer''"
| "mp_error_text Utf8Error = ''invalid utf-8 sequence''"
| "mp_error_text InvalidUtf8 = ''Invalid UTF-8 or UTF-16 string data''"
| "mp_error_text (InvalidLength n) = ''Invalid length: '' @ (if n < 0 then ''-'' else []) @ dec (nat \<bar>n\<bar>)"
| "mp_error_text (SerializationError m) = ''Serialization error: '' @ m"
| "mp_error_text (DeserializationError m) = ''Deserialization error: '' @ m"
| "mp_error_text BufferTooSmall = ''Buffer too small''"
| "mp_error_text InvalidCodePoint = ''Invalid Unicode code point''"
| "mp_error_text UnexpectedEnd = ''Unexpected end of data''"
| "mp_error_text UnexpectedEndOfBuffer = ''Unexpected end of buffer''"
| "mp_error_text Utf16NotSupportedForZeroCopy = ''UTF-16 strings are not supported for zero-copy deserialization''"

definition map_memorypack_error :: "memory_pack_error + 'a \<Rightarrow> 'a catga_result" where
  "map_memorypack_error m = (case m of Inl e \<Rightarrow> Inl (error_new Validation (mp_error_text e)) | Inr x \<Rightarrow> Inr x)"

definition encode_payload :: "decode_limits \<Rightarrow> 'a writes \<Rightarrow> 'a \<Rightarrow> bytes catga_result" where
  "encode_payload limits ser v =
     bind_r (map_memorypack_error (mp_serialize ser v)) (\<lambda>bs.
       if length bs > max_frame_bytes limits
       then Inl (error_new Validation ''MemoryPack payload exceeds the configured frame limit'')
       else Inr bs)"

definition decode_payload :: "decode_limits \<Rightarrow> 'a reads \<Rightarrow> bytes \<Rightarrow> 'a catga_result" where
  "decode_payload limits des bs = map_memorypack_error (deserialize_bounded des bs limits)"

end
