(* ===== verification/Wire_Laws.thy ===== *)
theory Wire_Laws
  imports Memory_Pack
begin

text \<open>
  Decoding inverts encoding. The locale \<open>wire\<close> is what an implementation of \<open>MemoryPackSerialize\<close> and
  \<open>MemoryPackDeserialize\<close> promises: the bytes of a value, what reading them back takes from the allocation
  and nesting budgets, and which length limits it meets. Every wire type of \<open>codec/memorypack/traits\<close> is an
  instance, and options, collections, pairs and objects of instances are instances again.
\<close>

section \<open>Bytes of integers\<close>

lemma length_le_bytes [simp]: "length (le_bytes n x) = n"
  by (induction n arbitrary: x) simp_all

lemma le_value_bytes: "le_value (le_bytes n x) = x mod 256 ^ n"
proof (induction n arbitrary: x)
  case (Suc n)
  have "unat (word_of_nat (x mod 256) :: u8) = x mod 256" by (simp add: unat_of_nat take_bit_nat_def)
  then show ?case using Suc by (simp add: mod_mult2_eq)
qed simp

lemma le_value_bytes_less: "x < 256 ^ n \<Longrightarrow> le_value (le_bytes n x) = x"
  by (simp add: le_value_bytes)

lemma twos_less: "twos n v < 256 ^ n"
  by (simp add: twos_def nat_less_iff)

lemma of_twos_twos:
  assumes "- (256 ^ n) \<le> 2 * v" "2 * v < 256 ^ n"
  shows "of_twos n (twos n v) = v"
proof (cases "0 \<le> v")
  case True
  then have "v mod 256 ^ n = v" using assms by simp
  then have "int (twos n v) = v" using True by (simp add: twos_def)
  moreover from this have "2 * int (twos n v) < int (256 ^ n)" using assms(2) by simp
  then have "2 * twos n v < 256 ^ n" by linarith
  ultimately show ?thesis by (simp add: of_twos_def)
next
  case False
  have "v mod 256 ^ n = (v + 256 ^ n) mod 256 ^ n" by simp
  also have "\<dots> = v + 256 ^ n" using assms False by (intro mod_pos_pos_trivial) linarith+
  finally have m: "int (twos n v) = v + 256 ^ n" using assms False by (simp add: twos_def)
  then have "2 * int (twos n v) \<ge> int (256 ^ n)" using assms(1) by simp
  then have "\<not> 2 * twos n v < 256 ^ n" by linarith
  then show ?thesis using m by (simp add: of_twos_def)
qed

lemma from_as_bytes [simp]: "from_bytes (as_bytes s) = s"
proof -
  have "char_of (unat (word_of_nat (byte c) :: u8)) = c" for c
  proof -
    have "byte c < 256" by (simp add: byte_def)
    then have "unat (word_of_nat (byte c) :: u8) = byte c" by (simp add: unat_of_nat take_bit_nat_eq_self)
    then show ?thesis by (simp add: byte_def)
  qed
  then show ?thesis by (simp add: from_bytes_def as_bytes_def comp_def)
qed

lemma length_as_bytes [simp]: "length (as_bytes s) = length s"
  by (simp add: as_bytes_def)

section \<open>Reading what lies ahead\<close>

text \<open>The reader has room for allocations of \<open>a\<close> bytes and for \<open>d\<close> more levels of objects.\<close>

definition room :: "mp_reader \<Rightarrow> nat \<Rightarrow> nat \<Rightarrow> bool" where
  "room r a d \<longleftrightarrow> length (rd_data r) < 2 ^ 64 \<and> max_allocation_bytes (rd_limits r) < 2 ^ 64 \<and> max_nesting_depth (rd_limits r) < 2 ^ 64 \<and>
     rd_allocated r + a \<le> max_allocation_bytes (rd_limits r) \<and> rd_depth r + d \<le> max_nesting_depth (rd_limits r)"

definition ahead :: "mp_reader \<Rightarrow> bytes \<Rightarrow> bool" where
  "ahead r bs \<longleftrightarrow> take (length bs) (drop (rd_position r) (rd_data r)) = bs"

definition past :: "nat \<Rightarrow> nat \<Rightarrow> mp_reader \<Rightarrow> mp_reader" where
  "past n a r = r\<lparr>rd_position := rd_position r + n, rd_allocated := rd_allocated r + a\<rparr>"

lemma past_simps [simp]:
  "rd_data (past n a r) = rd_data r" "rd_position (past n a r) = rd_position r + n" "rd_limits (past n a r) = rd_limits r"
  "rd_allocated (past n a r) = rd_allocated r + a" "rd_depth (past n a r) = rd_depth r" "room (past n a r) b d = room r (a + b) d"
  "past n a (past m b r) = past (m + n) (b + a) r" "past 0 0 r = r"
  by (simp_all add: past_def room_def add.assoc)

lemma room_mono: "room r a d \<Longrightarrow> a' \<le> a \<Longrightarrow> d' \<le> d \<Longrightarrow> room r a' d'"
  by (auto simp: room_def)

lemma room_0: "room r a d \<Longrightarrow> room r 0 0"
  by (rule room_mono) simp_all

lemma ahead_append: "ahead r (as @ bs) \<longleftrightarrow> ahead r as \<and> ahead (past (length as) a r) bs"
proof -
  let ?d = "drop (rd_position r) (rd_data r)"
  have "take (length as + length bs) ?d = take (length as) ?d @ take (length bs) (drop (length as) ?d)" by (simp add: take_add)
  moreover have "take (length as) ?d @ xs = as @ bs \<longleftrightarrow> take (length as) ?d = as \<and> xs = bs"
    if "length (take (length as) ?d) = length as \<or> xs = bs" for xs
    using that by (auto simp: append_eq_append_conv)
  moreover have "length (take (length as) ?d) = length as" if "length ?d \<ge> length as" using that by simp
  moreover have "take (length bs) (drop (length as) ?d) = []" if "length ?d < length as" using that by simp
  ultimately show ?thesis
    by (cases "length as \<le> length ?d") (auto simp: ahead_def drop_drop add.commute dest: arg_cong [where f = length])
qed

lemma ahead_past: "ahead (past n a r) bs \<longleftrightarrow> ahead (past n b r) bs"
  by (simp add: ahead_def)

lemma ahead_bound:
  assumes "ahead r bs" "bs \<noteq> []"
  shows "rd_position r + length bs \<le> length (rd_data r)"
proof -
  have "length (take (length bs) (drop (rd_position r) (rd_data r))) = length bs" using assms(1) by (simp add: ahead_def)
  then show ?thesis using assms(2) by (cases "rd_position r \<le> length (rd_data r)") auto
qed

lemma read_exact_ahead:
  assumes "ahead r bs" "n = length bs" "bs \<noteq> []"
  shows "read_exact n r = Inr (bs, past n 0 r)"
  using assms ahead_bound [OF assms(1,3)] by (simp add: read_exact_def ahead_def past_def)

lemma and_then_Inr: "p r = Inr (x, r') \<Longrightarrow> and_then p f r = f x r'"
  by (simp add: and_then_def)

lemma and_then_give [simp]: "and_then (give x) f = f x"
  by (simp add: and_then_def give_def fun_eq_iff)

lemma and_then_assoc: "and_then (and_then p f) g = and_then p (\<lambda>x. and_then (f x) g)"
  by (rule ext, rename_tac r, case_tac "p r") (auto simp: and_then_def)

section \<open>Wire types\<close>

locale wire =
  fixes ser :: "'a writes" and des :: "'a reads" and enc :: "'a \<Rightarrow> bytes" and alloc :: "'a \<Rightarrow> nat" and depth :: "'a \<Rightarrow> nat"
    and small :: "decode_limits \<Rightarrow> 'a \<Rightarrow> bool" and valid :: "'a \<Rightarrow> bool"
  assumes ser_law: "valid x \<Longrightarrow> ser x buf = Inr (buf @ enc x)"
    and des_law: "valid x \<Longrightarrow> room r (alloc x) (depth x) \<Longrightarrow> small (rd_limits r) x \<Longrightarrow> ahead r (enc x) \<Longrightarrow> des r = Inr (x, past (length (enc x)) (alloc x) r)"
begin

text \<open>A value within the budgets survives the wire, and nothing may follow its frame.\<close>

definition within :: "decode_limits \<Rightarrow> 'a \<Rightarrow> bool" where
  "within l x \<longleftrightarrow> small l x \<and> alloc x \<le> max_allocation_bytes l \<and> depth x \<le> max_nesting_depth l \<and>
     max_allocation_bytes l < 2 ^ 64 \<and> max_nesting_depth l < 2 ^ 64 \<and> max_frame_bytes l < 2 ^ 64"

lemma decode_frame:
  assumes "valid x" "within l x" "length (enc x) + length rest \<le> max_frame_bytes l"
  shows "deserialize_bounded des (enc x @ rest) l = (if rest = [] then Inr x else Inl TrailingBytes)"
proof -
  let ?r = "\<lparr>rd_data = enc x @ rest, rd_position = 0, rd_limits = l, rd_allocated = 0, rd_depth = 0\<rparr>"
  have "des ?r = Inr (x, past (length (enc x)) (alloc x) ?r)"
    using assms by (intro des_law) (auto simp: room_def within_def ahead_def)
  then show ?thesis using assms(3) by (simp add: deserialize_bounded_def new_bounded_def)
qed

lemma roundtrip:
  assumes "valid x" "within l x" "length (enc x) \<le> max_frame_bytes l"
  shows "encode_payload l ser x = Inr (enc x)" "decode_payload l des (enc x) = Inr x"
  using assms ser_law [of x "[]"] decode_frame [of x l "[]"]
  by (simp_all add: encode_payload_def decode_payload_def map_memorypack_error_def mp_serialize_def)

lemma step:
  assumes "valid x" "room r (alloc x) (depth x)" "small (rd_limits r) x" "ahead r (enc x)"
  shows "and_then des f r = f x (past (length (enc x)) (alloc x) r)"
  using des_law [OF assms] by (rule and_then_Inr)

end

section \<open>Primitive types\<close>

lemma wire_fixed:
  assumes "\<And>x buf. ser x buf = Inr (buf @ enc x)" "\<And>x. length (enc x) = n" "0 < n"
    "des = and_then (read_exact n) (\<lambda>bs. give (decode bs))" "\<And>x. valid x \<Longrightarrow> decode (enc x) = x"
  shows "wire ser des enc (\<lambda>_. 0) (\<lambda>_. 0) (\<lambda>_ _. True) valid"
proof
  show "ser x buf = Inr (buf @ enc x)" for x buf by (rule assms(1))
  fix x r assume x: "valid x" "ahead r (enc x)"
  have "enc x \<noteq> []" using assms(2,3) by (metis length_0_conv less_numeral_extra(3))
  then have "read_exact n r = Inr (enc x, past n 0 r)" using read_exact_ahead [OF x(2)] assms(2) by simp
  then show "des r = Inr (x, past (length (enc x)) 0 r)"
    using assms(2,5) x(1) unfolding assms(4) by (simp add: and_then_def give_def)
qed

definition int_range :: "nat \<Rightarrow> int \<Rightarrow> bool" where
  "int_range n v \<longleftrightarrow> - (256 ^ n) \<le> 2 * v \<and> 2 * v < 256 ^ n"

lemma wire_signed:
  assumes "\<And>v. ser v = write_raw (le_bytes n (twos n v))" "0 < n"
    "des = and_then (read_exact n) (\<lambda>bs. give (of_twos n (le_value bs)))"
  shows "wire ser des (\<lambda>v. le_bytes n (twos n v)) (\<lambda>_. 0) (\<lambda>_. 0) (\<lambda>_ _. True) (int_range n)"
  by (rule wire_fixed [where n = n, OF _ _ assms(2,3)])
    (simp_all add: assms(1) write_raw_def le_value_bytes_less [OF twos_less] of_twos_twos int_range_def)

lemma wire_unsigned:
  assumes "\<And>v. ser v = write_raw (le_bytes n (unat (v :: 'a :: len word)))" "0 < n" "LENGTH('a) = 8 * n"
    "des = and_then (read_exact n) (\<lambda>bs. give (word_of_nat (le_value bs)))"
  shows "wire ser des (\<lambda>v. le_bytes n (unat v)) (\<lambda>_. 0) (\<lambda>_. 0) (\<lambda>_ _. True) (\<lambda>_. True)"
proof (rule wire_fixed [where n = n, OF _ _ assms(2,4)])
  fix v :: "'a word"
  have "unat v < 2 ^ LENGTH('a)" by (rule unsigned_less)
  also have "(2 :: nat) ^ LENGTH('a) = 256 ^ n" using power_mult [of "2 :: nat" 8 n] by (simp add: assms(3))
  finally show "word_of_nat (le_value (le_bytes n (unat v))) = v" by (simp add: le_value_bytes_less)
qed (simp_all add: assms(1) write_raw_def)

interpretation w_u16: wire write_u16 read_u16 "\<lambda>v. le_bytes 2 (unat v)" "\<lambda>_. 0" "\<lambda>_. 0" "\<lambda>_ _. True" "\<lambda>_. True"
  by (rule wire_unsigned) (simp_all add: write_u16_def read_u16_def fun_eq_iff)

interpretation w_u32: wire write_u32 read_u32 "\<lambda>v. le_bytes 4 (unat v)" "\<lambda>_. 0" "\<lambda>_. 0" "\<lambda>_ _. True" "\<lambda>_. True"
  by (rule wire_unsigned) (simp_all add: write_u32_def read_u32_def fun_eq_iff)

interpretation w_u64: wire write_u64 read_u64 "\<lambda>v. le_bytes 8 (unat v)" "\<lambda>_. 0" "\<lambda>_. 0" "\<lambda>_ _. True" "\<lambda>_. True"
  by (rule wire_unsigned) (simp_all add: write_u64_def read_u64_def fun_eq_iff)

interpretation w_u128: wire write_u128 read_u128 "\<lambda>v. le_bytes 16 (unat v)" "\<lambda>_. 0" "\<lambda>_. 0" "\<lambda>_ _. True" "\<lambda>_. True"
  by (rule wire_unsigned) (simp_all add: write_u128_def read_u128_def fun_eq_iff)

interpretation w_f32: wire write_f32 read_f32 "\<lambda>v. le_bytes 4 (unat v)" "\<lambda>_. 0" "\<lambda>_. 0" "\<lambda>_ _. True" "\<lambda>_. True"
  by (rule wire_unsigned) (simp_all add: write_f32_def read_f32_def fun_eq_iff)

interpretation w_f64: wire write_f64 read_f64 "\<lambda>v. le_bytes 8 (unat v)" "\<lambda>_. 0" "\<lambda>_. 0" "\<lambda>_ _. True" "\<lambda>_. True"
  by (rule wire_unsigned) (simp_all add: write_f64_def read_f64_def fun_eq_iff)

interpretation w_u8: wire write_u8 read_u8 "\<lambda>v. [v]" "\<lambda>_. 0" "\<lambda>_. 0" "\<lambda>_ _. True" "\<lambda>_. True"
  by (rule wire_fixed [where n = 1 and decode = "\<lambda>bs. word_of_nat (le_value bs)"])
    (simp_all add: write_u8_def write_raw_def read_u8_def)

interpretation w_i8: wire write_i8 read_i8 "\<lambda>v. le_bytes 1 (twos 1 v)" "\<lambda>_. 0" "\<lambda>_. 0" "\<lambda>_ _. True" "int_range 1"
  by (rule wire_signed) (simp_all add: write_i8_def read_i8_def fun_eq_iff)

interpretation w_i16: wire write_i16 read_i16 "\<lambda>v. le_bytes 2 (twos 2 v)" "\<lambda>_. 0" "\<lambda>_. 0" "\<lambda>_ _. True" "int_range 2"
  by (rule wire_signed) (simp_all add: write_i16_def read_i16_def fun_eq_iff)

interpretation w_i32: wire write_i32 read_i32 "\<lambda>v. le_bytes 4 (twos 4 v)" "\<lambda>_. 0" "\<lambda>_. 0" "\<lambda>_ _. True" "int_range 4"
  by (rule wire_signed) (simp_all add: write_i32_def read_i32_def fun_eq_iff)

interpretation w_i64: wire write_i64 read_i64 "\<lambda>v. le_bytes 8 (twos 8 v)" "\<lambda>_. 0" "\<lambda>_. 0" "\<lambda>_ _. True" "int_range 8"
  by (rule wire_signed) (simp_all add: write_i64_def read_i64_def fun_eq_iff)

interpretation w_i128: wire write_i128 read_i128 "\<lambda>v. le_bytes 16 (twos 16 v)" "\<lambda>_. 0" "\<lambda>_. 0" "\<lambda>_ _. True" "int_range 16"
  by (rule wire_signed) (simp_all add: write_i128_def read_i128_def fun_eq_iff)

interpretation w_bool: wire write_bool read_bool "\<lambda>v. [if v then 1 else 0]" "\<lambda>_. 0" "\<lambda>_. 0" "\<lambda>_ _. True" "\<lambda>_. True"
proof
  fix v :: bool and r
  assume "room r 0 0" "ahead r [if v then 1 else 0]"
  then show "read_bool r = Inr (v, past (length [if v then 1 else (0 :: u8)]) 0 r)"
    using w_u8.des_law [of r "if v then 1 else 0"] by (cases v) (simp_all add: read_bool_def and_then_def give_def)
qed (simp add: write_bool_def write_raw_def)

text \<open>Characters: one unit, or the two surrogates of a scalar beyond the basic plane.\<close>

definition char_bytes :: "nat \<Rightarrow> bytes" where
  "char_bytes c = (if c \<le> 0xFFFF then le_bytes 2 c
     else le_bytes 2 ((c - 0x10000) div 1024 + 0xD800) @ le_bytes 2 ((c - 0x10000) mod 1024 + 0xDC00))"

lemma read_u16_nat: "room r 0 0 \<Longrightarrow> ahead r (le_bytes 2 n) \<Longrightarrow> n < 65536 \<Longrightarrow> read_u16 r = Inr (word_of_nat n, past 2 0 r)"
  using w_u16.des_law [of r "word_of_nat n"] by (simp add: unat_of_nat take_bit_nat_eq_self)

interpretation w_char: wire write_char read_char char_bytes "\<lambda>_. 0" "\<lambda>_. 0" "\<lambda>_ _. True" is_scalar
proof
  fix c r assume c: "is_scalar c" and r: "room r 0 0" "ahead r (char_bytes c)"
  show "read_char r = Inr (c, past (length (char_bytes c)) 0 r)"
  proof (cases "c \<le> 0xFFFF")
    case True
    then have "read_u16 r = Inr (word_of_nat c, past 2 0 r)" using r by (intro read_u16_nat) (simp_all add: char_bytes_def)
    moreover have "unat (word_of_nat c :: u16) = c" using True by (simp add: unat_of_nat take_bit_nat_eq_self)
    ultimately show ?thesis using True c
      by (auto simp: read_char_def and_then_def give_def Let_def char_from_u32_def is_scalar_def char_bytes_def)
  next
    case False
    define h where "h = (c - 0x10000) div 1024 + 0xD800"
    define l where "l = (c - 0x10000) mod 1024 + 0xDC00"
    have h: "0xD800 \<le> h" "h \<le> 0xDBFF" using c False by (auto simp: h_def is_scalar_def)
    have l: "0xDC00 \<le> l" "l \<le> 0xDFFF" by (simp_all add: l_def)
    have hl: "9216 + ((h - 0xD800) * 1024 + l) = c" using False by (simp add: h_def l_def)
    have b: "char_bytes c = le_bytes 2 h @ le_bytes 2 l" using False by (simp add: char_bytes_def h_def l_def)
    have a: "ahead r (le_bytes 2 h)" "ahead (past 2 0 r) (le_bytes 2 l)"
      using r(2) unfolding b ahead_append [where a = 0] by simp_all
    have 1: "read_u16 r = Inr (word_of_nat h, past 2 0 r)" using r(1) a(1) h by (intro read_u16_nat) simp_all
    have 2: "read_u16 (past 2 0 r) = Inr (word_of_nat l, past 4 0 r)"
      using read_u16_nat [of "past 2 0 r" l] r(1) a(2) l by simp
    have u: "unat (word_of_nat h :: u16) = h" "unat (word_of_nat l :: u16) = l"
      using h l by (simp_all add: unat_of_nat take_bit_nat_eq_self)
    show ?thesis using h l c by (simp add: read_char_def and_then_def 1 2 Let_def u hl char_from_u32_def give_def b)
  qed
qed (simp add: write_char_def char_bytes_def Let_def)

section \<open>Compact integers\<close>

definition varint_bytes :: "int \<Rightarrow> bytes" where
  "varint_bytes v =
     (if - 120 \<le> v \<and> v \<le> 127 then le_bytes 1 (twos 1 v)
      else if - 128 \<le> v \<and> v < 0 then le_bytes 1 (twos 1 (- 122)) @ le_bytes 1 (twos 1 v)
      else if - 32768 \<le> v \<and> v \<le> 32767 then le_bytes 1 (twos 1 (- 124)) @ le_bytes 2 (twos 2 v)
      else if - 2147483648 \<le> v \<and> v \<le> 2147483647 then le_bytes 1 (twos 1 (- 126)) @ le_bytes 4 (twos 4 v)
      else le_bytes 1 (twos 1 (- 128)) @ le_bytes 8 (twos 8 v))"

lemma read_code:
  assumes "room r 0 0" "ahead r (le_bytes 1 (twos 1 code) @ bs)" "- 128 \<le> code" "code \<le> 127"
  shows "read_i8 r = Inr (code, past 1 0 r)" "ahead (past 1 0 r) bs"
  using assms w_i8.des_law [of code r] ahead_append [of r "le_bytes 1 (twos 1 code)" bs 0] by (simp_all add: int_range_def)

interpretation w_varint: wire write_varint read_varint varint_bytes "\<lambda>_. 0" "\<lambda>_. 0" "\<lambda>_ _. True" i64_ok
proof
  fix v buf assume "i64_ok v"
  then show "write_varint v buf = Inr (buf @ varint_bytes v)"
    by (auto simp: write_varint_def varint_bytes_def write_i8_def write_i16_def write_i32_def write_i64_def write_raw_def)
next
  fix v r assume v: "i64_ok v" and r: "room r 0 0" "ahead r (varint_bytes v)"
  note unfolds = read_varint_def and_then_def give_def varint_bytes_def
  consider "- 120 \<le> v" "v \<le> 127" | "- 128 \<le> v" "v < - 120" | "\<not> (- 128 \<le> v \<and> v \<le> 127)" "- 32768 \<le> v" "v \<le> 32767"
    | "\<not> (- 32768 \<le> v \<and> v \<le> 32767)" "- 2147483648 \<le> v" "v \<le> 2147483647" | "\<not> (- 2147483648 \<le> v \<and> v \<le> 2147483647)"
    by linarith
  then show "read_varint r = Inr (v, past (length (varint_bytes v)) 0 r)"
  proof cases
    case 1
    then have "read_i8 r = Inr (v, past 1 0 r)" using r w_i8.des_law [of v r] by (simp add: varint_bytes_def int_range_def)
    then show ?thesis using 1 by (simp add: unfolds)
  next
    case 2
    then have b: "varint_bytes v = le_bytes 1 (twos 1 (- 122)) @ le_bytes 1 (twos 1 v)" by (simp add: varint_bytes_def)
    note c = read_code [OF r(1) r(2) [unfolded b], simplified]
    have "read_i8 (past 1 0 r) = Inr (v, past 2 0 r)" using w_i8.des_law [of v "past 1 0 r"] c r(1) 2 by (simp add: int_range_def)
    then show ?thesis unfolding b using c(1) by (simp add: read_varint_def and_then_def)
  next
    case 3
    then have b: "varint_bytes v = le_bytes 1 (twos 1 (- 124)) @ le_bytes 2 (twos 2 v)" by (auto simp: varint_bytes_def)
    note c = read_code [OF r(1) r(2) [unfolded b], simplified]
    have "read_i16 (past 1 0 r) = Inr (v, past 3 0 r)" using w_i16.des_law [of v "past 1 0 r"] c r(1) 3 by (simp add: int_range_def)
    then show ?thesis unfolding b using c(1) by (simp add: read_varint_def and_then_def)
  next
    case 4
    then have b: "varint_bytes v = le_bytes 1 (twos 1 (- 126)) @ le_bytes 4 (twos 4 v)" by (auto simp: varint_bytes_def)
    note c = read_code [OF r(1) r(2) [unfolded b], simplified]
    have "read_i32 (past 1 0 r) = Inr (v, past 5 0 r)" using w_i32.des_law [of v "past 1 0 r"] c r(1) 4 by (simp add: int_range_def)
    then show ?thesis unfolding b using c(1) by (simp add: read_varint_def and_then_def)
  next
    case 5
    then have b: "varint_bytes v = le_bytes 1 (twos 1 (- 128)) @ le_bytes 8 (twos 8 v)" by (auto simp: varint_bytes_def)
    note c = read_code [OF r(1) r(2) [unfolded b], simplified]
    have "read_i64 (past 1 0 r) = Inr (v, past 9 0 r)"
      using w_i64.des_law [of v "past 1 0 r"] c r(1) v by (simp add: int_range_def i64_ok_def)
    then show ?thesis unfolding b using c(1) by (simp add: read_varint_def and_then_def)
  qed
qed

section \<open>Strings\<close>

lemma utf16_length_le: "utf8_valid s \<Longrightarrow> utf16_length s \<le> length s"
proof (induction s rule: utf8_valid.induct)
  case (2 a s)
  show ?case
    using 2 by (auto simp: utf16_length_def is_cont_def intro!: le_SucI split: if_splits list.splits)
qed (simp add: utf16_length_def)

lemma read_bytes_ahead: "room r a d \<Longrightarrow> ahead r bs \<Longrightarrow> bs \<noteq> [] \<Longrightarrow> read_bytes (length bs) r = Inr (bs, past (length bs) 0 r)"
  using ahead_bound [of r bs] by (auto simp: read_bytes_def usize_checked_add_def room_def ahead_def past_def)

lemma reserve_allocation_room: "room r a d \<Longrightarrow> reserve_allocation a r = Inr ((), past 0 a r)"
  by (simp add: reserve_allocation_def usize_checked_add_def room_def Let_def past_def)

definition string_bytes :: "string \<Rightarrow> bytes" where
  "string_bytes s = (if s = [] then le_bytes 4 (twos 4 0)
     else le_bytes 4 (twos 4 (- int (length s) - 1)) @ le_bytes 4 (twos 4 (int (utf16_length s))) @ as_bytes s)"

definition string_ok :: "string \<Rightarrow> bool" where
  "string_ok s \<longleftrightarrow> utf8_valid s \<and> length s \<le> 2147483647"

lemma string_ok_Nil [simp]: "string_ok []"
  by (simp add: string_ok_def)

interpretation w_string: wire write_string read_string string_bytes length "\<lambda>_. 0" "\<lambda>l s. length s \<le> max_string_bytes l" string_ok
proof
  fix s buf assume "string_ok s"
  then show "write_string s buf = Inr (buf @ string_bytes s)"
    using utf16_length_le [of s]
    by (simp add: string_ok_def write_string_def string_bytes_def checked_i32_length_def write_i32_def write_raw_def)
next
  fix s r assume s: "string_ok s" and r: "room r (length s) 0" "length s \<le> max_string_bytes (rd_limits r)" "ahead r (string_bytes s)"
  show "read_string r = Inr (s, past (length (string_bytes s)) (length s) r)"
  proof (cases "s = []")
    case True
    then show ?thesis using r w_i32.des_law [of 0 r] by (simp add: read_string_def and_then_def string_bytes_def int_range_def give_def)
  next
    case False
    define m where "m = - int (length s) - 1"
    define u where "u = int (utf16_length s)"
    have b: "string_bytes s = le_bytes 4 (twos 4 m) @ le_bytes 4 (twos 4 u) @ as_bytes s"
      using False by (simp add: string_bytes_def m_def u_def)
    have a: "ahead r (le_bytes 4 (twos 4 m))" "ahead (past 4 (length s) r) (le_bytes 4 (twos 4 u))" "ahead (past 8 (length s) r) (as_bytes s)"
      using r(3) unfolding b by (simp_all add: ahead_append [where a = 0] ahead_past [where a = "length s" and b = 0])
    have 1: "read_i32 r = Inr (m, past 4 0 r)"
      using w_i32.des_law [of m r] room_0 [OF r(1)] a(1) s by (simp add: int_range_def m_def string_ok_def)
    have 2: "validate_string_bytes (length s) (past 4 0 r) = Inr ((), past 4 (length s) r)"
      using reserve_allocation_room [of "past 4 0 r" "length s" 0] r(1,2) by (simp add: validate_string_bytes_def)
    have 3: "read_i32 (past 4 (length s) r) = Inr (u, past 8 (length s) r)"
      using w_i32.des_law [of u "past 4 (length s) r"] r(1) a(2) s utf16_length_le [of s] by (simp add: int_range_def u_def string_ok_def)
    have 4: "read_bytes (length s) (past 8 (length s) r) = Inr (as_bytes s, past (8 + length s) (length s) r)"
      using read_bytes_ahead [of "past 8 (length s) r" 0 0 "as_bytes s"] r(1) a(3) False by (simp add: as_bytes_def)
    have "m \<noteq> - 1" "m < 0" "nat (- m - 1) = length s" using False by (simp_all add: m_def)
    moreover have "utf8_valid s" using s by (simp add: string_ok_def)
    ultimately show ?thesis
      by (simp add: read_string_def read_utf8_string_def and_then_def 1 2 3 4 give_def b)
  qed
qed

section \<open>Options, collections, pairs and objects\<close>

context wire
begin

lemma option_wire:
  assumes "valid dflt" "\<And>l. small l dflt" "alloc dflt = 0"
  shows "wire (serialize_option_generic dflt ser) (deserialize_option_generic des)
    (\<lambda>v. case v of Some x \<Rightarrow> le_bytes 4 (twos 4 1) @ enc x | None \<Rightarrow> le_bytes 4 (twos 4 0) @ enc dflt)
    (\<lambda>v. case v of Some x \<Rightarrow> alloc x | None \<Rightarrow> 0) (\<lambda>v. case v of Some x \<Rightarrow> depth x | None \<Rightarrow> depth dflt)
    (\<lambda>l v. case v of Some x \<Rightarrow> small l x | None \<Rightarrow> True) (\<lambda>v. case v of Some x \<Rightarrow> valid x | None \<Rightarrow> True)"
    (is "wire _ _ ?enc ?alloc ?depth ?small ?valid")
proof
  fix v buf assume "?valid v"
  then show "serialize_option_generic dflt ser v buf = Inr (buf @ ?enc v)"
    using assms(1) by (cases v) (simp_all add: serialize_option_generic_def write_i32_def write_raw_def ser_law)
next
  fix v r assume v: "?valid v" and r: "room r (?alloc v) (?depth v)" "?small (rd_limits r) v" "ahead r (?enc v)"
  define n :: int where "n = (case v of Some _ \<Rightarrow> 1 | None \<Rightarrow> 0)"
  define x where "x = (case v of Some x \<Rightarrow> x | None \<Rightarrow> dflt)"
  have b: "?enc v = le_bytes 4 (twos 4 n) @ enc x" by (simp add: n_def x_def split: option.splits)
  have x: "valid x" "small (rd_limits r) x" "alloc x = ?alloc v" "depth x = ?depth v"
    using assms v r(2) by (auto simp: x_def split: option.splits)
  have a: "ahead r (le_bytes 4 (twos 4 n))" "ahead (past 4 0 r) (enc x)"
    using r(3) unfolding b by (simp_all add: ahead_append [where a = 0])
  have 1: "read_i32 r = Inr (n, past 4 0 r)"
    using w_i32.des_law [of n r] room_0 [OF r(1)] a(1) by (simp add: int_range_def n_def split: option.splits)
  have 2: "des (past 4 0 r) = Inr (x, past (4 + length (enc x)) (alloc x) r)"
    using des_law [OF x(1), of "past 4 0 r"] r(1) x a(2) by simp
  show "deserialize_option_generic des r = Inr (v, past (length (?enc v)) (?alloc v) r)"
    unfolding b x(3) [symmetric] by (cases v) (simp_all add: deserialize_option_generic_def and_then_def 1 2 n_def x_def give_def)
qed

lemma write_each_law: "\<forall>x \<in> set xs. valid x \<Longrightarrow> write_each ser xs buf = Inr (buf @ concat (map enc xs))"
  by (induction xs arbitrary: buf) (simp_all add: ser_law)

lemma read_each_law:
  assumes "\<forall>x \<in> set xs. valid x \<and> depth x \<le> d \<and> small (rd_limits r) x" "room r (sum_list (map alloc xs)) d" "ahead r (concat (map enc xs))"
  shows "read_each des (length xs) r = Inr (xs, past (length (concat (map enc xs))) (sum_list (map alloc xs)) r)"
  using assms
proof (induction xs arbitrary: r)
  case Nil
  then show ?case by (simp add: give_def)
next
  case (Cons x xs)
  let ?r = "past (length (enc x)) (alloc x) r"
  have a: "ahead r (enc x)" "ahead ?r (concat (map enc xs))"
    using Cons.prems(3) by (simp_all add: ahead_append [where a = "alloc x"])
  have "des r = Inr (x, ?r)"
    using Cons.prems(1) a(1) room_mono [OF Cons.prems(2), of "alloc x" "depth x"] by (intro des_law) simp_all
  moreover have "read_each des (length xs) ?r = Inr (xs, past (length (concat (map enc xs))) (sum_list (map alloc xs)) ?r)"
    using Cons.prems a(2) by (intro Cons.IH) simp_all
  ultimately show ?case by (simp add: and_then_def give_def)
qed

lemma vec_wire:
  "wire (serialize_vec ser) (deserialize_vec elem_size des)
    (\<lambda>xs. le_bytes 4 (twos 4 (int (length xs))) @ concat (map enc xs))
    (\<lambda>xs. length xs * elem_size + sum_list (map alloc xs)) (\<lambda>xs. Max (insert 0 (depth ` set xs)))
    (\<lambda>l xs. length xs \<le> max_collection_items l \<and> (\<forall>x \<in> set xs. small l x)) (\<lambda>xs. length xs \<le> 2147483647 \<and> (\<forall>x \<in> set xs. valid x))"
    (is "wire _ _ ?enc ?alloc ?depth ?small ?valid")
proof
  fix xs buf assume "?valid xs"
  then show "serialize_vec ser xs buf = Inr (buf @ ?enc xs)"
    by (simp add: serialize_vec_def write_collection_header_def checked_i32_length_def write_i32_def write_raw_def write_each_law)
next
  fix xs r assume v: "?valid xs" and r: "room r (?alloc xs) (?depth xs)" "?small (rd_limits r) xs" "ahead r (?enc xs)"
  have a: "ahead r (le_bytes 4 (twos 4 (int (length xs))))" "ahead (past 4 (length xs * elem_size) r) (concat (map enc xs))"
    using r(3) by (simp_all add: ahead_append [where a = "length xs * elem_size"])
  have 1: "read_i32 r = Inr (int (length xs), past 4 0 r)"
    using w_i32.des_law [of "int (length xs)" r] room_0 [OF r(1)] a(1) v by (simp add: int_range_def)
  show "deserialize_vec elem_size des r = Inr (xs, past (length (?enc xs)) (?alloc xs) r)"
  proof (cases "xs = []")
    case True
    then show ?thesis using 1 by (simp add: deserialize_vec_def and_then_def validate_collection_len_def give_def)
  next
    case False
    let ?r = "past 4 (length xs * elem_size) r"
    have "reserve_allocation (length xs * elem_size) (past 4 0 r) = Inr ((), ?r)"
      using reserve_allocation_room [of "past 4 0 r" "length xs * elem_size" 0] room_mono [OF r(1)] by simp
    moreover have "length xs * elem_size < 2 ^ 64" using r(1) by (simp add: room_def)
    ultimately have 2: "reserve_collection elem_size (length xs) (past 4 0 r) = Inr ((), ?r)" by (simp add: reserve_collection_def)
    have "read_each des (length xs) ?r = Inr (xs, past (length (concat (map enc xs))) (sum_list (map alloc xs)) ?r)"
      using v r(1,2) a(2) by (intro read_each_law [where d = "?depth xs"]) simp_all
    then show ?thesis using False v r(2)
      by (simp add: deserialize_vec_def and_then_def 1 2 validate_collection_len_def give_def del: length_concat)
  qed
qed

lemma object_wire:
  assumes "n < 256"
  shows "wire (serialize_object n ser) (deserialize_object n des) (\<lambda>x. word_of_nat n # enc x) alloc (\<lambda>x. Suc (depth x)) small valid"
proof
  fix x buf assume "valid x"
  then show "serialize_object n ser x buf = Inr (buf @ word_of_nat n # enc x)"
    by (simp add: serialize_object_def write_u8_def write_raw_def ser_law)
next
  fix x r assume v: "valid x" and r: "room r (alloc x) (Suc (depth x))" "small (rd_limits r) x" "ahead r (word_of_nat n # enc x)"
  let ?r = "r\<lparr>rd_depth := rd_depth r + 1\<rparr>"
  have e: "enter_object r = Inr ((), ?r)" using r(1) by (simp add: enter_object_def usize_checked_add_def room_def Let_def)
  have m: "room ?r (alloc x) (depth x)" "rd_limits ?r = rd_limits r" using r(1) by (simp_all add: room_def)
  have a: "ahead ?r [word_of_nat n]" "ahead (past 1 0 ?r) (enc x)"
    using r(3) ahead_append [of ?r "[word_of_nat n]" "enc x" 0] by (simp_all add: ahead_def)
  have 1: "read_u8 ?r = Inr (word_of_nat n, past 1 0 ?r)" using w_u8.des_law [of ?r "word_of_nat n"] room_0 [OF m(1)] a(1) by simp
  have 2: "des (past 1 0 ?r) = Inr (x, past (1 + length (enc x)) (alloc x) ?r)"
    using des_law [OF v, of "past 1 0 ?r"] m r(2) a(2) by simp
  show "deserialize_object n des r = Inr (x, past (length (word_of_nat n # enc x)) (alloc x) r)"
    unfolding deserialize_object_def and_then_def e bind_r.simps prod.case 1 by (simp add: 2 [simplified]) (simp add: leave_object_def past_def)
qed

lemma linked_list_wire:
  "wire (serialize_vec ser) (deserialize_linked_list des)
    (\<lambda>xs. le_bytes 4 (twos 4 (int (length xs))) @ concat (map enc xs))
    (\<lambda>xs. sum_list (map alloc xs)) (\<lambda>xs. Max (insert 0 (depth ` set xs)))
    (\<lambda>l xs. length xs \<le> max_collection_items l \<and> (\<forall>x \<in> set xs. small l x)) (\<lambda>xs. length xs \<le> 2147483647 \<and> (\<forall>x \<in> set xs. valid x))"
    (is "wire _ _ ?enc ?alloc ?depth ?small ?valid")
proof
  show "serialize_vec ser xs buf = Inr (buf @ ?enc xs)" if "?valid xs" for xs buf
    using wire.ser_law [OF vec_wire that] .
  fix xs r assume v: "?valid xs" and r: "room r (?alloc xs) (?depth xs)" "?small (rd_limits r) xs" "ahead r (?enc xs)"
  have a: "ahead r (le_bytes 4 (twos 4 (int (length xs))))" "ahead (past 4 0 r) (concat (map enc xs))"
    using r(3) by (simp_all add: ahead_append [where a = 0])
  have 1: "read_i32 r = Inr (int (length xs), past 4 0 r)"
    using w_i32.des_law [of "int (length xs)" r] room_0 [OF r(1)] a(1) v by (simp add: int_range_def)
  have "read_each des (length xs) (past 4 0 r) = Inr (xs, past (length (concat (map enc xs))) (sum_list (map alloc xs)) (past 4 0 r))"
    using v r(1,2) a(2) by (intro read_each_law [where d = "?depth xs"]) simp_all
  then show "deserialize_linked_list des r = Inr (xs, past (length (?enc xs)) (?alloc xs) r)"
    using v r(2) by (cases "xs = []")
      (simp_all add: deserialize_linked_list_def and_then_def 1 validate_collection_len_def give_def del: length_concat)
qed

lemma nullable_vec_wire:
  "wire (serialize_nullable_vec ser) (deserialize_nullable_vec elem_size des)
    (\<lambda>v. case v of None \<Rightarrow> le_bytes 4 (twos 4 (- 1)) | Some xs \<Rightarrow> le_bytes 4 (twos 4 (int (length xs))) @ concat (map enc xs))
    (\<lambda>v. case v of None \<Rightarrow> 0 | Some xs \<Rightarrow> length xs * elem_size + sum_list (map alloc xs))
    (\<lambda>v. case v of None \<Rightarrow> 0 | Some xs \<Rightarrow> Max (insert 0 (depth ` set xs)))
    (\<lambda>l v. case v of None \<Rightarrow> True | Some xs \<Rightarrow> length xs \<le> max_collection_items l \<and> (\<forall>x \<in> set xs. small l x))
    (\<lambda>v. case v of None \<Rightarrow> True | Some xs \<Rightarrow> length xs \<le> 2147483647 \<and> (\<forall>x \<in> set xs. valid x))"
    (is "wire _ _ ?enc ?alloc ?depth ?small ?valid")
proof
  fix v buf assume "?valid v"
  then show "serialize_nullable_vec ser v buf = Inr (buf @ ?enc v)"
    by (cases v) (simp_all add: serialize_nullable_vec_def checked_i32_length_def write_i32_def write_raw_def write_each_law)
next
  fix v r assume v: "?valid v" and r: "room r (?alloc v) (?depth v)" "?small (rd_limits r) v" "ahead r (?enc v)"
  show "deserialize_nullable_vec elem_size des r = Inr (v, past (length (?enc v)) (?alloc v) r)"
  proof (cases v)
    case None
    then show ?thesis using r w_i32.des_law [of "- 1" r]
      by (simp add: deserialize_nullable_vec_def and_then_def int_range_def give_def)
  next
    case (Some xs)
    let ?n = "length xs * elem_size"
    have a: "ahead r (le_bytes 4 (twos 4 (int (length xs))))" "ahead (past 4 ?n r) (concat (map enc xs))"
      using r(3) Some by (simp_all add: ahead_append [where a = ?n])
    have 1: "read_i32 r = Inr (int (length xs), past 4 0 r)"
      using w_i32.des_law [of "int (length xs)" r] room_0 [OF r(1)] a(1) v Some by (simp add: int_range_def)
    have 2: "validate_collection_len (int (length xs)) (past 4 0 r) = Inr (if xs = [] then None else Some (length xs), past 4 0 r)"
      using r(2) Some by (simp add: validate_collection_len_def)
    have cap: "(case if xs = [] then None else Some (length xs) of None \<Rightarrow> 0 | Some n \<Rightarrow> n) = length xs" by simp
    have "reserve_allocation ?n (past 4 0 r) = Inr ((), past 4 ?n r)"
      using reserve_allocation_room [of "past 4 0 r" ?n 0] room_mono [OF r(1)] Some by simp
    moreover have "?n < 2 ^ 64" using r(1) Some by (simp add: room_def)
    ultimately have 3: "reserve_collection elem_size (length xs) (past 4 0 r) = Inr ((), past 4 ?n r)" by (simp add: reserve_collection_def)
    have "read_each des (length xs) (past 4 ?n r) = Inr (xs, past (length (concat (map enc xs))) (sum_list (map alloc xs)) (past 4 ?n r))"
      using v r(1,2) a(2) Some by (intro read_each_law [where d = "Max (insert 0 (depth ` set xs))"]) simp_all
    then show ?thesis unfolding Some
      by (simp add: deserialize_nullable_vec_def and_then_def 1 2 cap 3 give_def del: length_concat split del: if_split)
  qed
qed

text \<open>A type with the wire form of another, behind a conversion and its inverse.\<close>

lemma converted_wire:
  assumes "\<And>y buf. ok y \<Longrightarrow> ser' y buf = ser (f y) buf" "des' = and_then des (\<lambda>x. give (g x))" "\<And>y. ok y \<Longrightarrow> valid (f y) \<and> g (f y) = y"
  shows "wire ser' des' (\<lambda>y. enc (f y)) (\<lambda>y. alloc (f y)) (\<lambda>y. depth (f y)) (\<lambda>l y. small l (f y)) ok"
proof
  show "ser' y buf = Inr (buf @ enc (f y))" if "ok y" for y buf using assms(1,3) that by (simp add: ser_law)
  show "des' r = Inr (y, past (length (enc (f y))) (alloc (f y)) r)"
    if "ok y" "room r (alloc (f y)) (depth (f y))" "small (rd_limits r) (f y)" "ahead r (enc (f y))" for y r
    using des_law [of "f y" r] that assms(3) unfolding assms(2) by (simp add: and_then_def give_def)
qed

text \<open>The same wire form under another name, with fewer values or a coarser bound on the nesting.\<close>

lemma renamed_wire:
  assumes "des' = des" "\<And>x. ok x \<Longrightarrow> valid x" "\<And>x buf. ok x \<Longrightarrow> ser' x buf = ser x buf" "\<And>x. ok x \<Longrightarrow> enc' x = enc x"
    "\<And>x. ok x \<Longrightarrow> alloc' x = alloc x" "\<And>x. ok x \<Longrightarrow> depth x \<le> depth' x" "\<And>l x. ok x \<Longrightarrow> small' l x \<Longrightarrow> small l x"
  shows "wire ser' des' enc' alloc' depth' small' ok"
proof
  show "ser' x buf = Inr (buf @ enc' x)" if "ok x" for x buf using assms that by (simp add: ser_law)
  show "des' r = Inr (x, past (length (enc' x)) (alloc' x) r)"
    if "ok x" "room r (alloc' x) (depth' x)" "small' (rd_limits r) x" "ahead r (enc' x)" for x r
    using that assms des_law [of x r] room_mono [OF that(2), of "alloc x" "depth x"] by simp
qed

end

lemma pair_wire:
  assumes "wire ser1 des1 enc1 alloc1 depth1 small1 valid1" "wire ser2 des2 enc2 alloc2 depth2 small2 valid2"
  shows "wire (serialize_pair ser1 ser2) (deserialize_pair des1 des2) (\<lambda>(a, b). enc1 a @ enc2 b)
    (\<lambda>(a, b). alloc1 a + alloc2 b) (\<lambda>(a, b). max (depth1 a) (depth2 b)) (\<lambda>l (a, b). small1 l a \<and> small2 l b)
    (\<lambda>(a, b). valid1 a \<and> valid2 b)"
proof (unfold_locales, goal_cases)
  case (1 v buf)
  then show ?case
    by (cases v) (simp add: serialize_pair_def wire.ser_law [OF assms(1)] wire.ser_law [OF assms(2)])
next
  case (2 v r)
  obtain a b where v: "v = (a, b)" by fastforce
  have A: "ahead r (enc1 a)" "ahead (past (length (enc1 a)) (alloc1 a) r) (enc2 b)"
    using 2(4) by (simp_all add: v ahead_append [where a = "alloc1 a"])
  have "des1 r = Inr (a, past (length (enc1 a)) (alloc1 a) r)"
    using 2 A(1) room_mono [OF 2(2), of "alloc1 a" "depth1 a"] by (intro wire.des_law [OF assms(1)]) (simp_all add: v)
  moreover have "des2 (past (length (enc1 a)) (alloc1 a) r) = Inr (b, past (length (enc2 b)) (alloc2 b) (past (length (enc1 a)) (alloc1 a) r))"
    using 2 A(2) room_mono [OF 2(2), of "alloc1 a + alloc2 b" "depth2 b"] by (intro wire.des_law [OF assms(2)]) (simp_all add: v)
  ultimately show ?case by (simp add: v deserialize_pair_def and_then_def give_def)
qed

text \<open>A map, written in some order of its keys, comes back as the same map.\<close>

lemma map_from_pairs:
  "foldl (\<lambda>m (k, v). m(k \<mapsto> v)) m0 (map (\<lambda>k. (k, the (m k))) ks) = (\<lambda>k. if k \<in> set ks then Some (the (m k)) else m0 k)"
  by (induction ks arbitrary: m0) (auto simp: fun_eq_iff)

lemma map_wire:
  assumes "wire ser1 des1 enc1 alloc1 depth1 small1 valid1" "wire ser2 des2 enc2 alloc2 depth2 small2 valid2"
  obtains enc alloc depth small where "wire (serialize_map ser1 ser2 iter) (deserialize_map pair_size des1 des2) enc alloc depth small
    (\<lambda>m. set iter = dom m \<and> length iter \<le> 2147483647 \<and> (\<forall>k v. m k = Some v \<longrightarrow> valid1 k \<and> valid2 v))"
proof -
  let ?f = "\<lambda>m. map (\<lambda>k. (k, the (m k))) iter" and ?g = "foldl (\<lambda>m (k, v). m(k \<mapsto> v)) Map.empty"
  have "?g (?f m) = m" if "set iter = dom m" for m :: "_ \<rightharpoonup> _"
    using that by (auto simp: map_from_pairs fun_eq_iff dom_def)
  then show thesis
    by (intro that [OF wire.converted_wire [OF wire.vec_wire [OF pair_wire [OF assms]], where g = ?g and f = ?f]])
      (auto simp: serialize_map_def deserialize_map_def)
qed

section \<open>Shared wire forms\<close>

text \<open>An enumeration is the wire form of its byte.\<close>

lemma byte_wire:
  assumes "\<And>x buf. ser x buf = write_u8 (code x) buf" "\<And>x. deco (code x) = give x" "des = and_then read_u8 deco"
  shows "wire ser des (\<lambda>x. [code x]) (\<lambda>_. 0) (\<lambda>_. 0) (\<lambda>_ _. True) (\<lambda>_. True)"
proof
  show "ser x buf = Inr (buf @ [code x])" for x buf using w_u8.ser_law assms(1) by simp
  show "des r = Inr (x, past (length [code x]) 0 r)" if "room r 0 0" "ahead r [code x]" for x r
    using w_u8.des_law [of r "code x"] that assms(2) unfolding assms(3) by (simp add: and_then_def give_def)
qed

definition option_bytes :: "('a \<Rightarrow> bytes) \<Rightarrow> 'a \<Rightarrow> 'a option \<Rightarrow> bytes" where
  "option_bytes enc dflt v = (case v of Some x \<Rightarrow> le_bytes 4 (twos 4 1) @ enc x | None \<Rightarrow> le_bytes 4 (twos 4 0) @ enc dflt)"

definition list_bytes :: "('a \<Rightarrow> bytes) \<Rightarrow> 'a list \<Rightarrow> bytes" where
  "list_bytes enc xs = le_bytes 4 (twos 4 (int (length xs))) @ concat (map enc xs)"

definition sizeof_u8 :: nat where
  "sizeof_u8 = 1"

interpretation w_payload: wire "serialize_vec write_u8" "deserialize_vec sizeof_u8 read_u8"
  "list_bytes (\<lambda>b. [b])" length "\<lambda>_. 0" "\<lambda>l xs. length xs \<le> max_collection_items l" "\<lambda>xs. length xs \<le> 2147483647"
  by (rule wire.renamed_wire [OF w_u8.vec_wire [where elem_size = sizeof_u8]]) (simp_all add: list_bytes_def sizeof_u8_def image_constant_conv)

end
