(* ===== verification/Envelope_Wire.thy ===== *)
theory Envelope_Wire
  imports Wire_Laws Messages
begin

text \<open>
  The MemoryPack form of transport envelopes (\<open>codec/memorypack/envelope.rs\<close>), with the code the derive
  macro generates for its two wire records (\<open>catga-memorypack-derive/src/regular.rs\<close>): which envelopes
  survive the wire, and which frames the codec writes and cannot read.
\<close>

section \<open>Wire records\<close>

record header_wire =
  hw_key :: string
  hw_value :: string

record envelope_wire =
  ew_id :: u64
  ew_message_type :: string
  ew_payload :: bytes
  ew_message_id :: u64
  ew_correlation_id :: "u64 option"
  ew_quality_of_service :: quality_of_service
  ew_delivery_mode :: delivery_mode
  ew_priority :: message_priority
  ew_not_before_unix_ms :: "u64 option"
  ew_schema_version :: u32
  ew_reply_to :: "string option"
  ew_headers :: "header_wire list"
  ew_sent_at_unix_ms :: "u64 option"

definition envelope_to_wire :: "envelope \<Rightarrow> envelope_wire" where
  "envelope_to_wire e =
     \<lparr>ew_id = env_id e, ew_message_type = env_message_type e, ew_payload = env_payload e,
      ew_message_id = mm_message_id (env_metadata e), ew_correlation_id = mm_correlation_id (env_metadata e),
      ew_quality_of_service = mm_quality_of_service (env_metadata e), ew_delivery_mode = mm_delivery_mode (env_metadata e),
      ew_priority = mm_priority (env_metadata e), ew_not_before_unix_ms = mm_not_before_unix_ms (env_metadata e),
      ew_schema_version = env_schema_version e, ew_reply_to = env_reply_to e,
      ew_headers = map (\<lambda>(key, v). \<lparr>hw_key = key, hw_value = v\<rparr>) (envelope_headers_iter e),
      ew_sent_at_unix_ms = env_sent_at_unix_ms e\<rparr>"

text \<open>\<open>Envelope::versioned\<close> stamps the envelope with the clock, and \<open>with_sent_at_unix_ms\<close> replaces the stamp.\<close>

definition envelope_try_from_wire :: "systime \<Rightarrow> envelope_wire \<Rightarrow> envelope catga_result" where
  "envelope_try_from_wire now w =
     bind_r (headers_try_new (map (\<lambda>h. (hw_key h, hw_value h)) (ew_headers w))) (\<lambda>headers.
       let metadata = with_not_before_unix_ms (ew_not_before_unix_ms w)
             (with_priority (ew_priority w)
             (with_delivery_mode (ew_delivery_mode w)
             (with_quality_of_service (ew_quality_of_service w)
             (metadata_new (ew_message_id w) (ew_correlation_id w)))));
           envelope = with_sent_at_unix_ms (ew_sent_at_unix_ms w)
             (envelope_versioned (ew_id w) (ew_message_type w) (ew_payload w) metadata (ew_schema_version w) now)
       in Inr (with_headers headers (case ew_reply_to w of Some r \<Rightarrow> with_reply_to r envelope | None \<Rightarrow> envelope)))"

section \<open>Enumerations\<close>

fun serialize_qos :: "quality_of_service writes" where
  "serialize_qos AtMostOnce buf = write_u8 0 buf"
| "serialize_qos AtLeastOnce buf = write_u8 1 buf"
| "serialize_qos ExactlyOnce buf = write_u8 2 buf"

definition deserialize_qos :: "quality_of_service reads" where
  "deserialize_qos = and_then read_u8 (\<lambda>v.
     if v = 0 then give AtMostOnce else if v = 1 then give AtLeastOnce else if v = 2 then give ExactlyOnce
     else fail_with (DeserializationError (''invalid quality of service: '' @ dec (unat v))))"

fun serialize_delivery_mode :: "delivery_mode writes" where
  "serialize_delivery_mode WaitForResult buf = write_u8 0 buf"
| "serialize_delivery_mode AsyncRetry buf = write_u8 1 buf"

definition deserialize_delivery_mode :: "delivery_mode reads" where
  "deserialize_delivery_mode = and_then read_u8 (\<lambda>v.
     if v = 0 then give WaitForResult else if v = 1 then give AsyncRetry
     else fail_with (DeserializationError (''invalid delivery mode: '' @ dec (unat v))))"

fun serialize_priority :: "message_priority writes" where
  "serialize_priority Low buf = write_u8 0 buf"
| "serialize_priority Normal buf = write_u8 1 buf"
| "serialize_priority High buf = write_u8 2 buf"
| "serialize_priority Critical buf = write_u8 3 buf"

definition deserialize_priority :: "message_priority reads" where
  "deserialize_priority = and_then read_u8 (\<lambda>v.
     if v = 0 then give Low else if v = 1 then give Normal else if v = 2 then give High else if v = 3 then give Critical
     else fail_with (DeserializationError (''invalid message priority: '' @ dec (unat v))))"

section \<open>Derived code\<close>

definition serialize_header_wire :: "header_wire writes" where
  "serialize_header_wire = serialize_object 2 (\<lambda>v buf.
     bind_r (write_string (hw_key v) buf) (write_string (hw_value v)))"

definition deserialize_header_wire :: "header_wire reads" where
  "deserialize_header_wire = deserialize_object 2
     (and_then read_string (\<lambda>key. and_then read_string (\<lambda>v. give \<lparr>hw_key = key, hw_value = v\<rparr>)))"

text \<open>The size of a \<open>HeaderWire\<close>, two strings of three machine words each.\<close>

definition sizeof_header_wire :: nat where
  "sizeof_header_wire = 48"

definition serialize_envelope_wire :: "envelope_wire writes" where
  "serialize_envelope_wire = serialize_object 13 (\<lambda>v buf.
     bind_r (write_u64 (ew_id v) buf) (\<lambda>buf.
     bind_r (write_string (ew_message_type v) buf) (\<lambda>buf.
     bind_r (serialize_vec write_u8 (ew_payload v) buf) (\<lambda>buf.
     bind_r (write_u64 (ew_message_id v) buf) (\<lambda>buf.
     bind_r (serialize_option_generic 0 write_u64 (ew_correlation_id v) buf) (\<lambda>buf.
     bind_r (serialize_qos (ew_quality_of_service v) buf) (\<lambda>buf.
     bind_r (serialize_delivery_mode (ew_delivery_mode v) buf) (\<lambda>buf.
     bind_r (serialize_priority (ew_priority v) buf) (\<lambda>buf.
     bind_r (serialize_option_generic 0 write_u64 (ew_not_before_unix_ms v) buf) (\<lambda>buf.
     bind_r (write_u32 (ew_schema_version v) buf) (\<lambda>buf.
     bind_r (serialize_option_generic [] write_string (ew_reply_to v) buf) (\<lambda>buf.
     bind_r (serialize_vec serialize_header_wire (ew_headers v) buf) (\<lambda>buf.
       serialize_option_generic 0 write_u64 (ew_sent_at_unix_ms v) buf)))))))))))))"

definition deserialize_envelope_wire :: "envelope_wire reads" where
  "deserialize_envelope_wire = deserialize_object 13
     (and_then read_u64 (\<lambda>i.
      and_then read_string (\<lambda>message_type.
      and_then (deserialize_vec sizeof_u8 read_u8) (\<lambda>payload.
      and_then read_u64 (\<lambda>message_id.
      and_then (deserialize_option_generic read_u64) (\<lambda>correlation_id.
      and_then deserialize_qos (\<lambda>quality_of_service.
      and_then deserialize_delivery_mode (\<lambda>delivery_mode.
      and_then deserialize_priority (\<lambda>priority.
      and_then (deserialize_option_generic read_u64) (\<lambda>not_before_unix_ms.
      and_then read_u32 (\<lambda>schema_version.
      and_then (deserialize_option_generic read_string) (\<lambda>reply_to.
      and_then (deserialize_vec sizeof_header_wire deserialize_header_wire) (\<lambda>headers.
      and_then (deserialize_option_generic read_u64) (\<lambda>sent_at_unix_ms.
        give \<lparr>ew_id = i, ew_message_type = message_type, ew_payload = payload, ew_message_id = message_id,
              ew_correlation_id = correlation_id, ew_quality_of_service = quality_of_service,
              ew_delivery_mode = delivery_mode, ew_priority = priority, ew_not_before_unix_ms = not_before_unix_ms,
              ew_schema_version = schema_version, ew_reply_to = reply_to, ew_headers = headers,
              ew_sent_at_unix_ms = sent_at_unix_ms\<rparr>))))))))))))))"

section \<open>Envelope codec\<close>

definition encode_envelope :: "decode_limits \<Rightarrow> envelope \<Rightarrow> bytes catga_result" where
  "encode_envelope limits e =
     bind_r (map_memorypack_error (mp_serialize serialize_envelope_wire (envelope_to_wire e))) (\<lambda>bs.
       if length bs > max_frame_bytes limits
       then Inl (error_new Validation ''MemoryPack envelope exceeds the configured frame limit'')
       else Inr bs)"

definition decode_envelope :: "decode_limits \<Rightarrow> systime \<Rightarrow> bytes \<Rightarrow> envelope catga_result" where
  "decode_envelope limits now bs =
     bind_r (map_memorypack_error (deserialize_bounded deserialize_envelope_wire bs limits)) (envelope_try_from_wire now)"

section \<open>Laws of the wire records\<close>

fun qos_byte :: "quality_of_service \<Rightarrow> u8" where
  "qos_byte AtMostOnce = 0" | "qos_byte AtLeastOnce = 1" | "qos_byte ExactlyOnce = 2"

fun mode_byte :: "delivery_mode \<Rightarrow> u8" where
  "mode_byte WaitForResult = 0" | "mode_byte AsyncRetry = 1"

fun priority_byte :: "message_priority \<Rightarrow> u8" where
  "priority_byte Low = 0" | "priority_byte Normal = 1" | "priority_byte High = 2" | "priority_byte Critical = 3"

interpretation w_qos: wire serialize_qos deserialize_qos "\<lambda>x. [qos_byte x]" "\<lambda>_. 0" "\<lambda>_. 0" "\<lambda>_ _. True" "\<lambda>_. True"
proof (rule byte_wire [where code = qos_byte, OF _ _ deserialize_qos_def])
  fix x buf
  show "serialize_qos x buf = write_u8 (qos_byte x) buf" by (cases x) simp_all
qed (rename_tac x, case_tac x, simp_all)

interpretation w_mode: wire serialize_delivery_mode deserialize_delivery_mode "\<lambda>x. [mode_byte x]" "\<lambda>_. 0" "\<lambda>_. 0" "\<lambda>_ _. True" "\<lambda>_. True"
proof (rule byte_wire [where code = mode_byte, OF _ _ deserialize_delivery_mode_def])
  fix x buf
  show "serialize_delivery_mode x buf = write_u8 (mode_byte x) buf" by (cases x) simp_all
qed (rename_tac x, case_tac x, simp_all)

interpretation w_priority: wire serialize_priority deserialize_priority "\<lambda>x. [priority_byte x]" "\<lambda>_. 0" "\<lambda>_. 0" "\<lambda>_ _. True" "\<lambda>_. True"
proof (rule byte_wire [where code = priority_byte, OF _ _ deserialize_priority_def])
  fix x buf
  show "serialize_priority x buf = write_u8 (priority_byte x) buf" by (cases x) simp_all
qed (rename_tac x, case_tac x, simp_all)

definition header_wire_bytes :: "header_wire \<Rightarrow> bytes" where
  "header_wire_bytes h = 2 # string_bytes (hw_key h) @ string_bytes (hw_value h)"

definition header_alloc :: "header_wire \<Rightarrow> nat" where
  "header_alloc h = length (hw_key h) + length (hw_value h)"

definition header_small :: "decode_limits \<Rightarrow> header_wire \<Rightarrow> bool" where
  "header_small l h \<longleftrightarrow> length (hw_key h) \<le> max_string_bytes l \<and> length (hw_value h) \<le> max_string_bytes l"

definition header_ok :: "header_wire \<Rightarrow> bool" where
  "header_ok h \<longleftrightarrow> string_ok (hw_key h) \<and> string_ok (hw_value h)"

interpretation w_header: wire serialize_header_wire deserialize_header_wire header_wire_bytes header_alloc "\<lambda>_. 1" header_small header_ok
proof -
  have "wire (\<lambda>v buf. bind_r (write_string (hw_key v) buf) (write_string (hw_value v)))
      (and_then read_string (\<lambda>key. and_then read_string (\<lambda>v. give \<lparr>hw_key = key, hw_value = v\<rparr>)))
      (\<lambda>h. string_bytes (hw_key h) @ string_bytes (hw_value h)) header_alloc (\<lambda>_. 0) header_small header_ok"
    by (rule wire.renamed_wire [OF wire.converted_wire [OF pair_wire [OF w_string.wire_axioms w_string.wire_axioms],
        where f = "\<lambda>h. (hw_key h, hw_value h)" and g = "\<lambda>(k, v). \<lparr>hw_key = k, hw_value = v\<rparr>" and ok = header_ok, OF refl refl]])
      (simp_all add: serialize_pair_def deserialize_pair_def and_then_assoc header_ok_def header_alloc_def header_small_def)
  from wire.object_wire [OF this, of 2]
  show "wire serialize_header_wire deserialize_header_wire header_wire_bytes header_alloc (\<lambda>_. 1) header_small header_ok"
    by (simp add: serialize_header_wire_def deserialize_header_wire_def header_wire_bytes_def [abs_def])
qed

interpretation w_u64_option: wire "serialize_option_generic 0 write_u64" "deserialize_option_generic read_u64"
  "option_bytes (\<lambda>v. le_bytes 8 (unat v)) 0" "\<lambda>_. 0" "\<lambda>_. 0" "\<lambda>_ _. True" "\<lambda>_. True"
  by (rule wire.renamed_wire [OF w_u64.option_wire]) (simp_all add: option_bytes_def split: option.splits)

interpretation w_string_option: wire "serialize_option_generic [] write_string" "deserialize_option_generic read_string"
  "option_bytes string_bytes []" "\<lambda>v. case v of Some s \<Rightarrow> length s | None \<Rightarrow> 0" "\<lambda>_. 0"
  "\<lambda>l v. case v of Some s \<Rightarrow> length s \<le> max_string_bytes l | None \<Rightarrow> True" "\<lambda>v. case v of Some s \<Rightarrow> string_ok s | None \<Rightarrow> True"
  by (rule wire.renamed_wire [OF w_string.option_wire]) (simp_all add: option_bytes_def split: option.splits)

interpretation w_headers: wire "serialize_vec serialize_header_wire" "deserialize_vec sizeof_header_wire deserialize_header_wire"
  "list_bytes header_wire_bytes" "\<lambda>hs. length hs * 48 + sum_list (map header_alloc hs)" "\<lambda>_. 1"
  "\<lambda>l hs. length hs \<le> max_collection_items l \<and> (\<forall>h \<in> set hs. header_small l h)"
  "\<lambda>hs. length hs \<le> 2147483647 \<and> (\<forall>h \<in> set hs. header_ok h)"
  by (rule wire.renamed_wire [OF w_header.vec_wire [where elem_size = sizeof_header_wire]])
    (simp_all add: list_bytes_def sizeof_header_wire_def image_constant_conv)

definition envelope_bytes :: "envelope_wire \<Rightarrow> bytes" where
  "envelope_bytes w = 13 # le_bytes 8 (unat (ew_id w)) @ string_bytes (ew_message_type w) @ list_bytes (\<lambda>b. [b]) (ew_payload w) @
     le_bytes 8 (unat (ew_message_id w)) @ option_bytes (\<lambda>v. le_bytes 8 (unat v)) 0 (ew_correlation_id w) @
     [qos_byte (ew_quality_of_service w)] @ [mode_byte (ew_delivery_mode w)] @ [priority_byte (ew_priority w)] @
     option_bytes (\<lambda>v. le_bytes 8 (unat v)) 0 (ew_not_before_unix_ms w) @ le_bytes 4 (unat (ew_schema_version w)) @
     option_bytes string_bytes [] (ew_reply_to w) @ list_bytes header_wire_bytes (ew_headers w) @
     option_bytes (\<lambda>v. le_bytes 8 (unat v)) 0 (ew_sent_at_unix_ms w)"

definition envelope_alloc :: "envelope_wire \<Rightarrow> nat" where
  "envelope_alloc w = length (ew_message_type w) + length (ew_payload w) + (case ew_reply_to w of Some s \<Rightarrow> length s | None \<Rightarrow> 0) +
     (length (ew_headers w) * 48 + sum_list (map header_alloc (ew_headers w)))"

definition envelope_small :: "decode_limits \<Rightarrow> envelope_wire \<Rightarrow> bool" where
  "envelope_small l w \<longleftrightarrow> length (ew_message_type w) \<le> max_string_bytes l \<and> length (ew_payload w) \<le> max_collection_items l \<and>
     (case ew_reply_to w of Some s \<Rightarrow> length s \<le> max_string_bytes l | None \<Rightarrow> True) \<and>
     length (ew_headers w) \<le> max_collection_items l \<and> (\<forall>h \<in> set (ew_headers w). header_small l h)"

definition envelope_wire_ok :: "envelope_wire \<Rightarrow> bool" where
  "envelope_wire_ok w \<longleftrightarrow> string_ok (ew_message_type w) \<and> length (ew_payload w) \<le> 2147483647 \<and>
     (case ew_reply_to w of Some s \<Rightarrow> string_ok s | None \<Rightarrow> True) \<and>
     length (ew_headers w) \<le> 2147483647 \<and> (\<forall>h \<in> set (ew_headers w). header_ok h)"

lemmas envelope_pairs =
  pair_wire [OF w_u64.wire_axioms pair_wire [OF w_string.wire_axioms pair_wire [OF w_payload.wire_axioms
  pair_wire [OF w_u64.wire_axioms pair_wire [OF w_u64_option.wire_axioms pair_wire [OF w_qos.wire_axioms
  pair_wire [OF w_mode.wire_axioms pair_wire [OF w_priority.wire_axioms pair_wire [OF w_u64_option.wire_axioms
  pair_wire [OF w_u32.wire_axioms pair_wire [OF w_string_option.wire_axioms
  pair_wire [OF w_headers.wire_axioms w_u64_option.wire_axioms]]]]]]]]]]]]

interpretation w_envelope: wire serialize_envelope_wire deserialize_envelope_wire envelope_bytes envelope_alloc "\<lambda>_. 2"
  envelope_small envelope_wire_ok
proof -
  let ?f = "\<lambda>w. (ew_id w, ew_message_type w, ew_payload w, ew_message_id w, ew_correlation_id w, ew_quality_of_service w,
    ew_delivery_mode w, ew_priority w, ew_not_before_unix_ms w, ew_schema_version w, ew_reply_to w, ew_headers w, ew_sent_at_unix_ms w)"
  let ?g = "\<lambda>(i, ty, p, m, c, q, d, pr, nb, v, rt, hs, st).
    \<lparr>ew_id = i, ew_message_type = ty, ew_payload = p, ew_message_id = m, ew_correlation_id = c, ew_quality_of_service = q,
     ew_delivery_mode = d, ew_priority = pr, ew_not_before_unix_ms = nb, ew_schema_version = v, ew_reply_to = rt, ew_headers = hs,
     ew_sent_at_unix_ms = st\<rparr>"
  show "wire serialize_envelope_wire deserialize_envelope_wire envelope_bytes envelope_alloc (\<lambda>_. 2) envelope_small envelope_wire_ok"
    by (rule wire.renamed_wire [OF wire.object_wire [OF wire.converted_wire [OF envelope_pairs, where f = ?f and g = ?g and ok = envelope_wire_ok,
        OF refl refl], of 13]])
      (simp_all add: serialize_envelope_wire_def deserialize_envelope_wire_def serialize_object_def deserialize_pair_def serialize_pair_def [abs_def]
        and_then_assoc envelope_wire_ok_def envelope_bytes_def envelope_alloc_def envelope_small_def)
qed

section \<open>Envelopes on the wire\<close>

text \<open>What the types of the fields guarantee: strings are UTF-8, and headers were accepted by their constructor.\<close>

definition envelope_ok :: "envelope \<Rightarrow> bool" where
  "envelope_ok e \<longleftrightarrow> string_ok (env_message_type e) \<and> length (env_payload e) \<le> 2147483647 \<and>
     (case env_reply_to e of Some s \<Rightarrow> string_ok s | None \<Rightarrow> True) \<and>
     (case env_headers e of None \<Rightarrow> True
      | Some hs \<Rightarrow> hs \<noteq> [] \<and> headers_wf hs \<and> (\<forall>(k, v) \<in> set hs. string_ok k \<and> string_ok v))"

definition envelope_within :: "decode_limits \<Rightarrow> envelope \<Rightarrow> bool" where
  "envelope_within l e \<longleftrightarrow> envelope_small l (envelope_to_wire e) \<and> envelope_alloc (envelope_to_wire e) \<le> max_allocation_bytes l \<and>
     2 \<le> max_nesting_depth l \<and> max_allocation_bytes l < 2 ^ 64 \<and> max_nesting_depth l < 2 ^ 64 \<and> max_frame_bytes l < 2 ^ 64"

lemma envelope_wire_okI:
  assumes "envelope_ok e"
  shows "envelope_wire_ok (envelope_to_wire e)"
proof (cases "env_headers e")
  case None
  then show ?thesis using assms
    by (simp add: envelope_ok_def envelope_wire_ok_def envelope_to_wire_def envelope_headers_iter_def)
next
  case (Some hs)
  then have "length hs \<le> 64" using assms by (simp add: envelope_ok_def headers_wf_def max_envelope_headers_def)
  then show ?thesis using assms Some
    by (auto simp: envelope_ok_def envelope_wire_ok_def envelope_to_wire_def envelope_headers_iter_def header_ok_def)
qed

lemma envelope_back:
  assumes "envelope_ok e"
  shows "envelope_try_from_wire now (envelope_to_wire e) = Inr e"
proof -
  have "headers_try_new (envelope_headers_iter e) = Inr (envelope_headers_iter e)"
    using assms by (cases "env_headers e") (auto simp: envelope_ok_def envelope_headers_iter_def headers_try_new_Inr headers_wf_def)
  moreover have "map (\<lambda>h. (hw_key h, hw_value h)) (ew_headers (envelope_to_wire e)) = envelope_headers_iter e"
    by (simp add: envelope_to_wire_def comp_def case_prod_beta)
  moreover have "env_headers e = (if envelope_headers_iter e \<noteq> [] then Some (envelope_headers_iter e) else None)"
    using assms by (simp add: envelope_ok_def envelope_headers_iter_def split: option.splits)
  ultimately have "envelope_try_from_wire now (envelope_to_wire e) = Inr \<lparr>env_id = env_id e, env_message_type = env_message_type e,
      env_payload = env_payload e, env_metadata = env_metadata e, env_sent_at_unix_ms = env_sent_at_unix_ms e,
      env_schema_version = env_schema_version e, env_reply_to = env_reply_to e, env_headers = env_headers e\<rparr>"
    unfolding envelope_try_from_wire_def
    by (cases "env_reply_to e") (simp_all add: with_not_before_unix_ms_def with_priority_def with_delivery_mode_def with_quality_of_service_def
        metadata_new_def with_sent_at_unix_ms_def envelope_versioned_def with_headers_def with_reply_to_def envelope_to_wire_def Let_def)
  then show ?thesis by simp
qed

lemma encode_envelope_Inr:
  assumes "envelope_ok e"
  shows "encode_envelope l e = Inr bs \<longleftrightarrow> bs = envelope_bytes (envelope_to_wire e) \<and> length bs \<le> max_frame_bytes l"
  using w_envelope.ser_law [OF envelope_wire_okI [OF assms], of "[]"]
  by (auto simp: encode_envelope_def mp_serialize_def map_memorypack_error_def not_less)

text \<open>
  Property C29: an envelope survives the MemoryPack wire. When the codec encodes an envelope whose strings,
  payload and headers are within the decode budgets, every receiver with the same budgets decodes the frame to
  an equal envelope at any time, and rejects the frame followed by any further byte.
\<close>

theorem envelope_wire_roundtrip:
  assumes "envelope_ok e" "envelope_within l e" "encode_envelope l e = Inr bs"
  shows "decode_envelope l now bs = Inr e \<and>
    (rest \<noteq> [] \<longrightarrow> \<not> is_ok (decode_envelope l now (bs @ rest)))"
proof -
  let ?w = "envelope_to_wire e"
  have ok: "envelope_wire_ok ?w" by (rule envelope_wire_okI [OF assms(1)])
  have bs: "bs = envelope_bytes ?w" "length bs \<le> max_frame_bytes l" using assms(3) encode_envelope_Inr [OF assms(1)] by blast+
  have w: "w_envelope.within l ?w" using assms(2) by (simp add: w_envelope.within_def envelope_within_def)
  have 1: "decode_envelope l now bs = Inr e"
    using w_envelope.decode_frame [OF ok w, of "[]"] bs envelope_back [OF assms(1)]
    by (simp add: decode_envelope_def map_memorypack_error_def)
  have 2: "\<not> is_ok (decode_envelope l now (bs @ rest))" if "rest \<noteq> []"
  proof (cases "length (bs @ rest) \<le> max_frame_bytes l")
    case True
    then show ?thesis using w_envelope.decode_frame [OF ok w, of rest] bs that
      by (simp add: decode_envelope_def map_memorypack_error_def)
  next
    case False
    then show ?thesis by (simp add: decode_envelope_def deserialize_bounded_def new_bounded_def map_memorypack_error_def)
  qed
  show ?thesis using 1 2 by blast
qed

definition sample_envelope :: "bytes \<Rightarrow> envelope" where
  "sample_envelope payload = with_reply_to ''me'' (with_headers [(''a'', ''b'')] (envelope_new 7 ''T'' payload (metadata_new 7 (Some 3)) 0))"

lemma sample_envelope_ok: "length payload \<le> 65537 \<Longrightarrow> envelope_ok (sample_envelope payload)"
  by (simp add: envelope_ok_def sample_envelope_def with_reply_to_def with_headers_def envelope_new_def envelope_versioned_def string_ok_def
    headers_wf_def max_envelope_headers_def max_envelope_header_bytes_def byte_def)

lemma length_string_bytes: "length (string_bytes s) = (if s = [] then 4 else 8 + length s)"
  by (simp add: string_bytes_def)

lemma sample_envelope_encodes:
  assumes "length payload \<le> 65537"
  shows "encode_envelope decode_limits_default (sample_envelope payload) = Inr (envelope_bytes (envelope_to_wire (sample_envelope payload)))"
  using assms
  by (subst encode_envelope_Inr [OF sample_envelope_ok])
    (simp_all add: envelope_bytes_def envelope_to_wire_def sample_envelope_def with_reply_to_def with_headers_def envelope_new_def
      envelope_versioned_def list_bytes_def option_bytes_def header_wire_bytes_def length_string_bytes metadata_new_def envelope_headers_iter_def
      decode_limits_default_def comp_def sum_list_triv split: option.splits)

theorem envelope_wire_roundtrip_witness:
  "\<exists>bs. encode_envelope decode_limits_default (sample_envelope [1, 2]) = Inr bs \<and>
     decode_envelope decode_limits_default 0 bs = Inr (sample_envelope [1, 2]) \<and>
     \<not> is_ok (decode_envelope decode_limits_default 0 (bs @ [0]))"
proof -
  have w: "envelope_within decode_limits_default (sample_envelope [1, 2])"
    by (simp add: envelope_within_def envelope_small_def envelope_alloc_def header_small_def header_alloc_def decode_limits_default_def
      envelope_to_wire_def sample_envelope_def with_reply_to_def with_headers_def envelope_new_def envelope_versioned_def envelope_headers_iter_def)
  show ?thesis
    using envelope_wire_roundtrip [OF sample_envelope_ok w sample_envelope_encodes, where rest = "[0]" and now = 0] sample_envelope_encodes [of "[1, 2]"] by auto
qed

text \<open>
  Property C30: the codec writes frames that no receiver with its own budgets reads. Whenever the payload of an
  envelope is longer than the collection budget, the codec encodes the envelope as long as the frame fits, and
  decoding the frame with the same budgets fails because the payload is read as a collection of that many items.
\<close>

theorem large_payload_undecodable:
  assumes "envelope_ok e" "encode_envelope l e = Inr bs" "max_collection_items l < length (env_payload e)"
    "length (env_message_type e) \<le> max_string_bytes l" "max_string_bytes l \<le> max_allocation_bytes l"
    "max_allocation_bytes l < 2 ^ 64" "1 \<le> max_nesting_depth l" "max_nesting_depth l < 2 ^ 64" "max_frame_bytes l < 2 ^ 64"
  shows "decode_envelope l now bs =
    Inl (error_new Validation (mp_error_text (LimitExceeded ''collection items'' (max_collection_items l))))"
proof -
  let ?w = "envelope_to_wire e" and ?ty = "env_message_type e" and ?p = "env_payload e"
  define r where "r = \<lparr>rd_data = bs, rd_position = 0, rd_limits = l, rd_allocated = 0, rd_depth = 1\<rparr>"
  have bs: "bs = envelope_bytes ?w" "length bs \<le> max_frame_bytes l" using assms(2) encode_envelope_Inr [OF assms(1)] by blast+
  obtain rest where b: "bs = [13] @ le_bytes 8 (unat (env_id e)) @ string_bytes ?ty @ le_bytes 4 (twos 4 (int (length ?p))) @ rest"
    unfolding bs(1) by (simp add: envelope_bytes_def envelope_to_wire_def list_bytes_def)
  have lim: "rd_limits r = l" by (simp add: r_def)
  have room: "room r (length ?ty) 0" using assms bs(2) by (simp add: r_def room_def)
  have "ahead r bs" by (simp add: r_def ahead_def)
  then have A: "ahead r [13]" "ahead (past 1 0 r) (le_bytes 8 (unat (env_id e)))" "ahead (past 9 0 r) (string_bytes ?ty)"
      "ahead (past (9 + length (string_bytes ?ty)) (length ?ty) r) (le_bytes 4 (twos 4 (int (length ?p))))"
    unfolding b ahead_append [where a = 0] by (simp_all add: ahead_past [where a = "length ?ty" and b = 0])
  have 1: "read_u8 r = Inr (13, past 1 0 r)" using w_u8.des_law [of r 13] room_0 [OF room] A(1) by simp
  have 2: "read_u64 (past 1 0 r) = Inr (env_id e, past 9 0 r)"
    using w_u64.des_law [of "past 1 0 r" "env_id e"] room_0 [OF room] A(2) by simp
  have 3: "read_string (past 9 0 r) = Inr (?ty, past (9 + length (string_bytes ?ty)) (length ?ty) r)"
    using w_string.des_law [of ?ty "past 9 0 r"] room A(3) assms(1,4) by (simp add: envelope_ok_def r_def)
  have 4: "read_i32 (past (9 + length (string_bytes ?ty)) (length ?ty) r) =
      Inr (int (length ?p), past (13 + length (string_bytes ?ty)) (length ?ty) r)"
    using w_i32.des_law [of "int (length ?p)" "past (9 + length (string_bytes ?ty)) (length ?ty) r"] room A(4) assms(1)
    by (simp add: envelope_ok_def int_range_def)
  have 5: "deserialize_vec sizeof_u8 read_u8 (past (9 + length (string_bytes ?ty)) (length ?ty) r) =
      Inl (LimitExceeded ''collection items'' (max_collection_items l))"
    using assms(3) by (auto simp: deserialize_vec_def and_then_def 4 validate_collection_len_def lim)
  have "enter_object \<lparr>rd_data = bs, rd_position = 0, rd_limits = l, rd_allocated = 0, rd_depth = 0\<rparr> = Inr ((), r)"
    using assms(7) by (simp add: enter_object_def usize_checked_add_def r_def)
  then have "deserialize_bounded deserialize_envelope_wire bs l = Inl (LimitExceeded ''collection items'' (max_collection_items l))"
    using bs(2) by (simp add: deserialize_bounded_def new_bounded_def deserialize_envelope_wire_def deserialize_object_def and_then_def 1 2 [simplified] 3 5)
  then show ?thesis by (simp add: decode_envelope_def map_memorypack_error_def)
qed

text \<open>With the default budgets a payload of 64 KiB and one byte is enough.\<close>

theorem large_payload_undecodable_witness:
  "\<exists>bs. encode_envelope decode_limits_default (sample_envelope (replicate 65537 0)) = Inr bs \<and>
     decode_envelope decode_limits_default 0 bs =
       Inl (error_new Validation (mp_error_text (LimitExceeded ''collection items'' 65536)))"
proof -
  define payload :: bytes where "payload = replicate 65537 0"
  have len: "length payload = 65537" by (simp add: payload_def)
  have p: "env_payload (sample_envelope payload) = payload" "env_message_type (sample_envelope payload) = ''T''"
    by (simp_all add: sample_envelope_def with_reply_to_def with_headers_def envelope_new_def envelope_versioned_def)
  have ok: "envelope_ok (sample_envelope payload)" by (rule sample_envelope_ok) (simp add: len)
  have enc: "encode_envelope decode_limits_default (sample_envelope payload) = Inr (envelope_bytes (envelope_to_wire (sample_envelope payload)))"
    by (rule sample_envelope_encodes) (simp add: len)
  have "max_collection_items decode_limits_default < length (env_payload (sample_envelope payload))"
    by (simp add: p len decode_limits_default_def)
  from large_payload_undecodable [OF ok enc this, of 0]
  have "decode_envelope decode_limits_default 0 (envelope_bytes (envelope_to_wire (sample_envelope payload))) =
      Inl (error_new Validation (mp_error_text (LimitExceeded ''collection items'' (max_collection_items decode_limits_default))))"
    by (simp add: p decode_limits_default_def)
  with enc show ?thesis unfolding payload_def [symmetric] by (simp add: decode_limits_default_def)
qed

end
