(* ===== verification/Dsl_Checkpoint.thy ===== *)
theory Dsl_Checkpoint
  imports Wire_Laws Flows
begin

text \<open>
  What a checkpointed flow writes: the cursor of unfinished work and its frame
  (\<open>crates/catga-core/src/flow/dsl_checkpoint.rs\<close>), the progress record with its wire form and the store
  interface (\<open>flow/dsl_progress.rs\<close>), and the in-memory store (\<open>memory/dsl_progress.rs\<close>). A frame that
  was encoded is decoded to the same cursor when its work fits the default decode budgets.
\<close>

section \<open>Cursors of unfinished work\<close>

definition max_checkpoint_path_depth :: nat where
  "max_checkpoint_path_depth = 32"

definition max_checkpoint_state_bytes :: nat where
  "max_checkpoint_state_bytes = 1024 * 1024"

definition checkpoint_frame_header_bytes :: nat where
  "checkpoint_frame_header_bytes = 10"

definition checkpoint_level_bytes :: nat where
  "checkpoint_level_bytes = 8"

definition max_checkpoint_frame_bytes :: nat where
  "max_checkpoint_frame_bytes =
     checkpoint_frame_header_bytes + checkpoint_level_bytes * max_checkpoint_path_depth + max_checkpoint_state_bytes"

record checkpoint_level =
  lv_branch :: u32
  lv_next_step :: u32

datatype branch_progress = BranchCompleted bytes | BranchInProgress u32 bool bytes

datatype checkpoint_work =
    WorkBranch
  | WorkForEach u32 u32
  | WorkReplayable u32 "bytes list"
  | WorkParallel "bytes option list"
  | WorkWhenAny u32 bytes
  | WorkParallelBranches "branch_progress option list"

record checkpoint_frame =
  cf_levels :: "checkpoint_level list"
  cf_state :: bytes
  cf_work :: checkpoint_work

text \<open>The sizes of a vector, of an optional vector and of an optional branch cursor on a 64-bit target.\<close>

definition sizeof_vec :: nat where
  "sizeof_vec = 24"

definition sizeof_branch :: nat where
  "sizeof_branch = 32"

abbreviation write_blob :: "bytes writes" where
  "write_blob \<equiv> serialize_vec write_u8"

abbreviation read_blob :: "bytes reads" where
  "read_blob \<equiv> deserialize_vec sizeof_u8 read_u8"

definition serialize_in_progress :: "(u32 \<times> bool \<times> bytes) writes" where
  "serialize_in_progress = serialize_object 3 (serialize_pair write_u32 (serialize_pair write_bool write_blob))"

definition deserialize_in_progress :: "(u32 \<times> bool \<times> bytes) reads" where
  "deserialize_in_progress = deserialize_object 3 (deserialize_pair read_u32 (deserialize_pair read_bool read_blob))"

fun serialize_branch_progress :: "branch_progress writes" where
  "serialize_branch_progress (BranchCompleted state) buf =
     bind_r (write_u8 0 buf) (serialize_object 1 write_blob state)"
| "serialize_branch_progress (BranchInProgress step_index checkpoint_frame payload) buf =
     bind_r (write_u8 1 buf) (serialize_in_progress (step_index, checkpoint_frame, payload))"

definition deserialize_branch_progress :: "branch_progress reads" where
  "deserialize_branch_progress = and_then read_u8 (\<lambda>tag.
     if tag = 0 then and_then (deserialize_object 1 read_blob) (\<lambda>state. give (BranchCompleted state))
     else if tag = 1 then and_then deserialize_in_progress (\<lambda>(step_index, checkpoint_frame, payload).
       give (BranchInProgress step_index checkpoint_frame payload))
     else fail_with (DeserializationError (''invalid DSL parallel branch tag: '' @ dec (unat tag))))"

definition branch_progress_default :: branch_progress where
  "branch_progress_default = BranchCompleted []"

fun serialize_work :: "checkpoint_work writes" where
  "serialize_work WorkBranch buf = write_u8 0 buf"
| "serialize_work (WorkForEach next_index tot) buf =
     bind_r (write_u8 1 buf) (serialize_object 2 (serialize_pair write_u32 write_u32) (next_index, tot))"
| "serialize_work (WorkReplayable next_index items) buf =
     bind_r (write_u8 2 buf) (serialize_object 2 (serialize_pair write_u32 (serialize_vec write_blob)) (next_index, items))"
| "serialize_work (WorkParallel states) buf =
     bind_r (write_u8 3 buf) (serialize_object 1 (serialize_vec (serialize_option_generic [] write_blob)) states)"
| "serialize_work (WorkWhenAny winner state) buf =
     bind_r (write_u8 4 buf) (serialize_object 2 (serialize_pair write_u32 write_blob) (winner, state))"
| "serialize_work (WorkParallelBranches branches) buf =
     bind_r (write_u8 5 buf) (serialize_object 1
       (serialize_vec (serialize_option_generic branch_progress_default serialize_branch_progress)) branches)"

definition deserialize_work :: "checkpoint_work reads" where
  "deserialize_work = and_then read_u8 (\<lambda>tag.
     if tag = 0 then give WorkBranch
     else if tag = 1 then and_then (deserialize_object 2 (deserialize_pair read_u32 read_u32)) (\<lambda>(next_index, tot).
       give (WorkForEach next_index tot))
     else if tag = 2 then and_then (deserialize_object 2 (deserialize_pair read_u32 (deserialize_vec sizeof_vec read_blob)))
       (\<lambda>(next_index, items). give (WorkReplayable next_index items))
     else if tag = 3 then and_then (deserialize_object 1 (deserialize_vec sizeof_vec (deserialize_option_generic read_blob)))
       (\<lambda>states. give (WorkParallel states))
     else if tag = 4 then and_then (deserialize_object 2 (deserialize_pair read_u32 read_blob)) (\<lambda>(winner, state).
       give (WorkWhenAny winner state))
     else if tag = 5 then and_then
       (deserialize_object 1 (deserialize_vec sizeof_branch (deserialize_option_generic deserialize_branch_progress)))
       (\<lambda>branches. give (WorkParallelBranches branches))
     else fail_with (DeserializationError (''invalid DSL checkpoint work tag: '' @ dec (unat tag))))"

section \<open>Frames\<close>

definition be_bytes :: "nat \<Rightarrow> nat \<Rightarrow> bytes" where
  "be_bytes n x = rev (le_bytes n x)"

definition be_value :: "bytes \<Rightarrow> nat" where
  "be_value bs = le_value (rev bs)"

definition u32_from_be :: "bytes \<Rightarrow> u32" where
  "u32_from_be bs = word_of_nat (be_value bs)"

definition u32_to_be :: "u32 \<Rightarrow> bytes" where
  "u32_to_be v = be_bytes 4 (unat v)"

definition u8_try_from :: "nat \<Rightarrow> u8 option" where
  "u8_try_from n = (if n < 256 then Some (word_of_nat n) else None)"

definition usize_checked_mul :: "nat \<Rightarrow> nat \<Rightarrow> nat option" where
  "usize_checked_mul a b = (if a * b < 2 ^ 64 then Some (a * b) else None)"

text \<open>The bytes \<open>CDF1\<close>.\<close>

definition checkpoint_frame_magic :: bytes where
  "checkpoint_frame_magic = [67, 68, 70, 49]"

definition checkpoint_frame_version :: u8 where
  "checkpoint_frame_version = 1"

abbreviation invalid :: "string \<Rightarrow> catga_error" where
  "invalid m \<equiv> error_new Validation m"

definition level_to_be :: "checkpoint_level \<Rightarrow> bytes" where
  "level_to_be l = u32_to_be (lv_branch l) @ u32_to_be (lv_next_step l)"

definition frame_encode :: "checkpoint_level list \<Rightarrow> bytes \<Rightarrow> checkpoint_work \<Rightarrow> bytes catga_result" where
  "frame_encode levels state work =
     (if length levels > max_checkpoint_path_depth
      then Inl (invalid ''DSL checkpoint path exceeds the maximum depth'')
      else if length state > max_checkpoint_state_bytes
      then Inl (invalid ''DSL checkpoint state exceeds the maximum size'')
      else
        bind_r (ok_or (invalid ''DSL checkpoint path is too large'')
          (usize_checked_mul (length levels) checkpoint_level_bytes)) (\<lambda>level_bytes.
        bind_r (case mp_serialize serialize_work work of
            Inl _ \<Rightarrow> Inl (invalid ''DSL checkpoint work cursor cannot be encoded'') | Inr work \<Rightarrow> Inr work) (\<lambda>work.
        bind_r (ok_or (invalid ''DSL checkpoint work cursor is too large'') (u32_try_from (length work))) (\<lambda>work_len.
        bind_r (ok_or (invalid ''DSL checkpoint frame is too large'')
          (Option.bind (usize_checked_add checkpoint_frame_header_bytes level_bytes) (\<lambda>v.
           Option.bind (usize_checked_add v (length state)) (\<lambda>v.
           Option.bind (usize_checked_add v 4) (\<lambda>v. usize_checked_add v (length work)))))) (\<lambda>capacity.
        if capacity > max_checkpoint_frame_bytes
        then Inl (invalid ''DSL checkpoint frame exceeds the maximum size'')
        else
          bind_r (ok_or (invalid ''DSL checkpoint path exceeds the maximum depth'') (u8_try_from (length levels))) (\<lambda>level_count.
          bind_r (ok_or (invalid ''DSL checkpoint state exceeds the maximum size'') (u32_try_from (length state))) (\<lambda>state_len.
            Inr (checkpoint_frame_magic @ [checkpoint_frame_version, level_count] @ concat (map level_to_be levels) @
                 u32_to_be state_len @ state @ u32_to_be work_len @ work))))))))"

text \<open>\<open>payload[a..b]\<close>, used only with \<open>b\<close> within the payload.\<close>

definition byte_range :: "nat \<Rightarrow> nat \<Rightarrow> bytes \<Rightarrow> bytes" where
  "byte_range a b bs = take (b - a) (drop a bs)"

definition level_at :: "bytes \<Rightarrow> nat \<Rightarrow> checkpoint_level" where
  "level_at payload i =
     (let offset = 6 + i * checkpoint_level_bytes
      in \<lparr>lv_branch = u32_from_be (byte_range offset (offset + 4) payload),
          lv_next_step = u32_from_be (byte_range (offset + 4) (offset + 8) payload)\<rparr>)"

definition frame_work_at :: "bytes \<Rightarrow> nat \<Rightarrow> checkpoint_work catga_result" where
  "frame_work_at payload expected_len =
     (if expected_len = length payload then Inr WorkBranch
      else
        let work_length_end = expected_len + 4 in
        if work_length_end > length payload
        then Inl (invalid ''DSL checkpoint work cursor is truncated'')
        else
          let work_len = unat (u32_from_be (byte_range expected_len work_length_end payload));
              work_end = work_length_end + work_len in
          if work_end \<noteq> length payload
          then Inl (invalid ''DSL checkpoint work cursor has an invalid length'')
          else (case deserialize_bounded deserialize_work (byte_range work_length_end work_end payload) decode_limits_default of
                  Inl _ \<Rightarrow> Inl (invalid ''DSL checkpoint work cursor is invalid'')
                | Inr work \<Rightarrow> Inr work))"

text \<open>
  The checked additions of \<open>decode\<close> stay below a frame of little more than one MiB, except for the length of
  the work, which is a 32-bit number; none of them overflows a 64-bit \<open>usize\<close>.
\<close>

definition frame_decode :: "bytes \<Rightarrow> checkpoint_frame option catga_result" where
  "frame_decode payload =
     (if take (length checkpoint_frame_magic) payload \<noteq> checkpoint_frame_magic then Inr None
      else if length payload > max_checkpoint_frame_bytes \<or> length payload < checkpoint_frame_header_bytes
      then Inl (invalid ''DSL checkpoint frame has an invalid size'')
      else if payload ! 4 \<noteq> checkpoint_frame_version
      then Inl (invalid ''DSL checkpoint frame has an unsupported version'')
      else
        let level_count = unat (payload ! 5) in
        if level_count > max_checkpoint_path_depth
        then Inl (invalid ''DSL checkpoint frame exceeds the maximum path depth'')
        else
          let state_length_offset = 6 + level_count * checkpoint_level_bytes;
              state_offset = state_length_offset + 4 in
          if state_offset > length payload
          then Inl (invalid ''DSL checkpoint frame is truncated'')
          else
            let state_len = unat (u32_from_be (byte_range state_length_offset state_offset payload)) in
            if state_len > max_checkpoint_state_bytes
            then Inl (invalid ''DSL checkpoint state exceeds the maximum size'')
            else
              let expected_len = state_offset + state_len in
              bind_r (frame_work_at payload expected_len) (\<lambda>work.
                Inr (Some \<lparr>cf_levels = map (level_at payload) [0..<level_count],
                           cf_state = byte_range state_offset expected_len payload, cf_work = work\<rparr>)))"

section \<open>Laws of the cursors\<close>

text \<open>A tag in front of a wire form.\<close>

lemma tagged_ser:
  assumes "wire ser des enc alloc depth small valid" "valid x"
  shows "bind_r (write_u8 t buf) (ser x) = Inr (buf @ t # enc x)"
  using wire.ser_law [OF assms] by (simp add: write_u8_def write_raw_def)

lemma tagged_des:
  assumes "wire ser des enc alloc depth small valid" "valid x" "room r (alloc x) (depth x)" "small (rd_limits r) x" "ahead r (t # enc x)"
  shows "and_then read_u8 f r = f t (past (Suc 0) 0 r)" "and_then des g (past (Suc 0) 0 r) = g x (past (Suc (length (enc x))) (alloc x) r)"
proof -
  have a: "ahead r [t]" "ahead (past 1 0 r) (enc x)"
    using assms(5) ahead_append [of r "[t]" "enc x" 0] by simp_all
  show "and_then read_u8 f r = f t (past (Suc 0) 0 r)" using w_u8.des_law [of r t] room_0 [OF assms(3)] a(1) by (simp add: and_then_def)
  have "des (past 1 0 r) = Inr (x, past (length (enc x)) (alloc x) (past 1 0 r))"
    using assms a(2) by (intro wire.des_law [OF assms(1)]) simp_all
  then show "and_then des g (past (Suc 0) 0 r) = g x (past (Suc (length (enc x))) (alloc x) r)" by (simp add: and_then_def)
qed

abbreviation blob_bytes :: "bytes \<Rightarrow> bytes" where
  "blob_bytes \<equiv> list_bytes (\<lambda>b. [b])"

fun branch_bytes :: "branch_progress \<Rightarrow> bytes" where
  "branch_bytes (BranchCompleted state) = 0 # 1 # blob_bytes state"
| "branch_bytes (BranchInProgress step frame payload) = 1 # 3 # le_bytes 4 (unat step) @ (if frame then 1 else 0) # blob_bytes payload"

fun branch_payload :: "branch_progress \<Rightarrow> bytes" where
  "branch_payload (BranchCompleted state) = state"
| "branch_payload (BranchInProgress _ _ payload) = payload"

lemmas w_completed_object = wire.object_wire [OF w_payload.wire_axioms, of 1, simplified]
lemmas w_in_progress_object = wire.object_wire [OF pair_wire [OF w_u32.wire_axioms pair_wire [OF w_bool.wire_axioms w_payload.wire_axioms]],
  of 3, folded serialize_in_progress_def deserialize_in_progress_def, simplified]

interpretation w_branch: wire serialize_branch_progress deserialize_branch_progress branch_bytes "\<lambda>b. length (branch_payload b)" "\<lambda>_. 1"
  "\<lambda>l b. length (branch_payload b) \<le> max_collection_items l" "\<lambda>b. length (branch_payload b) \<le> 2147483647"
proof
  fix b buf assume "length (branch_payload b) \<le> 2147483647"
  then show "serialize_branch_progress b buf = Inr (buf @ branch_bytes b)"
    by (cases b) (simp_all add: tagged_ser [OF w_completed_object] tagged_ser [OF w_in_progress_object])
next
  fix b r assume v: "length (branch_payload b) \<le> 2147483647" and r: "room r (length (branch_payload b)) 1"
    "length (branch_payload b) \<le> max_collection_items (rd_limits r)" "ahead r (branch_bytes b)"
  show "deserialize_branch_progress r = Inr (b, past (length (branch_bytes b)) (length (branch_payload b)) r)"
  proof (cases b)
    case (BranchCompleted state)
    note t = tagged_des [OF w_completed_object, of state r 0]
    show ?thesis using v r unfolding BranchCompleted deserialize_branch_progress_def by (simp add: t give_def)
  next
    case (BranchInProgress step frame payload)
    note t = tagged_des [OF w_in_progress_object, of "(step, frame, payload)" r 1]
    show ?thesis using v r unfolding BranchInProgress deserialize_branch_progress_def by (simp add: t give_def)
  qed
qed


interpretation w_blobs: wire "serialize_vec write_blob" "deserialize_vec sizeof_vec read_blob" "list_bytes blob_bytes"
  "\<lambda>xs. length xs * 24 + sum_list (map length xs)" "\<lambda>_. 0"
  "\<lambda>l xs. length xs \<le> max_collection_items l \<and> (\<forall>x \<in> set xs. length x \<le> max_collection_items l)"
  "\<lambda>xs. length xs \<le> 2147483647 \<and> (\<forall>x \<in> set xs. length x \<le> 2147483647)"
  by (rule wire.renamed_wire [OF w_payload.vec_wire [where elem_size = sizeof_vec]])
    (simp_all add: list_bytes_def sizeof_vec_def image_constant_conv)

interpretation w_optional_blob: wire "serialize_option_generic [] write_blob" "deserialize_option_generic read_blob"
  "option_bytes blob_bytes []" "\<lambda>v. case v of Some x \<Rightarrow> length x | None \<Rightarrow> 0" "\<lambda>_. 0"
  "\<lambda>l v. case v of Some x \<Rightarrow> length x \<le> max_collection_items l | None \<Rightarrow> True"
  "\<lambda>v. case v of Some x \<Rightarrow> length x \<le> 2147483647 | None \<Rightarrow> True"
  by (rule wire.renamed_wire [OF w_payload.option_wire]) (simp_all add: option_bytes_def split: option.splits)

interpretation w_optional_blobs: wire "serialize_vec (serialize_option_generic [] write_blob)"
  "deserialize_vec sizeof_vec (deserialize_option_generic read_blob)" "list_bytes (option_bytes blob_bytes [])"
  "\<lambda>xs. length xs * 24 + sum_list (map (\<lambda>v. case v of Some x \<Rightarrow> length x | None \<Rightarrow> 0) xs)" "\<lambda>_. 0"
  "\<lambda>l xs. length xs \<le> max_collection_items l \<and> (\<forall>v \<in> set xs. case v of Some x \<Rightarrow> length x \<le> max_collection_items l | None \<Rightarrow> True)"
  "\<lambda>xs. length xs \<le> 2147483647 \<and> (\<forall>v \<in> set xs. case v of Some x \<Rightarrow> length x \<le> 2147483647 | None \<Rightarrow> True)"
  by (rule wire.renamed_wire [OF w_optional_blob.vec_wire [where elem_size = sizeof_vec]])
    (simp_all add: list_bytes_def sizeof_vec_def image_constant_conv)

interpretation w_optional_branch: wire "serialize_option_generic branch_progress_default serialize_branch_progress"
  "deserialize_option_generic deserialize_branch_progress" "option_bytes branch_bytes branch_progress_default"
  "\<lambda>v. case v of Some b \<Rightarrow> length (branch_payload b) | None \<Rightarrow> 0" "\<lambda>_. 1"
  "\<lambda>l v. case v of Some b \<Rightarrow> length (branch_payload b) \<le> max_collection_items l | None \<Rightarrow> True"
  "\<lambda>v. case v of Some b \<Rightarrow> length (branch_payload b) \<le> 2147483647 | None \<Rightarrow> True"
  by (rule wire.renamed_wire [OF w_branch.option_wire]) (simp_all add: option_bytes_def branch_progress_default_def split: option.splits)

interpretation w_branches: wire "serialize_vec (serialize_option_generic branch_progress_default serialize_branch_progress)"
  "deserialize_vec sizeof_branch (deserialize_option_generic deserialize_branch_progress)"
  "list_bytes (option_bytes branch_bytes branch_progress_default)"
  "\<lambda>xs. length xs * 32 + sum_list (map (\<lambda>v. case v of Some b \<Rightarrow> length (branch_payload b) | None \<Rightarrow> 0) xs)" "\<lambda>_. 1"
  "\<lambda>l xs. length xs \<le> max_collection_items l \<and> (\<forall>v \<in> set xs. case v of Some b \<Rightarrow> length (branch_payload b) \<le> max_collection_items l | None \<Rightarrow> True)"
  "\<lambda>xs. length xs \<le> 2147483647 \<and> (\<forall>v \<in> set xs. case v of Some b \<Rightarrow> length (branch_payload b) \<le> 2147483647 | None \<Rightarrow> True)"
  by (rule wire.renamed_wire [OF w_optional_branch.vec_wire [where elem_size = sizeof_branch]])
    (simp_all add: list_bytes_def sizeof_branch_def image_constant_conv)

text \<open>The lengths that the budgets bound, what reading takes from the allocation budget, and the bytes of a cursor.\<close>

fun work_lengths :: "checkpoint_work \<Rightarrow> nat list" where
  "work_lengths WorkBranch = []"
| "work_lengths (WorkForEach _ _) = []"
| "work_lengths (WorkReplayable _ items) = length items # map length items"
| "work_lengths (WorkParallel states) = length states # map (\<lambda>v. case v of Some x \<Rightarrow> length x | None \<Rightarrow> 0) states"
| "work_lengths (WorkWhenAny _ state) = [length state]"
| "work_lengths (WorkParallelBranches branches) =
     length branches # map (\<lambda>v. case v of Some b \<Rightarrow> length (branch_payload b) | None \<Rightarrow> 0) branches"

fun work_alloc :: "checkpoint_work \<Rightarrow> nat" where
  "work_alloc (WorkReplayable _ items) = length items * 24 + sum_list (map length items)"
| "work_alloc (WorkParallel states) = length states * 24 + sum_list (map (\<lambda>v. case v of Some x \<Rightarrow> length x | None \<Rightarrow> 0) states)"
| "work_alloc (WorkWhenAny _ state) = length state"
| "work_alloc (WorkParallelBranches branches) =
     length branches * 32 + sum_list (map (\<lambda>v. case v of Some b \<Rightarrow> length (branch_payload b) | None \<Rightarrow> 0) branches)"
| "work_alloc _ = 0"

fun work_bytes :: "checkpoint_work \<Rightarrow> bytes" where
  "work_bytes WorkBranch = [0]"
| "work_bytes (WorkForEach next_index tot) = 1 # 2 # le_bytes 4 (unat next_index) @ le_bytes 4 (unat tot)"
| "work_bytes (WorkReplayable next_index items) = 2 # 2 # le_bytes 4 (unat next_index) @ list_bytes blob_bytes items"
| "work_bytes (WorkParallel states) = 3 # 1 # list_bytes (option_bytes blob_bytes []) states"
| "work_bytes (WorkWhenAny winner state) = 4 # 2 # le_bytes 4 (unat winner) @ blob_bytes state"
| "work_bytes (WorkParallelBranches branches) = 5 # 1 # list_bytes (option_bytes branch_bytes branch_progress_default) branches"

definition work_small :: "nat \<Rightarrow> checkpoint_work \<Rightarrow> bool" where
  "work_small n w \<longleftrightarrow> (\<forall>k \<in> set (work_lengths w). k \<le> n)"

lemmas w_for_each_object = wire.object_wire [OF pair_wire [OF w_u32.wire_axioms w_u32.wire_axioms], of 2, simplified]
lemmas w_replayable_object = wire.object_wire [OF pair_wire [OF w_u32.wire_axioms w_blobs.wire_axioms], of 2, simplified]
lemmas w_parallel_object = wire.object_wire [OF w_optional_blobs.wire_axioms, of 1, simplified]
lemmas w_when_any_object = wire.object_wire [OF pair_wire [OF w_u32.wire_axioms w_payload.wire_axioms], of 2, simplified]
lemmas w_branches_object = wire.object_wire [OF w_branches.wire_axioms, of 1, simplified]
lemmas work_objects = w_for_each_object w_replayable_object w_parallel_object w_when_any_object w_branches_object

lemma optional_lengths:
  "(\<forall>v \<in> set xs. (case v of Some x \<Rightarrow> f x | None \<Rightarrow> 0) \<le> (n :: nat)) = (\<forall>v \<in> set xs. case v of Some x \<Rightarrow> f x \<le> n | None \<Rightarrow> True)"
  by (rule ball_cong) (auto split: option.splits)

interpretation w_work: wire serialize_work deserialize_work work_bytes work_alloc "\<lambda>_. 2"
  "\<lambda>l. work_small (max_collection_items l)" "work_small 2147483647"
proof
  fix w buf assume "work_small 2147483647 w"
  then show "serialize_work w buf = Inr (buf @ work_bytes w)"
    by (cases w) (simp_all add: work_small_def optional_lengths work_objects [THEN tagged_ser] write_u8_def [of 0] write_raw_def)
next
  fix w r assume v: "work_small 2147483647 w" and r: "room r (work_alloc w) 2" "work_small (max_collection_items (rd_limits r)) w" "ahead r (work_bytes w)"
  note facts = v r [unfolded numeral_2_eq_2] room_mono [OF r(1), of "work_alloc w" 1]
  show "deserialize_work r = Inr (w, past (length (work_bytes w)) (work_alloc w) r)"
  proof (cases w)
    case WorkBranch
    then show ?thesis using w_u8.des_law [of r 0] r(3) room_0 [OF r(1)] by (simp add: deserialize_work_def and_then_def give_def)
  next
    case (WorkForEach a b)
    note t = tagged_des [OF w_for_each_object, of "(a, b)" r 1]
    show ?thesis using facts unfolding WorkForEach deserialize_work_def by (simp add: t give_def work_small_def)
  next
    case (WorkReplayable a b)
    note t = tagged_des [OF w_replayable_object, of "(a, b)" r 2]
    show ?thesis using facts unfolding WorkReplayable deserialize_work_def by (simp add: t give_def work_small_def)
  next
    case (WorkParallel a)
    note t = tagged_des [OF w_parallel_object, of a r 3]
    show ?thesis using facts unfolding WorkParallel deserialize_work_def by (simp add: t give_def work_small_def optional_lengths)
  next
    case (WorkWhenAny a b)
    note t = tagged_des [OF w_when_any_object, of "(a, b)" r 4]
    show ?thesis using facts unfolding WorkWhenAny deserialize_work_def by (simp add: t give_def work_small_def)
  next
    case (WorkParallelBranches a)
    note t = tagged_des [OF w_branches_object, of a r 5]
    show ?thesis using facts unfolding WorkParallelBranches deserialize_work_def by (simp add: t give_def work_small_def optional_lengths)
  qed
qed

section \<open>Laws of the frames\<close>

lemma length_u32_to_be [simp]: "length (u32_to_be v) = 4"
  by (simp add: u32_to_be_def be_bytes_def)

lemma u32_from_to_be [simp]: "u32_from_be (u32_to_be v) = v"
  by (simp add: u32_to_be_def u32_from_be_def be_bytes_def be_value_def le_value_bytes_less [of "unat v"] unsigned_less [of v, simplified])

lemma length_level_to_be [simp]: "length (level_to_be l) = 8"
  by (simp add: level_to_be_def)

lemma length_levels [simp]: "length (concat (map level_to_be ls)) = length ls * 8"
  by (induction ls) simp_all

lemma byte_range_middle: "a = length xs \<Longrightarrow> b = a + length ys \<Longrightarrow> byte_range a b (xs @ ys @ zs) = ys"
  by (simp add: byte_range_def)

lemma levels_split:
  "i < length ls \<Longrightarrow> concat (map level_to_be ls) =
     concat (map level_to_be (take i ls)) @ u32_to_be (lv_branch (ls ! i)) @ u32_to_be (lv_next_step (ls ! i)) @
     concat (map level_to_be (drop (Suc i) ls))"
  by (subst id_take_nth_drop [of i ls]) (simp_all add: level_to_be_def)

lemma level_at_levels:
  assumes "i < length ls" "length pre = 6"
  shows "level_at (pre @ concat (map level_to_be ls) @ post) i = ls ! i"
proof -
  let ?pre = "pre @ concat (map level_to_be (take i ls))" and ?post = "concat (map level_to_be (drop (Suc i) ls)) @ post"
  let ?b = "u32_to_be (lv_branch (ls ! i))" and ?n = "u32_to_be (lv_next_step (ls ! i))"
  have p: "pre @ concat (map level_to_be ls) @ post = ?pre @ ?b @ (?n @ ?post)" using levels_split [OF assms(1)] by simp
  have "length ?pre = 6 + i * 8" using assms by simp
  then have "byte_range (6 + i * 8) (6 + i * 8 + 4) (?pre @ ?b @ (?n @ ?post)) = ?b"
    "byte_range (6 + i * 8 + 4) (6 + i * 8 + 8) ((?pre @ ?b) @ ?n @ ?post) = ?n"
    by (intro byte_range_middle; simp)+
  then show ?thesis unfolding p by (simp add: level_at_def checkpoint_level_bytes_def Let_def)
qed

definition frame_bytes :: "checkpoint_level list \<Rightarrow> bytes \<Rightarrow> bytes \<Rightarrow> bytes" where
  "frame_bytes levels state work =
     checkpoint_frame_magic @ [checkpoint_frame_version, word_of_nat (length levels)] @ concat (map level_to_be levels) @
     u32_to_be (word_of_nat (length state)) @ state @ u32_to_be (word_of_nat (length work)) @ work"

lemmas frame_limits = max_checkpoint_path_depth_def max_checkpoint_state_bytes_def max_checkpoint_frame_bytes_def
  checkpoint_frame_header_bytes_def checkpoint_level_bytes_def checkpoint_frame_magic_def

lemma length_frame_bytes: "length (frame_bytes levels state work) = 14 + length levels * 8 + length state + length work"
  by (simp add: frame_bytes_def checkpoint_frame_magic_def)

text \<open>What \<open>encode\<close> accepts and writes, when the cursor can be written at all.\<close>

lemma frame_encode_Inr:
  assumes "work_small 2147483647 work"
  shows "frame_encode levels state work = Inr payload \<longleftrightarrow>
    length levels \<le> 32 \<and> length state \<le> 1048576 \<and> length (frame_bytes levels state (work_bytes work)) \<le> 1048842 \<and>
    payload = frame_bytes levels state (work_bytes work)"
proof -
  have "mp_serialize serialize_work work = Inr (work_bytes work)" using w_work.ser_law [OF assms] by (simp add: mp_serialize_def)
  then show ?thesis
    by (auto simp: frame_encode_def frame_limits usize_checked_mul_def usize_checked_add_def u32_try_from_def u8_try_from_def
        frame_bytes_def bind_r_Inr_iff split: if_splits)
qed

text \<open>Reading a frame that was written, with anything behind it.\<close>

lemma frame_decode_bytes:
  assumes "length levels \<le> 32" "length state \<le> 1048576" "length (frame_bytes levels state work @ rest) \<le> 1048842"
  shows "frame_decode (frame_bytes levels state work @ rest) =
    (if rest \<noteq> [] then Inl (invalid ''DSL checkpoint work cursor has an invalid length'')
     else case deserialize_bounded deserialize_work work decode_limits_default of
       Inl _ \<Rightarrow> Inl (invalid ''DSL checkpoint work cursor is invalid'')
     | Inr work \<Rightarrow> Inr (Some \<lparr>cf_levels = levels, cf_state = state, cf_work = work\<rparr>))"
proof -
  define q where "q = frame_bytes levels state work @ rest"
  let ?h = "checkpoint_frame_magic @ [checkpoint_frame_version, word_of_nat (length levels)]"
  let ?l = "concat (map level_to_be levels)" and ?s = "u32_to_be (word_of_nat (length state))" and ?w = "u32_to_be (word_of_nat (length work))"
  let ?o = "6 + length levels * 8"
  have len: "length q = 14 + length levels * 8 + length state + length work + length rest" by (simp add: q_def length_frame_bytes)
  have h: "length ?h = 6" by (simp add: checkpoint_frame_magic_def)
  have p: "q = ?h @ ?l @ ?s @ state @ ?w @ work @ rest" by (simp add: q_def frame_bytes_def)
  have n: "unat (word_of_nat (length levels) :: u8) = length levels" "unat (word_of_nat (length state) :: u32) = length state"
    "unat (word_of_nat (length work) :: u32) = length work"
    using assms by (simp_all add: unat_of_nat take_bit_nat_eq_self length_frame_bytes)
  have lv: "map (level_at q) [0..<length levels] = levels"
    using level_at_levels [OF _ h] unfolding p by (intro nth_equalityI) simp_all
  have s1: "byte_range ?o (?o + 4) q = ?s" using byte_range_middle [of ?o "?h @ ?l" "?o + 4" ?s "state @ ?w @ work @ rest"] h by (simp add: p)
  have s2: "byte_range (?o + 4) (?o + 4 + length state) q = state"
    using byte_range_middle [of "?o + 4" "?h @ ?l @ ?s" "?o + 4 + length state" state "?w @ work @ rest"] h by (simp add: p)
  have s3: "byte_range (?o + 4 + length state) (?o + 4 + length state + 4) q = ?w"
    using byte_range_middle [of "?o + 4 + length state" "?h @ ?l @ ?s @ state" "?o + 4 + length state + 4" ?w "work @ rest"] h by (simp add: p)
  have s4: "byte_range (?o + 4 + length state + 4) (?o + 4 + length state + 4 + length work) q = work"
    using byte_range_middle [of "?o + 4 + length state + 4" "?h @ ?l @ ?s @ state @ ?w" "?o + 4 + length state + 4 + length work" work rest] h
    by (simp add: p)
  have "frame_work_at q (?o + 4 + length state) = (if rest \<noteq> [] then Inl (invalid ''DSL checkpoint work cursor has an invalid length'')
     else case deserialize_bounded deserialize_work work decode_limits_default of
       Inl _ \<Rightarrow> Inl (invalid ''DSL checkpoint work cursor is invalid'') | Inr work \<Rightarrow> Inr work)"
    unfolding frame_work_at_def s3 Let_def u32_from_to_be n s4 len by simp
  moreover have "take (length checkpoint_frame_magic) q = checkpoint_frame_magic" "q ! 4 = checkpoint_frame_version" "q ! 5 = word_of_nat (length levels)"
    by (simp_all add: q_def frame_bytes_def checkpoint_frame_magic_def)
  moreover have "length q \<le> 1048842" using assms(3) by (simp add: q_def)
  ultimately show ?thesis using assms(1,2) len lv s1 s2 n
    unfolding frame_decode_def Let_def q_def [symmetric] by (simp add: frame_limits split: sum.splits)
qed

definition work_within :: "checkpoint_work \<Rightarrow> bool" where
  "work_within w \<longleftrightarrow> work_small 65536 w \<and> work_alloc w \<le> 1048576 \<and> length (work_bytes w) \<le> 1048576"

lemma work_decode:
  assumes "work_within w"
  shows "deserialize_bounded deserialize_work (work_bytes w) decode_limits_default = Inr w"
proof -
  have "work_small 2147483647 w" using assms by (auto simp: work_within_def work_small_def intro: order_trans)
  then show ?thesis using w_work.decode_frame [of w decode_limits_default "[]"] assms
    by (simp add: work_within_def w_work.within_def decode_limits_default_def)
qed


definition sample_work :: checkpoint_work where
  "sample_work = WorkParallelBranches [None, Some (BranchCompleted [7, 8]), Some (BranchInProgress 3 True [1])]"

definition sample_levels :: "checkpoint_level list" where
  "sample_levels = [\<lparr>lv_branch = 1, lv_next_step = 2\<rparr>, \<lparr>lv_branch = 4294967295, lv_next_step = 0\<rparr>]"


section \<open>Progress records\<close>

datatype dsl_progress_kind = ApplicationState | CheckpointFrame | TerminalState

record dsl_step_progress =
  dp_flow_id :: string
  dp_step_index :: u32
  dp_version :: int
  dp_kind :: dsl_progress_kind
  dp_payload :: bytes
  dp_updated_at :: systime

fun encode_progress_kind :: "dsl_progress_kind \<Rightarrow> u8" where
  "encode_progress_kind ApplicationState = 0"
| "encode_progress_kind CheckpointFrame = 1"
| "encode_progress_kind TerminalState = 2"

definition decode_progress_kind :: "u8 \<Rightarrow> memory_pack_error + dsl_progress_kind" where
  "decode_progress_kind v =
     (if v = 0 then Inr ApplicationState else if v = 1 then Inr CheckpointFrame else if v = 2 then Inr TerminalState
      else Inl (DeserializationError (''invalid DSL progress kind: '' @ dec (unat v))))"

definition progress_new :: "string \<Rightarrow> u32 \<Rightarrow> bytes \<Rightarrow> systime \<Rightarrow> dsl_step_progress" where
  "progress_new flow_id step_index payload now =
     \<lparr>dp_flow_id = flow_id, dp_step_index = step_index, dp_version = 0, dp_kind = ApplicationState, dp_payload = payload,
      dp_updated_at = now\<rparr>"

definition progress_next_version :: "bytes \<Rightarrow> systime \<Rightarrow> dsl_step_progress \<Rightarrow> dsl_step_progress catga_result" where
  "progress_next_version payload now p =
     bind_r (ok_or (error_new Conflict ''DSL step progress version cannot advance beyond i64::MAX'') (i64_checked_add (dp_version p) 1))
       (\<lambda>version. Inr (p\<lparr>dp_version := version, dp_payload := payload, dp_updated_at := now\<rparr>))"

definition completed_application_state :: "bytes \<Rightarrow> systime \<Rightarrow> dsl_step_progress \<Rightarrow> dsl_step_progress catga_result" where
  "completed_application_state payload now p =
     bind_r (ok_or (error_new Conflict ''DSL step progress version cannot advance beyond i64::MAX'') (i64_checked_add (dp_version p) 1))
       (\<lambda>version. Inr (p\<lparr>dp_version := version, dp_kind := ApplicationState, dp_payload := payload, dp_updated_at := now\<rparr>))"

definition with_checkpoint_frame :: "bytes \<Rightarrow> dsl_step_progress \<Rightarrow> dsl_step_progress" where
  "with_checkpoint_frame payload p = p\<lparr>dp_kind := CheckpointFrame, dp_payload := payload\<rparr>"

definition with_terminal :: "bytes \<Rightarrow> dsl_step_progress \<Rightarrow> dsl_step_progress" where
  "with_terminal payload p = p\<lparr>dp_kind := TerminalState, dp_payload := payload\<rparr>"

definition progress_is_next_version :: "int \<Rightarrow> int \<Rightarrow> bool" where
  "progress_is_next_version expected nxt \<longleftrightarrow> i64_checked_add expected 1 = Some nxt"

text \<open>The wire form of a record.\<close>

definition serialize_time_wire :: "time_wire writes" where
  "serialize_time_wire = serialize_object 3 (\<lambda>t buf.
     bind_r (write_bool (tw_before_epoch t) buf) (\<lambda>buf. bind_r (write_u64 (tw_seconds t) buf) (write_u32 (tw_nanoseconds t))))"

definition deserialize_time_wire :: "time_wire reads" where
  "deserialize_time_wire = deserialize_object 3
     (and_then read_bool (\<lambda>b. and_then read_u64 (\<lambda>s. and_then read_u32 (\<lambda>n.
        give \<lparr>tw_before_epoch = b, tw_seconds = s, tw_nanoseconds = n\<rparr>))))"

definition serialize_progress :: "dsl_step_progress writes" where
  "serialize_progress = serialize_object 6 (\<lambda>p buf.
     bind_r (write_string (dp_flow_id p) buf) (\<lambda>buf.
     bind_r (write_u32 (dp_step_index p) buf) (\<lambda>buf.
     bind_r (write_i64 (dp_version p) buf) (\<lambda>buf.
     bind_r (write_u8 (encode_progress_kind (dp_kind p)) buf) (\<lambda>buf.
     bind_r (write_blob (dp_payload p) buf) (\<lambda>buf.
       serialize_time_wire (encode_time (dp_updated_at p)) buf))))))"

definition of_result :: "memory_pack_error + 'a \<Rightarrow> 'a reads" where
  "of_result m = (case m of Inl e \<Rightarrow> fail_with e | Inr x \<Rightarrow> give x)"

definition deserialize_progress :: "dsl_step_progress reads" where
  "deserialize_progress = and_then (deserialize_object 6
     (and_then read_string (\<lambda>f. and_then read_u32 (\<lambda>i. and_then read_i64 (\<lambda>v. and_then read_u8 (\<lambda>k.
      and_then read_blob (\<lambda>b. and_then deserialize_time_wire (\<lambda>t. give (f, i, v, k, b, t))))))))) (\<lambda>(f, i, v, k, b, t).
     and_then (of_result (decode_progress_kind k)) (\<lambda>kind.
     and_then (of_result (decode_time t)) (\<lambda>updated_at.
       give \<lparr>dp_flow_id = f, dp_step_index = i, dp_version = v, dp_kind = kind, dp_payload = b, dp_updated_at = updated_at\<rparr>)))"

context wire
begin

text \<open>A type behind a conversion that may reject what it reads.\<close>

lemma checked_wire:
  assumes "\<And>y buf. ok y \<Longrightarrow> ser' y buf = ser (f y) buf" "des' = and_then des h" "\<And>y. ok y \<Longrightarrow> valid (f y) \<and> h (f y) = give y"
  shows "wire ser' des' (\<lambda>y. enc (f y)) (\<lambda>y. alloc (f y)) (\<lambda>y. depth (f y)) (\<lambda>l y. small l (f y)) ok"
proof
  show "ser' y buf = Inr (buf @ enc (f y))" if "ok y" for y buf using assms(1,3) that by (simp add: ser_law)
  show "des' r = Inr (y, past (length (enc (f y))) (alloc (f y)) r)"
    if "ok y" "room r (alloc (f y)) (depth (f y))" "small (rd_limits r) (f y)" "ahead r (enc (f y))" for y r
    using des_law [of "f y" r] that assms(3) unfolding assms(2) by (simp add: and_then_def give_def)
qed

end

definition time_wire_bytes :: "time_wire \<Rightarrow> bytes" where
  "time_wire_bytes t = 3 # (if tw_before_epoch t then 1 else 0) # le_bytes 8 (unat (tw_seconds t)) @ le_bytes 4 (unat (tw_nanoseconds t))"

lemmas time_parts = pair_wire [OF w_bool.wire_axioms pair_wire [OF w_u64.wire_axioms w_u32.wire_axioms]]

interpretation w_time: wire serialize_time_wire deserialize_time_wire time_wire_bytes "\<lambda>_. 0" "\<lambda>_. 1" "\<lambda>_ _. True" "\<lambda>_. True"
  by (rule wire.renamed_wire [OF wire.object_wire [OF wire.converted_wire [OF time_parts,
      where f = "\<lambda>t. (tw_before_epoch t, tw_seconds t, tw_nanoseconds t)"
        and g = "\<lambda>(b, s, n). \<lparr>tw_before_epoch = b, tw_seconds = s, tw_nanoseconds = n\<rparr>" and ok = "\<lambda>_. True", OF refl refl], of 3]])
    (simp_all add: serialize_time_wire_def deserialize_time_wire_def serialize_object_def serialize_pair_def [abs_def]
      deserialize_pair_def and_then_assoc time_wire_bytes_def)

definition progress_bytes :: "dsl_step_progress \<Rightarrow> bytes" where
  "progress_bytes p = 6 # string_bytes (dp_flow_id p) @ le_bytes 4 (unat (dp_step_index p)) @ le_bytes 8 (twos 8 (dp_version p)) @
     [encode_progress_kind (dp_kind p)] @ blob_bytes (dp_payload p) @ time_wire_bytes (encode_time (dp_updated_at p))"

definition progress_ok :: "dsl_step_progress \<Rightarrow> bool" where
  "progress_ok p \<longleftrightarrow> string_ok (dp_flow_id p) \<and> in_i64 (dp_version p) \<and> length (dp_payload p) \<le> 2147483647 \<and> systime_ok (dp_updated_at p)"

lemma decode_encode_progress_kind: "decode_progress_kind (encode_progress_kind k) = Inr k"
  by (cases k) (simp_all add: decode_progress_kind_def)

lemmas progress_parts = wire.object_wire [OF pair_wire [OF w_string.wire_axioms pair_wire [OF w_u32.wire_axioms pair_wire [OF w_i64.wire_axioms
  pair_wire [OF w_u8.wire_axioms pair_wire [OF w_payload.wire_axioms w_time.wire_axioms]]]]], of 6]

interpretation w_progress: wire serialize_progress deserialize_progress progress_bytes
  "\<lambda>p. length (dp_flow_id p) + length (dp_payload p)" "\<lambda>_. 2"
  "\<lambda>l p. length (dp_flow_id p) \<le> max_string_bytes l \<and> length (dp_payload p) \<le> max_collection_items l" progress_ok
proof -
  let ?f = "\<lambda>p. (dp_flow_id p, dp_step_index p, dp_version p, encode_progress_kind (dp_kind p), dp_payload p, encode_time (dp_updated_at p))"
  let ?h = "\<lambda>(f, i, v, k, b, t). and_then (of_result (decode_progress_kind k)) (\<lambda>kind. and_then (of_result (decode_time t)) (\<lambda>updated_at.
       give \<lparr>dp_flow_id = f, dp_step_index = i, dp_version = v, dp_kind = kind, dp_payload = b, dp_updated_at = updated_at\<rparr>))"
  have r: "in_i64 v \<Longrightarrow> int_range 8 v" for v by (simp add: i64_defs int_range_def)
  have e: "\<lparr>dp_flow_id = dp_flow_id p, dp_step_index = dp_step_index p, dp_version = dp_version p, dp_kind = dp_kind p,
      dp_payload = dp_payload p, dp_updated_at = dp_updated_at p\<rparr> = p" for p :: dsl_step_progress by simp
  show "wire serialize_progress deserialize_progress progress_bytes (\<lambda>p. length (dp_flow_id p) + length (dp_payload p)) (\<lambda>_. 2)
      (\<lambda>l p. length (dp_flow_id p) \<le> max_string_bytes l \<and> length (dp_payload p) \<le> max_collection_items l) progress_ok"
    by (rule wire.renamed_wire [OF wire.checked_wire [OF progress_parts, where f = ?f and h = ?h and ok = progress_ok, OF _ refl refl]])
      (simp_all add: serialize_progress_def deserialize_progress_def serialize_object_def serialize_pair_def [abs_def] deserialize_pair_def
        and_then_assoc progress_bytes_def progress_ok_def r decode_encode_progress_kind decode_encode_time of_result_def e)
qed

section \<open>The in-memory store\<close>

type_synonym progress_map = "string \<times> u32 \<rightharpoonup> dsl_step_progress"

definition progress_key :: "dsl_step_progress \<Rightarrow> string \<times> u32" where
  "progress_key p = (dp_flow_id p, dp_step_index p)"

definition memory_create :: "dsl_step_progress \<Rightarrow> progress_map \<Rightarrow> bool catga_result \<times> progress_map" where
  "memory_create p m =
     (case m (progress_key p) of None \<Rightarrow> (Inr True, m(progress_key p \<mapsto> p)) | Some _ \<Rightarrow> (Inr False, m))"

definition memory_update :: "int \<Rightarrow> dsl_step_progress \<Rightarrow> progress_map \<Rightarrow> bool catga_result \<times> progress_map" where
  "memory_update expected_version nxt m =
     (if \<not> progress_is_next_version expected_version (dp_version nxt) then (Inr False, m)
      else case m (progress_key nxt) of
             Some current \<Rightarrow> if dp_version current = expected_version then (Inr True, m(progress_key nxt \<mapsto> nxt)) else (Inr False, m)
           | None \<Rightarrow> (Inr False, m))"

definition memory_get :: "string \<Rightarrow> u32 \<Rightarrow> progress_map \<Rightarrow> dsl_step_progress option catga_result \<times> progress_map" where
  "memory_get flow_id step_index m = (Inr (m (flow_id, step_index)), m)"

definition memory_delete :: "string \<Rightarrow> u32 \<Rightarrow> progress_map \<Rightarrow> bool catga_result \<times> progress_map" where
  "memory_delete flow_id step_index m = (Inr (m (flow_id, step_index) \<noteq> None), m((flow_id, step_index) := None))"

end
