(* ===== verification/Dsl_Flow.thy ===== *)
theory Dsl_Flow
  imports Dsl_Checkpoint Flow_Executor Retries
begin

text \<open>
  The flow DSL run inside one process: composable steps (\<open>crates/catga-core/src/flow/dsl_step.rs\<close>), lifecycle
  hooks (\<open>flow/dsl_lifecycle.rs\<close>), the throttle (\<open>flow/flow_throttle.rs\<close>), and the builders and runs of
  \<open>flow/dsl.rs\<close>. An action changes the state of the flow and the world outside it, and answers a result. The
  runtime is a parameter: how a timer cuts an action off, what sleeping does, and in which order concurrent branches
  complete; concurrent branches run one after another in that order. Counters and trace spans are left out.
\<close>

section \<open>Actions\<close>

type_synonym ('s, 'w) act = "'s \<Rightarrow> 'w \<Rightarrow> unit catga_result \<times> 's \<times> 'w"

type_synonym ('s, 'r, 'w) query = "'s \<Rightarrow> 'w \<Rightarrow> 'r catga_result \<times> 'w"

record ('s, 'w) dsl_step =
  ds_action :: "('s, 'w) act"
  ds_condition :: "('s \<Rightarrow> bool) option"
  ds_failure :: "('s \<Rightarrow> catga_error option) option"
  ds_optional :: bool

definition step_action :: "('s, 'w) act \<Rightarrow> ('s, 'w) dsl_step" where
  "step_action a = \<lparr>ds_action = a, ds_condition = None, ds_failure = None, ds_optional = False\<rparr>"

definition only_when :: "('s \<Rightarrow> bool) \<Rightarrow> ('s, 'w) dsl_step \<Rightarrow> ('s, 'w) dsl_step" where
  "only_when condition st = st\<lparr>ds_condition :=
     Some (case ds_condition st of Some previous \<Rightarrow> (\<lambda>s. previous s \<and> condition s) | None \<Rightarrow> condition)\<rparr>"

definition step_optional :: "('s, 'w) dsl_step \<Rightarrow> ('s, 'w) dsl_step" where
  "step_optional st = st\<lparr>ds_optional := True\<rparr>"

definition fail_if_with :: "('s \<Rightarrow> bool) \<Rightarrow> ('s \<Rightarrow> catga_error) \<Rightarrow> ('s, 'w) dsl_step \<Rightarrow> ('s, 'w) dsl_step" where
  "fail_if_with condition err st =
     (let failure = (\<lambda>s. if condition s then Some (err s) else None)
      in st\<lparr>ds_failure := Some (case ds_failure st of
              Some previous \<Rightarrow> (\<lambda>s. case previous s of Some e \<Rightarrow> Some e | None \<Rightarrow> failure s)
            | None \<Rightarrow> failure)\<rparr>)"

definition fail_if :: "('s \<Rightarrow> bool) \<Rightarrow> ('s, 'w) dsl_step \<Rightarrow> ('s, 'w) dsl_step" where
  "fail_if condition st = fail_if_with condition (\<lambda>_. error_new Validation ''DSL state failure condition matched'') st"

definition into_action :: "('s, 'w) dsl_step \<Rightarrow> ('s, 'w) act" where
  "into_action st s w =
     (if (case ds_condition st of Some condition \<Rightarrow> \<not> condition s | None \<Rightarrow> False) then (Inr (), s, w)
      else case ds_action st s w of
        (Inl e, s, w) \<Rightarrow> if ds_optional st \<and> ce_code e \<noteq> Cancelled then (Inr (), s, w) else (Inl e, s, w)
      | (Inr _, s, w) \<Rightarrow>
          (case Option.bind (ds_failure st) (\<lambda>failure. failure s) of
             Some e \<Rightarrow> (Inl e, s, w)
           | None \<Rightarrow> (Inr (), s, w)))"

record ('s, 'r, 'w) dsl_query_step =
  dq_query :: "('s, 'r, 'w) query"
  dq_condition :: "('s \<Rightarrow> bool) option"
  dq_failure :: "('r \<Rightarrow> catga_error option) option"
  dq_optional :: bool

definition step_query :: "('s, 'r, 'w) query \<Rightarrow> ('s, 'r, 'w) dsl_query_step" where
  "step_query q = \<lparr>dq_query = q, dq_condition = None, dq_failure = None, dq_optional = False\<rparr>"

text \<open>A mediator or a remote client answers a message.\<close>

definition step_send :: "('m \<Rightarrow> 'w \<Rightarrow> 'r catga_result \<times> 'w) \<Rightarrow> ('s \<Rightarrow> 'm) \<Rightarrow> ('s, 'r, 'w) dsl_query_step" where
  "step_send mediator request = step_query (\<lambda>s. mediator (request s))"

definition step_remote_request :: "('m \<Rightarrow> 'w \<Rightarrow> 'r catga_result \<times> 'w) \<Rightarrow> ('s \<Rightarrow> 'm) \<Rightarrow> ('s, 'r, 'w) dsl_query_step" where
  "step_remote_request client request = step_query (\<lambda>s. client (request s))"

definition query_only_when :: "('s \<Rightarrow> bool) \<Rightarrow> ('s, 'r, 'w) dsl_query_step \<Rightarrow> ('s, 'r, 'w) dsl_query_step" where
  "query_only_when condition q = q\<lparr>dq_condition :=
     Some (case dq_condition q of Some previous \<Rightarrow> (\<lambda>s. previous s \<and> condition s) | None \<Rightarrow> condition)\<rparr>"

definition query_optional :: "('s, 'r, 'w) dsl_query_step \<Rightarrow> ('s, 'r, 'w) dsl_query_step" where
  "query_optional q = q\<lparr>dq_optional := True\<rparr>"

definition fail_if_response_with :: "('r \<Rightarrow> bool) \<Rightarrow> ('r \<Rightarrow> catga_error) \<Rightarrow> ('s, 'r, 'w) dsl_query_step \<Rightarrow> ('s, 'r, 'w) dsl_query_step" where
  "fail_if_response_with condition err q =
     (let failure = (\<lambda>r. if condition r then Some (err r) else None)
      in q\<lparr>dq_failure := Some (case dq_failure q of
             Some previous \<Rightarrow> (\<lambda>r. case previous r of Some e \<Rightarrow> Some e | None \<Rightarrow> failure r)
           | None \<Rightarrow> failure)\<rparr>)"

definition fail_if_response :: "('r \<Rightarrow> bool) \<Rightarrow> ('s, 'r, 'w) dsl_query_step \<Rightarrow> ('s, 'r, 'w) dsl_query_step" where
  "fail_if_response condition q =
     fail_if_response_with condition (\<lambda>_. error_new Validation ''DSL response failure condition matched'') q"

definition into_state :: "('s \<Rightarrow> 'r \<Rightarrow> 's) \<Rightarrow> ('s, 'r, 'w) dsl_query_step \<Rightarrow> ('s, 'w) dsl_step" where
  "into_state set_response q = step_action (\<lambda>s w.
     if (case dq_condition q of Some condition \<Rightarrow> \<not> condition s | None \<Rightarrow> False) then (Inr (), s, w)
     else case dq_query q s w of
       (Inl e, w) \<Rightarrow> if dq_optional q \<and> ce_code e \<noteq> Cancelled then (Inr (), s, w) else (Inl e, s, w)
     | (Inr response, w) \<Rightarrow>
         (case Option.bind (dq_failure q) (\<lambda>failure. failure response) of
            Some e \<Rightarrow> (Inl e, s, w)
          | None \<Rightarrow> (Inr (), set_response s response, w)))"

definition query_discard :: "('s, 'r, 'w) dsl_query_step \<Rightarrow> ('s, 'w) dsl_step" where
  "query_discard q = into_state (\<lambda>s _. s) q"

section \<open>Lifecycle\<close>

datatype lifecycle_event = LStepSucceeded nat | LStepFailed nat catga_error | LFlowSucceeded | LFlowFailed catga_error

record ('s, 'w) lifecycle_hooks =
  lh_step_succeeded :: "('s \<Rightarrow> nat \<Rightarrow> 'w \<Rightarrow> unit catga_result \<times> 'w) option"
  lh_step_failed :: "('s \<Rightarrow> nat \<Rightarrow> catga_error \<Rightarrow> 'w \<Rightarrow> unit catga_result \<times> 'w) option"
  lh_flow_succeeded :: "('s \<Rightarrow> 'w \<Rightarrow> unit catga_result \<times> 'w) option"
  lh_flow_failed :: "('s \<Rightarrow> catga_error \<Rightarrow> 'w \<Rightarrow> unit catga_result \<times> 'w) option"

definition hooks_new :: "('s, 'w) lifecycle_hooks" where
  "hooks_new = \<lparr>lh_step_succeeded = None, lh_step_failed = None, lh_flow_succeeded = None, lh_flow_failed = None\<rparr>"

definition on_step_succeeded :: "('s \<Rightarrow> nat \<Rightarrow> 'w \<Rightarrow> unit catga_result \<times> 'w) \<Rightarrow> ('s, 'w) lifecycle_hooks \<Rightarrow> ('s, 'w) lifecycle_hooks" where
  "on_step_succeeded hook h = h\<lparr>lh_step_succeeded := Some hook\<rparr>"

definition on_step_failed ::
  "('s \<Rightarrow> nat \<Rightarrow> catga_error \<Rightarrow> 'w \<Rightarrow> unit catga_result \<times> 'w) \<Rightarrow> ('s, 'w) lifecycle_hooks \<Rightarrow> ('s, 'w) lifecycle_hooks" where
  "on_step_failed hook h = h\<lparr>lh_step_failed := Some hook\<rparr>"

definition on_flow_succeeded :: "('s \<Rightarrow> 'w \<Rightarrow> unit catga_result \<times> 'w) \<Rightarrow> ('s, 'w) lifecycle_hooks \<Rightarrow> ('s, 'w) lifecycle_hooks" where
  "on_flow_succeeded hook h = h\<lparr>lh_flow_succeeded := Some hook\<rparr>"

definition on_flow_failed :: "('s \<Rightarrow> catga_error \<Rightarrow> 'w \<Rightarrow> unit catga_result \<times> 'w) \<Rightarrow> ('s, 'w) lifecycle_hooks \<Rightarrow> ('s, 'w) lifecycle_hooks" where
  "on_flow_failed hook h = h\<lparr>lh_flow_failed := Some hook\<rparr>"

type_synonym ('s, 'w) lifecycle = "(lifecycle_event \<Rightarrow> 'w \<Rightarrow> 'w) list \<times> ('s, 'w) lifecycle_hooks option"

definition notify :: "('s, 'w) lifecycle \<Rightarrow> lifecycle_event \<Rightarrow> 'w \<Rightarrow> 'w" where
  "notify lc event w = fold (\<lambda>observe. observe event) (fst lc) w"

definition notify_step_succeeded :: "('s, 'w) lifecycle \<Rightarrow> 's \<Rightarrow> nat \<Rightarrow> 'w \<Rightarrow> unit catga_result \<times> 'w" where
  "notify_step_succeeded lc s step_index w =
     (let w = notify lc (LStepSucceeded step_index) w
      in case Option.bind (snd lc) lh_step_succeeded of Some hook \<Rightarrow> hook s step_index w | None \<Rightarrow> (Inr (), w))"

definition notify_step_failed :: "('s, 'w) lifecycle \<Rightarrow> 's \<Rightarrow> nat \<Rightarrow> catga_error \<Rightarrow> 'w \<Rightarrow> unit catga_result \<times> 'w" where
  "notify_step_failed lc s step_index e w =
     (let w = notify lc (LStepFailed step_index (error_clone e)) w
      in case Option.bind (snd lc) lh_step_failed of Some hook \<Rightarrow> hook s step_index e w | None \<Rightarrow> (Inr (), w))"

definition notify_flow_succeeded :: "('s, 'w) lifecycle \<Rightarrow> 's \<Rightarrow> 'w \<Rightarrow> unit catga_result \<times> 'w" where
  "notify_flow_succeeded lc s w =
     (let w = notify lc LFlowSucceeded w
      in case Option.bind (snd lc) lh_flow_succeeded of Some hook \<Rightarrow> hook s w | None \<Rightarrow> (Inr (), w))"

definition notify_flow_failed :: "('s, 'w) lifecycle \<Rightarrow> 's \<Rightarrow> catga_error \<Rightarrow> 'w \<Rightarrow> unit catga_result \<times> 'w" where
  "notify_flow_failed lc s e w =
     (let w = notify lc (LFlowFailed (error_clone e)) w
      in case Option.bind (snd lc) lh_flow_failed of Some hook \<Rightarrow> hook s e w | None \<Rightarrow> (Inr (), w))"

section \<open>Flows\<close>

record ('s, 'w) replayable =
  rf_select :: "'s \<Rightarrow> bytes list catga_result"
  rf_action :: "bytes \<Rightarrow> ('s, 'w) act"
  rf_on_error :: "(nat \<Rightarrow> catga_error \<Rightarrow> ('s, 'w) act) option"

datatype (dead 's, dead 'w) step =
    SActionWithCompensation "('s, 'w) act" "('s, 'w) act"
  | SAction "('s, 'w) act"
  | SForEach "('s, 'w) act"
  | SReplayableForEach "('s, 'w) replayable"
  | SStreamForEach "('s, 'w) act"
  | SConcurrentStreamForEach "('s, 'w) act"
  | SRetry "('s, 'w) act" nat duration
  | STimeout "('s, 'w) act" duration
  | SIf "'s \<Rightarrow> bool" "('s, 'w) dsl_flow" "('s, 'w) dsl_flow"
  | SMatch "'s \<Rightarrow> nat option" "('s, 'w) dsl_flow list" "('s, 'w) dsl_flow"
  | SParallel "('s, 'w) dsl_flow list" "'s \<Rightarrow> 's" "'s \<Rightarrow> 's list \<Rightarrow> unit catga_result \<times> 's"
  | SWhenAny "('s, 'w) dsl_flow list" "'s \<Rightarrow> 's" "'s \<Rightarrow> 's \<Rightarrow> unit catga_result \<times> 's"
and (dead 's, dead 'w) dsl_flow = DslFlow (flow_steps: "('s, 'w) step list") (flow_lifecycle: "('s, 'w) lifecycle")

definition max_dsl_parallel_branches :: nat where
  "max_dsl_parallel_branches = 64"

definition flow_new_dsl :: "('s, 'w) dsl_flow" where
  "flow_new_dsl = DslFlow [] ([], None)"

definition push_step :: "('s, 'w) step \<Rightarrow> ('s, 'w) dsl_flow \<Rightarrow> ('s, 'w) dsl_flow" where
  "push_step st f = DslFlow (flow_steps f @ [st]) (flow_lifecycle f)"

definition with_lifecycle_observer :: "(lifecycle_event \<Rightarrow> 'w \<Rightarrow> 'w) \<Rightarrow> ('s, 'w) dsl_flow \<Rightarrow> ('s, 'w) dsl_flow" where
  "with_lifecycle_observer observer f = DslFlow (flow_steps f) (fst (flow_lifecycle f) @ [observer], snd (flow_lifecycle f))"

definition with_lifecycle_hooks :: "('s, 'w) lifecycle_hooks \<Rightarrow> ('s, 'w) dsl_flow \<Rightarrow> ('s, 'w) dsl_flow" where
  "with_lifecycle_hooks hooks f = DslFlow (flow_steps f) (fst (flow_lifecycle f), Some hooks)"

definition flow_step :: "('s, 'w) dsl_step \<Rightarrow> ('s, 'w) dsl_flow \<Rightarrow> ('s, 'w) dsl_flow" where
  "flow_step st = push_step (SAction (into_action st))"

definition flow_action :: "('s, 'w) act \<Rightarrow> ('s, 'w) dsl_flow \<Rightarrow> ('s, 'w) dsl_flow" where
  "flow_action a = push_step (SAction a)"

definition flow_action_outcome :: "('s, 'w) act \<Rightarrow> ('s, 'w) dsl_flow \<Rightarrow> ('s, 'w) dsl_flow" where
  "flow_action_outcome a = push_step (SAction a)"

definition flow_compensate :: "('s, 'w) act \<Rightarrow> ('s, 'w) act \<Rightarrow> ('s, 'w) dsl_flow \<Rightarrow> ('s, 'w) dsl_flow" where
  "flow_compensate run_action compensate_action = push_step (SActionWithCompensation run_action compensate_action)"

definition flow_retry :: "nat \<Rightarrow> duration \<Rightarrow> ('s, 'w) act \<Rightarrow> ('s, 'w) dsl_flow \<Rightarrow> ('s, 'w) dsl_flow" where
  "flow_retry max_retries initial_delay a = push_step (SRetry a max_retries initial_delay)"

definition flow_timeout :: "duration \<Rightarrow> ('s, 'w) act \<Rightarrow> ('s, 'w) dsl_flow \<Rightarrow> ('s, 'w) dsl_flow" where
  "flow_timeout duration a = push_step (STimeout a duration)"

text \<open>A throttle holds a permit of a shared semaphore while its action runs; the semaphore lives in the world.\<close>

record 'w flow_throttle =
  ft_acquire :: "'w \<Rightarrow> bool \<times> 'w"
  ft_release :: "'w \<Rightarrow> 'w"

definition throttle_new :: "(nat \<Rightarrow> 'w flow_throttle) \<Rightarrow> nat \<Rightarrow> 'w flow_throttle catga_result" where
  "throttle_new semaphore limit =
     (if limit = 0 then Inl (error_new Validation ''flow throttle limit must be greater than zero'') else Inr (semaphore limit))"

definition throttle_acquire :: "'w flow_throttle \<Rightarrow> 'w \<Rightarrow> unit catga_result \<times> 'w" where
  "throttle_acquire t w =
     (case ft_acquire t w of
        (True, w) \<Rightarrow> (Inr (), w)
      | (False, w) \<Rightarrow> (Inl (error_new Cancelled ''flow throttle is closed''), w))"

definition flow_throttle_step :: "'w flow_throttle \<Rightarrow> ('s, 'w) act \<Rightarrow> ('s, 'w) dsl_flow \<Rightarrow> ('s, 'w) dsl_flow" where
  "flow_throttle_step t a = flow_action (\<lambda>s w.
     case throttle_acquire t w of
       (Inl e, w) \<Rightarrow> (Inl e, s, w)
     | (Inr _, w) \<Rightarrow> (case a s w of (r, s, w) \<Rightarrow> (r, s, ft_release t w)))"

definition flow_send :: "('m \<Rightarrow> 'w \<Rightarrow> 'r catga_result \<times> 'w) \<Rightarrow> ('s \<Rightarrow> 'm) \<Rightarrow> ('s, 'w) dsl_flow \<Rightarrow> ('s, 'w) dsl_flow" where
  "flow_send mediator request = flow_action (\<lambda>s w.
     case mediator (request s) w of (Inl e, w) \<Rightarrow> (Inl e, s, w) | (Inr _, w) \<Rightarrow> (Inr (), s, w))"

definition flow_send_into ::
  "('m \<Rightarrow> 'w \<Rightarrow> 'r catga_result \<times> 'w) \<Rightarrow> ('s \<Rightarrow> 'm) \<Rightarrow> ('s \<Rightarrow> 'r \<Rightarrow> 's) \<Rightarrow> ('s, 'w) dsl_flow \<Rightarrow> ('s, 'w) dsl_flow" where
  "flow_send_into mediator request set_response = flow_action (\<lambda>s w.
     case mediator (request s) w of (Inl e, w) \<Rightarrow> (Inl e, s, w) | (Inr response, w) \<Rightarrow> (Inr (), set_response s response, w))"

definition flow_remote_send :: "('m \<Rightarrow> 'w \<Rightarrow> 'r catga_result \<times> 'w) \<Rightarrow> ('s \<Rightarrow> 'm) \<Rightarrow> ('s, 'w) dsl_flow \<Rightarrow> ('s, 'w) dsl_flow" where
  "flow_remote_send client request = flow_action (\<lambda>s w.
     case client (request s) w of (Inl e, w) \<Rightarrow> (Inl e, s, w) | (Inr _, w) \<Rightarrow> (Inr (), s, w))"

definition flow_remote_send_into ::
  "('m \<Rightarrow> 'w \<Rightarrow> 'r catga_result \<times> 'w) \<Rightarrow> ('s \<Rightarrow> 'm) \<Rightarrow> ('s \<Rightarrow> 'r \<Rightarrow> 's) \<Rightarrow> ('s, 'w) dsl_flow \<Rightarrow> ('s, 'w) dsl_flow" where
  "flow_remote_send_into client request set_response = flow_action (\<lambda>s w.
     case client (request s) w of (Inl e, w) \<Rightarrow> (Inl e, s, w) | (Inr response, w) \<Rightarrow> (Inr (), set_response s response, w))"

definition flow_publish :: "('e \<Rightarrow> 'w \<Rightarrow> unit catga_result \<times> 'w) \<Rightarrow> ('s \<Rightarrow> 'e) \<Rightarrow> ('s, 'w) dsl_flow \<Rightarrow> ('s, 'w) dsl_flow" where
  "flow_publish mediator event = flow_action (\<lambda>s w. case mediator (event s) w of (r, w) \<Rightarrow> (r, s, w))"

definition flow_if_else :: "('s \<Rightarrow> bool) \<Rightarrow> ('s, 'w) dsl_flow \<Rightarrow> ('s, 'w) dsl_flow \<Rightarrow> ('s, 'w) dsl_flow \<Rightarrow> ('s, 'w) dsl_flow" where
  "flow_if_else condition then_branch else_branch = push_step (SIf condition then_branch else_branch)"

text \<open>A repeated case value replaces the branch at the position of its first occurrence.\<close>

definition match_entry :: "('v \<rightharpoonup> nat) \<times> ('s, 'w) dsl_flow list \<Rightarrow> 'v \<times> ('s, 'w) dsl_flow \<Rightarrow> ('v \<rightharpoonup> nat) \<times> ('s, 'w) dsl_flow list" where
  "match_entry acc case_entry =
     (case acc of (positions, branches) \<Rightarrow> case case_entry of (v, branch) \<Rightarrow>
        case positions v of
          Some position \<Rightarrow> (positions, branches[position := branch])
        | None \<Rightarrow> (positions(v \<mapsto> length branches), branches @ [branch]))"

definition flow_match_on ::
  "('s \<Rightarrow> 'v) \<Rightarrow> ('v \<times> ('s, 'w) dsl_flow) list \<Rightarrow> ('s, 'w) dsl_flow \<Rightarrow> ('s, 'w) dsl_flow \<Rightarrow> ('s, 'w) dsl_flow" where
  "flow_match_on selector cases default_branch =
     (case foldl match_entry (Map.empty, []) cases of (positions, branches) \<Rightarrow>
        push_step (SMatch (\<lambda>s. positions (selector s)) branches default_branch))"

definition collect_parallel_branches :: "('s, 'w) dsl_flow list \<Rightarrow> ('s, 'w) dsl_flow list" where
  "collect_parallel_branches branches = take (max_dsl_parallel_branches + 1) branches"

text \<open>Cloning returns an equal state.\<close>

definition flow_parallel ::
  "('s, 'w) dsl_flow list \<Rightarrow> ('s \<Rightarrow> 's list \<Rightarrow> unit catga_result \<times> 's) \<Rightarrow> ('s, 'w) dsl_flow \<Rightarrow> ('s, 'w) dsl_flow" where
  "flow_parallel branches merge = push_step (SParallel (collect_parallel_branches branches) (\<lambda>s. s) merge)"

definition flow_when_all ::
  "('s, 'w) dsl_flow list \<Rightarrow> ('s \<Rightarrow> 's list \<Rightarrow> unit catga_result \<times> 's) \<Rightarrow> ('s, 'w) dsl_flow \<Rightarrow> ('s, 'w) dsl_flow" where
  "flow_when_all branches merge = flow_parallel branches merge"

definition flow_when_any ::
  "('s, 'w) dsl_flow list \<Rightarrow> ('s \<Rightarrow> 's \<Rightarrow> unit catga_result \<times> 's) \<Rightarrow> ('s, 'w) dsl_flow \<Rightarrow> ('s, 'w) dsl_flow" where
  "flow_when_any branches merge = push_step (SWhenAny (collect_parallel_branches branches) (\<lambda>s. s) merge)"

section \<open>Loops over items\<close>

text \<open>Items in order; a failed item ends the loop, or is handed to the handler when there is one.\<close>

fun for_items :: "(nat \<Rightarrow> catga_error \<Rightarrow> ('s, 'w) act) option \<Rightarrow> ('t \<Rightarrow> ('s, 'w) act) \<Rightarrow> nat \<Rightarrow> 't list \<Rightarrow> ('s, 'w) act" where
  "for_items on_error action index [] s w = (Inr (), s, w)"
| "for_items on_error action index (item # items) s w =
     (case action item s w of
        (Inr _, s, w) \<Rightarrow> for_items on_error action (index + 1) items s w
      | (Inl e, s, w) \<Rightarrow>
          (case on_error of
             None \<Rightarrow> (Inl e, s, w)
           | Some handler \<Rightarrow>
               (case handler index e s w of
                  (Inl e, s, w) \<Rightarrow> (Inl e, s, w)
                | (Inr _, s, w) \<Rightarrow> for_items on_error action (index + 1) items s w)))"

definition flow_for_each :: "('s \<Rightarrow> 't list) \<Rightarrow> ('t \<Rightarrow> ('s, 'w) act) \<Rightarrow> ('s, 'w) dsl_flow \<Rightarrow> ('s, 'w) dsl_flow" where
  "flow_for_each select action = push_step (SForEach (\<lambda>s w. for_items None action 0 (select s) s w))"

definition flow_for_each_continue_on_error ::
  "('s \<Rightarrow> 't list) \<Rightarrow> ('t \<Rightarrow> ('s, 'w) act) \<Rightarrow> (nat \<Rightarrow> catga_error \<Rightarrow> ('s, 'w) act) \<Rightarrow> ('s, 'w) dsl_flow \<Rightarrow> ('s, 'w) dsl_flow" where
  "flow_for_each_continue_on_error select action on_error =
     push_step (SForEach (\<lambda>s w. for_items (Some on_error) action 0 (select s) s w))"

fun encode_items :: "'t writes \<Rightarrow> 't list \<Rightarrow> bytes list catga_result" where
  "encode_items ser [] = Inr []"
| "encode_items ser (item # items) =
     (case mp_serialize ser item of
        Inl _ \<Rightarrow> Inl (error_new Validation ''replayable for_each item cannot be encoded'')
      | Inr bytes \<Rightarrow> bind_r (encode_items ser items) (\<lambda>rest. Inr (bytes # rest)))"

definition replayable_of ::
  "'t writes \<Rightarrow> 't reads \<Rightarrow> ('s \<Rightarrow> 't list) \<Rightarrow> ('t \<Rightarrow> ('s, 'w) act) \<Rightarrow> (nat \<Rightarrow> catga_error \<Rightarrow> ('s, 'w) act) option \<Rightarrow> ('s, 'w) replayable" where
  "replayable_of ser des select action on_error =
     \<lparr>rf_select = (\<lambda>s. encode_items ser (select s)),
      rf_action = (\<lambda>bytes s w. case mp_deserialize des bytes of
         Inl _ \<Rightarrow> (Inl (error_new Validation ''replayable for_each checkpoint item is invalid''), s, w)
       | Inr item \<Rightarrow> action item s w),
      rf_on_error = on_error\<rparr>"

definition flow_for_each_replayable ::
  "'t writes \<Rightarrow> 't reads \<Rightarrow> ('s \<Rightarrow> 't list) \<Rightarrow> ('t \<Rightarrow> ('s, 'w) act) \<Rightarrow> ('s, 'w) dsl_flow \<Rightarrow> ('s, 'w) dsl_flow" where
  "flow_for_each_replayable ser des select action = push_step (SReplayableForEach (replayable_of ser des select action None))"

definition flow_for_each_replayable_continue ::
  "'t writes \<Rightarrow> 't reads \<Rightarrow> ('s \<Rightarrow> 't list) \<Rightarrow> ('t \<Rightarrow> ('s, 'w) act) \<Rightarrow> (nat \<Rightarrow> catga_error \<Rightarrow> ('s, 'w) act)
   \<Rightarrow> ('s, 'w) dsl_flow \<Rightarrow> ('s, 'w) dsl_flow" where
  "flow_for_each_replayable_continue ser des select action on_error =
     push_step (SReplayableForEach (replayable_of ser des select action (Some on_error)))"

text \<open>A stream is the finite list of items it yields.\<close>

definition flow_for_each_stream :: "('s \<Rightarrow> 't list) \<Rightarrow> ('t \<Rightarrow> ('s, 'w) act) \<Rightarrow> ('s, 'w) dsl_flow \<Rightarrow> ('s, 'w) dsl_flow" where
  "flow_for_each_stream select action = push_step (SStreamForEach (\<lambda>s w. for_items None action 0 (select s) s w))"

section \<open>The runtime\<close>

record ('s, 'w) runtime =
  rt_timeout :: "duration \<Rightarrow> ('s, 'w) act \<Rightarrow> 's \<Rightarrow> 'w \<Rightarrow> unit catga_result option \<times> 's \<times> 'w"
  rt_sleep :: "duration \<Rightarrow> 'w \<Rightarrow> 'w"
  rt_order :: "nat \<Rightarrow> 'w \<Rightarrow> nat list"

text \<open>Every one of the concurrent branches completes once.\<close>

definition rt_fair :: "('s, 'w) runtime \<Rightarrow> bool" where
  "rt_fair rt \<longleftrightarrow> (\<forall>n w. distinct (rt_order rt n w) \<and> set (rt_order rt n w) = {..<n})"

text \<open>A batch of a concurrent stream: work completes in the order of the runtime and the first failure ends the batch.\<close>

fun run_batch :: "('s \<Rightarrow> 't \<Rightarrow> 'w \<Rightarrow> 'r catga_result \<times> 'w) \<Rightarrow> 's \<Rightarrow> 't list \<Rightarrow> nat list \<Rightarrow> 'w \<Rightarrow> (nat \<times> 'r) list catga_result \<times> 'w" where
  "run_batch work s items [] w = (Inr [], w)"
| "run_batch work s items (i # order) w =
     (case work s (items ! i) w of
        (Inl e, w) \<Rightarrow> (Inl e, w)
      | (Inr r, w) \<Rightarrow>
          (case run_batch work s items order w of
             (Inl e, w) \<Rightarrow> (Inl e, w)
           | (Inr rs, w) \<Rightarrow> (Inr ((i, r) # rs), w)))"

fun reduce_all :: "('s \<Rightarrow> 'r \<Rightarrow> unit catga_result \<times> 's) \<Rightarrow> 'r list \<Rightarrow> 's \<Rightarrow> unit catga_result \<times> 's" where
  "reduce_all reduce [] s = (Inr (), s)"
| "reduce_all reduce (r # rs) s = (case reduce s r of (Inl e, s) \<Rightarrow> (Inl e, s) | (Inr _, s) \<Rightarrow> reduce_all reduce rs s)"

function stream_batches ::
  "('s, 'w) runtime \<Rightarrow> nat \<Rightarrow> ('s \<Rightarrow> 't \<Rightarrow> 'w \<Rightarrow> 'r catga_result \<times> 'w) \<Rightarrow> ('s \<Rightarrow> 'r \<Rightarrow> unit catga_result \<times> 's)
   \<Rightarrow> 't list \<Rightarrow> ('s, 'w) act" where
  "stream_batches rt limit work reduce items s w =
     (if items = [] \<or> limit = 0 then (Inr (), s, w)
      else let batch = take limit items in
           case run_batch work s batch (rt_order rt (length batch) w) w of
             (Inl e, w) \<Rightarrow> (Inl e, s, w)
           | (Inr completed, w) \<Rightarrow>
               (case reduce_all reduce (map snd (sort_key fst completed)) s of
                  (Inl e, s) \<Rightarrow> (Inl e, s, w)
                | (Inr _, s) \<Rightarrow> stream_batches rt limit work reduce (drop limit items) s w))"
  by pat_completeness auto
termination by (relation "measure (\<lambda>(rt, limit, work, reduce, items, s, w). length items)") auto

definition flow_for_each_stream_concurrent ::
  "('s, 'w) runtime \<Rightarrow> nat \<Rightarrow> ('s \<Rightarrow> 't list) \<Rightarrow> ('s \<Rightarrow> 't \<Rightarrow> 'w \<Rightarrow> 'r catga_result \<times> 'w) \<Rightarrow> ('s \<Rightarrow> 'r \<Rightarrow> unit catga_result \<times> 's)
   \<Rightarrow> ('s, 'w) dsl_flow \<Rightarrow> ('s, 'w) dsl_flow catga_result" where
  "flow_for_each_stream_concurrent rt limit select work reduce f =
     (if limit = 0 then Inl (error_new Validation ''concurrent stream for_each limit must be greater than zero'')
      else Inr (push_step (SConcurrentStreamForEach (\<lambda>s w. stream_batches rt limit work reduce (select s) s w)) f))"

section \<open>Runs\<close>

definition validate_parallel_branch_count :: "nat \<Rightarrow> unit catga_result" where
  "validate_parallel_branch_count n =
     (if n > max_dsl_parallel_branches
      then Inl (error_new Validation ''DSL parallel branch count exceeds the supported limit'') else Inr ())"

function retry_action :: "('s, 'w) runtime \<Rightarrow> ('s, 'w) act \<Rightarrow> nat \<Rightarrow> duration \<Rightarrow> nat \<Rightarrow> ('s, 'w) act" where
  "retry_action rt action max_retries initial_delay retry s w =
     (case action s w of
        (Inr _, s, w) \<Rightarrow> (Inr (), s, w)
      | (Inl e, s, w) \<Rightarrow>
          if ce_code e = Transient \<and> retry < max_retries
          then let delay = retry_delay initial_delay retry
               in retry_action rt action max_retries initial_delay (retry + 1) s (if delay \<noteq> 0 then rt_sleep rt delay w else w)
          else (Inl e, s, w))"
  by pat_completeness auto
termination by (relation "measure (\<lambda>(rt, action, max_retries, initial_delay, retry, s, w). max_retries - retry)") auto

definition timeout_action :: "('s, 'w) runtime \<Rightarrow> duration \<Rightarrow> ('s, 'w) act \<Rightarrow> ('s, 'w) act" where
  "timeout_action rt duration action s w =
     (case rt_timeout rt duration action s w of
        (Some r, s, w) \<Rightarrow> (r, s, w)
      | (None, s, w) \<Rightarrow> (Inl (error_new Timeout ''flow action timed out''), s, w))"

text \<open>The branches of a parallel step, each on its copy of the state, in the order in which they complete.\<close>

fun run_in_order :: "('s, 'w) act list \<Rightarrow> 's \<Rightarrow> nat list \<Rightarrow> 'w \<Rightarrow> (nat \<rightharpoonup> unit catga_result \<times> 's) \<times> 'w" where
  "run_in_order runs s [] w = (Map.empty, w)"
| "run_in_order runs s (i # order) w =
     (case (runs ! i) s w of (r, s', w) \<Rightarrow>
        case run_in_order runs s order w of (results, w) \<Rightarrow> (results(i \<mapsto> (r, s')), w))"

fun first_failure :: "'e list \<Rightarrow> ('e \<Rightarrow> unit catga_result) \<Rightarrow> unit catga_result" where
  "first_failure [] f = Inr ()"
| "first_failure (x # xs) f = (case f x of Inl e \<Rightarrow> Inl e | Inr _ \<Rightarrow> first_failure xs f)"

definition join_branches ::
  "('s, 'w) runtime \<Rightarrow> ('s, 'w) act list \<Rightarrow> ('s \<Rightarrow> 's) \<Rightarrow> ('s \<Rightarrow> 's list \<Rightarrow> unit catga_result \<times> 's) \<Rightarrow> ('s, 'w) act" where
  "join_branches rt runs clone merge s w =
     (case validate_parallel_branch_count (length runs) of
        Inl e \<Rightarrow> (Inl e, s, w)
      | Inr _ \<Rightarrow>
          (case run_in_order runs (clone s) (rt_order rt (length runs) w) w of (results, w) \<Rightarrow>
             let joined = map (\<lambda>i. the (results i)) [0..<length runs] in
             case first_failure joined fst of
               Inl e \<Rightarrow> (Inl e, s, w)
             | Inr _ \<Rightarrow> (case merge s (map snd joined) of (r, s) \<Rightarrow> (r, s, w))))"

fun race_loop :: "('s, 'w) act list \<Rightarrow> 's \<Rightarrow> nat list \<Rightarrow> catga_error option \<Rightarrow> 'w \<Rightarrow> (nat \<times> 's) option catga_result \<times> 'w" where
  "race_loop runs s [] last_error w = (case last_error of Some e \<Rightarrow> (Inl e, w) | None \<Rightarrow> (Inr None, w))"
| "race_loop runs s (i # order) last_error w =
     (case (runs ! i) s w of
        (Inr _, s', w) \<Rightarrow> (Inr (Some (i, s')), w)
      | (Inl e, _, w) \<Rightarrow> race_loop runs s order (Some e) w)"

definition race_branches ::
  "('s, 'w) runtime \<Rightarrow> ('s, 'w) act list \<Rightarrow> ('s \<Rightarrow> 's) \<Rightarrow> ('s \<Rightarrow> 's \<Rightarrow> unit catga_result \<times> 's) \<Rightarrow> ('s, 'w) act" where
  "race_branches rt runs clone merge s w =
     (case validate_parallel_branch_count (length runs) of
        Inl e \<Rightarrow> (Inl e, s, w)
      | Inr _ \<Rightarrow>
          (case race_loop runs (clone s) (rt_order rt (length runs) w) None w of
             (Inl e, w) \<Rightarrow> (Inl e, s, w)
           | (Inr None, w) \<Rightarrow> (Inr (), s, w)
           | (Inr (Some (_, winner)), w) \<Rightarrow> (case merge s winner of (r, s) \<Rightarrow> (r, s, w))))"

definition select_nth :: "'a list \<Rightarrow> nat \<Rightarrow> 'a option" where
  "select_nth xs i = (if i < length xs then Some (xs ! i) else None)"

text \<open>The loop of \<open>run\<close> over the runs of the steps.\<close>

fun run_loop :: "('s, 'w) lifecycle \<Rightarrow> nat \<Rightarrow> ('s, 'w) act list \<Rightarrow> ('s, 'w) act" where
  "run_loop lc index [] s w = (case notify_flow_succeeded lc s w of (r, w) \<Rightarrow> (r, s, w))"
| "run_loop lc index (run_this # runs) s w =
     (case run_this s w of
        (Inr _, s, w) \<Rightarrow>
          (case notify_step_succeeded lc s index w of
             (Inl e, w) \<Rightarrow> (Inl e, s, w)
           | (Inr _, w) \<Rightarrow> run_loop lc (index + 1) runs s w)
      | (Inl e, s, w) \<Rightarrow>
          (case notify_step_failed lc s index e w of
             (Inl hook_error, w) \<Rightarrow> (Inl hook_error, s, w)
           | (Inr _, w) \<Rightarrow>
               (case notify_flow_failed lc s e w of
                  (Inl hook_error, w) \<Rightarrow> (Inl hook_error, s, w)
                | (Inr _, w) \<Rightarrow> (Inl e, s, w))))"

fun run_step :: "('s, 'w) runtime \<Rightarrow> ('s, 'w) step \<Rightarrow> ('s, 'w) act"
and run_flow :: "('s, 'w) runtime \<Rightarrow> ('s, 'w) dsl_flow \<Rightarrow> ('s, 'w) act" where
  "run_step rt (SActionWithCompensation action _) = action"
| "run_step rt (SAction action) = action"
| "run_step rt (SForEach run_all) = run_all"
| "run_step rt (SReplayableForEach operation) = (\<lambda>s w.
     case rf_select operation s of
       Inl e \<Rightarrow> (Inl e, s, w)
     | Inr items \<Rightarrow> for_items (rf_on_error operation) (rf_action operation) 0 items s w)"
| "run_step rt (SStreamForEach action) = action"
| "run_step rt (SConcurrentStreamForEach action) = action"
| "run_step rt (SRetry action max_retries initial_delay) = retry_action rt action max_retries initial_delay 0"
| "run_step rt (STimeout action duration) = timeout_action rt duration action"
| "run_step rt (SIf condition then_branch else_branch) =
     (\<lambda>s. if condition s then run_flow rt then_branch s else run_flow rt else_branch s)"
| "run_step rt (SMatch select_branch branches default_branch) = (\<lambda>s.
     case Option.bind (select_branch s) (select_nth (map (run_flow rt) branches)) of
       Some branch \<Rightarrow> branch s
     | None \<Rightarrow> run_flow rt default_branch s)"
| "run_step rt (SParallel branches clone_state merge) = join_branches rt (map (run_flow rt) branches) clone_state merge"
| "run_step rt (SWhenAny branches clone_state merge) = race_branches rt (map (run_flow rt) branches) clone_state merge"
| "run_flow rt (DslFlow steps lc) = run_loop lc 0 (map (run_step rt) steps)"

text \<open>A nested flow without lifecycle.\<close>

fun run_all_steps :: "('s, 'w) act list \<Rightarrow> ('s, 'w) act" where
  "run_all_steps [] s w = (Inr (), s, w)"
| "run_all_steps (run_this # runs) s w =
     (case run_this s w of (Inl e, s, w) \<Rightarrow> (Inl e, s, w) | (Inr _, s, w) \<Rightarrow> run_all_steps runs s w)"

definition run_sub_flow :: "('s, 'w) runtime \<Rightarrow> ('s, 'w) dsl_flow \<Rightarrow> ('s, 'w) act" where
  "run_sub_flow rt f = run_all_steps (map (run_step rt) (flow_steps f))"

section \<open>Compensation\<close>

fun compensate_loop :: "('s, 'w) step list \<Rightarrow> nat list \<Rightarrow> 's \<Rightarrow> 'w \<Rightarrow> 's \<times> 'w" where
  "compensate_loop steps [] s w = (s, w)"
| "compensate_loop steps (index # indices) s w =
     (case steps ! index of
        SActionWithCompensation _ compensate \<Rightarrow> (case compensate s w of (_, s, w) \<Rightarrow> compensate_loop steps indices s w)
      | _ \<Rightarrow> compensate_loop steps indices s w)"

definition compensate_steps :: "('s, 'w) step list \<Rightarrow> nat list \<Rightarrow> 's \<Rightarrow> 'w \<Rightarrow> 's \<times> 'w" where
  "compensate_steps steps completed s w = compensate_loop steps (rev completed) s w"

fun has_compensation :: "('s, 'w) step \<Rightarrow> bool" where
  "has_compensation (SActionWithCompensation _ _) = True"
| "has_compensation _ = False"

fun compensatable_loop ::
  "('s, 'w) runtime \<Rightarrow> ('s, 'w) dsl_flow \<Rightarrow> nat \<Rightarrow> ('s, 'w) step list \<Rightarrow> nat list \<Rightarrow> 's \<Rightarrow> 'w \<Rightarrow> flow_result \<times> 's \<times> 'w" where
  "compensatable_loop rt f step_index [] completed s w =
     (case notify_flow_succeeded (flow_lifecycle f) s w of
        (Inl e, w) \<Rightarrow> (flow_failure (u32_or_max (length (flow_steps f))) e, s, w)
      | (Inr _, w) \<Rightarrow> (flow_success (u32_or_max (length (flow_steps f))), s, w))"
| "compensatable_loop rt f step_index (st # steps) completed s w =
     (case run_step rt st s w of
        (Inr _, s, w) \<Rightarrow>
          (let completed = (if has_compensation st then completed @ [step_index] else completed) in
           case notify_step_succeeded (flow_lifecycle f) s step_index w of
             (Inl e, w) \<Rightarrow> (flow_failure (u32_or_max step_index) e, s, w)
           | (Inr _, w) \<Rightarrow> compensatable_loop rt f (step_index + 1) steps completed s w)
      | (Inl e, s, w) \<Rightarrow>
          (let w = (case notify_step_failed (flow_lifecycle f) s step_index e w of
                      (Inl _, w) \<Rightarrow> w
                    | (Inr _, w) \<Rightarrow> snd (notify_flow_failed (flow_lifecycle f) s e w)) in
           case compensate_steps (flow_steps f) completed s w of
             (s, w) \<Rightarrow> (flow_failure (u32_or_max step_index) e, s, w)))"

definition run_compensatable :: "('s, 'w) runtime \<Rightarrow> ('s, 'w) dsl_flow \<Rightarrow> 's \<Rightarrow> 'w \<Rightarrow> flow_result \<times> 's \<times> 'w" where
  "run_compensatable rt f s w = compensatable_loop rt f 0 (flow_steps f) [] s w"

section \<open>What a run does\<close>

text \<open>
  How far the steps get: through all of them, to a step that fails, or to a success hook that fails. Both runs of a
  flow and its runs with compensation are described by this.
\<close>

datatype ('s, 'w) stop = Finished 's 'w | StepError nat catga_error 's 'w | HookError nat catga_error 's 'w

fun run_until :: "('s, 'w) lifecycle \<Rightarrow> nat \<Rightarrow> ('s, 'w) act list \<Rightarrow> 's \<Rightarrow> 'w \<Rightarrow> ('s, 'w) stop" where
  "run_until lc index [] s w = Finished s w"
| "run_until lc index (run_this # runs) s w =
     (case run_this s w of
        (Inl e, s, w) \<Rightarrow> StepError index e s w
      | (Inr _, s, w) \<Rightarrow>
          (case notify_step_succeeded lc s index w of
             (Inl e, w) \<Rightarrow> HookError index e s w
           | (Inr _, w) \<Rightarrow> run_until lc (index + 1) runs s w))"

definition compensations :: "('s, 'w) step list \<Rightarrow> ('s, 'w) act list" where
  "compensations steps = List.map_filter (\<lambda>st. case st of SActionWithCompensation _ c \<Rightarrow> Some c | _ \<Rightarrow> None) steps"

definition undo :: "('s, 'w) act list \<Rightarrow> 's \<Rightarrow> 'w \<Rightarrow> 's \<times> 'w" where
  "undo cs s w = fold (\<lambda>c (s, w). snd (c s w)) cs (s, w)"

text \<open>Telling the observers and hooks that a step, and if no hook objects the flow, has failed.\<close>

definition told_failure :: "('s, 'w) lifecycle \<Rightarrow> 's \<Rightarrow> nat \<Rightarrow> catga_error \<Rightarrow> 'w \<Rightarrow> unit catga_result \<times> 'w" where
  "told_failure lc s index e w =
     (case notify_step_failed lc s index e w of (Inl h, w) \<Rightarrow> (Inl h, w) | (Inr _, w) \<Rightarrow> notify_flow_failed lc s e w)"

text \<open>What a saga does with the point its steps reached.\<close>

fun saga_outcome :: "('s, 'w) dsl_flow \<Rightarrow> ('s, 'w) stop \<Rightarrow> flow_result \<times> 's \<times> 'w" where
  "saga_outcome f (Finished s w) =
     (case notify_flow_succeeded (flow_lifecycle f) s w of
        (Inl e, w) \<Rightarrow> (flow_failure (u32_or_max (length (flow_steps f))) e, s, w)
      | (Inr _, w) \<Rightarrow> (flow_success (u32_or_max (length (flow_steps f))), s, w))"
| "saga_outcome f (StepError i e s w) =
     (flow_failure (u32_or_max i) e,
      undo (rev (compensations (take i (flow_steps f)))) s (snd (told_failure (flow_lifecycle f) s i e w)))"
| "saga_outcome f (HookError i e s w) = (flow_failure (u32_or_max i) e, s, w)"

lemma run_loop_until:
  "run_loop lc index runs s w =
     (case run_until lc index runs s w of
        Finished s w \<Rightarrow> (case notify_flow_succeeded lc s w of (r, w) \<Rightarrow> (r, s, w))
      | StepError i e s w \<Rightarrow> (case told_failure lc s i e w of (Inl h, w) \<Rightarrow> (Inl h, s, w) | (Inr _, w) \<Rightarrow> (Inl e, s, w))
      | HookError i e s w \<Rightarrow> (Inl e, s, w))"
  by (induction lc index runs s w rule: run_loop.induct) (auto simp: told_failure_def split: prod.splits sum.splits)

lemma compensate_loop_undo:
  "(\<And>i. i \<in> set is \<Longrightarrow> has_compensation (steps ! i)) \<Longrightarrow> compensate_loop steps is s w = undo (compensations (map (\<lambda>i. steps ! i) is)) s w"
proof (induction "is" arbitrary: s w)
  case (Cons i "is")
  from Cons.prems have "has_compensation (steps ! i)" by simp
  then obtain a c where i: "steps ! i = SActionWithCompensation a c" by (cases "steps ! i") auto
  have "compensate_loop steps is s w = undo (compensations (map ((!) steps) is)) s w" for s w using Cons by simp
  then show ?case by (simp add: i compensations_def map_filter_simps undo_def split: prod.splits)
qed (simp add: undo_def compensations_def map_filter_simps)

lemma compensations_filter:
  "compensations (map (\<lambda>i. steps ! i) (filter (\<lambda>i. has_compensation (steps ! i)) is)) = compensations (map (\<lambda>i. steps ! i) is)"
proof (induction "is")
  case (Cons i "is")
  then show ?case by (cases "steps ! i") (simp_all add: compensations_def map_filter_simps)
qed simp

lemma compensations_rev: "compensations (rev steps) = rev (compensations steps)"
  by (simp add: compensations_def map_filter_def rev_map rev_filter)

lemma map_nth_take: "i \<le> length xs \<Longrightarrow> map (\<lambda>k. xs ! k) [0..<i] = take i xs"
  by (rule nth_equalityI) simp_all

lemma compensate_completed:
  assumes "i \<le> length steps"
  shows "compensate_steps steps (filter (\<lambda>k. has_compensation (steps ! k)) [0..<i]) s w = undo (rev (compensations (take i steps))) s w"
  unfolding compensate_steps_def
  using assms by (subst compensate_loop_undo)
    (simp_all add: rev_map [symmetric] compensations_rev compensations_filter map_nth_take)

lemma compensatable_loop_until:
  assumes "steps = drop index (flow_steps f)" "index \<le> length (flow_steps f)"
  shows "compensatable_loop rt f index steps (filter (\<lambda>k. has_compensation (flow_steps f ! k)) [0..<index]) s w =
    saga_outcome f (run_until (flow_lifecycle f) index (map (run_step rt) steps) s w)"
  using assms
proof (induction steps arbitrary: index s w)
  case Nil
  then show ?case by (simp split: prod.splits sum.splits)
next
  case (Cons st steps)
  have st: "st = flow_steps f ! index" "steps = drop (Suc index) (flow_steps f)" "index < length (flow_steps f)"
    using Cons.prems by (metis Cons_nth_drop_Suc drop_eq_Nil le_neq_implies_less list.inject list.simps(3) linorder_not_le)+
  let ?done = "\<lambda>n. filter (\<lambda>k. has_compensation (flow_steps f ! k)) [0..<n]"
  have d: "(if has_compensation st then ?done index @ [index] else ?done index) = ?done (index + 1)" by (simp add: st(1))
  obtain r s' w' where run: "run_step rt st s w = (r, s', w')" by (metis prod_cases3)
  show ?case
  proof (cases r)
    case (Inl e)
    obtain h w'' where "notify_step_failed (flow_lifecycle f) s' index e w' = (h, w'')" by fastforce
    then show ?thesis using Inl run st(3) by (cases h)
      (simp_all add: compensate_completed told_failure_def split: prod.splits)
  next
    case (Inr u)
    obtain h w'' where h: "notify_step_succeeded (flow_lifecycle f) s' index w' = (h, w'')" by fastforce
    show ?thesis
    proof (cases h)
      case (Inr v)
      have "compensatable_loop rt f (index + 1) steps (?done (index + 1)) s' w'' =
        saga_outcome f (run_until (flow_lifecycle f) (index + 1) (map (run_step rt) steps) s' w'')"
        using st(2,3) by (intro Cons.IH) simp_all
      then show ?thesis using \<open>r = Inr u\<close> run h Inr d by (simp del: upt_Suc filter.simps)
    qed (use Inr run h in simp)
  qed
qed

text \<open>
  Property C33: a run with compensation is a saga. When a step fails, the compensations of exactly the completed
  steps before it run, each once and in reverse order, whatever the failure hooks and the compensations themselves
  answer, and the result is the failing position and the original error. When every step succeeds nothing is
  compensated. A success hook that fails ends the run without any compensation.
\<close>

theorem run_compensatable_saga:
  "run_compensatable rt f s w = saga_outcome f (run_until (flow_lifecycle f) 0 (map (run_step rt) (flow_steps f)) s w)"
  using compensatable_loop_until [of "flow_steps f" 0 f rt s w] by (simp add: run_compensatable_def)

section \<open>Concurrent branches\<close>

lemma run_in_order_outcomes:
  assumes "run_in_order runs s order w = (results, w')" "distinct order"
  shows "dom results = set order \<and> (\<forall>i r s'. results i = Some (r, s') \<longrightarrow> (\<exists>w1 w2. (runs ! i) s w1 = (r, s', w2)))"
  using assms
proof (induction order arbitrary: w results)
  case (Cons i order)
  obtain r s' w1 where i: "(runs ! i) s w = (r, s', w1)" by (metis prod_cases3)
  obtain rest w2 where rest: "run_in_order runs s order w1 = (rest, w2)" by fastforce
  have IH: "dom rest = set order \<and> (\<forall>i r s'. rest i = Some (r, s') \<longrightarrow> (\<exists>w1 w2. (runs ! i) s w1 = (r, s', w2)))"
    using Cons.IH [OF _ _] Cons.prems i rest by (auto split: prod.splits)
  have "results = rest(i \<mapsto> (r, s'))" using Cons.prems(1) i rest by simp
  then have "dom results = set (i # order)" using IH by simp
  moreover have "\<exists>w1 w2. (runs ! j) s w1 = (r', s'', w2)" if "results j = Some (r', s'')" for j r' s''
    using that IH i \<open>results = _\<close> by (cases "j = i") auto
  ultimately show ?case by blast
qed simp

lemma first_failure_Inl:
  "first_failure xs f = Inl e \<longleftrightarrow> (\<exists>k < length xs. f (xs ! k) = Inl e \<and> (\<forall>j < k. \<exists>u. f (xs ! j) = Inr u))"
proof (induction xs)
  case (Cons x xs)
  show ?case
  proof (cases "f x")
    case (Inl e')
    then show ?thesis by (auto simp: nth_Cons' split: if_splits)
  next
    case (Inr u)
    have "(\<exists>k < Suc (length xs). f ((x # xs) ! k) = Inl e \<and> (\<forall>j < k. \<exists>u. f ((x # xs) ! j) = Inr u)) \<longleftrightarrow>
        (\<exists>k < length xs. f (xs ! k) = Inl e \<and> (\<forall>j < k. \<exists>u. f (xs ! j) = Inr u))" (is "?l \<longleftrightarrow> ?r")
    proof
      assume ?l
      then obtain k where k: "k < Suc (length xs)" "f ((x # xs) ! k) = Inl e" "\<forall>j < k. \<exists>u. f ((x # xs) ! j) = Inr u" by blast
      then obtain k' where "k = Suc k'" using Inr by (cases k) auto
      then show ?r using k by (intro exI [of _ k']) (auto dest: spec [of _ "Suc _"])
    next
      assume ?r
      then obtain k where "k < length xs" "f (xs ! k) = Inl e" "\<forall>j < k. \<exists>u. f (xs ! j) = Inr u" by blast
      then show ?l using Inr by (intro exI [of _ "Suc k"]) (auto simp: less_Suc_eq_0_disj)
    qed
    then show ?thesis using Cons Inr by simp
  qed
qed simp

lemma first_failure_Inr: "first_failure xs f = Inr u \<longleftrightarrow> (\<forall>x \<in> set xs. \<exists>v. f x = Inr v)"
  by (induction xs) (auto split: sum.splits)

lemma first_failure_cases:
  "(case first_failure xs f of Inl e \<Rightarrow> g (Inl e) | Inr _ \<Rightarrow> h) =
     (if \<forall>x \<in> set xs. is_ok (f x) then h else g (f (xs ! (LEAST i. \<not> is_ok (f (xs ! i))))))"
proof (cases "first_failure xs f")
  case (Inl e)
  then obtain k where k: "k < length xs" "f (xs ! k) = Inl e" "\<forall>j < k. \<exists>u. f (xs ! j) = Inr u"
    by (auto simp: first_failure_Inl)
  have "(LEAST i. \<not> is_ok (f (xs ! i))) = k"
  proof (rule Least_equality)
    fix j assume "\<not> is_ok (f (xs ! j))"
    then show "k \<le> j" using k(3) by (cases "k \<le> j") auto
  qed (simp add: k(2))
  moreover have "\<not> (\<forall>x \<in> set xs. is_ok (f x))" using k(2) nth_mem [OF k(1)] by (intro notI) (auto dest: bspec)
  ultimately show ?thesis using Inl k(2) by (simp only: if_False sum.case)
next
  case (Inr u)
  then have "\<forall>x \<in> set xs. is_ok (f x)" by (auto simp: first_failure_Inr is_ok_iff)
  then show ?thesis using Inr by simp
qed


text \<open>A runtime in which branches complete last to first and timers never expire.\<close>

definition inline_runtime :: "('s, 'w) runtime" where
  "inline_runtime =
     \<lparr>rt_timeout = (\<lambda>d a s w. case a s w of (r, s, w) \<Rightarrow> (Some r, s, w)), rt_sleep = (\<lambda>d w. w), rt_order = (\<lambda>n w. rev [0..<n])\<rparr>"

lemma inline_runtime_fair: "rt_fair inline_runtime"
  by (auto simp: rt_fair_def inline_runtime_def)

definition sample_branches :: "(nat list, nat) dsl_flow list" where
  "sample_branches =
     [flow_action (\<lambda>s w. (Inr (), s @ [w], w + 1)) flow_new_dsl, flow_action (\<lambda>s w. (Inr (), s @ [w + 10], w + 1)) flow_new_dsl]"


end
