(* ===== verification/Dsl_Recovery.thy ===== *)
theory Dsl_Recovery
  imports Dsl_Flow
begin

text \<open>
  Checkpointed runs of the flow DSL: persisting progress (\<open>crates/catga-core/src/flow/dsl_recovery.rs\<close>), parallel
  branches with progress of their own (\<open>flow/dsl_parallel_recovery.rs\<close>), races (\<open>flow/dsl_when_any.rs\<close>) and
  \<open>DslFlow::run_checkpointed\<close> (\<open>flow/dsl.rs\<close>). A run uses the store it was given, whose operations may
  fail at any time, or the local slot of a parallel branch; the caller holds the flow, so that nothing else
  changes its progress, and the actions of the flow act on the state and on the world but not on the store. Additions to a nesting depth are
  not checked for overflow, since a path has at most 32 levels.
\<close>

section \<open>Progress stores\<close>

record ('p, 'w) progress_store =
  ps_create :: "dsl_step_progress \<Rightarrow> 'p \<Rightarrow> bool catga_result \<times> 'p"
  ps_update :: "int \<Rightarrow> dsl_step_progress \<Rightarrow> 'p \<Rightarrow> bool catga_result \<times> 'p"
  ps_get :: "string \<Rightarrow> u32 \<Rightarrow> 'p \<Rightarrow> dsl_step_progress option catga_result \<times> 'p"
  ps_now :: "'w \<Rightarrow> systime"

definition branch_create :: "dsl_step_progress \<Rightarrow> dsl_step_progress option \<Rightarrow> bool catga_result \<times> dsl_step_progress option" where
  "branch_create p current =
     (if dp_kind p = TerminalState then (Inr True, current)
      else case current of
             None \<Rightarrow> (Inr True, Some p)
           | Some saved \<Rightarrow> if dp_step_index p > dp_step_index saved then (Inr True, Some p) else (Inr False, current))"

definition branch_update :: "int \<Rightarrow> dsl_step_progress \<Rightarrow> dsl_step_progress option \<Rightarrow> bool catga_result \<times> dsl_step_progress option" where
  "branch_update expected_version nxt current =
     (case current of
        None \<Rightarrow> (Inr False, current)
      | Some saved \<Rightarrow>
          (case i64_checked_add expected_version 1 of
             None \<Rightarrow> (Inr False, current)
           | Some successor \<Rightarrow>
               if dp_flow_id saved \<noteq> dp_flow_id nxt \<or> dp_step_index saved \<noteq> dp_step_index nxt \<or>
                  dp_version saved \<noteq> expected_version \<or> dp_version nxt \<noteq> successor
               then (Inr False, current)
               else (Inr True, Some nxt)))"

definition branch_get :: "string \<Rightarrow> u32 \<Rightarrow> dsl_step_progress option \<Rightarrow> dsl_step_progress option catga_result" where
  "branch_get flow_id step_index current =
     Inr (case current of
            Some saved \<Rightarrow> if dp_flow_id saved = flow_id \<and> dp_step_index saved = step_index then Some saved else None
          | None \<Rightarrow> None)"

definition branch_delete :: "string \<Rightarrow> u32 \<Rightarrow> dsl_step_progress option \<Rightarrow> bool catga_result \<times> dsl_step_progress option" where
  "branch_delete flow_id step_index current =
     (case current of
        Some saved \<Rightarrow> if dp_flow_id saved = flow_id \<and> dp_step_index saved = step_index then (Inr True, None) else (Inr False, current)
      | None \<Rightarrow> (Inr False, current))"

text \<open>The store of a run: the one it was given, or the slot of a branch.\<close>

datatype 'p store = Shared 'p | Slot "dsl_step_progress option"

fun store_create :: "('p, 'w) progress_store \<Rightarrow> dsl_step_progress \<Rightarrow> 'p store \<Rightarrow> bool catga_result \<times> 'p store" where
  "store_create ps p (Shared m) = (case ps_create ps p m of (r, m) \<Rightarrow> (r, Shared m))"
| "store_create ps p (Slot current) = (case branch_create p current of (r, current) \<Rightarrow> (r, Slot current))"

fun store_update :: "('p, 'w) progress_store \<Rightarrow> int \<Rightarrow> dsl_step_progress \<Rightarrow> 'p store \<Rightarrow> bool catga_result \<times> 'p store" where
  "store_update ps expected nxt (Shared m) = (case ps_update ps expected nxt m of (r, m) \<Rightarrow> (r, Shared m))"
| "store_update ps expected nxt (Slot current) = (case branch_update expected nxt current of (r, current) \<Rightarrow> (r, Slot current))"

fun store_get :: "('p, 'w) progress_store \<Rightarrow> string \<Rightarrow> u32 \<Rightarrow> 'p store \<Rightarrow> dsl_step_progress option catga_result \<times> 'p store" where
  "store_get ps flow_id step_index (Shared m) = (case ps_get ps flow_id step_index m of (r, m) \<Rightarrow> (r, Shared m))"
| "store_get ps flow_id step_index (Slot current) = (branch_get flow_id step_index current, Slot current)"

record 's state_codec =
  sc_encode :: "'s \<Rightarrow> bytes catga_result"
  sc_decode :: "bytes \<Rightarrow> 's catga_result"

record 's checkpoint_context =
  cx_flow_id :: string
  cx_top_level_step :: u32
  cx_codec :: "'s state_codec"

section \<open>Persisting progress\<close>

definition max_checkpoint_replayable_items :: nat where
  "max_checkpoint_replayable_items = 65536"

definition max_checkpoint_replayable_item_bytes :: nat where
  "max_checkpoint_replayable_item_bytes = 1024 * 1024"

definition max_checkpoint_replayable_items_bytes :: nat where
  "max_checkpoint_replayable_items_bytes = 1024 * 1024"

definition max_checkpoint_cas_retries :: nat where
  "max_checkpoint_cas_retries = 3"

fun validate_items_loop :: "nat \<Rightarrow> bytes list \<Rightarrow> unit catga_result" where
  "validate_items_loop total_bytes [] = Inr ()"
| "validate_items_loop total_bytes (item # items) =
     (if length item > max_checkpoint_replayable_item_bytes
      then Inl (invalid ''replayable for_each item exceeds the checkpoint size limit'')
      else bind_r (ok_or (invalid ''replayable for_each items exceed the checkpoint size limit'')
             (usize_checked_add total_bytes (length item))) (\<lambda>total_bytes.
           if total_bytes > max_checkpoint_replayable_items_bytes
           then Inl (invalid ''replayable for_each items exceed the checkpoint size limit'')
           else validate_items_loop total_bytes items))"

definition validate_replayable_for_each_items :: "bytes list \<Rightarrow> unit catga_result" where
  "validate_replayable_for_each_items items =
     (if length items > max_checkpoint_replayable_items
      then Inl (invalid ''replayable for_each item count exceeds the checkpoint limit'')
      else validate_items_loop 0 items)"

fun cas_loop :: "('p, 'w) progress_store \<Rightarrow> 's checkpoint_context \<Rightarrow> bytes \<Rightarrow> bool \<Rightarrow> nat \<Rightarrow> 'w \<Rightarrow> 'p store \<Rightarrow> unit catga_result \<times> 'p store" where
  "cas_loop ps cx payload checkpoint_frame 0 w st =
     (Inl (error_new Conflict ''DSL checkpoint cursor update conflicted after bounded retries''), st)"
| "cas_loop ps cx payload checkpoint_frame (Suc retries) w st =
     (case store_get ps (cx_flow_id cx) (cx_top_level_step cx) st of
        (Inl e, st) \<Rightarrow> (Inl e, st)
      | (Inr None, st) \<Rightarrow> (Inl (error_new Conflict ''DSL checkpoint disappeared while updating its cursor''), st)
      | (Inr (Some current), st) \<Rightarrow>
          (case (if checkpoint_frame
                 then bind_r (progress_next_version payload (ps_now ps w) current) (\<lambda>p. Inr (with_checkpoint_frame payload p))
                 else completed_application_state payload (ps_now ps w) current) of
             Inl e \<Rightarrow> (Inl e, st)
           | Inr nxt \<Rightarrow>
               (case store_update ps (dp_version current) nxt st of
                  (Inl e, st) \<Rightarrow> (Inl e, st)
                | (Inr True, st) \<Rightarrow> (Inr (), st)
                | (Inr False, st) \<Rightarrow> cas_loop ps cx payload checkpoint_frame retries w st)))"

definition persist_checkpoint_payload ::
  "('p, 'w) progress_store \<Rightarrow> 's checkpoint_context \<Rightarrow> bytes \<Rightarrow> bool \<Rightarrow> 'w \<Rightarrow> 'p store \<Rightarrow> unit catga_result \<times> 'p store" where
  "persist_checkpoint_payload ps cx payload checkpoint_frame w st =
     (let p = progress_new (cx_flow_id cx) (cx_top_level_step cx) payload (ps_now ps w) in
      case store_create ps (if checkpoint_frame then with_checkpoint_frame payload p else p) st of
        (Inl e, st) \<Rightarrow> (Inl e, st)
      | (Inr True, st) \<Rightarrow> (Inr (), st)
      | (Inr False, st) \<Rightarrow> cas_loop ps cx payload checkpoint_frame max_checkpoint_cas_retries w st)"

definition persist_completed_checkpoint ::
  "('p, 'w) progress_store \<Rightarrow> 's checkpoint_context \<Rightarrow> 's \<Rightarrow> 'w \<Rightarrow> 'p store \<Rightarrow> unit catga_result \<times> 'p store" where
  "persist_completed_checkpoint ps cx s w st =
     (case sc_encode (cx_codec cx) s of
        Inl e \<Rightarrow> (Inl e, st)
      | Inr payload \<Rightarrow> persist_checkpoint_payload ps cx payload False w st)"

text \<open>Encoding the state and the cursor into a frame and persisting it.\<close>

definition persist_frame ::
  "('p, 'w) progress_store \<Rightarrow> 's checkpoint_context \<Rightarrow> checkpoint_level list \<Rightarrow> 's \<Rightarrow> checkpoint_work \<Rightarrow> 'w \<Rightarrow> 'p store
   \<Rightarrow> unit catga_result \<times> 'p store" where
  "persist_frame ps cx levels s work w st =
     (case bind_r (sc_encode (cx_codec cx) s) (\<lambda>state. frame_encode levels state work) of
        Inl e \<Rightarrow> (Inl e, st)
      | Inr payload \<Rightarrow> persist_checkpoint_payload ps cx payload True w st)"

section \<open>Replayable loops\<close>

type_synonym ('s, 'p, 'w) cp_act = "'s \<Rightarrow> 'p store \<Rightarrow> 'w \<Rightarrow> unit catga_result \<times> 's \<times> 'p store \<times> 'w"

definition replay_item :: "('s, 'w) replayable \<Rightarrow> nat \<Rightarrow> bytes \<Rightarrow> ('s, 'w) act" where
  "replay_item operation index item s w =
     (case rf_action operation item s w of
        (Inr _, s, w) \<Rightarrow> (Inr (), s, w)
      | (Inl e, s, w) \<Rightarrow>
          (case rf_on_error operation of
             None \<Rightarrow> (Inl e, s, w)
           | Some on_error \<Rightarrow> on_error index e s w))"

function replay_loop ::
  "('p, 'w) progress_store \<Rightarrow> 's checkpoint_context \<Rightarrow> ('s, 'w) replayable \<Rightarrow> bytes list \<Rightarrow> checkpoint_level list \<Rightarrow> u32 \<Rightarrow> u32 \<Rightarrow> ('s, 'p, 'w) cp_act" where
  "replay_loop ps cx operation items levels tot next_index s st w =
     (if next_index < tot
      then (case select_nth items (unat next_index) of
              None \<Rightarrow> (Inl (invalid ''replayable for_each cursor is outside its saved items''), s, st, w)
            | Some item \<Rightarrow>
                (case replay_item operation (unat next_index) item s w of
                   (Inl e, s, w) \<Rightarrow> (Inl e, s, st, w)
                 | (Inr _, s, w) \<Rightarrow>
                     (case checked_add next_index 1 of
                        None \<Rightarrow> (Inl (invalid ''replayable for_each item index exceeds u32''), s, st, w)
                      | Some next_index \<Rightarrow>
                          (case persist_frame ps cx levels s (WorkReplayable next_index items) w st of
                             (Inl e, st) \<Rightarrow> (Inl e, s, st, w)
                           | (Inr _, st) \<Rightarrow> replay_loop ps cx operation items levels tot next_index s st w))))
      else (Inr (), s, st, w))"
  by pat_completeness auto
termination
  by (relation "measure (\<lambda>(ps, cx, operation, items, levels, tot, next_index, s, st, w). unat tot - unat next_index)")
    (auto simp: word_less_nat_alt dest: checked_add_Some_unat)

definition run_checkpointed_replayable ::
  "('p, 'w) progress_store \<Rightarrow> 's checkpoint_context \<Rightarrow> ('s, 'w) replayable \<Rightarrow> checkpoint_work option \<Rightarrow> checkpoint_level list \<Rightarrow> ('s, 'p, 'w) cp_act" where
  "run_checkpointed_replayable ps cx operation work levels s st w =
     (case (case work of
              Some (WorkReplayable next_index items) \<Rightarrow> Inr (next_index, items)
            | Some _ \<Rightarrow> Inl (invalid ''DSL checkpoint cursor does not describe a replayable for_each step'')
            | None \<Rightarrow> bind_r (rf_select operation s) (\<lambda>items. Inr (0, items))) of
        Inl e \<Rightarrow> (Inl e, s, st, w)
      | Inr (next_index, items) \<Rightarrow>
          (case bind_r (validate_replayable_for_each_items items) (\<lambda>_.
                ok_or (invalid ''replayable for_each item count exceeds u32'') (u32_try_from (length items))) of
             Inl e \<Rightarrow> (Inl e, s, st, w)
           | Inr tot \<Rightarrow>
               if next_index > tot
               then (Inl (invalid ''replayable for_each cursor is outside its saved items''), s, st, w)
               else replay_loop ps cx operation items levels tot next_index s st w))"

section \<open>Parallel branches with progress\<close>

definition max_parallel_branch_payload_bytes :: nat where
  "max_parallel_branch_payload_bytes = 1024 * 1024"

definition validate_payload_size_len :: "nat \<Rightarrow> unit catga_result" where
  "validate_payload_size_len payload_len =
     (if payload_len > max_parallel_branch_payload_bytes
      then Inl (invalid ''parallel branch checkpoint payload exceeds the size limit'') else Inr ())"

definition validate_payload_size :: "bytes \<Rightarrow> unit catga_result" where
  "validate_payload_size payload = validate_payload_size_len (length payload)"

text \<open>The slot a branch starts from.\<close>

definition from_saved :: "systime \<Rightarrow> branch_progress option \<Rightarrow> dsl_step_progress option catga_result" where
  "from_saved now saved =
     (case saved of
        Some (BranchCompleted state) \<Rightarrow> bind_r (validate_payload_size state) (\<lambda>_. Inr None)
      | Some (BranchInProgress step_index checkpoint_frame payload) \<Rightarrow>
          bind_r (validate_payload_size payload) (\<lambda>_.
          bind_r (if checkpoint_frame
                  then bind_r (frame_decode payload) (\<lambda>frame.
                         if frame = None then Inl (invalid ''parallel branch checkpoint payload has no internal frame'') else Inr ())
                  else Inr ()) (\<lambda>_.
            let p = progress_new ''branch'' step_index payload now
            in Inr (Some (if checkpoint_frame then with_checkpoint_frame payload p else p))))
      | None \<Rightarrow> Inr None)"

fun add_payloads :: "catga_error \<Rightarrow> nat \<Rightarrow> branch_progress list \<Rightarrow> nat catga_result" where
  "add_payloads overflow tot [] = Inr tot"
| "add_payloads overflow tot (b # bs) =
     bind_r (ok_or overflow (usize_checked_add tot (length (branch_payload b)))) (\<lambda>tot. add_payloads overflow tot bs)"

definition others :: "nat \<Rightarrow> 'a option list \<Rightarrow> 'a list" where
  "others index xs = List.map_filter (\<lambda>(i, x). if i = index then None else x) (enumerate 0 xs)"

definition validate_replacement_payload :: "branch_progress option list \<Rightarrow> nat \<Rightarrow> nat \<Rightarrow> unit catga_result" where
  "validate_replacement_payload saved index replacement_len =
     bind_r (validate_payload_size_len replacement_len) (\<lambda>_.
     bind_r (add_payloads (invalid ''parallel branch checkpoint payload size overflow'') replacement_len (others index saved)) (\<lambda>tot.
       if tot > max_parallel_branch_payload_bytes
       then Inl (invalid ''parallel branch checkpoint payloads exceed the aggregate size limit'') else Inr ()))"

fun check_payloads :: "nat \<Rightarrow> branch_progress list \<Rightarrow> nat catga_result" where
  "check_payloads tot [] = Inr tot"
| "check_payloads tot (b # bs) =
     bind_r (validate_payload_size (branch_payload b)) (\<lambda>_.
     bind_r (ok_or (invalid ''parallel branch checkpoint payload size overflow'') (usize_checked_add tot (length (branch_payload b))))
       (\<lambda>tot. check_payloads tot bs))"

definition validate_saved_progress :: "branch_progress option list \<Rightarrow> unit catga_result" where
  "validate_saved_progress saved =
     bind_r (check_payloads 0 (List.map_filter id saved)) (\<lambda>tot.
       if tot > max_parallel_branch_payload_bytes
       then Inl (invalid ''parallel branch checkpoint payloads exceed the aggregate size limit'') else Inr ())"

definition saved_progress :: "branch_progress option list \<Rightarrow> nat \<Rightarrow> dsl_step_progress \<Rightarrow> branch_progress catga_result" where
  "saved_progress saved index p =
     bind_r (validate_replacement_payload saved index (length (dp_payload p))) (\<lambda>_.
       Inr (BranchInProgress (dp_step_index p) (dp_kind p = CheckpointFrame) (dp_payload p)))"

definition encode_parallel_progress ::
  "'s checkpoint_context \<Rightarrow> 's \<Rightarrow> branch_progress option list \<Rightarrow> checkpoint_level list \<Rightarrow> bytes catga_result" where
  "encode_parallel_progress cx s saved levels =
     bind_r (validate_saved_progress saved) (\<lambda>_.
     bind_r (sc_encode (cx_codec cx) s) (\<lambda>state. frame_encode levels state (WorkParallelBranches saved)))"

definition record_first_error :: "catga_error option \<Rightarrow> unit catga_result \<Rightarrow> catga_error option" where
  "record_first_error first_error result =
     (case first_error of Some e \<Rightarrow> Some e | None \<Rightarrow> (case result of Inl e \<Rightarrow> Some e | Inr _ \<Rightarrow> None))"

text \<open>The saved branches: finished ones are decoded, the others start from their slots.\<close>

fun prepare_branches ::
  "'s state_codec \<Rightarrow> systime \<Rightarrow> nat \<Rightarrow> branch_progress option list \<Rightarrow> ('s option list \<times> (nat \<times> dsl_step_progress option) list) catga_result" where
  "prepare_branches codec now index [] = Inr ([], [])"
| "prepare_branches codec now index (b # bs) =
     (case b of
        Some (BranchCompleted encoded) \<Rightarrow>
          bind_r (validate_payload_size encoded) (\<lambda>_.
          case sc_decode codec encoded of
            Inl _ \<Rightarrow> Inl (invalid ''parallel branch checkpoint state is invalid'')
          | Inr s \<Rightarrow> bind_r (prepare_branches codec now (index + 1) bs) (\<lambda>(states, pending). Inr (Some s # states, pending)))
      | _ \<Rightarrow>
          bind_r (from_saved now b) (\<lambda>slot.
          bind_r (prepare_branches codec now (index + 1) bs) (\<lambda>(states, pending). Inr (None # states, (index, slot) # pending))))"

type_synonym ('s, 'p, 'w) cp_run = "'s \<Rightarrow> 'p store \<Rightarrow> 'w \<Rightarrow> 's catga_result \<times> 'p store \<times> 'w"

fun slot_of :: "'p store \<Rightarrow> dsl_step_progress option" where
  "slot_of (Slot p) = p"
| "slot_of (Shared _) = None"

text \<open>What a completed branch changes: its saved progress, its state and the first error.\<close>

definition settle_branch ::
  "'s state_codec \<Rightarrow> nat \<Rightarrow> 's catga_result \<Rightarrow> dsl_step_progress option
   \<Rightarrow> branch_progress option list \<times> 's option list \<times> catga_error option \<Rightarrow> branch_progress option list \<times> 's option list \<times> catga_error option" where
  "settle_branch codec index result slot acc =
     (case acc of (saved, states, first_error) \<Rightarrow>
      let local_progress = (case slot of None \<Rightarrow> Inr None | Some p \<Rightarrow> bind_r (saved_progress saved index p) (\<lambda>b. Inr (Some b)));
          (saved, states, first_error) =
            (case result of
               Inl e \<Rightarrow> (saved, states, record_first_error first_error (Inl e))
             | Inr branch_state \<Rightarrow>
                 (case sc_encode codec branch_state of
                    Inl e \<Rightarrow> (saved, states, record_first_error first_error (Inl e))
                  | Inr encoded \<Rightarrow>
                      (case validate_replacement_payload saved index (length encoded) of
                         Inl e \<Rightarrow> (saved, states, record_first_error first_error (Inl e))
                       | Inr _ \<Rightarrow> (saved[index := Some (BranchCompleted encoded)], states[index := Some branch_state], first_error))))
      in case local_progress of
           Inl e \<Rightarrow> (saved, states, record_first_error first_error (Inl e))
         | Inr b \<Rightarrow> (if states ! index = None then saved[index := b] else saved, states, first_error))"

fun parallel_loop ::
  "('p, 'w) progress_store \<Rightarrow> 's checkpoint_context \<Rightarrow> ('s, 'p, 'w) cp_run list \<Rightarrow> checkpoint_level list \<Rightarrow> 's \<Rightarrow> 's
   \<Rightarrow> (nat \<times> dsl_step_progress option) list \<Rightarrow> branch_progress option list \<times> 's option list \<times> catga_error option \<Rightarrow> 'p store \<Rightarrow> 'w
   \<Rightarrow> ('s option list \<times> catga_error option) \<times> 'p store \<times> 'w" where
  "parallel_loop ps cx runs levels s initial [] acc st w = (snd acc, st, w)"
| "parallel_loop ps cx runs levels s initial ((index, slot) # pending) acc st w =
     (case (runs ! index) initial (Slot slot) w of (result, branch_store, w) \<Rightarrow>
        case settle_branch (cx_codec cx) index result (slot_of branch_store) acc of (saved, states, first_error) \<Rightarrow>
          (case (case encode_parallel_progress cx s saved levels of
                   Inl e \<Rightarrow> (Inl e, st)
                 | Inr payload \<Rightarrow> persist_checkpoint_payload ps cx payload True w st) of (persisted, st) \<Rightarrow>
             parallel_loop ps cx runs levels s initial pending (saved, states, record_first_error first_error persisted) st w))"

fun all_completed :: "'s option list \<Rightarrow> 's list catga_result" where
  "all_completed [] = Inr []"
| "all_completed (x # xs) =
     (case x of
        None \<Rightarrow> Inl (invalid ''parallel checkpoint has an incomplete branch'')
      | Some s \<Rightarrow> bind_r (all_completed xs) (\<lambda>rest. Inr (s # rest)))"

definition run_checkpointed_parallel ::
  "('s, 'w) runtime \<Rightarrow> ('p, 'w) progress_store \<Rightarrow> 's checkpoint_context \<Rightarrow> ('s, 'p, 'w) cp_run list \<Rightarrow> ('s \<Rightarrow> 's) \<Rightarrow> ('s \<Rightarrow> 's list \<Rightarrow> unit catga_result \<times> 's)
   \<Rightarrow> checkpoint_work option \<Rightarrow> checkpoint_level list \<Rightarrow> ('s, 'p, 'w) cp_act" where
  "run_checkpointed_parallel rt ps cx runs clone_state merge work levels s st w =
     (if length runs > max_dsl_parallel_branches
      then (Inl (invalid ''parallel branch count exceeds the checkpoint limit''), s, st, w)
      else
        case (case work of
                Some (WorkParallel states) \<Rightarrow> Inr (map (map_option BranchCompleted) states)
              | Some (WorkParallelBranches branches) \<Rightarrow> Inr branches
              | Some _ \<Rightarrow> Inl (invalid ''DSL checkpoint cursor does not describe a parallel step'')
              | None \<Rightarrow> Inr (replicate (length runs) None)) of
          Inl e \<Rightarrow> (Inl e, s, st, w)
        | Inr saved \<Rightarrow>
            if length saved \<noteq> length runs
            then (Inl (invalid ''parallel branch count does not match its saved checkpoint''), s, st, w)
            else
              case bind_r (validate_saved_progress saved) (\<lambda>_. prepare_branches (cx_codec cx) (ps_now ps w) 0 saved) of
                Inl e \<Rightarrow> (Inl e, s, st, w)
              | Inr (states, pending) \<Rightarrow>
                  (case parallel_loop ps cx runs levels s (clone_state s)
                          (map (\<lambda>i. pending ! i) (rt_order rt (length pending) w)) (saved, states, None) st w of
                     ((states, first_error), st, w) \<Rightarrow>
                       (case first_error of
                          Some e \<Rightarrow> (Inl e, s, st, w)
                        | None \<Rightarrow>
                            (case all_completed states of
                               Inl e \<Rightarrow> (Inl e, s, st, w)
                             | Inr completed \<Rightarrow> (case merge s completed of (r, s) \<Rightarrow> (r, s, st, w))))))"

section \<open>Races with progress\<close>

definition run_checkpointed_when_any ::
  "('s, 'w) runtime \<Rightarrow> ('p, 'w) progress_store \<Rightarrow> 's checkpoint_context \<Rightarrow> ('s, 'w) act list \<Rightarrow> ('s \<Rightarrow> 's) \<Rightarrow> ('s \<Rightarrow> 's \<Rightarrow> unit catga_result \<times> 's)
   \<Rightarrow> checkpoint_work option \<Rightarrow> checkpoint_level list \<Rightarrow> ('s, 'p, 'w) cp_act" where
  "run_checkpointed_when_any rt ps cx runs clone_state merge work levels s st w =
     (case work of
        Some (WorkWhenAny winner encoded_state) \<Rightarrow>
          if \<not> unat winner < length runs
          then (Inl (invalid ''when_any checkpoint winner index is outside its branches''), s, st, w)
          else (case sc_decode (cx_codec cx) encoded_state of
                  Inl _ \<Rightarrow> (Inl (invalid ''when_any checkpoint winner state is invalid''), s, st, w)
                | Inr winner_state \<Rightarrow> (case merge s winner_state of (r, s) \<Rightarrow> (r, s, st, w)))
      | Some _ \<Rightarrow> (Inl (invalid ''DSL checkpoint cursor does not describe a when_any step''), s, st, w)
      | None \<Rightarrow>
          (case race_loop runs (clone_state s) (rt_order rt (length runs) w) None w of
             (Inl e, w) \<Rightarrow> (Inl e, s, st, w)
           | (Inr None, w) \<Rightarrow> (Inr (), s, st, w)
           | (Inr (Some (winner, winner_state)), w) \<Rightarrow>
               (case bind_r (ok_or (invalid ''when_any winner index exceeds u32'') (u32_try_from winner)) (\<lambda>winner.
                     bind_r (sc_encode (cx_codec cx) s) (\<lambda>state.
                     bind_r (sc_encode (cx_codec cx) winner_state) (\<lambda>encoded.
                       frame_encode levels state (WorkWhenAny winner encoded)))) of
                  Inl e \<Rightarrow> (Inl e, s, st, w)
                | Inr payload \<Rightarrow>
                    (case persist_checkpoint_payload ps cx payload True w st of
                       (Inl e, st) \<Rightarrow> (Inl e, s, st, w)
                     | (Inr _, st) \<Rightarrow> (case merge s winner_state of (r, s) \<Rightarrow> (r, s, st, w))))))"

section \<open>The end of a run\<close>

definition dsl_terminal_step_index :: u32 where
  "dsl_terminal_step_index = 4294967295"

definition max_dsl_terminal_bytes :: nat where
  "max_dsl_terminal_bytes = 1024 * 1024"

definition default_branch_code :: u32 where
  "default_branch_code = 4294967295"

definition serialize_terminal :: "bytes writes" where
  "serialize_terminal = serialize_object 1 write_blob"

definition deserialize_terminal :: "bytes reads" where
  "deserialize_terminal = deserialize_object 1 read_blob"

definition top_level_step_index :: "nat \<Rightarrow> u32 catga_result" where
  "top_level_step_index index =
     bind_r (ok_or (error_new Internal ''DSL step index exceeds u32'') (u32_try_from index)) (\<lambda>index.
       if index = dsl_terminal_step_index then Inl (invalid ''DSL step index is reserved for the terminal record'') else Inr index)"

definition read_terminal :: "dsl_step_progress \<Rightarrow> bytes catga_result" where
  "read_terminal p =
     (if dp_kind p \<noteq> TerminalState
      then Inl (error_new Conflict ''DSL terminal progress slot is not a terminal record'')
      else case mp_deserialize deserialize_terminal (dp_payload p) of
             Inl e \<Rightarrow> Inl (error_with_details (invalid ''DSL terminal record is invalid'') (mp_error_text e))
           | Inr state \<Rightarrow> Inr state)"

definition load_checkpoint_terminal :: "('p, 'w) progress_store \<Rightarrow> string \<Rightarrow> 'p store \<Rightarrow> bytes option catga_result \<times> 'p store" where
  "load_checkpoint_terminal ps flow_id st =
     (case store_get ps flow_id dsl_terminal_step_index st of
        (Inl e, st) \<Rightarrow> (Inl e, st)
      | (Inr None, st) \<Rightarrow> (Inr None, st)
      | (Inr (Some p), st) \<Rightarrow> (bind_r (read_terminal p) (\<lambda>state. Inr (Some state)), st))"

definition persist_checkpoint_terminal ::
  "('p, 'w) progress_store \<Rightarrow> string \<Rightarrow> bytes \<Rightarrow> 'w \<Rightarrow> 'p store \<Rightarrow> (bytes \<times> bool) catga_result \<times> 'p store" where
  "persist_checkpoint_terminal ps flow_id terminal w st =
     (case mp_serialize serialize_terminal terminal of
        Inl e \<Rightarrow> (Inl (error_with_details (error_new Internal ''encode DSL terminal record'') (mp_error_text e)), st)
      | Inr payload \<Rightarrow>
          if length payload > max_dsl_terminal_bytes
          then (Inl (invalid ''DSL terminal record exceeds the size limit''), st)
          else
            (case store_create ps (with_terminal payload (progress_new flow_id dsl_terminal_step_index [] (ps_now ps w))) st of
               (Inl e, st) \<Rightarrow> (Inl e, st)
             | (Inr True, st) \<Rightarrow> (Inr (terminal, True), st)
             | (Inr False, st) \<Rightarrow>
                 (case load_checkpoint_terminal ps flow_id st of
                    (Inl e, st) \<Rightarrow> (Inl e, st)
                  | (Inr None, st) \<Rightarrow> (Inl (error_new Conflict ''DSL terminal record disappeared while completing the flow''), st)
                  | (Inr (Some terminal), st) \<Rightarrow> (Inr (terminal, False), st))))"

section \<open>Checkpointed runs\<close>

text \<open>
  \<open>selected_checkpoint_branch\<close>: the branch that the saved path names, or the one the state selects. A branch is
  whatever runs it.
\<close>

definition selected_if :: "('s \<Rightarrow> bool) \<Rightarrow> 'b \<Rightarrow> 'b \<Rightarrow> 's \<Rightarrow> checkpoint_level list option \<Rightarrow> nat \<Rightarrow> ('b \<times> u32) catga_result" where
  "selected_if condition then_branch else_branch s cursor depth =
     (let saved_branch = map_option lv_branch (Option.bind cursor (\<lambda>levels. select_nth levels depth));
          branch = (case saved_branch of Some b \<Rightarrow> b | None \<Rightarrow> if condition s then 0 else 1)
      in if branch = 0 then Inr (then_branch, 0)
         else if branch = 1 then Inr (else_branch, 1)
         else Inl (invalid ''DSL checkpoint selected an invalid if branch''))"

definition selected_match ::
  "('s \<Rightarrow> nat option) \<Rightarrow> 'b list \<Rightarrow> 'b \<Rightarrow> 's \<Rightarrow> checkpoint_level list option \<Rightarrow> nat \<Rightarrow> ('b \<times> u32) catga_result" where
  "selected_match select_branch branches default_branch s cursor depth =
     (let saved_branch = map_option lv_branch (Option.bind cursor (\<lambda>levels. select_nth levels depth))
      in bind_r (case saved_branch of
            Some b \<Rightarrow> Inr b
          | None \<Rightarrow>
              (case select_branch s of
                 Some index \<Rightarrow> ok_or (invalid ''DSL checkpoint match branch index exceeds u32'') (u32_try_from index)
               | None \<Rightarrow> Inr default_branch_code)) (\<lambda>branch.
         if branch = default_branch_code then Inr (default_branch, default_branch_code)
         else (case select_nth branches (unat branch) of
                 Some selected \<Rightarrow> Inr (selected, branch)
               | None \<Rightarrow> Inl (invalid ''DSL checkpoint selected an invalid match branch''))))"

definition nested_checkpoint_payload :: "'s state_codec \<Rightarrow> 's \<Rightarrow> checkpoint_level list \<Rightarrow> bytes catga_result" where
  "nested_checkpoint_payload codec s levels = bind_r (sc_encode codec s) (\<lambda>state. frame_encode levels state WorkBranch)"

definition at_child :: "nat \<Rightarrow> u32 \<Rightarrow> checkpoint_level list \<Rightarrow> checkpoint_level list" where
  "at_child depth next_step levels = take (depth + 1) (levels[depth := (levels ! depth)\<lparr>lv_next_step := next_step\<rparr>])"

text \<open>The loop over the children of a branch: the cursor and the levels pass from child to child.\<close>

type_synonym ('s, 'p, 'w) child_runner =
  "u32 \<Rightarrow> checkpoint_level list \<Rightarrow> checkpoint_work option \<Rightarrow> 's \<Rightarrow> 'p store \<Rightarrow> 'w
   \<Rightarrow> unit catga_result \<times> checkpoint_level list \<times> checkpoint_work option \<times> 's \<times> 'p store \<times> 'w"

fun children_loop ::
  "('s, 'p, 'w) child_runner list \<Rightarrow> nat \<Rightarrow> checkpoint_level list \<Rightarrow> checkpoint_work option \<Rightarrow> 's \<Rightarrow> 'p store \<Rightarrow> 'w
   \<Rightarrow> unit catga_result \<times> checkpoint_level list \<times> 's \<times> 'p store \<times> 'w" where
  "children_loop [] index levels work s st w = (Inr (), levels, s, st, w)"
| "children_loop (child # children) index levels work s st w =
     (case u32_try_from index of
        None \<Rightarrow> (Inl (invalid ''DSL checkpoint child index exceeds u32''), levels, s, st, w)
      | Some child_index \<Rightarrow>
          (case child child_index levels work s st w of
             (Inl e, levels, work, s, st, w) \<Rightarrow> (Inl e, levels, s, st, w)
           | (Inr _, levels, work, s, st, w) \<Rightarrow> children_loop children (index + 1) levels work s st w))"

definition plain_child :: "('p, 'w) progress_store \<Rightarrow> 's checkpoint_context \<Rightarrow> ('s, 'w) act \<Rightarrow> nat \<Rightarrow> ('s, 'p, 'w) child_runner" where
  "plain_child ps cx run depth child_index levels work s st w =
     (case run s w of
        (Inl e, s, w) \<Rightarrow> (Inl e, levels, work, s, st, w)
      | (Inr _, s, w) \<Rightarrow>
          (case checked_add child_index 1 of
             None \<Rightarrow> (Inl (invalid ''DSL checkpoint child index exceeds u32''), levels, work, s, st, w)
           | Some next_step \<Rightarrow>
               let levels = at_child depth next_step levels in
               (case nested_checkpoint_payload (cx_codec cx) s levels of
                  Inl e \<Rightarrow> (Inl e, levels, work, s, st, w)
                | Inr payload \<Rightarrow>
                    (case persist_checkpoint_payload ps cx payload True w st of (r, st) \<Rightarrow> (r, levels, work, s, st, w)))))"

text \<open>A child with a cursor of its own takes the work that was saved for the path.\<close>

definition cursor_child :: "(checkpoint_work option \<Rightarrow> checkpoint_level list \<Rightarrow> ('s, 'p, 'w) cp_act) \<Rightarrow> nat \<Rightarrow> ('s, 'p, 'w) child_runner" where
  "cursor_child run depth child_index levels work s st w =
     (let levels = at_child depth child_index levels in
      case run work levels s st w of (r, s, st, w) \<Rightarrow> (r, levels, None, s, st, w))"

definition cp_skip :: "string \<Rightarrow> ('s, 'p, 'w) child_runner" where
  "cp_skip m child_index levels work s st w = (Inl (invalid m), levels, work, s, st, w)"

text \<open>The levels of a run that continues in a nested branch, or why it cannot.\<close>

definition enter_nested :: "nat \<Rightarrow> u32 \<Rightarrow> u32 \<Rightarrow> checkpoint_level list \<Rightarrow> checkpoint_level list catga_result" where
  "enter_nested depth child_index nested_code levels =
     (let next_depth = depth + 1 in
      if next_depth \<ge> max_checkpoint_path_depth then Inl (invalid ''DSL checkpoint path exceeds the maximum depth'')
      else
        let nested_next_step = (case select_nth levels next_depth of Some level \<Rightarrow> lv_next_step level | None \<Rightarrow> 0)
        in Inr (at_child depth child_index levels @ [\<lparr>lv_branch = nested_code, lv_next_step = nested_next_step\<rparr>]))"

definition branch_start :: "checkpoint_level list \<Rightarrow> nat \<Rightarrow> nat \<Rightarrow> nat catga_result" where
  "branch_start levels depth steps =
     (case select_nth levels depth of
        None \<Rightarrow> Inl (invalid ''DSL checkpoint cursor is missing a branch level'')
      | Some level \<Rightarrow>
          let start = unat (lv_next_step level) in
          if start > steps then Inl (invalid ''DSL checkpoint step index is outside its branch'') else Inr start)"

text \<open>Where a run continues: after the last completed step, or inside the step with a saved cursor.\<close>

fun find_checkpoint ::
  "('p, 'w) progress_store \<Rightarrow> 's state_codec \<Rightarrow> string \<Rightarrow> 's \<Rightarrow> nat \<Rightarrow> 'p store \<Rightarrow> ('s \<times> nat \<times> checkpoint_frame option) catga_result \<times> 'p store" where
  "find_checkpoint ps codec flow_id initial 0 st = (Inr (initial, 0, None), st)"
| "find_checkpoint ps codec flow_id initial (Suc index) st =
     (case top_level_step_index index of
        Inl e \<Rightarrow> (Inl e, st)
      | Inr step_index \<Rightarrow>
          (case store_get ps flow_id step_index st of
             (Inl e, st) \<Rightarrow> (Inl e, st)
           | (Inr None, st) \<Rightarrow> find_checkpoint ps codec flow_id initial index st
           | (Inr (Some saved), st) \<Rightarrow>
               (if dp_kind saved = CheckpointFrame
                then bind_r (frame_decode (dp_payload saved)) (\<lambda>frame.
                     bind_r (ok_or (invalid ''DSL checkpoint frame record has no internal frame payload'') frame) (\<lambda>frame.
                     bind_r (sc_decode codec (cf_state frame)) (\<lambda>s. Inr (s, index, Some frame))))
                else bind_r (sc_decode codec (dp_payload saved)) (\<lambda>s. Inr (s, usize_saturating_add index 1, None)), st)))"

text \<open>The loop over the top-level steps.\<close>

type_synonym ('s, 'p, 'w) step_runner = "'s checkpoint_context \<Rightarrow> checkpoint_frame option \<Rightarrow> ('s, 'p, 'w) cp_act"

fun steps_loop ::
  "('p, 'w) progress_store \<Rightarrow> ('s, 'w) lifecycle \<Rightarrow> string \<Rightarrow> 's state_codec \<Rightarrow> ('s, 'p, 'w) step_runner list \<Rightarrow> nat \<Rightarrow> checkpoint_frame option \<Rightarrow> ('s, 'p, 'w) cp_act" where
  "steps_loop ps lc flow_id codec [] index cursor s st w = (Inr (), s, st, w)"
| "steps_loop ps lc flow_id codec (run_this # runs) index cursor s st w =
     (case top_level_step_index index of
        Inl e \<Rightarrow> (Inl e, s, st, w)
      | Inr step_index \<Rightarrow>
          let cx = \<lparr>cx_flow_id = flow_id, cx_top_level_step = step_index, cx_codec = codec\<rparr> in
          (case run_this cx cursor s st w of
             (Inl e, s, st, w) \<Rightarrow>
               (case notify_step_failed lc s index e w of
                  (Inl h, w) \<Rightarrow> (Inl h, s, st, w)
                | (Inr _, w) \<Rightarrow>
                    (case notify_flow_failed lc s e w of
                       (Inl h, w) \<Rightarrow> (Inl h, s, st, w)
                     | (Inr _, w) \<Rightarrow> (Inl e, s, st, w)))
           | (Inr _, s, st, w) \<Rightarrow>
               (case notify_step_succeeded lc s index w of
                  (Inl e, w) \<Rightarrow> (Inl e, s, st, w)
                | (Inr _, w) \<Rightarrow>
                    (case persist_completed_checkpoint ps cx s w st of
                       (Inl e, st) \<Rightarrow> (Inl e, s, st, w)
                     | (Inr _, st) \<Rightarrow> steps_loop ps lc flow_id codec runs (index + 1) None s st w))))"

definition finish_run :: "('p, 'w) progress_store \<Rightarrow> ('s, 'w) lifecycle \<Rightarrow> string \<Rightarrow> 's state_codec \<Rightarrow> ('s, 'p, 'w) cp_run" where
  "finish_run ps lc flow_id codec s st w =
     (case sc_encode codec s of
        Inl e \<Rightarrow> (Inl e, st, w)
      | Inr encoded \<Rightarrow>
          (case persist_checkpoint_terminal ps flow_id encoded w st of
             (Inl e, st) \<Rightarrow> (Inl e, st, w)
           | (Inr (terminal, False), st) \<Rightarrow> (sc_decode codec terminal, st, w)
           | (Inr (terminal, True), st) \<Rightarrow>
               (case notify_flow_succeeded lc s w of (r, w) \<Rightarrow> (bind_r r (\<lambda>_. Inr s), st, w))))"

definition run_checkpointed_inner ::
  "('p, 'w) progress_store \<Rightarrow> ('s, 'w) lifecycle \<Rightarrow> ('s, 'p, 'w) step_runner list \<Rightarrow> string \<Rightarrow> 's state_codec \<Rightarrow> ('s, 'p, 'w) cp_run" where
  "run_checkpointed_inner ps lc runs flow_id codec initial st w =
     (case load_checkpoint_terminal ps flow_id st of
        (Inl e, st) \<Rightarrow> (Inl e, st, w)
      | (Inr (Some terminal), st) \<Rightarrow> (sc_decode codec terminal, st, w)
      | (Inr None, st) \<Rightarrow>
          (case find_checkpoint ps codec flow_id initial (length runs) st of
             (Inl e, st) \<Rightarrow> (Inl e, st, w)
           | (Inr (s, start, cursor), st) \<Rightarrow>
               (case steps_loop ps lc flow_id codec (drop start runs) start cursor s st w of
                  (Inl e, s, st, w) \<Rightarrow> (Inl e, st, w)
                | (Inr _, s, st, w) \<Rightarrow> finish_run ps lc flow_id codec s st w)))"

definition lift_act :: "('s, 'w) act \<Rightarrow> ('s, 'p, 'w) cp_act" where
  "lift_act run s st w = (case run s w of (r, s, w) \<Rightarrow> (r, s, st, w))"

text \<open>How a branch runs: the context, its depth, and the levels and the work of the path it is on.\<close>

type_synonym ('s, 'p, 'w) branch_runner =
  "'s checkpoint_context \<Rightarrow> nat \<Rightarrow> checkpoint_level list \<Rightarrow> checkpoint_work option \<Rightarrow> 's \<Rightarrow> 'p store \<Rightarrow> 'w
   \<Rightarrow> unit catga_result \<times> checkpoint_level list \<times> 's \<times> 'p store \<times> 'w"

type_synonym ('s, 'p, 'w) cp_selection = "'s \<Rightarrow> checkpoint_level list option \<Rightarrow> nat \<Rightarrow> (('s, 'p, 'w) branch_runner \<times> u32) catga_result"

definition refuse :: "string \<Rightarrow> ('s, 'p, 'w) step_runner" where
  "refuse m cx cursor s st w = (Inl (invalid m), s, st, w)"

definition cursor_step :: "('s checkpoint_context \<Rightarrow> checkpoint_work option \<Rightarrow> checkpoint_level list \<Rightarrow> ('s, 'p, 'w) cp_act) \<Rightarrow> ('s, 'p, 'w) step_runner" where
  "cursor_step run cx cursor =
     run cx (map_option cf_work cursor) (case cursor of Some frame \<Rightarrow> cf_levels frame | None \<Rightarrow> [])"

definition branch_step :: "('s, 'p, 'w) cp_selection \<Rightarrow> ('s, 'p, 'w) step_runner" where
  "branch_step selection cx cursor s st w =
     (case selection s (map_option cf_levels cursor) 0 of
        Inl e \<Rightarrow> (Inl e, s, st, w)
      | Inr (branch, branch_code) \<Rightarrow>
          let (levels, work) = (case cursor of Some frame \<Rightarrow> (cf_levels frame, Some (cf_work frame)) | None \<Rightarrow> ([], None));
              levels = (if levels = [] then [\<lparr>lv_branch = branch_code, lv_next_step = 0\<rparr>] else levels) in
          (case branch cx 0 levels work s st w of (r, _, s, st, w) \<Rightarrow> (r, s, st, w)))"

definition nested_child :: "('s, 'p, 'w) cp_selection \<Rightarrow> 's checkpoint_context \<Rightarrow> nat \<Rightarrow> ('s, 'p, 'w) child_runner" where
  "nested_child selection cx depth child_index levels work s st w =
     (case selection s (Some levels) (depth + 1) of
        Inl e \<Rightarrow> (Inl e, levels, work, s, st, w)
      | Inr (nested_branch, nested_code) \<Rightarrow>
          (case enter_nested depth child_index nested_code levels of
             Inl e \<Rightarrow> (Inl e, levels, work, s, st, w)
           | Inr levels \<Rightarrow>
               (case nested_branch cx (depth + 1) levels work s st w of
                  (r, levels, s, st, w) \<Rightarrow> (r, levels, None, s, st, w))))"

definition branch_loop :: "('s checkpoint_context \<Rightarrow> nat \<Rightarrow> ('s, 'p, 'w) child_runner) list \<Rightarrow> ('s, 'p, 'w) branch_runner" where
  "branch_loop children cx depth levels work s st w =
     (case branch_start levels depth (length children) of
        Inl e \<Rightarrow> (Inl e, levels, s, st, w)
      | Inr start \<Rightarrow> children_loop (drop start (map (\<lambda>child. child cx depth) children)) start levels work s st w)"

fun cp_step :: "('s, 'w) runtime \<Rightarrow> ('p, 'w) progress_store \<Rightarrow> ('s, 'w) step \<Rightarrow> ('s, 'p, 'w) step_runner"
and cp_child :: "('s, 'w) runtime \<Rightarrow> ('p, 'w) progress_store \<Rightarrow> ('s, 'w) step \<Rightarrow> 's checkpoint_context \<Rightarrow> nat \<Rightarrow> ('s, 'p, 'w) child_runner"
and cp_branch :: "('s, 'w) runtime \<Rightarrow> ('p, 'w) progress_store \<Rightarrow> ('s, 'w) dsl_flow \<Rightarrow> ('s, 'p, 'w) branch_runner"
and run_checkpointed :: "('s, 'w) runtime \<Rightarrow> ('p, 'w) progress_store \<Rightarrow> ('s, 'w) dsl_flow \<Rightarrow> string \<Rightarrow> 's state_codec \<Rightarrow> ('s, 'p, 'w) cp_run" where
  "cp_step rt ps (SStreamForEach _) = refuse ''checkpointed for_each_stream requires a replay cursor''"
| "cp_step rt ps (SConcurrentStreamForEach _) = refuse ''checkpointed concurrent stream for_each requires a replay cursor''"
| "cp_step rt ps (SForEach _) = refuse ''checkpointed for_each requires for_each_replayable''"
| "cp_step rt ps (SReplayableForEach operation) = cursor_step (\<lambda>cx. run_checkpointed_replayable ps cx operation)"
| "cp_step rt ps (SParallel branches clone_state merge) = cursor_step (\<lambda>cx.
     run_checkpointed_parallel rt ps cx (map (\<lambda>b. run_checkpointed rt ps b ''branch'' (cx_codec cx)) branches) clone_state merge)"
| "cp_step rt ps (SWhenAny branches clone_state merge) = cursor_step (\<lambda>cx.
     run_checkpointed_when_any rt ps cx (map (run_sub_flow rt) branches) clone_state merge)"
| "cp_step rt ps (SIf condition then_branch else_branch) =
     branch_step (selected_if condition (cp_branch rt ps then_branch) (cp_branch rt ps else_branch))"
| "cp_step rt ps (SMatch select_branch branches default_branch) =
     branch_step (selected_match select_branch (map (cp_branch rt ps) branches) (cp_branch rt ps default_branch))"
| "cp_step rt ps plain = (\<lambda>cx cursor. lift_act (run_step rt plain))"
| "cp_child rt ps (SForEach _) = (\<lambda>cx depth. cp_skip ''checkpointed for_each requires for_each_replayable'')"
| "cp_child rt ps (SReplayableForEach operation) = (\<lambda>cx. cursor_child (run_checkpointed_replayable ps cx operation))"
| "cp_child rt ps (SParallel branches clone_state merge) = (\<lambda>cx. cursor_child
     (run_checkpointed_parallel rt ps cx (map (\<lambda>b. run_checkpointed rt ps b ''branch'' (cx_codec cx)) branches) clone_state merge))"
| "cp_child rt ps (SWhenAny branches clone_state merge) = (\<lambda>cx. cursor_child
     (run_checkpointed_when_any rt ps cx (map (run_sub_flow rt) branches) clone_state merge))"
| "cp_child rt ps (SStreamForEach _) = (\<lambda>cx depth. cp_skip ''checkpointed nested foreach operation has no replay cursor'')"
| "cp_child rt ps (SConcurrentStreamForEach _) = (\<lambda>cx depth. cp_skip ''checkpointed nested foreach operation has no replay cursor'')"
| "cp_child rt ps (SIf condition then_branch else_branch) =
     nested_child (selected_if condition (cp_branch rt ps then_branch) (cp_branch rt ps else_branch))"
| "cp_child rt ps (SMatch select_branch branches default_branch) =
     nested_child (selected_match select_branch (map (cp_branch rt ps) branches) (cp_branch rt ps default_branch))"
| "cp_child rt ps plain = (\<lambda>cx. plain_child ps cx (run_step rt plain))"
| "cp_branch rt ps (DslFlow steps lc) = branch_loop (map (cp_child rt ps) steps)"
| "run_checkpointed rt ps (DslFlow steps lc) = run_checkpointed_inner ps lc (map (cp_step rt ps) steps)"

end
