(* ===== verification/Dsl_Recovery_Correct.thy ===== *)
theory Dsl_Recovery_Correct
  imports Dsl_Recovery
begin

text \<open>
  What checkpointed runs of the flow DSL promise over any progress store that keeps the contract of
  \<open>DslStepProgressStore\<close>: the records they write are well typed, and a finished flow stays finished unless its
  final state is too large to be read back.
\<close>

section \<open>The contract of a progress store\<close>

text \<open>
  An operation answers what it did, or fails. A failed write may or may not have been applied, as when the answer
  of a remote store is lost.
\<close>

locale progress_contract =
  fixes ps :: "('p, 'w) progress_store" and records :: "'p \<Rightarrow> progress_map"
  assumes get_law: "ps_get ps f i m = (found, m') \<Longrightarrow> records m' = records m \<and> (found = Inr (records m (f, i)) \<or> (\<exists>e. found = Inl e))"
    and create_law: "ps_create ps p m = (r, m') \<Longrightarrow>
      (r = Inr True \<and> records m (progress_key p) = None \<and> records m' = (records m)(progress_key p \<mapsto> p)) \<or>
      (r = Inr False \<and> records m (progress_key p) \<noteq> None \<and> records m' = records m) \<or>
      (\<exists>e. r = Inl e \<and> (records m' = records m \<or> records m (progress_key p) = None \<and> records m' = (records m)(progress_key p \<mapsto> p)))"
    and update_law: "ps_update ps v p m = (r, m') \<Longrightarrow>
      (r = Inr True \<and> records m' = (records m)(progress_key p \<mapsto> p)) \<or> (r = Inr False \<and> records m' = records m) \<or>
      (\<exists>e. r = Inl e \<and> (records m' = records m \<or> records m' = (records m)(progress_key p \<mapsto> p)))"
begin

text \<open>Every record that a store operation leaves behind was there before or was given to it.\<close>

lemma writes_given:
  "ps_create ps p m = (r, m') \<Longrightarrow> records m' = records m \<or> records m' = (records m)(progress_key p \<mapsto> p)"
  "ps_update ps v p m = (r, m') \<Longrightarrow> records m' = records m \<or> records m' = (records m)(progress_key p \<mapsto> p)"
  by (blast dest: create_law update_law)+

end

definition memory_progress :: "('w \<Rightarrow> systime) \<Rightarrow> (progress_map, 'w) progress_store" where
  "memory_progress clock = \<lparr>ps_create = memory_create, ps_update = memory_update, ps_get = memory_get, ps_now = clock\<rparr>"

interpretation mpg: progress_contract "memory_progress clock" "\<lambda>m. m"
  by unfold_locales
    (auto simp: memory_progress_def memory_get_def memory_create_def memory_update_def split: option.splits if_splits)

section \<open>Well-typed records\<close>

text \<open>The kind of a record says what its payload is.\<close>

definition encodes_state :: "'s state_codec \<Rightarrow> bytes \<Rightarrow> bool" where
  "encodes_state codec payload \<longleftrightarrow> (\<exists>s. sc_encode codec s = Inr payload)"

definition encodes_frame :: "'s state_codec \<Rightarrow> bytes \<Rightarrow> bool" where
  "encodes_frame codec payload \<longleftrightarrow> (\<exists>levels state work. encodes_state codec state \<and> frame_encode levels state work = Inr payload)"

definition encodes_terminal :: "'s state_codec \<Rightarrow> bytes \<Rightarrow> bool" where
  "encodes_terminal codec payload \<longleftrightarrow> (\<exists>state. encodes_state codec state \<and> mp_serialize serialize_terminal state = Inr payload)"

definition progress_typed :: "'s state_codec \<Rightarrow> dsl_step_progress \<Rightarrow> bool" where
  "progress_typed codec p \<longleftrightarrow>
     (dp_kind p = TerminalState \<longleftrightarrow> dp_step_index p = dsl_terminal_step_index) \<and>
     (case dp_kind p of
        ApplicationState \<Rightarrow> encodes_state codec (dp_payload p)
      | CheckpointFrame \<Rightarrow> encodes_frame codec (dp_payload p)
      | TerminalState \<Rightarrow> encodes_terminal codec (dp_payload p))"

definition records_typed :: "'s state_codec \<Rightarrow> string \<Rightarrow> progress_map \<Rightarrow> bool" where
  "records_typed codec flow_id m \<longleftrightarrow> (\<forall>i p. m (flow_id, i) = Some p \<longrightarrow> progress_key p = (flow_id, i) \<and> progress_typed codec p)"

context progress_contract
begin

text \<open>A store is in the shared place and well typed; the slots of branches are not restricted.\<close>

definition typed_store :: "'s state_codec \<Rightarrow> string \<Rightarrow> 'p store \<Rightarrow> bool" where
  "typed_store codec flow_id st \<longleftrightarrow> (\<exists>m. st = Shared m \<and> records_typed codec flow_id (records m))"

lemma typed_get: "typed_store codec flow_id st \<Longrightarrow> store_get ps f i st = (r, st') \<Longrightarrow> typed_store codec flow_id st'"
  using get_law by (auto simp: typed_store_def split: prod.splits)

lemma typed_get_record:
  assumes "typed_store codec flow_id st" "store_get ps flow_id i st = (Inr (Some p), st')"
  shows "progress_key p = (flow_id, i)" "progress_typed codec p"
proof -
  obtain m m' where m: "st = Shared m" "records_typed codec flow_id (records m)" "ps_get ps flow_id i m = (Inr (Some p), m')"
    using assms by (auto simp: typed_store_def split: prod.splits)
  then have "records m (flow_id, i) = Some p" using get_law [OF m(3)] by simp
  then show "progress_key p = (flow_id, i)" "progress_typed codec p" using m(2) by (auto simp: records_typed_def)
qed

lemma records_typed_upd:
  "records_typed codec flow_id m \<Longrightarrow> progress_typed codec p \<Longrightarrow> records_typed codec flow_id (m(progress_key p \<mapsto> p))"
  by (auto simp: records_typed_def)

lemma typed_create:
  assumes "typed_store codec flow_id st" "progress_typed codec p" "store_create ps p st = (r, st')"
  shows "typed_store codec flow_id st'"
proof -
  obtain m m' where m: "st = Shared m" "records_typed codec flow_id (records m)" "ps_create ps p m = (r, m')" "st' = Shared m'"
    using assms by (auto simp: typed_store_def split: prod.splits)
  show ?thesis using writes_given(1) [OF m(3)] m(2,4) records_typed_upd [OF m(2) assms(2)] by (auto simp: typed_store_def)
qed

lemma typed_update:
  assumes "typed_store codec flow_id st" "progress_typed codec p" "store_update ps v p st = (r, st')"
  shows "typed_store codec flow_id st'"
proof -
  obtain m m' where m: "st = Shared m" "records_typed codec flow_id (records m)" "ps_update ps v p m = (r, m')" "st' = Shared m'"
    using assms by (auto simp: typed_store_def split: prod.splits)
  show ?thesis using writes_given(2) [OF m(3)] m(2,4) records_typed_upd [OF m(2) assms(2)] by (auto simp: typed_store_def)
qed

text \<open>Progress is persisted for a step that is not the terminal slot, with a payload that its kind describes.\<close>

definition payload_typed :: "'s state_codec \<Rightarrow> bool \<Rightarrow> bytes \<Rightarrow> bool" where
  "payload_typed codec frame payload \<longleftrightarrow> (if frame then encodes_frame codec payload else encodes_state codec payload)"

lemma payload_typed_frame:
  "sc_encode codec s = Inr state \<Longrightarrow> frame_encode levels state work = Inr payload \<Longrightarrow> payload_typed codec True payload"
  unfolding payload_typed_def encodes_frame_def encodes_state_def by auto

lemma typed_cas:
  assumes "typed_store (cx_codec cx) (cx_flow_id cx) st" "cx_top_level_step cx \<noteq> dsl_terminal_step_index" "payload_typed (cx_codec cx) frame payload"
  shows "typed_store (cx_codec cx) (cx_flow_id cx) (snd (cas_loop ps cx payload frame retries w st))"
  using assms(1)
proof (induction retries arbitrary: st)
  case (Suc retries)
  obtain g st1 where g: "store_get ps (cx_flow_id cx) (cx_top_level_step cx) st = (g, st1)" by fastforce
  note st1 = typed_get [OF Suc.prems g]
  show ?case
  proof (cases "\<exists>current. g = Inr (Some current)")
    case False
    then show ?thesis using g st1 by (cases g) (auto split: option.splits)
  next
    case True
    then obtain current where c: "g = Inr (Some current)" by blast
    have key: "progress_key current = (cx_flow_id cx, cx_top_level_step cx)" using typed_get_record [OF Suc.prems g [unfolded c]] by blast
    let ?n = "if frame then bind_r (progress_next_version payload (ps_now ps w) current) (\<lambda>p. Inr (with_checkpoint_frame payload p))
                 else completed_application_state payload (ps_now ps w) current"
    show ?thesis
    proof (cases ?n)
      case (Inl e)
      then show ?thesis using g c st1 by simp
    next
      case (Inr nxt)
      have t: "progress_typed (cx_codec cx) nxt" using Inr key assms(2,3)
        by (auto simp: progress_typed_def payload_typed_def progress_next_version_def completed_application_state_def bind_r_Inr_iff
            with_checkpoint_frame_def progress_key_def split: if_splits)
      obtain u st2 where u: "store_update ps (dp_version current) nxt st1 = (u, st2)" by fastforce
      note st2 = typed_update [OF st1 t u]
      show ?thesis using g c Inr u st2 Suc.IH [OF st2] by (auto split: sum.splits bool.splits)
    qed
  qed
qed simp

lemma typed_persist:
  assumes "typed_store (cx_codec cx) (cx_flow_id cx) st" "cx_top_level_step cx \<noteq> dsl_terminal_step_index" "payload_typed (cx_codec cx) frame payload"
  shows "typed_store (cx_codec cx) (cx_flow_id cx) (snd (persist_checkpoint_payload ps cx payload frame w st))"
proof -
  let ?p = "progress_new (cx_flow_id cx) (cx_top_level_step cx) payload (ps_now ps w)"
  let ?q = "if frame then with_checkpoint_frame payload ?p else ?p"
  have t: "progress_typed (cx_codec cx) ?q" using assms(2,3)
    by (auto simp: progress_typed_def payload_typed_def progress_new_def with_checkpoint_frame_def)
  obtain r st1 where c: "store_create ps ?q st = (r, st1)" by fastforce
  note st1 = typed_create [OF assms(1) t c]
  show ?thesis using c st1 typed_cas [OF st1 assms(2,3)]
    by (auto simp: persist_checkpoint_payload_def Let_def split: sum.splits bool.splits)
qed

lemma typed_persist_frame:
  assumes "typed_store (cx_codec cx) (cx_flow_id cx) st" "cx_top_level_step cx \<noteq> dsl_terminal_step_index"
  shows "typed_store (cx_codec cx) (cx_flow_id cx) (snd (persist_frame ps cx levels s work w st))"
proof -
  have "payload_typed (cx_codec cx) True payload"
    if "bind_r (sc_encode (cx_codec cx) s) (\<lambda>state. frame_encode levels state work) = Inr payload" for payload
    using that by (auto simp: bind_r_Inr_iff intro: payload_typed_frame)
  then show ?thesis using assms typed_persist [OF assms] by (auto simp: persist_frame_def split: sum.splits)
qed

text \<open>Runs of every level keep the store of their context well typed.\<close>

definition act_typed :: "'s checkpoint_context \<Rightarrow> ('s, 'p, 'w) cp_act \<Rightarrow> bool" where
  "act_typed cx run \<longleftrightarrow> (\<forall>s st w r s' st' w'. cx_top_level_step cx \<noteq> dsl_terminal_step_index \<longrightarrow>
     typed_store (cx_codec cx) (cx_flow_id cx) st \<longrightarrow> run s st w = (r, s', st', w') \<longrightarrow> typed_store (cx_codec cx) (cx_flow_id cx) st')"

definition child_typed :: "'s checkpoint_context \<Rightarrow> ('s, 'p, 'w) child_runner \<Rightarrow> bool" where
  "child_typed cx child \<longleftrightarrow> (\<forall>i levels work s st w r levels' work' s' st' w'. cx_top_level_step cx \<noteq> dsl_terminal_step_index \<longrightarrow>
     typed_store (cx_codec cx) (cx_flow_id cx) st \<longrightarrow> child i levels work s st w = (r, levels', work', s', st', w') \<longrightarrow>
     typed_store (cx_codec cx) (cx_flow_id cx) st')"

definition branch_typed :: "('s, 'p, 'w) branch_runner \<Rightarrow> bool" where
  "branch_typed branch \<longleftrightarrow> (\<forall>cx depth levels work s st w r levels' s' st' w'. cx_top_level_step cx \<noteq> dsl_terminal_step_index \<longrightarrow>
     typed_store (cx_codec cx) (cx_flow_id cx) st \<longrightarrow> branch cx depth levels work s st w = (r, levels', s', st', w') \<longrightarrow>
     typed_store (cx_codec cx) (cx_flow_id cx) st')"

definition selection_typed :: "('s, 'p, 'w) cp_selection \<Rightarrow> bool" where
  "selection_typed selection \<longleftrightarrow> (\<forall>s cursor depth branch code. selection s cursor depth = Inr (branch, code) \<longrightarrow> branch_typed branch)"

lemma persisted_typed:
  assumes "persist_frame ps cx levels s work w st = (r, st')" "typed_store (cx_codec cx) (cx_flow_id cx) st"
    "cx_top_level_step cx \<noteq> dsl_terminal_step_index"
  shows "typed_store (cx_codec cx) (cx_flow_id cx) st'"
  using typed_persist_frame [OF assms(2,3), of levels s work w] assms(1) by simp

lemma replay_loop_typed: "act_typed cx (replay_loop ps cx operation items levels tot next_index)"
proof -
  have "typed_store (cx_codec cx) (cx_flow_id cx) st'"
    if "cx_top_level_step cx \<noteq> dsl_terminal_step_index" "typed_store (cx_codec cx) (cx_flow_id cx) st"
      "replay_loop ps cx operation items levels tot next_index s st w = (r, s', st', w')" for s st w r s' st' w'
    using that
  proof (induction "unat tot - unat next_index" arbitrary: next_index s st w rule: less_induct)
    case less
    show ?case
    proof (cases "next_index < tot")
      case False
      then show ?thesis using less.prems by (simp add: replay_loop.simps)
    next
      case True
      note run = less.prems(3) [unfolded replay_loop.simps [of ps cx operation items levels tot next_index], simplified True if_True]
      show ?thesis
      proof (cases "select_nth items (unat next_index)")
        case None
        then show ?thesis using run less.prems(2) by simp
      next
        case (Some item)
        obtain q s1 w1 where q: "replay_item operation (unat next_index) item s w = (q, s1, w1)" by (metis prod_cases3)
        show ?thesis
        proof (cases "\<exists>u n. q = Inr u \<and> checked_add next_index 1 = Some n")
          case False
          then show ?thesis using run Some q less.prems(2) by (auto split: sum.splits option.splits)
        next
          case True
          then obtain u n where n: "q = Inr u" "checked_add next_index 1 = Some n" by blast
          obtain v st1 where v: "persist_frame ps cx levels s1 (WorkReplayable n items) w1 st = (v, st1)" by fastforce
          note st1 = persisted_typed [OF v less.prems(2,1)]
          have "unat tot - unat n < unat tot - unat next_index"
            using checked_add_Some_unat [OF n(2)] \<open>next_index < tot\<close> by (simp add: word_less_nat_alt)
          from less.hyps [OF this less.prems(1) st1] show ?thesis using run Some q n v st1 by (auto split: sum.splits)
        qed
      qed
    qed
  qed
  then show ?thesis by (auto simp: act_typed_def)
qed

lemma replayable_typed: "act_typed cx (run_checkpointed_replayable ps cx operation work levels)"
  using replay_loop_typed [of cx operation _ levels]
  by (fastforce simp: act_typed_def run_checkpointed_replayable_def split: sum.splits prod.splits if_splits)

lemma parallel_loop_typed:
  assumes "cx_top_level_step cx \<noteq> dsl_terminal_step_index" "typed_store (cx_codec cx) (cx_flow_id cx) st"
    "parallel_loop ps cx runs levels s initial pending acc st w = (x, st', w')"
  shows "typed_store (cx_codec cx) (cx_flow_id cx) st'"
  using assms(2,3)
proof (induction pending arbitrary: acc st w)
  case (Cons b pending)
  obtain index slot where b: "b = (index, slot)" by fastforce
  obtain result bst w1 where r: "(runs ! index) initial (Slot slot) w = (result, bst, w1)" by (metis prod_cases3)
  obtain saved states err where a: "settle_branch (cx_codec cx) index result (slot_of bst) acc = (saved, states, err)" by (metis prod_cases3)
  let ?persist = "case encode_parallel_progress cx s saved levels of Inl e \<Rightarrow> (Inl e, st) | Inr payload \<Rightarrow> persist_checkpoint_payload ps cx payload True w1 st"
  obtain v st1 where v: "?persist = (v, st1)" by fastforce
  have "typed_store (cx_codec cx) (cx_flow_id cx) st1"
  proof (cases "encode_parallel_progress cx s saved levels")
    case (Inl e)
    then show ?thesis using v Cons.prems(1) by simp
  next
    case (Inr payload)
    then have "payload_typed (cx_codec cx) True payload"
      by (auto simp: encode_parallel_progress_def bind_r_Inr_iff intro: payload_typed_frame)
    from typed_persist [OF Cons.prems(1) assms(1) this, of w1] show ?thesis using v Inr by simp
  qed
  from Cons.IH [OF this] show ?case using Cons.prems(2) b r a v by simp
qed simp

lemma parallel_typed: "act_typed cx (run_checkpointed_parallel rt ps cx runs clone_state merge work levels)"
  unfolding act_typed_def run_checkpointed_parallel_def
  by (auto simp: parallel_loop_typed split: if_splits sum.splits prod.splits option.splits checkpoint_work.splits)

lemma when_any_typed: "act_typed cx (run_checkpointed_when_any rt ps cx runs clone_state merge work levels)"
proof -
  have "typed_store (cx_codec cx) (cx_flow_id cx) st'"
    if "bind_r (ok_or e (u32_try_from winner)) (\<lambda>winner. bind_r (sc_encode (cx_codec cx) s) (\<lambda>state.
          bind_r (sc_encode (cx_codec cx) s1) (\<lambda>encoded. frame_encode levels state (WorkWhenAny winner encoded)))) = Inr payload"
      "persist_checkpoint_payload ps cx payload True w st = (v, st')" "typed_store (cx_codec cx) (cx_flow_id cx) st"
      "cx_top_level_step cx \<noteq> dsl_terminal_step_index" for e winner s s1 payload w st v st'
  proof -
    have "payload_typed (cx_codec cx) True payload" using that(1) by (auto simp: bind_r_Inr_iff intro: payload_typed_frame)
    from typed_persist [OF that(3,4) this, of w] show ?thesis using that(2) by simp
  qed
  then show ?thesis unfolding act_typed_def run_checkpointed_when_any_def
    by (fastforce split: if_splits sum.splits prod.splits option.splits checkpoint_work.splits)
qed

lemma lift_typed: "act_typed cx (lift_act run)"
  by (auto simp: act_typed_def lift_act_def split: prod.splits)

lemma plain_child_typed: "child_typed cx (plain_child ps cx run depth)"
proof -
  have "typed_store (cx_codec cx) (cx_flow_id cx) st'"
    if "nested_checkpoint_payload (cx_codec cx) s levels = Inr payload" "persist_checkpoint_payload ps cx payload True w st = (v, st')"
      "typed_store (cx_codec cx) (cx_flow_id cx) st" "cx_top_level_step cx \<noteq> dsl_terminal_step_index" for s levels payload w st v st'
  proof -
    have "payload_typed (cx_codec cx) True payload" using that(1)
      by (auto simp: nested_checkpoint_payload_def bind_r_Inr_iff intro: payload_typed_frame)
    from typed_persist [OF that(3,4) this, of w] show ?thesis using that(2) by simp
  qed
  then show ?thesis unfolding child_typed_def plain_child_def Let_def
    by (fastforce split: sum.splits prod.splits option.splits)
qed

lemma cursor_child_typed:
  assumes "\<And>work levels. act_typed cx (run work levels)"
  shows "child_typed cx (cursor_child run depth)"
  using assms unfolding child_typed_def act_typed_def cursor_child_def Let_def by (fastforce split: prod.splits)

lemma skip_typed: "child_typed cx (cp_skip m)"
  by (simp add: child_typed_def cp_skip_def)

lemma children_loop_typed:
  assumes "\<And>child. child \<in> set children \<Longrightarrow> child_typed cx child" "cx_top_level_step cx \<noteq> dsl_terminal_step_index"
    "typed_store (cx_codec cx) (cx_flow_id cx) st" "children_loop children index levels work s st w = (r, levels', s', st', w')"
  shows "typed_store (cx_codec cx) (cx_flow_id cx) st'"
  using assms(1,3,4)
proof (induction children arbitrary: index levels work s st w)
  case (Cons child children)
  show ?case
  proof (cases "u32_try_from index")
    case None
    then show ?thesis using Cons.prems by simp
  next
    case (Some i)
    obtain q l1 k1 s1 st1 w1 where q: "child i levels work s st w = (q, l1, k1, s1, st1, w1)" by (metis prod_cases6)
    have "child_typed cx child" using Cons.prems(1) by simp
    then have st1: "typed_store (cx_codec cx) (cx_flow_id cx) st1" using q Cons.prems(2) assms(2) unfolding child_typed_def by blast
    show ?thesis
    proof (cases q)
      case (Inr u)
      then show ?thesis using Cons.IH [OF _ st1] Cons.prems(1,3) Some q by simp
    qed (use Some q st1 Cons.prems(3) in simp)
  qed
qed simp

lemma branch_loop_typed:
  assumes "\<And>child cx depth. child \<in> set children \<Longrightarrow> child_typed cx (child cx depth)"
  shows "branch_typed (branch_loop children)"
  unfolding branch_typed_def
proof (intro allI impI)
  fix cx depth levels work s st w r levels' s' st' w'
  assume a: "cx_top_level_step cx \<noteq> dsl_terminal_step_index" "typed_store (cx_codec cx) (cx_flow_id cx) st"
    "branch_loop children cx depth levels work s st w = (r, levels', s', st', w')"
  show "typed_store (cx_codec cx) (cx_flow_id cx) st'"
  proof (cases "branch_start levels depth (length children)")
    case (Inl e)
    then show ?thesis using a by (simp add: branch_loop_def)
  next
    case (Inr start)
    have "child_typed cx child" if "child \<in> set (drop start (map (\<lambda>child. child cx depth) children))" for child
    proof -
      from that have "child \<in> set (map (\<lambda>child. child cx depth) children)" by (rule in_set_dropD)
      then obtain c where "c \<in> set children" "child = c cx depth" by auto
      then show ?thesis by (simp add: assms)
    qed
    from children_loop_typed [OF this a(1,2)] show ?thesis using a(3) Inr by (simp add: branch_loop_def)
  qed
qed

lemma branch_typedD:
  "branch_typed branch \<Longrightarrow> branch cx depth levels work s st w = (r, levels', s', st', w') \<Longrightarrow>
   cx_top_level_step cx \<noteq> dsl_terminal_step_index \<Longrightarrow> typed_store (cx_codec cx) (cx_flow_id cx) st \<Longrightarrow>
   typed_store (cx_codec cx) (cx_flow_id cx) st'"
  unfolding branch_typed_def by blast

lemma nested_child_typed:
  assumes "selection_typed selection"
  shows "child_typed cx (nested_child selection cx depth)"
  unfolding child_typed_def
proof (intro allI impI)
  fix i levels work s st w r levels' work' s' st' w'
  assume a: "cx_top_level_step cx \<noteq> dsl_terminal_step_index" "typed_store (cx_codec cx) (cx_flow_id cx) st"
    "nested_child selection cx depth i levels work s st w = (r, levels', work', s', st', w')"
  show "typed_store (cx_codec cx) (cx_flow_id cx) st'"
  proof (cases "selection s (Some levels) (depth + 1)")
    case (Inl e)
    then show ?thesis using a by (simp add: nested_child_def)
  next
    case (Inr bc)
    obtain branch code where bc: "bc = (branch, code)" by fastforce
    then have "branch_typed branch" using assms Inr unfolding selection_typed_def by blast
    then show ?thesis using a Inr bc
      by (auto simp: nested_child_def split: sum.splits prod.splits dest: branch_typedD)
  qed
qed

lemma branch_step_typed:
  assumes "selection_typed selection"
  shows "act_typed cx (branch_step selection cx cursor)"
  unfolding act_typed_def
proof (intro allI impI)
  fix s st w r s' st' w'
  assume a: "cx_top_level_step cx \<noteq> dsl_terminal_step_index" "typed_store (cx_codec cx) (cx_flow_id cx) st"
    "branch_step selection cx cursor s st w = (r, s', st', w')"
  show "typed_store (cx_codec cx) (cx_flow_id cx) st'"
  proof (cases "selection s (map_option cf_levels cursor) 0")
    case (Inl e)
    then show ?thesis using a by (simp add: branch_step_def)
  next
    case (Inr bc)
    obtain branch code where bc: "bc = (branch, code)" by fastforce
    then have "branch_typed branch" using assms Inr unfolding selection_typed_def by blast
    then show ?thesis using a Inr bc
      by (auto simp: branch_step_def Let_def split: prod.splits option.splits dest: branch_typedD)
  qed
qed

lemma selected_if_typed: "branch_typed t \<Longrightarrow> branch_typed e \<Longrightarrow> selection_typed (selected_if c t e)"
  by (auto simp: selection_typed_def selected_if_def Let_def split: if_splits)

lemma selected_match_typed:
  "(\<And>b. b \<in> set bs \<Longrightarrow> branch_typed b) \<Longrightarrow> branch_typed d \<Longrightarrow> selection_typed (selected_match sel bs d)"
  by (auto simp: selection_typed_def selected_match_def Let_def bind_r_Inr_iff select_nth_def split: if_splits)

lemma cursor_step_typed:
  assumes "\<And>work levels. act_typed cx (run cx work levels)"
  shows "act_typed cx (cursor_step run cx cursor)"
  using assms by (simp add: cursor_step_def)

lemma refuse_typed: "act_typed cx (refuse m cx cursor)"
  by (simp add: act_typed_def refuse_def)

lemmas typed_rules = refuse_typed lift_typed cursor_step_typed replayable_typed parallel_typed when_any_typed branch_step_typed
  skip_typed cursor_child_typed nested_child_typed plain_child_typed selected_if_typed selected_match_typed

lemma runs_typed:
  "(\<forall>cx cursor. act_typed cx (cp_step rt ps st cx cursor)) \<and> (\<forall>cx depth. child_typed cx (cp_child rt ps st cx depth))"
  "branch_typed (cp_branch rt ps f)"
proof (induction st and f rule: step.induct dsl_flow.induct)
  case (DslFlow steps lc)
  have "child_typed cx (child cx depth)" if "child \<in> set (map (cp_child rt ps) steps)" for child cx depth
    using that DslFlow by auto
  then show ?case unfolding cp_branch.simps by (rule branch_loop_typed)
qed (auto intro!: typed_rules)

lemma top_level_step_index_Inr:
  assumes "top_level_step_index index = Inr i"
  shows "i \<noteq> dsl_terminal_step_index" "unat i = index"
proof -
  have i: "index < 2 ^ 32" "i = word_of_nat index" "i \<noteq> dsl_terminal_step_index"
    using assms by (auto simp: top_level_step_index_def bind_r_Inr_iff u32_try_from_def split: if_splits)
  then show "i \<noteq> dsl_terminal_step_index" "unat i = index" by (simp_all add: unat_of_nat take_bit_nat_eq_self)
qed

lemma act_typedD:
  "act_typed cx run \<Longrightarrow> run s st w = (r, s', st', w') \<Longrightarrow> cx_top_level_step cx \<noteq> dsl_terminal_step_index \<Longrightarrow>
   typed_store (cx_codec cx) (cx_flow_id cx) st \<Longrightarrow> typed_store (cx_codec cx) (cx_flow_id cx) st'"
  unfolding act_typed_def by blast

lemma steps_loop_typed:
  assumes "\<And>run cx cursor. run \<in> set runs \<Longrightarrow> act_typed cx (run cx cursor)" "typed_store codec flow_id st"
    "steps_loop ps lc flow_id codec runs index cursor s st w = (r, s', st', w')"
  shows "typed_store codec flow_id st'"
  using assms
proof (induction runs arbitrary: index cursor s st w)
  case (Cons run runs)
  show ?case
  proof (cases "top_level_step_index index")
    case (Inl e)
    then show ?thesis using Cons.prems by simp
  next
    case (Inr i)
    define cx where "cx = \<lparr>cx_flow_id = flow_id, cx_top_level_step = i, cx_codec = codec\<rparr>"
    have cx: "cx_codec cx = codec" "cx_flow_id cx = flow_id" "cx_top_level_step cx \<noteq> dsl_terminal_step_index"
      using top_level_step_index_Inr [OF Inr] by (auto simp: cx_def)
    obtain q s1 st1 w1 where q: "run cx cursor s st w = (q, s1, st1, w1)" by (metis prod_cases4)
    have t: "act_typed cx (run cx cursor)" using Cons.prems(1) by simp
    have st1: "typed_store codec flow_id st1" using act_typedD [OF t q] cx Cons.prems(2) by simp
    show ?thesis
    proof (cases "\<exists>u v w2. q = Inr u \<and> notify_step_succeeded lc s1 index w1 = (Inr v, w2)")
      case False
      then show ?thesis using Cons.prems(3) Inr q st1 cx_def by (auto simp: Let_def split: sum.splits prod.splits)
    next
      case True
      then obtain u v w2 where n: "q = Inr u" "notify_step_succeeded lc s1 index w1 = (Inr v, w2)" by blast
      obtain x st2 where x: "persist_completed_checkpoint ps cx s1 w2 st1 = (x, st2)" by fastforce
      have "typed_store codec flow_id st2"
      proof (cases "sc_encode codec s1")
        case (Inl e)
        then show ?thesis using x st1 cx by (simp add: persist_completed_checkpoint_def)
      next
        case (Inr payload)
        then have "payload_typed codec False payload" by (auto simp: payload_typed_def encodes_state_def)
        then show ?thesis using typed_persist [of cx st1 False payload w2] cx st1 x Inr by (simp add: persist_completed_checkpoint_def)
      qed
      then show ?thesis using Cons.IH [of st2] Cons.prems(1,3) Inr q n x cx_def by (auto simp: Let_def split: sum.splits)
    qed
  qed
qed simp

lemma terminal_typed:
  assumes "typed_store codec flow_id st" "sc_encode codec s = Inr encoded" "persist_checkpoint_terminal ps flow_id encoded w st = (r, st')"
  shows "typed_store codec flow_id st'"
proof (cases "mp_serialize serialize_terminal encoded")
  case (Inl e)
  then show ?thesis using assms by (simp add: persist_checkpoint_terminal_def)
next
  case (Inr payload)
  let ?p = "with_terminal payload (progress_new flow_id dsl_terminal_step_index [] (ps_now ps w))"
  have t: "progress_typed codec ?p" using assms(2) Inr
    by (auto simp: progress_typed_def with_terminal_def progress_new_def encodes_terminal_def encodes_state_def)
  obtain q st1 where q: "store_create ps ?p st = (q, st1)" by fastforce
  note st1 = typed_create [OF assms(1) t q]
  obtain g st2 where g: "store_get ps flow_id dsl_terminal_step_index st1 = (g, st2)" by fastforce
  show ?thesis using assms(3) Inr q st1 g typed_get [OF st1 g] assms(1)
    by (auto simp: persist_checkpoint_terminal_def load_checkpoint_terminal_def split: if_splits sum.splits bool.splits option.splits)
qed

lemma find_checkpoint_typed:
  "typed_store codec flow_id st \<Longrightarrow> find_checkpoint ps codec flow_id initial n st = (r, st') \<Longrightarrow> typed_store codec flow_id st'"
proof (induction n arbitrary: st)
  case (Suc n)
  show ?case
  proof (cases "top_level_step_index n")
    case (Inr i)
    obtain g st1 where g: "store_get ps flow_id i st = (g, st1)" by fastforce
    show ?thesis using Suc.prems(2) Inr g typed_get [OF Suc.prems(1) g] Suc.IH [of st1]
      by (auto split: sum.splits option.splits)
  qed (use Suc.prems in simp)
qed simp

lemma checkpointed_typed:
  assumes "typed_store codec flow_id st" "run_checkpointed rt ps f flow_id codec initial st w = (r, st', w')"
  shows "typed_store codec flow_id st'"
proof (cases f)
  case (DslFlow steps lc)
  let ?runs = "map (cp_step rt ps) steps"
  have runs: "act_typed cx (run cx cursor)" if "run \<in> set (drop n ?runs)" for run cx cursor n
    using runs_typed(1) [of rt] in_set_dropD [OF that] by auto
  obtain g st1 where g: "store_get ps flow_id dsl_terminal_step_index st = (g, st1)" by fastforce
  note st1 = typed_get [OF assms(1) g]
  show ?thesis
  proof (cases "g = Inr None")
    case False
    then show ?thesis using assms(2) DslFlow g st1
      by (auto simp: run_checkpointed_inner_def load_checkpoint_terminal_def bind_r_Inr_iff split: sum.splits option.splits)
  next
    case True
    obtain x st2 where x: "find_checkpoint ps codec flow_id initial (length ?runs) st1 = (x, st2)" by fastforce
    note st2 = find_checkpoint_typed [OF st1 x]
    show ?thesis
    proof (cases x)
      case (Inl e)
      then show ?thesis using assms(2) DslFlow g True x st2 by (simp add: run_checkpointed_inner_def load_checkpoint_terminal_def)
    next
      case (Inr y)
      obtain s start cursor where y: "y = (s, start, cursor)" by (metis prod_cases3)
      obtain q s1 st3 w3 where q: "steps_loop ps lc flow_id codec (drop start ?runs) start cursor s st2 w = (q, s1, st3, w3)" by (metis prod_cases4)
      have st3: "typed_store codec flow_id st3" by (rule steps_loop_typed [OF _ st2 q]) (rule runs)
      have "typed_store codec flow_id st4" if "finish_run ps lc flow_id codec s1 st3 w3 = (z, st4, w4)" for z st4 w4
        using that st3 terminal_typed [OF st3]
        by (auto simp: finish_run_def split: sum.splits prod.splits bool.splits)
      then show ?thesis using assms(2) DslFlow g True x Inr y q st3
        by (auto simp: run_checkpointed_inner_def load_checkpoint_terminal_def split: sum.splits)
    qed
  qed
qed

end

text \<open>
  Property C34: whatever the store answers, a checkpointed run leaves only well-typed records behind. Every record is
  under its own key, the terminal slot alone holds terminal records, and the kind of a record says what its payload
  is: an encoded state, an encoded frame around an encoded state, or an encoded final state.
\<close>

theorem checkpoint_records_typed:
  assumes "progress_contract ps records" "records_typed codec flow_id (records m)"
    "run_checkpointed rt ps f flow_id codec initial (Shared m) w = (r, st', w')"
  shows "\<exists>m'. st' = Shared m' \<and> records_typed codec flow_id (records m')"
  using progress_contract.checkpointed_typed [OF assms(1) _ assms(3)] assms(2)
  by (simp add: progress_contract.typed_store_def [OF assms(1)])

section \<open>A sample flow\<close>

text \<open>A state of small numbers, encoded as bytes, and a flow whose branch holds an action.\<close>

definition byte_codec :: "bytes state_codec" where
  "byte_codec = \<lparr>sc_encode = (\<lambda>s. Inr s), sc_decode = (\<lambda>b. Inr b)\<rparr>"

definition push_byte :: "u8 \<Rightarrow> (bytes, nat) act" where
  "push_byte b s w = (Inr (), s @ [b], w + 1)"

definition still :: "nat \<Rightarrow> systime" where
  "still w = int w"

definition nested_sample :: "(bytes, nat) dsl_flow" where
  "nested_sample = flow_if_else (\<lambda>s. s = []) (flow_action (push_byte 1) flow_new_dsl) flow_new_dsl flow_new_dsl"

theorem checkpoint_records_typed_witness:
  "\<exists>r m' w'. run_checkpointed inline_runtime (memory_progress still) nested_sample ''f'' byte_codec [] (Shared Map.empty) 0 = (r, Shared m', w') \<and>
     records_typed byte_codec ''f'' m'"
proof -
  obtain r st' w' where run: "run_checkpointed inline_runtime (memory_progress still) nested_sample ''f'' byte_codec [] (Shared Map.empty) 0 = (r, st', w')"
    by (metis prod_cases3)
  have "records_typed byte_codec ''f'' Map.empty" by (simp add: records_typed_def)
  from checkpoint_records_typed [OF mpg.progress_contract_axioms this run] show ?thesis using run by auto
qed

section \<open>A finished flow stays finished\<close>

definition codec_inverse :: "'s state_codec \<Rightarrow> bool" where
  "codec_inverse codec \<longleftrightarrow> (\<forall>s b. sc_encode codec s = Inr b \<longrightarrow> sc_decode codec b = Inr s)"

interpretation w_terminal: wire serialize_terminal deserialize_terminal "\<lambda>b. 1 # blob_bytes b" length "\<lambda>_. 1"
  "\<lambda>l b. length b \<le> max_collection_items l" "\<lambda>b. length b \<le> 2147483647"
  using wire.object_wire [OF w_payload.wire_axioms, of 1] by (simp add: serialize_terminal_def deserialize_terminal_def)

lemma length_blob_bytes [simp]: "length (blob_bytes b) = 4 + length b"
  by (simp add: list_bytes_def)

text \<open>A terminal record is readable when its state has at most 65536 bytes, the default budget of a collection.\<close>

lemma terminal_readable:
  assumes "mp_serialize serialize_terminal b = Inr payload" "length payload \<le> max_dsl_terminal_bytes" "length b \<le> 65536"
  shows "mp_deserialize deserialize_terminal payload = Inr b"
proof -
  have p: "payload = 1 # blob_bytes b" using assms(1,3) w_terminal.ser_law [of b "[]"] by (simp add: mp_serialize_def)
  have "w_terminal.within decode_limits_default b" unfolding w_terminal.within_def using assms(3) by (simp add: decode_limits_default_def)
  from w_terminal.decode_frame [OF _ this, of "[]"] show ?thesis using assms(2,3)
    by (simp add: mp_deserialize_def p decode_limits_default_def max_dsl_terminal_bytes_def)
qed

lemma terminal_length: "mp_serialize serialize_terminal b = Inr payload \<Longrightarrow> length b \<le> 2147483647"
  by (auto simp: mp_serialize_def serialize_terminal_def serialize_object_def serialize_vec_def write_collection_header_def
      checked_i32_length_def bind_r_Inr_iff split: if_splits)

lemma terminal_unreadable:
  assumes "mp_serialize serialize_terminal b = Inr payload" "length payload \<le> max_dsl_terminal_bytes" "65536 < length b"
  shows "mp_deserialize deserialize_terminal payload = Inl (LimitExceeded ''collection items'' 65536)"
proof -
  let ?n = "le_bytes 4 (twos 4 (int (length b)))"
  note bound = terminal_length [OF assms(1)]
  have p: "payload = [1] @ ?n @ b" using assms(1) bound w_terminal.ser_law [of b "[]"] by (simp add: mp_serialize_def list_bytes_def concat_map_singleton)
  have len: "length payload \<le> 1048576" using assms(2) by (simp add: max_dsl_terminal_bytes_def)
  define r where "r = \<lparr>rd_data = payload, rd_position = 0, rd_limits = decode_limits_default, rd_allocated = 0, rd_depth = 1\<rparr>"
  have lim: "max_collection_items (rd_limits r) = 65536" by (simp add: r_def decode_limits_default_def)
  have room: "room r 0 0" using len by (simp add: r_def room_def decode_limits_default_def)
  have "ahead r payload" by (simp add: r_def ahead_def)
  then have A: "ahead r [1]" "ahead (past 1 0 r) ?n" unfolding p ahead_append [where a = 0] by simp_all
  have 1: "read_u8 r = Inr (1, past 1 0 r)" using w_u8.des_law [of r 1] room A(1) by simp
  have 2: "read_i32 (past 1 0 r) = Inr (int (length b), past 5 0 r)"
    using w_i32.des_law [of "int (length b)" "past 1 0 r"] room A(2) bound by (simp add: int_range_def)
  have 3: "read_blob (past 1 0 r) = Inl (LimitExceeded ''collection items'' 65536)"
    using assms(3) by (auto simp: deserialize_vec_def and_then_def 2 [simplified] validate_collection_len_def lim)
  have "enter_object \<lparr>rd_data = payload, rd_position = 0, rd_limits = decode_limits_default, rd_allocated = 0, rd_depth = 0\<rparr> = Inr ((), r)"
    by (simp add: enter_object_def usize_checked_add_def r_def decode_limits_default_def)
  then show ?thesis using len
    by (simp add: mp_deserialize_def deserialize_bounded_def new_bounded_def deserialize_terminal_def deserialize_object_def and_then_def
        1 3 [simplified]) (simp add: decode_limits_default_def)
qed

lemma terminal_read:
  assumes "mp_serialize serialize_terminal b = Inr payload" "mp_deserialize deserialize_terminal payload = Inr b'"
  shows "b' = b" "length b \<le> 65536"
proof -
  have len: "length payload \<le> max_dsl_terminal_bytes" using assms(2)
    by (auto simp: mp_deserialize_def deserialize_bounded_def new_bounded_def decode_limits_default_def max_dsl_terminal_bytes_def
        bind_r_Inr_iff split: if_splits)
  show "length b \<le> 65536"
  proof (rule ccontr)
    assume "\<not> length b \<le> 65536"
    then show False using terminal_unreadable [OF assms(1) len] assms(2) by simp
  qed
  then show "b' = b" using terminal_readable [OF assms(1) len] assms(2) by simp
qed

context progress_contract
begin

definition finished :: "'s state_codec \<Rightarrow> string \<Rightarrow> 's \<Rightarrow> 'p \<Rightarrow> bool" where
  "finished codec flow_id s m \<longleftrightarrow>
     (\<exists>p b. records m (flow_id, dsl_terminal_step_index) = Some p \<and> read_terminal p = Inr b \<and> sc_decode codec b = Inr s)"

lemma finished_stays:
  assumes "finished codec flow_id s m" "run_checkpointed rt ps f flow_id codec initial (Shared m) w = (r, st', w')"
  shows "w' = w" "r = Inr s \<or> (\<exists>e m'. r = Inl e \<and> ps_get ps flow_id dsl_terminal_step_index m = (Inl e, m'))"
proof -
  obtain p b where p: "records m (flow_id, dsl_terminal_step_index) = Some p" "read_terminal p = Inr b" "sc_decode codec b = Inr s"
    using assms(1) by (auto simp: finished_def)
  obtain steps lc where f: "f = DslFlow steps lc" by (cases f)
  obtain g m' where g: "ps_get ps flow_id dsl_terminal_step_index m = (g, m')" by fastforce
  then have "g = Inr (Some p) \<or> (\<exists>e. g = Inl e)" using get_law [OF g] p(1) by auto
  then show "w' = w" "r = Inr s \<or> (\<exists>e m'. r = Inl e \<and> ps_get ps flow_id dsl_terminal_step_index m = (Inl e, m'))"
    using assms(2) p(2,3) g by (auto simp: f run_checkpointed_inner_def load_checkpoint_terminal_def)
qed

lemma load_terminal_finished:
  assumes "load_checkpoint_terminal ps flow_id (Shared m) = (Inr (Some b), st')" "sc_decode codec b = Inr s"
  shows "\<exists>m'. st' = Shared m' \<and> finished codec flow_id s m'"
proof -
  obtain g m' where g: "ps_get ps flow_id dsl_terminal_step_index m = (g, m')" by fastforce
  then obtain p where "g = Inr (Some p)" "read_terminal p = Inr b" "st' = Shared m'"
    using assms(1) by (auto simp: load_checkpoint_terminal_def bind_r_Inr_iff split: sum.splits option.splits)
  then show ?thesis using get_law [OF g] assms(2) by (auto simp: finished_def intro!: exI [of _ p])
qed

lemma shared_ops:
  "load_checkpoint_terminal ps flow_id (Shared m) = (r, st') \<Longrightarrow> \<exists>m'. st' = Shared m'"
  "store_create ps p (Shared m) = (q, st') \<Longrightarrow> \<exists>m'. st' = Shared m'"
  by (auto simp: load_checkpoint_terminal_def split: prod.splits sum.splits option.splits)

lemma finish_run_finished:
  assumes "finish_run ps lc flow_id codec s (Shared m) w = (Inr s', st', w')" "codec_inverse codec"
    "\<And>b. sc_encode codec s' = Inr b \<Longrightarrow> length b \<le> 65536"
  shows "\<exists>m'. st' = Shared m' \<and> finished codec flow_id s' m'"
proof -
  obtain enc where enc: "sc_encode codec s = Inr enc" using assms(1) by (auto simp: finish_run_def split: sum.splits)
  obtain payload where pay: "mp_serialize serialize_terminal enc = Inr payload" "length payload \<le> max_dsl_terminal_bytes"
    using assms(1) enc by (auto simp: finish_run_def persist_checkpoint_terminal_def split: sum.splits if_splits)
  let ?p = "with_terminal payload (progress_new flow_id dsl_terminal_step_index [] (ps_now ps w))"
  obtain c m1 where c: "ps_create ps ?p m = (c, m1)" by fastforce
  have key: "progress_key ?p = (flow_id, dsl_terminal_step_index)" by (simp add: with_terminal_def progress_new_def progress_key_def)
  consider (created) "c = Inr True" | (lost) "c = Inr False" using assms(1) enc pay c
    by (cases c) (auto simp: finish_run_def persist_checkpoint_terminal_def split: bool.splits)
  then show ?thesis
  proof cases
    case created
    then have r: "s' = s" "st' = Shared m1" using assms(1) enc pay c
      by (auto simp: finish_run_def persist_checkpoint_terminal_def bind_r_Inr_iff split: prod.splits)
    then have "read_terminal ?p = Inr enc" using terminal_readable [OF pay] assms(3) enc
      by (simp add: read_terminal_def with_terminal_def)
    moreover have "sc_decode codec enc = Inr s" using assms(2) enc by (auto simp: codec_inverse_def)
    ultimately show ?thesis using r create_law [OF c] created key by (auto simp: finished_def)
  next
    case lost
    obtain g st1 where g: "load_checkpoint_terminal ps flow_id (Shared m1) = (g, st1)" by fastforce
    then obtain b where "g = Inr (Some b)" "sc_decode codec b = Inr s'" "st' = st1" using assms(1) enc pay c lost
      by (auto simp: finish_run_def persist_checkpoint_terminal_def split: sum.splits option.splits)
    then show ?thesis using load_terminal_finished [of flow_id m1 b st1 codec s'] g by simp
  qed
qed

lemma steps_loop_shared:
  assumes "typed_store codec flow_id (Shared m)" "steps_loop ps lc flow_id codec (drop n (map (cp_step rt ps) steps)) index cursor s (Shared m) w = (r, s', st', w')"
  shows "\<exists>m'. st' = Shared m' \<and> records_typed codec flow_id (records m')"
proof -
  have "typed_store codec flow_id st'"
    by (rule steps_loop_typed [OF _ assms]) (use runs_typed(1) [of rt] in \<open>auto dest!: in_set_dropD\<close>)
  then show ?thesis by (auto simp: typed_store_def)
qed

lemma find_checkpoint_shared:
  assumes "typed_store codec flow_id (Shared m)" "find_checkpoint ps codec flow_id initial n (Shared m) = (r, st')"
  shows "\<exists>m'. st' = Shared m' \<and> typed_store codec flow_id st'"
  using find_checkpoint_typed [OF assms] by (auto simp: typed_store_def)

text \<open>A run that succeeds ends in a successful end of a run, or found the flow finished.\<close>

lemma run_checkpointed_Inr:
  assumes "run_checkpointed rt ps f flow_id codec initial (Shared m) w = (Inr s', st', w')" "records_typed codec flow_id (records m)"
  shows "(\<exists>b. load_checkpoint_terminal ps flow_id (Shared m) = (Inr (Some b), st') \<and> sc_decode codec b = Inr s') \<or>
    (\<exists>s m1 w1. records_typed codec flow_id (records m1) \<and> finish_run ps (flow_lifecycle f) flow_id codec s (Shared m1) w1 = (Inr s', st', w'))"
proof -
  obtain steps lc where f: "f = DslFlow steps lc" by (cases f)
  let ?runs = "map (cp_step rt ps) steps"
  obtain g st1 where g: "load_checkpoint_terminal ps flow_id (Shared m) = (g, st1)" by fastforce
  have t: "typed_store codec flow_id (Shared m)" using assms(2) by (simp add: typed_store_def)
  have t1: "typed_store codec flow_id st1" using g typed_get [OF t, of flow_id dsl_terminal_step_index]
    by (auto simp: load_checkpoint_terminal_def simp del: store_get.simps split: prod.splits sum.splits option.splits)
  then obtain m1 where m1: "st1 = Shared m1" by (auto simp: typed_store_def)
  show ?thesis
  proof (cases "\<exists>b. g = Inr (Some b)")
    case True
    then show ?thesis using assms(1) f g by (auto simp: run_checkpointed_inner_def)
  next
    case False
    then have "g = Inr None" using assms(1) f g by (cases g) (auto simp: run_checkpointed_inner_def split: option.splits)
    obtain x st2 where x: "find_checkpoint ps codec flow_id initial (length ?runs) st1 = (x, st2)" by fastforce
    obtain m2 where m2: "st2 = Shared m2" "typed_store codec flow_id (Shared m2)"
      using find_checkpoint_shared [of codec flow_id m1] t1 x m1 by blast
    obtain y where "x = Inr y" using assms(1) f g \<open>g = Inr None\<close> x by (cases x) (auto simp: run_checkpointed_inner_def)
    obtain s start cursor where y: "y = (s, start, cursor)" by (metis prod_cases3)
    obtain q s1 st3 w3 where q: "steps_loop ps lc flow_id codec (drop start ?runs) start cursor s st2 w = (q, s1, st3, w3)" by (metis prod_cases4)
    then obtain m3 where "st3 = Shared m3" "records_typed codec flow_id (records m3)" using steps_loop_shared [OF m2(2)] m2(1) by blast
    then show ?thesis using assms(1) f g \<open>g = Inr None\<close> x \<open>x = Inr y\<close> y q by (auto simp: run_checkpointed_inner_def split: sum.splits)
  qed
qed

lemma success_finishes:
  assumes "run_checkpointed rt ps f flow_id codec initial (Shared m) w = (Inr s', st', w')" "records_typed codec flow_id (records m)"
    "codec_inverse codec" "\<And>b. sc_encode codec s' = Inr b \<Longrightarrow> length b \<le> 65536"
  shows "\<exists>m'. st' = Shared m' \<and> finished codec flow_id s' m'"
  using run_checkpointed_Inr [OF assms(1,2)]
proof (elim disjE exE conjE)
  fix b
  assume "load_checkpoint_terminal ps flow_id (Shared m) = (Inr (Some b), st')" "sc_decode codec b = Inr s'"
  then show ?thesis by (rule load_terminal_finished)
next
  fix s m1 w1
  assume "finish_run ps (flow_lifecycle f) flow_id codec s (Shared m1) w1 = (Inr s', st', w')"
  then show ?thesis by (rule finish_run_finished [OF _ assms(3,4)])
qed

text \<open>A terminal record whose state is too large is never read again.\<close>

definition spoiled :: "string \<Rightarrow> 'p \<Rightarrow> bool" where
  "spoiled flow_id m \<longleftrightarrow> (\<exists>p e. records m (flow_id, dsl_terminal_step_index) = Some p \<and> read_terminal p = Inl e \<and> ce_code e = Validation)"

lemma load_terminal_small:
  assumes "load_checkpoint_terminal ps flow_id (Shared m) = (Inr (Some b), st')" "sc_decode codec b = Inr s"
    "records_typed codec flow_id (records m)" "codec_inverse codec" "sc_encode codec s = Inr c"
  shows "length c \<le> 65536"
proof -
  obtain g m' where g: "ps_get ps flow_id dsl_terminal_step_index m = (g, m')" by fastforce
  then obtain p where p: "g = Inr (Some p)" "read_terminal p = Inr b"
    using assms(1) by (auto simp: load_checkpoint_terminal_def bind_r_Inr_iff split: sum.splits option.splits)
  then have "progress_typed codec p" using get_law [OF g] assms(3) by (auto simp: records_typed_def)
  then obtain s0 b0 where b0: "sc_encode codec s0 = Inr b0" "mp_serialize serialize_terminal b0 = Inr (dp_payload p)"
    using p(2) by (auto simp: progress_typed_def encodes_terminal_def encodes_state_def read_terminal_def split: if_splits)
  have "mp_deserialize deserialize_terminal (dp_payload p) = Inr b" using p(2) by (auto simp: read_terminal_def split: if_splits sum.splits)
  then have "b = b0" "length b0 \<le> 65536" using terminal_read [OF b0(2)] by auto
  then show ?thesis using assms(2,4,5) b0(1) by (auto simp: codec_inverse_def)
qed

lemma finish_run_spoiled:
  assumes "finish_run ps lc flow_id codec s (Shared m) w = (Inr s', st', w')" "codec_inverse codec" "records_typed codec flow_id (records m)"
    "sc_encode codec s' = Inr b" "65536 < length b"
  shows "\<exists>m'. st' = Shared m' \<and> spoiled flow_id m'"
proof -
  obtain enc where enc: "sc_encode codec s = Inr enc" using assms(1) by (auto simp: finish_run_def split: sum.splits)
  obtain payload where pay: "mp_serialize serialize_terminal enc = Inr payload" "length payload \<le> max_dsl_terminal_bytes"
    using assms(1) enc by (auto simp: finish_run_def persist_checkpoint_terminal_def split: sum.splits if_splits)
  let ?p = "with_terminal payload (progress_new flow_id dsl_terminal_step_index [] (ps_now ps w))"
  obtain c m1 where c: "ps_create ps ?p m = (c, m1)" by fastforce
  have key: "progress_key ?p = (flow_id, dsl_terminal_step_index)" by (simp add: with_terminal_def progress_new_def progress_key_def)
  consider (created) "c = Inr True" | (lost) "c = Inr False" using assms(1) enc pay c
    by (cases c) (auto simp: finish_run_def persist_checkpoint_terminal_def split: bool.splits)
  then show ?thesis
  proof cases
    case created
    then have r: "s' = s" "st' = Shared m1" using assms(1) enc pay c
      by (auto simp: finish_run_def persist_checkpoint_terminal_def bind_r_Inr_iff split: prod.splits)
    then have "\<exists>e. read_terminal ?p = Inl e \<and> ce_code e = Validation" using terminal_unreadable [OF pay] assms(4,5) enc
      by (simp add: read_terminal_def with_terminal_def error_with_details_def error_new_def)
    then show ?thesis using r create_law [OF c] created key by (auto simp: spoiled_def)
  next
    case lost
    then have m1: "records_typed codec flow_id (records m1)" using create_law [OF c] assms(3) by auto
    obtain g st1 where g: "load_checkpoint_terminal ps flow_id (Shared m1) = (g, st1)" by fastforce
    then obtain b' where "g = Inr (Some b')" "sc_decode codec b' = Inr s'" using assms(1) enc pay c lost
      by (auto simp: finish_run_def persist_checkpoint_terminal_def split: sum.splits option.splits)
    then have "length b \<le> 65536" using load_terminal_small [of flow_id m1 b' st1 codec s' b] g m1 assms(2,4) by simp
    then show ?thesis using assms(5) by simp
  qed
qed

lemma large_success_spoils:
  assumes "run_checkpointed rt ps f flow_id codec initial (Shared m) w = (Inr s', st', w')" "records_typed codec flow_id (records m)"
    "codec_inverse codec" "sc_encode codec s' = Inr b" "65536 < length b"
  shows "\<exists>m'. st' = Shared m' \<and> spoiled flow_id m'"
  using run_checkpointed_Inr [OF assms(1,2)]
proof (elim disjE exE conjE)
  fix c
  assume "load_checkpoint_terminal ps flow_id (Shared m) = (Inr (Some c), st')" "sc_decode codec c = Inr s'"
  from load_terminal_small [OF this assms(2,3,4)] show ?thesis using assms(5) by simp
next
  fix s m1 w1
  assume m1: "records_typed codec flow_id (records m1)" and run: "finish_run ps (flow_lifecycle f) flow_id codec s (Shared m1) w1 = (Inr s', st', w')"
  show ?thesis by (rule finish_run_spoiled [OF run assms(3) m1 assms(4,5)])
qed

lemma spoiled_stays:
  assumes "spoiled flow_id m" "run_checkpointed rt ps f flow_id codec initial (Shared m) w = (r, st', w')"
  shows "w' = w" "\<exists>e. r = Inl e \<and> (ce_code e = Validation \<or> (\<exists>m'. ps_get ps flow_id dsl_terminal_step_index m = (Inl e, m')))"
proof -
  obtain p e where p: "records m (flow_id, dsl_terminal_step_index) = Some p" "read_terminal p = Inl e" "ce_code e = Validation"
    using assms(1) by (auto simp: spoiled_def)
  obtain steps lc where f: "f = DslFlow steps lc" by (cases f)
  obtain g m' where g: "ps_get ps flow_id dsl_terminal_step_index m = (g, m')" by fastforce
  then have "g = Inr (Some p) \<or> (\<exists>e. g = Inl e)" using get_law [OF g] p(1) by auto
  then show "w' = w" "\<exists>e. r = Inl e \<and> (ce_code e = Validation \<or> (\<exists>m'. ps_get ps flow_id dsl_terminal_step_index m = (Inl e, m')))"
    using assms(2) p(2,3) g by (auto simp: f run_checkpointed_inner_def load_checkpoint_terminal_def)
qed

end


lemma byte_codec_inverse: "codec_inverse byte_codec"
  by (simp add: codec_inverse_def byte_codec_def)

text \<open>A flow of one action that replaces the state.\<close>

definition put_bytes :: "bytes \<Rightarrow> (bytes, nat) act" where
  "put_bytes b s w = (Inr (), b, w + 1)"

definition byte_sample :: "bytes \<Rightarrow> (bytes, nat) dsl_flow" where
  "byte_sample b = flow_action (put_bytes b) flow_new_dsl"

lemma empty_records_typed: "records_typed codec flow_id Map.empty"
  by (simp add: records_typed_def)

lemmas run_eval = flow_action_def push_step_def flow_new_dsl_def run_checkpointed_inner_def finish_run_def
  load_checkpoint_terminal_def persist_checkpoint_terminal_def persist_completed_checkpoint_def persist_checkpoint_payload_def
  memory_progress_def memory_get_def memory_create_def lift_act_def notify_step_succeeded_def notify_flow_succeeded_def
  top_level_step_index_def dsl_terminal_step_index_def u32_try_from_def progress_new_def with_terminal_def progress_key_def
  completed_application_state_def byte_codec_def

lemma byte_sample_runs:
  assumes "length b \<le> 100000"
  shows "\<exists>st w. run_checkpointed inline_runtime (memory_progress still) (byte_sample b) ''f'' byte_codec [] (Shared Map.empty) 0 = (Inr b, st, w)"
proof -
  have ser: "mp_serialize serialize_terminal b = Inr (1 # blob_bytes b)" using assms w_terminal.ser_law [of b "[]"] by (simp add: mp_serialize_def)
  show ?thesis using assms
    by (simp add: byte_sample_def put_bytes_def run_eval ser max_dsl_terminal_bytes_def)
qed


text \<open>
  Property C39: the documentation lets a final state have up to one mebibyte, but one that encodes to more than 65536
  bytes is stored and can not be read back. Every later run under the identifier then fails.
\<close>

theorem large_final_state_unreadable:
  assumes "progress_contract ps records" "records_typed codec flow_id (records m)" "codec_inverse codec"
    "run_checkpointed rt ps f flow_id codec initial (Shared m) w = (Inr s', st', w')"
    "sc_encode codec s' = Inr b" "65536 < length b"
  shows "\<exists>m'. st' = Shared m' \<and> (\<forall>rt2 f2 initial2 w2.
    \<exists>e st2. run_checkpointed rt2 ps f2 flow_id codec initial2 (Shared m') w2 = (Inl e, st2, w2) \<and>
      (ce_code e = Validation \<or> (\<exists>m2. ps_get ps flow_id dsl_terminal_step_index m' = (Inl e, m2))))"
proof -
  obtain m' where m': "st' = Shared m'" "progress_contract.spoiled records flow_id m'"
    using progress_contract.large_success_spoils [OF assms(1,4,2,3,5,6)] by blast
  have "\<exists>e st2. run_checkpointed rt2 ps f2 flow_id codec initial2 (Shared m') w2 = (Inl e, st2, w2) \<and>
      (ce_code e = Validation \<or> (\<exists>m2. ps_get ps flow_id dsl_terminal_step_index m' = (Inl e, m2)))" for rt2 f2 initial2 w2
  proof -
    obtain r2 st2 w3 where run: "run_checkpointed rt2 ps f2 flow_id codec initial2 (Shared m') w2 = (r2, st2, w3)" by (metis prod_cases3)
    from progress_contract.spoiled_stays [OF assms(1) m'(2) run] show ?thesis using run by auto
  qed
  then show ?thesis using m'(1) by blast
qed

theorem large_final_state_unreadable_witness:
  "\<exists>m' w'. run_checkpointed inline_runtime (memory_progress still) (byte_sample (replicate 65537 0)) ''f'' byte_codec [] (Shared Map.empty) 0 =
       (Inr (replicate 65537 0), Shared m', w') \<and>
     (\<exists>e st2. run_checkpointed inline_runtime (memory_progress still) (byte_sample [2]) ''f'' byte_codec [] (Shared m') 7 = (Inl e, st2, 7) \<and>
        ce_code e = Validation)"
proof -
  define b :: bytes where "b = replicate 65537 0"
  have len: "length b = 65537" by (simp add: b_def)
  obtain st w where run: "run_checkpointed inline_runtime (memory_progress still) (byte_sample b) ''f'' byte_codec [] (Shared Map.empty) 0 = (Inr b, st, w)"
    using byte_sample_runs [of b] len by auto
  have reads: "ps_get (memory_progress still) ''f'' dsl_terminal_step_index m \<noteq> (Inl e, m2)" for m e m2
    by (simp add: memory_progress_def memory_get_def)
  have enc: "sc_encode byte_codec b = Inr b" by (simp add: byte_codec_def)
  have "65536 < length b" by (simp add: len)
  from large_final_state_unreadable [OF mpg.progress_contract_axioms empty_records_typed byte_codec_inverse run enc this]
  show ?thesis unfolding b_def [symmetric] using run reads by blast
qed

end
