(* ===== verification/Dsl_Resume.thy ===== *)
theory Dsl_Resume
  imports Dsl_Recovery_Correct
begin

text \<open>
  How a checkpointed flow continues after a failure. A flow of plain steps continues at the step that failed, with
  the state after the last completed one. Two flows with branches show where continuing goes wrong.
\<close>

section \<open>Plain flows\<close>

text \<open>Steps that keep no cursor of their own.\<close>

fun plain_step :: "('s, 'w) step \<Rightarrow> bool" where
  "plain_step (SActionWithCompensation _ _) = True"
| "plain_step (SAction _) = True"
| "plain_step (SRetry _ _ _) = True"
| "plain_step (STimeout _ _) = True"
| "plain_step _ = False"

text \<open>A codec that encodes every state, inversely, within the size limit of a terminal record.\<close>

definition faithful_codec :: "'s state_codec \<Rightarrow> bool" where
  "faithful_codec codec \<longleftrightarrow> codec_inverse codec \<and> (\<forall>s. \<exists>b. sc_encode codec s = Inr b \<and> length b \<le> 1000000)"

text \<open>The records of a flow that has completed its first \<open>k\<close> steps in state \<open>s\<close> and no other.\<close>

definition resumes_at :: "'s state_codec \<Rightarrow> string \<Rightarrow> 's \<Rightarrow> progress_map \<Rightarrow> nat \<Rightarrow> 's \<Rightarrow> bool" where
  "resumes_at codec flow_id initial m k s \<longleftrightarrow>
     (\<forall>i. k \<le> unat i \<longrightarrow> m (flow_id, i) = None) \<and>
     (if k = 0 then s = initial
      else \<exists>p. m (flow_id, word_of_nat (k - 1)) = Some p \<and> dp_kind p = ApplicationState \<and> sc_encode codec s = Inr (dp_payload p))"

text \<open>What the caller is told about the point the steps reached, and the position from which a later run continues.\<close>

fun checkpointed_outcome :: "('s, 'w) lifecycle \<Rightarrow> ('s, 'w) stop \<Rightarrow> 's catga_result \<times> 'w" where
  "checkpointed_outcome lc (Finished s w) = (case notify_flow_succeeded lc s w of (r, w) \<Rightarrow> (bind_r r (\<lambda>_. Inr s), w))"
| "checkpointed_outcome lc (StepError i e s w) = (case told_failure lc s i e w of (Inl h, w) \<Rightarrow> (Inl h, w) | (Inr _, w) \<Rightarrow> (Inl e, w))"
| "checkpointed_outcome lc (HookError i e s w) = (Inl e, w)"

fun stopped_before :: "('s, 'w) stop \<Rightarrow> nat option" where
  "stopped_before (Finished s w) = None"
| "stopped_before (StepError i e s w) = Some i"
| "stopped_before (HookError i e s w) = Some i"

lemma top_level_step_index_small:
  "index < 4294967295 \<Longrightarrow> top_level_step_index index = Inr (word_of_nat index)"
  by (auto simp: top_level_step_index_def u32_try_from_def dsl_terminal_step_index_def unat_of_nat take_bit_nat_eq_self
      dest!: arg_cong [where f = unat])

lemma unat_index: "index < 4294967295 \<Longrightarrow> unat (word_of_nat index :: u32) = index"
  by (simp add: unat_of_nat take_bit_nat_eq_self)

lemma find_checkpoint_resumes:
  assumes "resumes_at codec flow_id initial m k s" "codec_inverse codec" "k \<le> n" "n < 4294967296"
  shows "find_checkpoint (memory_progress clock) codec flow_id initial n (Shared m) = (Inr (s, k, None), Shared m)"
  using assms(3,4)
proof (induction n)
  case 0
  then show ?case using assms(1) by (simp add: resumes_at_def)
next
  case (Suc n)
  have idx: "top_level_step_index n = Inr (word_of_nat n)" "unat (word_of_nat n :: u32) = n"
    using Suc.prems by (simp_all add: top_level_step_index_small unat_index)
  show ?case
  proof (cases "k = Suc n")
    case True
    then obtain p where p: "m (flow_id, word_of_nat n) = Some p" "dp_kind p = ApplicationState" "sc_encode codec s = Inr (dp_payload p)"
      using assms(1) by (auto simp: resumes_at_def)
    have "sc_decode codec (dp_payload p) = Inr s" using p(3) assms(2) by (simp add: codec_inverse_def)
    then show ?thesis using p idx True Suc.prems by (simp add: memory_progress_def memory_get_def usize_saturating_add_def)
  next
    case False
    then have "m (flow_id, word_of_nat n) = None" using assms(1) idx Suc.prems by (simp add: resumes_at_def)
    then show ?thesis using Suc False idx by (simp add: memory_progress_def memory_get_def)
  qed
qed

text \<open>A completed step moves the point of resumption past it.\<close>

lemma completed_resumes:
  assumes "resumes_at codec flow_id initial m k s" "faithful_codec codec" "k < 4294967295"
  shows "\<exists>m'. persist_completed_checkpoint (memory_progress clock) \<lparr>cx_flow_id = flow_id, cx_top_level_step = word_of_nat k, cx_codec = codec\<rparr> s' w (Shared m) =
      (Inr (), Shared m') \<and> resumes_at codec flow_id initial m' (Suc k) s'"
proof -
  obtain b where b: "sc_encode codec s' = Inr b" using assms(2) by (auto simp: faithful_codec_def)
  let ?p = "progress_new flow_id (word_of_nat k) b (clock w)"
  have "m (flow_id, word_of_nat k) = None" using assms(1,3) by (simp add: resumes_at_def unat_index)
  then have "persist_completed_checkpoint (memory_progress clock) \<lparr>cx_flow_id = flow_id, cx_top_level_step = word_of_nat k, cx_codec = codec\<rparr> s' w (Shared m) =
      (Inr (), Shared (m((flow_id, word_of_nat k) \<mapsto> ?p)))"
    using b by (simp add: persist_completed_checkpoint_def persist_checkpoint_payload_def memory_progress_def memory_create_def progress_key_def progress_new_def)
  moreover have "resumes_at codec flow_id initial (m((flow_id, word_of_nat k) \<mapsto> ?p)) (Suc k) s'"
    using assms(1,3) b by (auto simp: resumes_at_def progress_new_def unat_index)
  ultimately show ?thesis by blast
qed

lemma steps_loop_resumes:
  assumes "resumes_at codec flow_id initial m k s" "faithful_codec codec" "k + length acts < 4294967296"
  shows "\<exists>m'. (case run_until lc k acts s w of
        Finished s1 w1 \<Rightarrow> steps_loop (memory_progress clock) lc flow_id codec (map (\<lambda>a cx cursor. lift_act a) acts) k cursor s (Shared m) w = (Inr (), s1, Shared m', w1) \<and>
          resumes_at codec flow_id initial m' (k + length acts) s1
      | stop \<Rightarrow> (\<exists>s1. steps_loop (memory_progress clock) lc flow_id codec (map (\<lambda>a cx cursor. lift_act a) acts) k cursor s (Shared m) w =
            (bind_r (fst (checkpointed_outcome lc stop)) (\<lambda>_. Inr ()), s1, Shared m', snd (checkpointed_outcome lc stop))) \<and>
          (\<exists>i s2 w2. stopped_before stop = Some i \<and> k \<le> i \<and> run_until lc k (take (i - k) acts) s w = Finished s2 w2 \<and>
             resumes_at codec flow_id initial m' i s2))"
  using assms(1,3)
proof (induction acts arbitrary: m k s w cursor)
  case (Cons a acts)
  have idx: "top_level_step_index k = Inr (word_of_nat k)" using Cons.prems(2) by (simp add: top_level_step_index_small)
  obtain r s1 w1 where a: "a s w = (r, s1, w1)" by (metis prod_cases3)
  show ?case
  proof (cases r)
    case (Inl e)
    have "stopped_before (StepError k e s1 w1) = Some k \<and> k \<le> k \<and> run_until lc k (take (k - k) (a # acts)) s w = Finished s w \<and>
        resumes_at codec flow_id initial m k s" using Cons.prems(1) by simp
    then show ?thesis using a Inl idx
      by (auto simp: lift_act_def told_failure_def Let_def split: prod.splits sum.splits intro!: exI [of _ m])
  next
    case (Inr u)
    obtain h w2 where h: "notify_step_succeeded lc s1 k w1 = (h, w2)" by fastforce
    show ?thesis
    proof (cases h)
      case (Inl e)
      then show ?thesis using Cons.prems(1) a Inr idx h by (auto simp: lift_act_def intro!: exI [of _ m])
    next
      case (Inr v)
      have "k < 4294967295" using Cons.prems(2) by simp
      then obtain m1 where m1: "persist_completed_checkpoint (memory_progress clock) \<lparr>cx_flow_id = flow_id, cx_top_level_step = word_of_nat k, cx_codec = codec\<rparr> s1 w2 (Shared m) =
          (Inr (), Shared m1)" "resumes_at codec flow_id initial m1 (Suc k) s1"
        using completed_resumes [OF Cons.prems(1) assms(2)] by metis
      have step: "steps_loop (memory_progress clock) lc flow_id codec (map (\<lambda>a cx cursor. lift_act a) (a # acts)) k cursor s (Shared m) w =
          steps_loop (memory_progress clock) lc flow_id codec (map (\<lambda>a cx cursor. lift_act a) acts) (Suc k) None s1 (Shared m1) w2"
        using a \<open>r = Inr u\<close> h Inr idx m1(1) by (simp add: lift_act_def)
      have until: "run_until lc k (a # acts) s w = run_until lc (Suc k) acts s1 w2"
        "Suc k \<le> i \<Longrightarrow> run_until lc k (take (i - k) (a # acts)) s w = run_until lc (Suc k) (take (i - Suc k) acts) s1 w2" for i
        using a \<open>r = Inr u\<close> h Inr by (auto simp: take_Cons' Suc_diff_le)
      have "Suc k + length acts < 4294967296" using Cons.prems(2) by simp
      from Cons.IH [OF m1(2) this, of None w2] show ?thesis unfolding step until(1)
        by (cases "run_until lc (Suc k) acts s1 w2") (use until(2) in \<open>auto dest: Suc_leD simp del: take_Suc_Cons\<close>)
    qed
  qed
qed (simp add: assms(1))

lemma plain_steps:
  "list_all plain_step steps \<Longrightarrow> map (cp_step rt ps) steps = map (\<lambda>a cx cursor. lift_act a) (map (run_step rt) steps)"
proof (induction steps)
  case (Cons st steps)
  then show ?case by (cases st) auto
qed simp

lemma finish_run_resumes:
  assumes "resumes_at codec flow_id initial m k s" "faithful_codec codec" "k < 4294967296"
  shows "\<exists>m'. finish_run (memory_progress clock) lc flow_id codec s (Shared m) w =
      (fst (checkpointed_outcome lc (Finished s w)), Shared m', snd (checkpointed_outcome lc (Finished s w)))"
proof -
  obtain b where b: "sc_encode codec s = Inr b" "length b \<le> 1000000" using assms(2) by (auto simp: faithful_codec_def)
  have ser: "mp_serialize serialize_terminal b = Inr (1 # blob_bytes b)" using b(2) w_terminal.ser_law [of b "[]"] by (simp add: mp_serialize_def)
  have "unat dsl_terminal_step_index = 4294967295" by (simp add: dsl_terminal_step_index_def)
  then have "m (flow_id, dsl_terminal_step_index) = None" using assms(1,3) by (simp add: resumes_at_def)
  then show ?thesis using b ser
    by (simp add: finish_run_def persist_checkpoint_terminal_def memory_progress_def memory_create_def progress_key_def progress_new_def
        with_terminal_def max_dsl_terminal_bytes_def split: prod.splits)
qed

text \<open>
  Property C31: a checkpointed run of plain steps continues where the last one stopped. With the records of its first
  \<open>k\<close> steps in the store it runs exactly the steps from \<open>k\<close> on, from the state after step \<open>k\<close>, and answers as an
  uninterrupted run of them. When step \<open>i\<close> or its success hook fails, the records left are those of the first \<open>i\<close>
  steps with the state after them, so the next run starts at step \<open>i\<close>.
\<close>

theorem checkpointed_run_resumes:
  assumes "list_all plain_step (flow_steps f)" "length (flow_steps f) < 4294967296" "faithful_codec codec"
    "resumes_at codec flow_id initial m k s" "k \<le> length (flow_steps f)"
    and acts: "acts = map (run_step rt) (drop k (flow_steps f))"
    and stop: "stop = run_until (flow_lifecycle f) k acts s w"
  shows "\<exists>m'. run_checkpointed rt (memory_progress clock) f flow_id codec initial (Shared m) w =
        (fst (checkpointed_outcome (flow_lifecycle f) stop), Shared m', snd (checkpointed_outcome (flow_lifecycle f) stop)) \<and>
      (\<forall>i. stopped_before stop = Some i \<longrightarrow>
        (\<exists>s2 w2. run_until (flow_lifecycle f) k (take (i - k) acts) s w = Finished s2 w2 \<and> resumes_at codec flow_id initial m' i s2))"
proof -
  obtain steps lc where f: "f = DslFlow steps lc" by (cases f)
  let ?ps = "memory_progress clock" and ?runs = "map (cp_step rt (memory_progress clock)) steps"
  have runs: "drop k ?runs = map (\<lambda>a cx cursor. lift_act a) acts"
    using plain_steps [of "drop k steps" rt ?ps] assms(1) by (simp add: f acts drop_map list_all_iff in_set_dropD)
  have len: "k + length acts < 4294967296" using assms(2,5) f by (simp add: acts)
  have inv: "codec_inverse codec" using assms(3) by (simp add: faithful_codec_def)
  have "unat dsl_terminal_step_index = 4294967295" by (simp add: dsl_terminal_step_index_def)
  then have none: "m (flow_id, dsl_terminal_step_index) = None" using assms(2,4,5) by (auto simp: resumes_at_def f)
  have "run_checkpointed rt ?ps f flow_id codec initial (Shared m) w =
      (case steps_loop ?ps lc flow_id codec (drop k ?runs) k None s (Shared m) w of
         (Inl e, s, st, w) \<Rightarrow> (Inl e, st, w) | (Inr _, s, st, w) \<Rightarrow> finish_run ?ps lc flow_id codec s st w)"
    using find_checkpoint_resumes [OF assms(4) inv, of "length steps" clock] assms(2,5) none
    by (simp add: f run_checkpointed_inner_def load_checkpoint_terminal_def) (simp add: memory_progress_def memory_get_def)
  note run = this [unfolded runs]
  note loop = steps_loop_resumes [OF assms(4,3) len, where lc = lc and w = w and clock = clock and cursor = None]
  show ?thesis
  proof (cases stop)
    case (Finished s1 w1)
    then obtain m1 where "steps_loop ?ps lc flow_id codec (map (\<lambda>a cx cursor. lift_act a) acts) k None s (Shared m) w = (Inr (), s1, Shared m1, w1)"
      "resumes_at codec flow_id initial m1 (k + length acts) s1" using loop stop f by auto
    then show ?thesis using finish_run_resumes [OF _ assms(3) len, where lc = lc and w = w1 and clock = clock] run Finished f by auto
  next
    case (StepError i e s1 w1)
    then show ?thesis using loop stop f run by (auto simp: split: prod.splits sum.splits)
  next
    case (HookError i e s1 w1)
    then show ?thesis using loop stop f run by auto
  qed
qed

text \<open>A state of one byte, and a flow whose second step fails until the world has reached the number 5.\<close>

definition one_byte_codec :: "u8 state_codec" where
  "one_byte_codec = \<lparr>sc_encode = (\<lambda>s. Inr [s]), sc_decode = (\<lambda>b. case b of [s] \<Rightarrow> Inr s | _ \<Rightarrow> Inl (invalid ''state''))\<rparr>"

definition add_byte :: "u8 \<Rightarrow> (u8, nat) act" where
  "add_byte b s w = (Inr (), s + b, w + 1)"

definition add_from_5 :: "u8 \<Rightarrow> (u8, nat) act" where
  "add_from_5 b s w = (if w < 5 then (Inl (invalid ''early''), s, w) else (Inr (), s + b, w + 1))"

definition flaky_sample :: "(u8, nat) dsl_flow" where
  "flaky_sample = flow_action (add_from_5 10) (flow_action (add_byte 1) flow_new_dsl)"

lemma one_byte_codec_faithful: "faithful_codec one_byte_codec"
  by (simp add: faithful_codec_def codec_inverse_def one_byte_codec_def)

lemma resumes_at_empty: "resumes_at codec flow_id initial Map.empty 0 initial"
  by (simp add: resumes_at_def)

lemmas flaky_eval = flaky_sample_def flow_action_def push_step_def flow_new_dsl_def add_byte_def add_from_5_def
  notify_step_succeeded_def notify_step_failed_def notify_flow_failed_def notify_flow_succeeded_def told_failure_def notify_def

theorem checkpointed_run_resumes_witness:
  "\<exists>m. run_checkpointed inline_runtime (memory_progress still) flaky_sample ''f'' one_byte_codec 0 (Shared Map.empty) 0 =
         (Inl (invalid ''early''), Shared m, 1) \<and>
       (\<exists>m'. run_checkpointed inline_runtime (memory_progress still) flaky_sample ''f'' one_byte_codec 0 (Shared m) 7 = (Inr 11, Shared m', 8))"
proof -
  have plain: "list_all plain_step (flow_steps flaky_sample)" "length (flow_steps flaky_sample) = 2" by (simp_all add: flaky_eval)
  obtain m where m: "run_checkpointed inline_runtime (memory_progress still) flaky_sample ''f'' one_byte_codec 0 (Shared Map.empty) 0 =
      (Inl (invalid ''early''), Shared m, 1)" "resumes_at one_byte_codec ''f'' 0 m 1 1"
    using checkpointed_run_resumes [OF plain(1) _ one_byte_codec_faithful resumes_at_empty _ refl refl,
      where flow_id = "''f''" and initial = 0 and w = 0 and rt = inline_runtime and clock = still] by (auto simp: flaky_eval)
  obtain m' where "run_checkpointed inline_runtime (memory_progress still) flaky_sample ''f'' one_byte_codec 0 (Shared m) 7 = (Inr 11, Shared m', 8)"
    using checkpointed_run_resumes [OF plain(1) _ one_byte_codec_faithful m(2) _ refl refl,
      where w = 7 and rt = inline_runtime and clock = still] by (auto simp: flaky_eval)
  with m(1) show ?thesis by blast
qed

section \<open>Branches\<close>

text \<open>A frame for the start of a path can always be written and read.\<close>

lemma branch_frame:
  assumes "length levels \<le> 32" "length state \<le> 1000000"
  shows "frame_encode levels state WorkBranch = Inr (frame_bytes levels state (work_bytes WorkBranch))"
    "frame_decode (frame_bytes levels state (work_bytes WorkBranch)) = Inr (Some \<lparr>cf_levels = levels, cf_state = state, cf_work = WorkBranch\<rparr>)"
proof -
  have small: "work_small 2147483647 WorkBranch" "work_within WorkBranch" "length (work_bytes WorkBranch) \<le> 1000"
    by (simp_all add: work_small_def work_within_def list_bytes_def option_bytes_def branch_progress_default_def)
  have len: "length (frame_bytes levels state (work_bytes WorkBranch)) \<le> 1048842" using assms small(3) by (simp add: length_frame_bytes)
  then show "frame_encode levels state WorkBranch = Inr (frame_bytes levels state (work_bytes WorkBranch))"
    using assms by (simp add: frame_encode_Inr [OF small(1)])
  show "frame_decode (frame_bytes levels state (work_bytes WorkBranch)) = Inr (Some \<lparr>cf_levels = levels, cf_state = state, cf_work = WorkBranch\<rparr>)"
    using frame_decode_bytes [of levels state "work_bytes WorkBranch" "[]"] assms len work_decode [OF small(2)] by simp
qed

definition two_conditionals :: "('s, 'w) act \<Rightarrow> ('s, 'w) act \<Rightarrow> ('s, 'w) dsl_flow" where
  "two_conditionals a b =
     (let pick = (\<lambda>act. flow_if_else (\<lambda>_. True) (flow_action act flow_new_dsl) flow_new_dsl)
      in flow_if_else (\<lambda>_. True) (pick b (pick a flow_new_dsl)) flow_new_dsl flow_new_dsl)"

lemmas branch_eval = flow_if_else_def flow_action_def push_step_def flow_new_dsl_def run_checkpointed_inner_def finish_run_def
  load_checkpoint_terminal_def persist_checkpoint_terminal_def persist_completed_checkpoint_def persist_checkpoint_payload_def
  memory_progress_def memory_get_def memory_create_def memory_update_def lift_act_def notify_step_succeeded_def notify_flow_succeeded_def
  top_level_step_index_def dsl_terminal_step_index_def u32_try_from_def progress_new_def with_terminal_def with_checkpoint_frame_def
  progress_key_def completed_application_state_def branch_step_def selected_if_def branch_loop_def branch_start_def nested_child_def
  enter_nested_def plain_child_def at_child_def nested_checkpoint_payload_def checked_add_def select_nth_def max_checkpoint_path_depth_def notify_def
  max_checkpoint_cas_retries_def progress_is_next_version_def i64_checked_add_def i64_try_from_def in_i64_def i64_min_def i64_max_def max_dsl_terminal_bytes_def
  notify_step_failed_def notify_flow_failed_def

text \<open>
  Property C37: two conditionals in a row inside a branch. A checkpointed run takes the saved level of the first one for
  the second one, so the second one's steps are skipped although the run succeeds; a run without checkpoints executes
  them.
\<close>

theorem second_conditional_skipped:
  assumes "faithful_codec codec" "a s w = (Inr (), s1, w1)"
  shows "run_flow rt (two_conditionals a b) s w = b s1 w1 \<and>
    (\<exists>m. run_checkpointed rt (memory_progress clock) (two_conditionals a b) flow_id codec s (Shared Map.empty) w = (Inr s1, Shared m, w1))"
proof
  obtain c where c: "sc_encode codec s1 = Inr c" "length c \<le> 1000000" using assms(1) by (auto simp: faithful_codec_def)
  have ser: "mp_serialize serialize_terminal c = Inr (1 # blob_bytes c)" using c(2) w_terminal.ser_law [of c "[]"] by (simp add: mp_serialize_def)
  show "\<exists>m. run_checkpointed rt (memory_progress clock) (two_conditionals a b) flow_id codec s (Shared Map.empty) w = (Inr s1, Shared m, w1)"
    using assms(2) c ser by (simp add: two_conditionals_def branch_eval branch_frame Let_def numeral_3_eq_3)
  show "run_flow rt (two_conditionals a b) s w = b s1 w1"
    using assms(2) by (simp add: two_conditionals_def branch_eval Let_def split: prod.splits sum.splits)
qed

theorem second_conditional_skipped_witness:
  "run_flow inline_runtime (two_conditionals (add_byte 1) (add_byte 10)) 0 0 = (Inr (), 11, 2) \<and>
   (\<exists>m. run_checkpointed inline_runtime (memory_progress still) (two_conditionals (add_byte 1) (add_byte 10)) ''f'' one_byte_codec 0 (Shared Map.empty) 0 =
      (Inr 1, Shared m, 1))"
  using second_conditional_skipped [OF one_byte_codec_faithful, of "add_byte 1" 0 0 1 1 inline_runtime "add_byte 10" still "''f''"]
  by (simp add: add_byte_def)

definition action_then_items :: "('s, 'w) act \<Rightarrow> ('s, 'w) replayable \<Rightarrow> ('s, 'w) dsl_flow" where
  "action_then_items a op =
     flow_if_else (\<lambda>_. True) (push_step (SReplayableForEach op) (flow_action a flow_new_dsl)) flow_new_dsl flow_new_dsl"

lemma validated_count: "validate_replayable_for_each_items items = Inr () \<Longrightarrow> length items < 4294967296"
  by (auto simp: validate_replayable_for_each_items_def bind_r_Inr_iff max_checkpoint_replayable_items_def split: if_splits)

text \<open>
  Property C38: a branch of an action followed by a replayable loop whose first item fails. The record left is the one
  written after the action, whose cursor names no loop, and the loop refuses it: every later run of the flow fails
  with a validation error before it does anything.
\<close>

theorem branch_loop_never_resumes:
  assumes "faithful_codec codec" "a s w = (Inr (), s1, w1)" "rf_select op s1 = Inr items"
    "validate_replayable_for_each_items items = Inr ()" "items = item # rest" "replay_item op 0 item s1 w1 = (Inl e, s2, w2)"
  shows "\<exists>m. run_checkpointed rt (memory_progress clock) (action_then_items a op) flow_id codec s (Shared Map.empty) w = (Inl e, Shared m, w2) \<and>
    (\<forall>rt2 initial2 w'. run_checkpointed rt2 (memory_progress clock) (action_then_items a op) flow_id codec initial2 (Shared m) w' =
       (Inl (invalid ''DSL checkpoint cursor does not describe a replayable for_each step''), Shared m, w'))"
proof -
  obtain c where c: "sc_encode codec s1 = Inr c" "length c \<le> 1000000" using assms(1) by (auto simp: faithful_codec_def)
  then have dec: "sc_decode codec c = Inr s1" using assms(1) by (simp add: faithful_codec_def codec_inverse_def)
  have count: "length rest < 4294967295" using validated_count [OF assms(4)] assms(5) by simp
  then have "unat (word_of_nat (Suc (length rest)) :: u32) = Suc (length rest)"
    by (simp add: unat_of_nat take_bit_nat_eq_self del: of_nat_Suc)
  then have pos: "(0 :: u32) < 1 + word_of_nat (length rest)" by (simp add: word_less_nat_alt)
  show ?thesis using assms(2-4,6) c dec count pos unfolding assms(5)
    by (simp add: branch_frame(2) [simplified] action_then_items_def branch_eval branch_frame Let_def cursor_child_def run_checkpointed_replayable_def)
qed

definition failing_items :: "(u8, nat) replayable" where
  "failing_items = \<lparr>rf_select = (\<lambda>_. Inr [[7]]), rf_action = (\<lambda>_ s w. (Inl (invalid ''item''), s, w + 1)), rf_on_error = None\<rparr>"

theorem branch_loop_never_resumes_witness:
  "\<exists>m. run_checkpointed inline_runtime (memory_progress still) (action_then_items (add_byte 1) failing_items) ''f'' one_byte_codec 0 (Shared Map.empty) 0 =
       (Inl (invalid ''item''), Shared m, 2) \<and>
     run_checkpointed inline_runtime (memory_progress still) (action_then_items (add_byte 1) failing_items) ''f'' one_byte_codec 0 (Shared m) 9 =
       (Inl (invalid ''DSL checkpoint cursor does not describe a replayable for_each step''), Shared m, 9)"
proof -
  have items: "validate_replayable_for_each_items [[7]] = Inr ()"
    by (simp add: validate_replayable_for_each_items_def max_checkpoint_replayable_items_def max_checkpoint_replayable_item_bytes_def
        max_checkpoint_replayable_items_bytes_def usize_checked_add_def)
  have run: "add_byte 1 0 0 = (Inr (), 1, 1)" "rf_select failing_items 1 = Inr [[7]]" "replay_item failing_items 0 [7] 1 1 = (Inl (invalid ''item''), 1, 2)"
    by (simp_all add: add_byte_def failing_items_def replay_item_def)
  show ?thesis
    using branch_loop_never_resumes [where a = "add_byte 1" and s = 0 and w = 0, OF one_byte_codec_faithful run(1,2) items refl run(3),
      of inline_runtime still "''f''"] by blast
qed

end
