(* ===== verification/Suspension.thy ===== *)
theory Suspension
  imports Flows
begin

text \<open>
  Suspended flows: wait conditions with the launches of their children, continuations
  (\<open>crates/catga-core/src/flow/suspension.rs\<close>) and the evaluation of a wait (\<open>flow/runtime_wait.rs\<close>). A
  clock reading is an argument. A wait decides by the first report of each child, every operation keeps a wait and
  a continuation valid, and a launch claim excludes other owners until it expires.
\<close>

section \<open>Wait conditions\<close>

datatype wait_policy = WaitAll | WaitAny

definition max_wait_children :: nat where
  "max_wait_children = 1024"

definition max_wait_result_bytes :: nat where
  "max_wait_result_bytes = 64 * 1024"

definition max_flow_compensations :: nat where
  "max_flow_compensations = 1024"

datatype child_launch_state = ChildPending | ChildClaimed string systime | ChildLaunched

record child_launch =
  ch_id :: string
  ch_state :: child_launch_state

definition child_pending :: "string \<Rightarrow> child_launch" where
  "child_pending child_id = \<lparr>ch_id = child_id, ch_state = ChildPending\<rparr>"

record wait_result =
  wr_child :: string
  wr_payload :: "bytes option"
  wr_error :: "catga_error option"

definition wait_success :: "string \<Rightarrow> bytes \<Rightarrow> wait_result" where
  "wait_success child_id payload = \<lparr>wr_child = child_id, wr_payload = Some payload, wr_error = None\<rparr>"

definition wait_failure :: "string \<Rightarrow> catga_error \<Rightarrow> wait_result" where
  "wait_failure child_id e = \<lparr>wr_child = child_id, wr_payload = None, wr_error = Some e\<rparr>"

definition wr_is_success :: "wait_result \<Rightarrow> bool" where
  "wr_is_success r \<longleftrightarrow> wr_error r = None"

record wait_condition =
  wc_correlation :: string
  wc_policy :: wait_policy
  wc_expected :: u32
  wc_results :: "wait_result list"
  wc_created :: systime
  wc_timeout :: duration
  wc_children :: "child_launch list"

definition wait_new :: "string \<Rightarrow> wait_policy \<Rightarrow> u32 \<Rightarrow> systime \<Rightarrow> duration \<Rightarrow> wait_condition" where
  "wait_new correlation_id policy expected_count created_at timeout =
     \<lparr>wc_correlation = correlation_id, wc_policy = policy, wc_expected = expected_count, wc_results = [],
      wc_created = created_at, wc_timeout = timeout, wc_children = []\<rparr>"

fun collect_children :: "child_launch list \<Rightarrow> string list \<Rightarrow> child_launch list catga_result" where
  "collect_children children [] = Inr children"
| "collect_children children (child_id # ids) =
     (if child_id = [] \<or> child_id \<in> ch_id ` set children
      then Inl (error_new Validation ''flow child identities must be non-empty and unique'')
      else if length children = max_wait_children
      then Inl (error_new Validation ''flow child wait exceeds the supported child limit'')
      else collect_children (children @ [child_pending child_id]) ids)"

definition for_children :: "string \<Rightarrow> wait_policy \<Rightarrow> string list \<Rightarrow> systime \<Rightarrow> duration \<Rightarrow> wait_condition catga_result" where
  "for_children correlation_id policy child_ids created_at timeout =
     bind_r (collect_children [] child_ids) (\<lambda>children.
       if children = [] then Inl (error_new Validation ''a durable child wait requires at least one child identity'')
       else Inr \<lparr>wc_correlation = correlation_id, wc_policy = policy,
                 wc_expected = u32_or_max (length children),
                 wc_results = [], wc_created = created_at, wc_timeout = timeout, wc_children = children\<rparr>)"

definition completed_count :: "wait_condition \<Rightarrow> u32" where
  "completed_count w = u32_or_max (length (wc_results w))"

definition is_expired_at :: "systime \<Rightarrow> wait_condition \<Rightarrow> bool" where
  "is_expired_at now w \<longleftrightarrow> wc_created w \<le> now \<and> nat (now - wc_created w) \<ge> wc_timeout w"

definition accepts_child :: "string \<Rightarrow> wait_condition \<Rightarrow> bool" where
  "accepts_child child_id w \<longleftrightarrow> wc_children w = [] \<or> child_id \<in> ch_id ` set (wc_children w)"

definition accepts_payload_len :: "nat \<Rightarrow> bool" where
  "accepts_payload_len payload_len \<longleftrightarrow> payload_len \<le> max_wait_result_bytes"

definition refuses_result :: "string \<Rightarrow> wait_condition \<Rightarrow> bool" where
  "refuses_result child_id w \<longleftrightarrow>
     length (wc_results w) \<ge> max_wait_children \<or> length (wc_results w) \<ge> unat (wc_expected w) \<or>
     \<not> accepts_child child_id w \<or> child_id \<in> wr_child ` set (wc_results w)"

definition wait_record_success :: "string \<Rightarrow> bytes \<Rightarrow> wait_condition \<Rightarrow> wait_condition" where
  "wait_record_success child_id payload w =
     (if length payload > max_wait_result_bytes \<or> refuses_result child_id w then w
      else w\<lparr>wc_results := wc_results w @ [wait_success child_id payload]\<rparr>)"

definition wait_record_failure :: "string \<Rightarrow> catga_error \<Rightarrow> wait_condition \<Rightarrow> wait_condition" where
  "wait_record_failure child_id e w =
     (if refuses_result child_id w then w else w\<lparr>wc_results := wc_results w @ [wait_failure child_id e]\<rparr>)"

text \<open>The first child that satisfies a predicate gets a new launch state.\<close>

fun set_child :: "(child_launch \<Rightarrow> bool) \<Rightarrow> child_launch_state \<Rightarrow> child_launch list \<Rightarrow> (string \<times> child_launch list) option" where
  "set_child P state [] = None"
| "set_child P state (c # cs) =
     (if P c then Some (ch_id c, c\<lparr>ch_state := state\<rparr> # cs)
      else map_option (\<lambda>(child_id, rest). (child_id, c # rest)) (set_child P state cs))"

definition claimable_child :: "systime \<Rightarrow> child_launch \<Rightarrow> bool" where
  "claimable_child now c \<longleftrightarrow>
     (case ch_state c of ChildPending \<Rightarrow> True | ChildClaimed _ expires_at \<Rightarrow> expires_at \<le> now | ChildLaunched \<Rightarrow> False)"

definition claimed_child :: "string \<Rightarrow> string \<Rightarrow> child_launch \<Rightarrow> bool" where
  "claimed_child child_id owner c \<longleftrightarrow>
     ch_id c = child_id \<and> (case ch_state c of ChildClaimed claim_owner _ \<Rightarrow> claim_owner = owner | _ \<Rightarrow> False)"

definition claim_next_child :: "string \<Rightarrow> systime \<Rightarrow> duration \<Rightarrow> wait_condition \<Rightarrow> (string \<times> wait_condition) option" where
  "claim_next_child owner now claim_for w =
     Option.bind (systime_checked_add now claim_for) (\<lambda>expires_at.
       map_option (\<lambda>(child_id, children). (child_id, w\<lparr>wc_children := children\<rparr>))
         (set_child (claimable_child now) (ChildClaimed owner expires_at) (wc_children w)))"

definition mark_child_launched :: "string \<Rightarrow> string \<Rightarrow> wait_condition \<Rightarrow> wait_condition option" where
  "mark_child_launched child_id owner w =
     map_option (\<lambda>(_, children). w\<lparr>wc_children := children\<rparr>) (set_child (claimed_child child_id owner) ChildLaunched (wc_children w))"

definition release_child_claim :: "string \<Rightarrow> string \<Rightarrow> wait_condition \<Rightarrow> wait_condition option" where
  "release_child_claim child_id owner w =
     map_option (\<lambda>(_, children). w\<lparr>wc_children := children\<rparr>) (set_child (claimed_child child_id owner) ChildPending (wc_children w))"

definition wait_validate :: "wait_condition \<Rightarrow> unit catga_result" where
  "wait_validate w =
     (if wc_correlation w = [] \<or> wc_expected w = 0 \<or> unat (wc_expected w) > max_wait_children \<or>
         length (wc_results w) > max_wait_children \<or> length (wc_results w) > unat (wc_expected w) \<or>
         (\<exists>r \<in> set (wc_results w). case wr_payload r of Some payload \<Rightarrow> length payload > max_wait_result_bytes | None \<Rightarrow> False)
      then Inl (error_new Validation
        ''flow wait condition requires a correlation, at least one expected child, and supported bounds'')
      else if wc_children w \<noteq> [] \<and>
         (length (wc_children w) > max_wait_children \<or> length (wc_children w) \<noteq> unat (wc_expected w) \<or>
          (\<exists>c \<in> set (wc_children w). ch_id c = []) \<or> \<not> distinct (map ch_id (wc_children w)))
      then Inl (error_new Validation ''flow child launch intents are invalid'')
      else Inr ())"

section \<open>Evaluation\<close>

datatype wait_evaluation = EvPending | EvReady | EvFailed catga_error

definition evaluate_wait :: "wait_condition \<Rightarrow> systime \<Rightarrow> wait_evaluation" where
  "evaluate_wait w now =
     (if is_expired_at now w then EvFailed (error_new Timeout ''flow wait condition timed out'')
      else case wc_policy w of
        WaitAll \<Rightarrow>
          (case List.find (\<lambda>r. wr_error r \<noteq> None) (wc_results w) of
             Some r \<Rightarrow> EvFailed (error_clone (the (wr_error r)))
           | None \<Rightarrow> if completed_count w \<ge> wc_expected w then EvReady else EvPending)
      | WaitAny \<Rightarrow>
          if \<exists>r \<in> set (wc_results w). wr_is_success r then EvReady
          else if completed_count w \<ge> wc_expected w
          then EvFailed (case wc_results w of
                  [] \<Rightarrow> error_new Transient ''all flow wait children failed''
                | _ \<Rightarrow> (case wr_error (last (wc_results w)) of
                    Some e \<Rightarrow> error_clone e | None \<Rightarrow> error_new Transient ''all flow wait children failed''))
          else EvPending)"

definition is_stale :: "systime \<Rightarrow> systime \<Rightarrow> duration \<Rightarrow> bool" where
  "is_stale heartbeat now stale_after \<longleftrightarrow> heartbeat \<le> now \<and> nat (now - heartbeat) \<ge> stale_after"

section \<open>Continuations\<close>

record continuation =
  co_state :: flow_state
  co_step :: string
  co_wait :: "wait_condition option"
  co_resume_at :: "systime option"
  co_schedule :: "string option"
  co_compensations :: "string list"
  co_created :: systime
  co_updated :: systime

definition cont_new :: "flow_state \<Rightarrow> string \<Rightarrow> systime \<Rightarrow> continuation" where
  "cont_new state step_name now =
     \<lparr>co_state = state, co_step = step_name, co_wait = None, co_resume_at = None, co_schedule = None, co_compensations = [],
      co_created = now, co_updated = now\<rparr>"

definition cont_waiting :: "flow_state \<Rightarrow> string \<Rightarrow> wait_condition \<Rightarrow> systime \<Rightarrow> continuation" where
  "cont_waiting state step_name wait now = (cont_new state step_name now)\<lparr>co_wait := Some wait\<rparr>"

definition cont_validate :: "continuation \<Rightarrow> unit catga_result" where
  "cont_validate c =
     bind_r (flow_validate (co_state c)) (\<lambda>_. case co_wait c of Some wait \<Rightarrow> wait_validate wait | None \<Rightarrow> Inr ())"

definition touch :: "systime \<Rightarrow> continuation \<Rightarrow> continuation" where
  "touch now c = c\<lparr>co_updated := now\<rparr>"

definition delayed_until :: "systime \<Rightarrow> systime \<Rightarrow> continuation \<Rightarrow> continuation" where
  "delayed_until resume_at now c = (touch now c)\<lparr>co_resume_at := Some resume_at, co_wait := None, co_schedule := None\<rparr>"

definition with_schedule_id :: "string \<Rightarrow> systime \<Rightarrow> continuation \<Rightarrow> continuation" where
  "with_schedule_id schedule_id now c = (touch now c)\<lparr>co_schedule := Some schedule_id\<rparr>"

definition with_wait :: "wait_condition \<Rightarrow> systime \<Rightarrow> continuation \<Rightarrow> continuation" where
  "with_wait wait now c = (touch now c)\<lparr>co_wait := Some wait, co_resume_at := None, co_schedule := None\<rparr>"

definition cont_at_step :: "string \<Rightarrow> systime \<Rightarrow> continuation \<Rightarrow> continuation" where
  "cont_at_step step_name now c = (touch now c)\<lparr>co_step := step_name, co_wait := None, co_resume_at := None, co_schedule := None\<rparr>"

definition cont_ready :: "systime \<Rightarrow> continuation \<Rightarrow> continuation" where
  "cont_ready now c = (touch now c)\<lparr>co_wait := None, co_resume_at := None, co_schedule := None\<rparr>"

definition with_state :: "flow_state \<Rightarrow> systime \<Rightarrow> continuation \<Rightarrow> continuation" where
  "with_state state now c = (touch now c)\<lparr>co_state := state\<rparr>"

definition record_compensation :: "string \<Rightarrow> systime \<Rightarrow> continuation \<Rightarrow> continuation catga_result" where
  "record_compensation step_name now c =
     (if length (co_compensations c) = max_flow_compensations
      then Inl (error_new Validation ''flow compensation stack exceeds the supported bound'')
      else Inr ((touch now c)\<lparr>co_compensations := co_compensations c @ [step_name]\<rparr>))"

definition next_compensation :: "continuation \<Rightarrow> string option" where
  "next_compensation c = (if co_compensations c = [] then None else Some (last (co_compensations c)))"

definition complete_compensation :: "systime \<Rightarrow> continuation \<Rightarrow> continuation" where
  "complete_compensation now c = (touch now c)\<lparr>co_compensations := butlast (co_compensations c)\<rparr>"

text \<open>Cloning drops the process-local sources of the errors inside; equality ignores them.\<close>

definition flow_clone :: "flow_state \<Rightarrow> flow_state" where
  "flow_clone f = f\<lparr>fl_error := map_option error_clone (fl_error f)\<rparr>"

definition wait_clone :: "wait_condition \<Rightarrow> wait_condition" where
  "wait_clone w = w\<lparr>wc_results := map (\<lambda>r. r\<lparr>wr_error := map_option error_clone (wr_error r)\<rparr>) (wc_results w)\<rparr>"

definition cont_clone :: "continuation \<Rightarrow> continuation" where
  "cont_clone c = c\<lparr>co_state := flow_clone (co_state c), co_wait := map_option wait_clone (co_wait c)\<rparr>"

section \<open>What a wait decides\<close>

text \<open>A report of a child. The first one of each expected child counts.\<close>

datatype report = Succeeded string bytes | Broke string catga_error

fun report_child :: "report \<Rightarrow> string" where
  "report_child (Succeeded c _) = c"
| "report_child (Broke c _) = c"

fun report_ok :: "report \<Rightarrow> bool" where
  "report_ok (Succeeded _ payload) = accepts_payload_len (length payload)"
| "report_ok (Broke _ _) = True"

fun apply_report :: "report \<Rightarrow> wait_condition \<Rightarrow> wait_condition" where
  "apply_report (Succeeded c payload) w = wait_record_success c payload w"
| "apply_report (Broke c e) w = wait_record_failure c e w"

fun result_of :: "report \<Rightarrow> wait_result" where
  "result_of (Succeeded c payload) = wait_success c payload"
| "result_of (Broke c e) = wait_failure c e"

definition first_report :: "string \<Rightarrow> report list \<Rightarrow> report option" where
  "first_report c reports = List.find (\<lambda>r. report_child r = c) reports"

lemma find_append: "List.find P (xs @ ys) = (case List.find P xs of Some x \<Rightarrow> Some x | None \<Rightarrow> List.find P ys)"
  by (induction xs) auto

lemma first_report_snoc:
  "first_report c (reports @ [r]) = (case first_report c reports of Some x \<Rightarrow> Some x | None \<Rightarrow> if report_child r = c then Some r else None)"
  by (simp add: first_report_def find_append split: option.splits)

lemma wr_child_result_of [simp]: "wr_child (result_of r) = report_child r"
  by (cases r) (simp_all add: wait_success_def wait_failure_def)

lemma apply_report_alt:
  "report_ok r \<Longrightarrow> apply_report r w =
     (if refuses_result (report_child r) w then w else w\<lparr>wc_results := wc_results w @ [result_of r]\<rparr>)"
  by (cases r) (auto simp: wait_record_success_def wait_record_failure_def accepts_payload_len_def)

lemma collect_children_Inr:
  "collect_children children ids = Inr cs \<Longrightarrow> distinct (map ch_id children) \<Longrightarrow> length children \<le> max_wait_children \<Longrightarrow>
   map ch_id cs = map ch_id children @ ids \<and> distinct (map ch_id children @ ids) \<and> length cs \<le> max_wait_children \<and>
   (\<forall>c \<in> set ids. c \<noteq> [])"
  by (induction children ids rule: collect_children.induct) (auto simp: child_pending_def disjoint_iff split: if_splits)

lemma u32_or_max_small: "n < 4294967296 \<Longrightarrow> unat (u32_or_max n) = n"
  by (simp add: u32_or_max_def u32_try_from_def unat_of_nat take_bit_nat_eq_self)

lemma for_children_Inr:
  assumes "for_children corr policy ids created timeout = Inr w"
  shows "map ch_id (wc_children w) = ids" "distinct ids" "ids \<noteq> []" "unat (wc_expected w) = length ids" "length ids \<le> max_wait_children"
    "wc_results w = []" "wc_policy w = policy" "wc_created w = created" "wc_timeout w = timeout" "wc_correlation w = corr" "\<forall>c \<in> set ids. c \<noteq> []"
proof -
  obtain cs where cs: "collect_children [] ids = Inr cs" "cs \<noteq> []"
    and w: "w = \<lparr>wc_correlation = corr, wc_policy = policy, wc_expected = u32_or_max (length cs), wc_results = [],
      wc_created = created, wc_timeout = timeout, wc_children = cs\<rparr>"
    using assms by (auto simp: for_children_def bind_r_Inr_iff split: if_splits)
  have *: "map ch_id cs = ids" "distinct ids" "length cs \<le> max_wait_children" "\<forall>c \<in> set ids. c \<noteq> []"
    using collect_children_Inr [OF cs(1)] by simp_all
  have "unat (u32_or_max (length cs)) = length cs" by (rule u32_or_max_small) (use *(3) in \<open>simp add: max_wait_children_def\<close>)
  with * cs(2) w show "map ch_id (wc_children w) = ids" "distinct ids" "ids \<noteq> []" "unat (wc_expected w) = length ids" "length ids \<le> max_wait_children"
    "wc_results w = []" "wc_policy w = policy" "wc_created w = created" "wc_timeout w = timeout" "wc_correlation w = corr" "\<forall>c \<in> set ids. c \<noteq> []"
    by auto
qed

text \<open>The results of a wait after some reports are the first reports of its children.\<close>

definition reported :: "string list \<Rightarrow> report list \<Rightarrow> wait_result list \<Rightarrow> bool" where
  "reported ids reports results \<longleftrightarrow> distinct (map wr_child results) \<and> wr_child ` set results \<subseteq> set ids \<and>
     (\<forall>c \<in> set ids. List.find (\<lambda>r. wr_child r = c) results = map_option result_of (first_report c reports))"

lemma find_None_map: "List.find (\<lambda>r. f r = c) xs = None \<longleftrightarrow> c \<notin> f ` set xs"
  by (auto simp: find_None_iff)

lemma reported_snoc:
  assumes "reported ids reports results" "distinct ids"
  shows "reported ids (reports @ [r])
    (if length results \<ge> length ids \<or> report_child r \<notin> set ids \<or> report_child r \<in> wr_child ` set results then results
     else results @ [result_of r])"
proof -
  have "report_child r \<in> wr_child ` set results" if "length results \<ge> length ids" "report_child r \<in> set ids"
  proof -
    have "card (wr_child ` set results) = length results"
      using assms(1) by (metis distinct_card length_map list.set_map reported_def)
    moreover have "card (set ids) = length ids" using assms(2) by (rule distinct_card)
    ultimately have "wr_child ` set results = set ids"
      using that(1) assms(1) card_subset_eq [of "set ids"] card_mono [of "set ids"] by (metis List.finite_set le_antisym reported_def)
    then show ?thesis using that(2) by simp
  qed
  then show ?thesis using assms(1)
    by (auto simp: reported_def first_report_snoc find_append find_None_map split: option.splits)
qed

lemma apply_reports_results:
  assumes "for_children corr policy ids created timeout = Inr w" "list_all report_ok reports"
  defines "w' \<equiv> fold apply_report reports w"
  shows "reported ids reports (wc_results w') \<and> w' = w\<lparr>wc_results := wc_results w'\<rparr>"
  using assms(2) unfolding w'_def
proof (induction reports rule: rev_induct)
  case Nil
  then show ?case using for_children_Inr [OF assms(1)] by (simp add: reported_def first_report_def)
next
  case (snoc r reports)
  obtain rs where v: "fold apply_report reports w = w\<lparr>wc_results := rs\<rparr>" and rs: "reported ids reports rs"
    using snoc by (metis list_all_append wait_condition.select_convs(4) wait_condition.surjective wait_condition.update_convs(4))
  note w = for_children_Inr [OF assms(1)]
  have "ch_id ` set (wc_children w) = set ids" using w(1) by (metis list.set_map)
  moreover have "wc_children w \<noteq> []" using w(1,3) by auto
  ultimately have "refuses_result (report_child r) (w\<lparr>wc_results := rs\<rparr>) \<longleftrightarrow>
      length rs \<ge> length ids \<or> report_child r \<notin> set ids \<or> report_child r \<in> wr_child ` set rs"
    using w(4,5) by (auto simp: refuses_result_def accepts_child_def)
  then show ?case using reported_snoc [OF rs w(2), of r] snoc.prems by (auto simp: v apply_report_alt)
qed

lemma find_distinct: "distinct (map f xs) \<Longrightarrow> x \<in> set xs \<Longrightarrow> List.find (\<lambda>r. f r = f x) xs = Some x"
  by (induction xs) (auto simp: image_iff)

lemma reported_members:
  assumes "reported ids reports results"
  shows "r \<in> set results \<longleftrightarrow> (\<exists>c \<in> set ids. \<exists>rep. first_report c reports = Some rep \<and> r = result_of rep)"
proof
  assume r: "r \<in> set results"
  then have "wr_child r \<in> set ids" "List.find (\<lambda>x. wr_child x = wr_child r) results = Some r"
    using assms find_distinct [of wr_child] by (auto simp: reported_def)
  then show "\<exists>c \<in> set ids. \<exists>rep. first_report c reports = Some rep \<and> r = result_of rep"
    using assms by (auto simp: reported_def intro!: bexI [of _ "wr_child r"])
next
  assume "\<exists>c \<in> set ids. \<exists>rep. first_report c reports = Some rep \<and> r = result_of rep"
  then obtain c where "c \<in> set ids" "List.find (\<lambda>x. wr_child x = c) results = Some r" using assms by (auto simp: reported_def)
  then show "r \<in> set results" by (auto simp: find_Some_iff)
qed

lemma reported_length:
  assumes "reported ids reports results" "distinct ids"
  shows "length results \<le> length ids" "length results = length ids \<longleftrightarrow> (\<forall>c \<in> set ids. first_report c reports \<noteq> None)"
proof -
  have card: "card (wr_child ` set results) = length results" "card (set ids) = length ids"
    using assms by (metis distinct_card length_map list.set_map reported_def) (rule distinct_card [OF assms(2)])
  have sub: "wr_child ` set results \<subseteq> set ids" using assms(1) by (simp add: reported_def)
  then show "length results \<le> length ids" using card card_mono [of "set ids" "wr_child ` set results"] by simp
  have "c \<in> wr_child ` set results \<longleftrightarrow> first_report c reports \<noteq> None" if "c \<in> set ids" for c
  proof -
    have "c \<notin> wr_child ` set results \<longleftrightarrow> List.find (\<lambda>r. wr_child r = c) results = None" by (simp only: find_None_map)
    also have "\<dots> \<longleftrightarrow> first_report c reports = None" using assms(1) that by (simp add: reported_def)
    finally show ?thesis by argo
  qed
  then have "wr_child ` set results = set ids \<longleftrightarrow> (\<forall>c \<in> set ids. first_report c reports \<noteq> None)" using sub by blast
  moreover have "length results = length ids \<longleftrightarrow> wr_child ` set results = set ids"
    using card card_subset_eq [OF _ sub] by auto
  ultimately show "length results = length ids \<longleftrightarrow> (\<forall>c \<in> set ids. first_report c reports \<noteq> None)" by simp
qed

lemma result_of_error: "wr_error (result_of r) = (case r of Succeeded _ _ \<Rightarrow> None | Broke _ e \<Rightarrow> Some e)"
  by (cases r) (simp_all add: wait_success_def wait_failure_def)

lemma first_report_child: "first_report c reports = Some r \<Longrightarrow> report_child r = c"
  by (auto simp: first_report_def find_Some_iff)

definition child_succeeded :: "report list \<Rightarrow> string \<Rightarrow> bool" where
  "child_succeeded reports c \<longleftrightarrow> (\<exists>payload. first_report c reports = Some (Succeeded c payload))"

definition child_failed :: "report list \<Rightarrow> string \<Rightarrow> bool" where
  "child_failed reports c \<longleftrightarrow> (\<exists>e. first_report c reports = Some (Broke c e))"

lemma child_missing: "first_report c reports = None \<longleftrightarrow> \<not> child_succeeded reports c \<and> \<not> child_failed reports c"
proof (cases "first_report c reports")
  case (Some r)
  then show ?thesis using first_report_child [OF Some] by (cases r) (auto simp: child_succeeded_def child_failed_def)
qed (simp add: child_succeeded_def child_failed_def)

lemma child_not_both: "child_succeeded reports c \<Longrightarrow> \<not> child_failed reports c"
  by (auto simp: child_succeeded_def child_failed_def)

lemma reported_outcomes:
  assumes "reported ids reports rs"
  shows "(\<exists>r \<in> set rs. wr_error r \<noteq> None) \<longleftrightarrow> (\<exists>c \<in> set ids. child_failed reports c)"
    "(\<exists>r \<in> set rs. wr_is_success r) \<longleftrightarrow> (\<exists>c \<in> set ids. child_succeeded reports c)"
proof -
  have ex: "(\<exists>r \<in> set rs. P r) \<longleftrightarrow> (\<exists>c \<in> set ids. \<exists>rep. first_report c reports = Some rep \<and> P (result_of rep))" for P
    by (auto simp: reported_members [OF assms] Bex_def)
  have f: "(\<exists>rep. first_report c reports = Some rep \<and> wr_error (result_of rep) \<noteq> None) \<longleftrightarrow> child_failed reports c"
    "(\<exists>rep. first_report c reports = Some rep \<and> wr_is_success (result_of rep)) \<longleftrightarrow> child_succeeded reports c" for c
  proof -
    show "(\<exists>rep. first_report c reports = Some rep \<and> wr_error (result_of rep) \<noteq> None) \<longleftrightarrow> child_failed reports c"
    proof (cases "first_report c reports")
      case (Some rep)
      then show ?thesis using first_report_child [OF Some] by (cases rep) (simp_all add: result_of_error child_failed_def)
    qed (simp add: child_failed_def)
    show "(\<exists>rep. first_report c reports = Some rep \<and> wr_is_success (result_of rep)) \<longleftrightarrow> child_succeeded reports c"
    proof (cases "first_report c reports")
      case (Some rep)
      then show ?thesis using first_report_child [OF Some]
        by (cases rep) (simp_all add: result_of_error wr_is_success_def child_succeeded_def)
    qed (simp add: child_succeeded_def)
  qed
  show "(\<exists>r \<in> set rs. wr_error r \<noteq> None) \<longleftrightarrow> (\<exists>c \<in> set ids. child_failed reports c)"
    "(\<exists>r \<in> set rs. wr_is_success r) \<longleftrightarrow> (\<exists>c \<in> set ids. child_succeeded reports c)"
    unfolding ex f by simp_all
qed

text \<open>
  Property C40: a wait for children decides by the first report of each child, in whatever order they arrive. Under the
  policy of all it is ready when every child has succeeded and pending while none has failed; under the policy of any
  it is ready when one child has succeeded and pending while one is missing. In every other case it has failed.
\<close>

theorem wait_decides:
  assumes "for_children corr policy ids created timeout = Inr w" "list_all report_ok reports" "\<not> is_expired_at now w"
  shows "(evaluate_wait (fold apply_report reports w) now = EvReady \<longleftrightarrow>
      (case policy of WaitAll \<Rightarrow> \<forall>c \<in> set ids. child_succeeded reports c | WaitAny \<Rightarrow> \<exists>c \<in> set ids. child_succeeded reports c)) \<and>
    (evaluate_wait (fold apply_report reports w) now = EvPending \<longleftrightarrow>
      (\<exists>c \<in> set ids. first_report c reports = None) \<and>
      (case policy of WaitAll \<Rightarrow> \<forall>c \<in> set ids. \<not> child_failed reports c | WaitAny \<Rightarrow> \<forall>c \<in> set ids. \<not> child_succeeded reports c))"
proof -
  note w = for_children_Inr [OF assms(1)]
  obtain rs where v: "fold apply_report reports w = w\<lparr>wc_results := rs\<rparr>" and rs: "reported ids reports rs"
    using apply_reports_results [OF assms(1,2)] by metis
  note len = reported_length [OF rs w(2)]
  have "unat (completed_count (w\<lparr>wc_results := rs\<rparr>)) = length rs"
    using len(1) w(5) by (simp add: completed_count_def u32_or_max_small max_wait_children_def)
  then have full: "completed_count (w\<lparr>wc_results := rs\<rparr>) \<ge> wc_expected w \<longleftrightarrow> (\<forall>c \<in> set ids. first_report c reports \<noteq> None)"
    using len w(4) by (auto simp: word_le_nat_alt)
  have exp: "\<not> is_expired_at now (w\<lparr>wc_results := rs\<rparr>)" using assms(3) by (simp add: is_expired_at_def)
  have find: "List.find (\<lambda>r. wr_error r \<noteq> None) rs = None \<longleftrightarrow> \<not> (\<exists>c \<in> set ids. child_failed reports c)"
    using reported_outcomes(1) [OF rs] by (auto simp: find_None_iff)
  have full: "completed_count (w\<lparr>wc_results := rs\<rparr>) \<ge> wc_expected w \<longleftrightarrow> (\<forall>c \<in> set ids. child_succeeded reports c \<or> child_failed reports c)"
    using full child_missing by auto
  show ?thesis
  proof (cases policy)
    case WaitAll
    have e: "evaluate_wait (w\<lparr>wc_results := rs\<rparr>) now =
        (case List.find (\<lambda>r. wr_error r \<noteq> None) rs of Some r \<Rightarrow> EvFailed (error_clone (the (wr_error r)))
         | None \<Rightarrow> if \<forall>c \<in> set ids. child_succeeded reports c \<or> child_failed reports c then EvReady else EvPending)"
      using exp WaitAll by (simp add: evaluate_wait_def w(7) full del: not_None_eq) blast
    show ?thesis
    proof (cases "\<exists>c \<in> set ids. child_failed reports c")
      case True
      then obtain r where "List.find (\<lambda>r. wr_error r \<noteq> None) rs = Some r" using find by auto
      then show ?thesis using True WaitAll child_not_both unfolding v e child_missing by auto
    next
      case False
      then show ?thesis using find WaitAll unfolding v e child_missing by auto
    qed
  next
    case WaitAny
    then show ?thesis using full exp reported_outcomes(2) [OF rs]
      by (auto simp: v evaluate_wait_def w(7) child_missing)
  qed
qed

definition sample_reports :: "report list" where
  "sample_reports = [Succeeded ''b'' [1], Broke ''b'' (error_new Internal ''late''), Succeeded ''a'' [], Succeeded ''c'' [2]]"

theorem wait_decides_witness:
  "\<exists>w. for_children ''wait'' WaitAll [''a'', ''b''] 0 10 = Inr w \<and> \<not> is_expired_at 5 w \<and>
     evaluate_wait (fold apply_report sample_reports w) 5 = EvReady"
proof -
  obtain w where w: "for_children ''wait'' WaitAll [''a'', ''b''] 0 10 = Inr w"
    by (simp add: for_children_def max_wait_children_def child_pending_def)
  then have live: "\<not> is_expired_at 5 w" using for_children_Inr(8,9) [OF w] by (simp add: is_expired_at_def)
  have ok: "list_all report_ok sample_reports" by (simp add: sample_reports_def accepts_payload_len_def max_wait_result_bytes_def)
  from wait_decides [OF w ok live] show ?thesis using w live
    by (auto simp: sample_reports_def child_succeeded_def first_report_def)
qed

section \<open>What the operations keep\<close>

lemma set_child_Some:
  "set_child P state cs = Some (child_id, cs') \<Longrightarrow>
   map ch_id cs' = map ch_id cs \<and> (\<exists>i < length cs. P (cs ! i) \<and> (\<forall>j < i. \<not> P (cs ! j)) \<and> ch_id (cs ! i) = child_id \<and>
     cs' = cs[i := (cs ! i)\<lparr>ch_state := state\<rparr>])"
proof (induction cs arbitrary: cs')
  case (Cons c cs)
  show ?case
  proof (cases "P c")
    case True
    then show ?thesis using Cons.prems by (auto intro!: exI [of _ 0])
  next
    case False
    then obtain rest where rest: "set_child P state cs = Some (child_id, rest)" "cs' = c # rest" using Cons.prems by auto
    from Cons.IH [OF rest(1)] obtain i where i: "i < length cs" "P (cs ! i)" "\<forall>j < i. \<not> P (cs ! j)" "ch_id (cs ! i) = child_id"
        "rest = cs[i := (cs ! i)\<lparr>ch_state := state\<rparr>]" "map ch_id rest = map ch_id cs" by auto
    have "\<forall>j < Suc i. \<not> P ((c # cs) ! j)" using i(3) False by (auto simp: less_Suc_eq_0_disj)
    then show ?thesis using i rest(2) by (intro conjI exI [of _ "Suc i"]) simp_all
  qed
qed simp

lemma wait_validate_children:
  "map ch_id cs = map ch_id (wc_children w) \<Longrightarrow> wait_validate (w\<lparr>wc_children := cs\<rparr>) = wait_validate w"
proof -
  assume m: "map ch_id cs = map ch_id (wc_children w)"
  have "length cs = length (wc_children w)" "cs = [] \<longleftrightarrow> wc_children w = []" using m by (metis length_map) (metis m list.map_disc_iff)
  moreover have "(\<exists>c \<in> set cs. ch_id c = []) \<longleftrightarrow> (\<exists>c \<in> set (wc_children w). ch_id c = [])"
    using m by (metis (mono_tags, lifting) imageE imageI list.set_map)
  ultimately show ?thesis using m by (simp add: wait_validate_def)
qed

text \<open>A wait that is valid stays valid through every report, launch claim, launch and release.\<close>

lemma wait_operations_keep_valid:
  assumes "wait_validate w = Inr ()"
  shows "wait_validate (wait_record_success child_id payload w) = Inr ()"
    "wait_validate (wait_record_failure child_id e w) = Inr ()"
    "claim_next_child owner now claim_for w = Some (c, w1) \<Longrightarrow> wait_validate w1 = Inr ()"
    "mark_child_launched child_id owner w = Some w2 \<Longrightarrow> wait_validate w2 = Inr ()"
    "release_child_claim child_id owner w = Some w3 \<Longrightarrow> wait_validate w3 = Inr ()"
proof -
  show "wait_validate (wait_record_success child_id payload w) = Inr ()" "wait_validate (wait_record_failure child_id e w) = Inr ()"
    using assms by (auto simp: wait_validate_def wait_record_success_def wait_record_failure_def refuses_result_def wait_success_def wait_failure_def
        split: if_splits)
  show "claim_next_child owner now claim_for w = Some (c, w1) \<Longrightarrow> wait_validate w1 = Inr ()"
    "mark_child_launched child_id owner w = Some w2 \<Longrightarrow> wait_validate w2 = Inr ()"
    "release_child_claim child_id owner w = Some w3 \<Longrightarrow> wait_validate w3 = Inr ()"
    using assms by (auto simp: claim_next_child_def mark_child_launched_def release_child_claim_def bind_eq_Some_conv
        wait_validate_children dest!: set_child_Some)
qed

text \<open>A continuation that is valid stays valid whenever the wait and the state it is given are.\<close>

lemma continuation_operations_keep_valid:
  assumes "cont_validate c = Inr ()"
  shows "cont_validate (delayed_until resume_at now c) = Inr ()" "cont_validate (with_schedule_id sid now c) = Inr ()"
    "cont_validate (cont_at_step step now c) = Inr ()" "cont_validate (cont_ready now c) = Inr ()"
    "cont_validate (complete_compensation now c) = Inr ()"
    "record_compensation step now c = Inr c' \<Longrightarrow> cont_validate c' = Inr ()"
    "wait_validate w = Inr () \<Longrightarrow> cont_validate (with_wait w now c) = Inr ()"
    "flow_validate f = Inr () \<Longrightarrow> cont_validate (with_state f now c) = Inr ()"
  using assms by (auto simp: cont_validate_def delayed_until_def with_schedule_id_def cont_at_step_def cont_ready_def
      complete_compensation_def record_compensation_def with_wait_def with_state_def touch_def bind_r_Inr_iff
      split: if_splits option.splits)

text \<open>Rollback actions are taken last in, first out.\<close>

lemma compensations_lifo:
  assumes "record_compensation step now c = Inr c'"
  shows "next_compensation c' = Some step" "co_compensations (complete_compensation now' c') = co_compensations c"
  using assms by (auto simp: record_compensation_def next_compensation_def complete_compensation_def touch_def split: if_splits)

text \<open>
  A launch claim excludes other owners: until it expires nobody claims the child again, and nobody else marks it
  launched or gives it back.
\<close>

lemma child_claim_exclusive:
  assumes "wait_validate w = Inr ()" "claim_next_child owner now claim_for w = Some (child_id, w')"
  shows "claim_next_child owner' now' claim_for' w' = Some (child_id', w'') \<Longrightarrow> now' < now + int claim_for \<Longrightarrow> child_id' \<noteq> child_id"
    "owner' \<noteq> owner \<Longrightarrow> mark_child_launched child_id owner' w' = None \<and> release_child_claim child_id owner' w' = None"
proof -
  obtain expires cs where e: "systime_checked_add now claim_for = Some expires" "w' = w\<lparr>wc_children := cs\<rparr>"
      "set_child (claimable_child now) (ChildClaimed owner expires) (wc_children w) = Some (child_id, cs)"
    using assms(2) by (auto simp: claim_next_child_def bind_eq_Some_conv)
  have exp: "expires = now + int claim_for" using e(1) by (auto simp: systime_checked_add_def Let_def split: if_splits)
  obtain i where i: "i < length cs" "cs ! i = \<lparr>ch_id = child_id, ch_state = ChildClaimed owner expires\<rparr>" "map ch_id cs = map ch_id (wc_children w)"
    using set_child_Some [OF e(3)] by (auto simp: intro!: child_launch.equality)
  have "distinct (map ch_id cs)" using assms(1) i by (auto simp: wait_validate_def split: if_splits)
  then have only: "ch_state (cs ! j) = ChildClaimed owner expires" if "j < length cs" "ch_id (cs ! j) = child_id" for j
    using that i by (metis child_launch.select_convs length_map nth_eq_iff_index_eq nth_map)
  show "claim_next_child owner' now' claim_for' w' = Some (child_id', w'') \<Longrightarrow> now' < now + int claim_for \<Longrightarrow> child_id' \<noteq> child_id"
    using only exp e(2) by (auto simp: claim_next_child_def bind_eq_Some_conv claimable_child_def dest!: set_child_Some)
  have "set_child (claimed_child child_id owner') state cs = None" if "owner' \<noteq> owner" for state
  proof (cases "set_child (claimed_child child_id owner') state cs")
    case (Some p)
    then show ?thesis using only that by (cases p) (auto simp: claimed_child_def dest!: set_child_Some)
  qed simp
  then show "owner' \<noteq> owner \<Longrightarrow> mark_child_launched child_id owner' w' = None \<and> release_child_claim child_id owner' w' = None"
    using e(2) by (simp add: mark_child_launched_def release_child_claim_def)
qed

end
