(* ===== verification/Spec2Isabelle.thy ===== *)
theory Spec2Isabelle
  imports Outbox_Processor Idempotency Inbox Event_Upgrades Projections Subscriptions Snowflake Retries Flow_Executor Envelope_Wire
    Dsl_Resume Suspension
begin

text \<open>
  A verification of catga-rs, a Rust library for commands, events and durable workflows. The development follows the
  crate \<open>src/crates/catga-core\<close>; paths below are relative to its \<open>src\<close> directory.

  \<^bold>\<open>The program.\<close> Messages travel in envelopes. A sender writes them to an outbox, a processor claims and publishes
  them, and a receiver runs each one once behind an inbox or an idempotency store. Aggregates are rebuilt from
  append-only event streams and snapshots; projections and subscriptions follow the streams. Durable flows are
  claimed, run and recovered by executors, or written in a DSL of steps whose progress is checkpointed. Around all of
  this stand errors with stable codes, bounded binary codecs, identifiers, retries and circuit breakers. The stores
  are traits; the model has the in-memory implementations, and clients of a store are modelled over any operations
  that keep the contract of its trait.

  \<^bold>\<open>Theories and sources.\<close>
  \<^item> \<open>Prelude\<close>: machine integers with the checked, wrapping and saturating operations of the source, \<open>Result\<close> as a sum
    (\<open>Inl\<close> is \<open>Err\<close>), UTF-8 strings, times and durations, the bounded heap.
  \<^item> \<open>Catga_Errors\<close>: \<open>error.rs\<close>, \<open>codec/memorypack/error.rs\<close>. \<open>Messages\<close>: \<open>time.rs\<close>, \<open>message.rs\<close>, \<open>store.rs\<close>.
    \<open>Reliability\<close>: \<open>reliability.rs\<close>, \<open>memory/dead_letter.rs\<close>.
  \<^item> \<open>Capacity\<close>, \<open>Claims\<close>, \<open>Retention\<close>, \<open>Claim_Table\<close>: what the in-memory stores share, \<open>memory/capacity.rs\<close>,
    \<open>memory/claim.rs\<close> and the retention sweeps.
  \<^item> \<open>Outbox_Message\<close>, \<open>Outbox\<close>, \<open>Outbox_Correct\<close>, \<open>Outbox_Processor\<close>: \<open>store.rs\<close>, \<open>memory/outbox.rs\<close>, \<open>outbox_processor.rs\<close>.
  \<^item> \<open>Processing\<close>, \<open>Inbox\<close>, \<open>Idempotency\<close>: \<open>behaviors/inbox.rs\<close>, \<open>behaviors/idempotency.rs\<close> and their stores under
    \<open>memory\<close>.
  \<^item> \<open>Event_Store\<close>, \<open>Event_Reading\<close>, \<open>Snapshots\<close>, \<open>Aggregates\<close>, \<open>Event_Upgrades\<close>: \<open>event_store.rs\<close>, \<open>snapshot.rs\<close>,
    \<open>auto_snapshot.rs\<close>, \<open>aggregate.rs\<close>, \<open>time_travel.rs\<close>, \<open>event_version.rs\<close>, \<open>upgrading_event_store.rs\<close> and the stores
    under \<open>memory\<close>.
  \<^item> \<open>Event_Following\<close>, \<open>Projections\<close>, \<open>Subscriptions\<close>: \<open>projection.rs\<close>, \<open>subscription.rs\<close> and their stores.
  \<^item> \<open>Snowflake\<close>: \<open>distributed_id.rs\<close>. \<open>Circuit_Breaker\<close>, \<open>Retries\<close>: \<open>behaviors/circuit_breaker.rs\<close>,
    \<open>behaviors/retry.rs\<close>, \<open>retry_jitter.rs\<close>, \<open>resilience.rs\<close>.
  \<^item> \<open>Memory_Pack\<close>, \<open>Wire_Laws\<close>, \<open>Envelope_Wire\<close>: \<open>codec/memorypack\<close> and the code that the crate
    \<open>catga-memorypack-derive\<close> generates for structs.
  \<^item> \<open>Flows\<close>, \<open>Flow_Executor\<close>: \<open>flow/state.rs\<close>, \<open>flow/store.rs\<close>, \<open>memory/flow.rs\<close>, \<open>flow/executor.rs\<close>.
    \<open>Suspension\<close>: \<open>flow/suspension.rs\<close>, \<open>flow/runtime_wait.rs\<close>.
  \<^item> \<open>Dsl_Checkpoint\<close>, \<open>Dsl_Flow\<close>, \<open>Dsl_Recovery\<close>, \<open>Dsl_Recovery_Correct\<close>, \<open>Dsl_Resume\<close>: \<open>flow/dsl.rs\<close> with the files
    \<open>flow/dsl_*.rs\<close>, \<open>flow/flow_throttle.rs\<close> and \<open>memory/dsl_progress.rs\<close>.

  \<^bold>\<open>How the model corresponds to the code.\<close> A struct is a record, an enum a datatype, a method a function that takes
  the state and returns the new one with the result. \<open>u8\<close> to \<open>u64\<close> are words, \<open>usize\<close> is a natural number with its
  checked operations bounded by 64 bits, \<open>i64\<close> is an integer with its bounds written out. Clock readings and the order
  in which a concurrent map is iterated are arguments. User code behind traits and closures is an argument: handlers,
  transports, pipelines and DSL actions are functions on a state and a world of their own. Where a lock or an entry
  guard makes a method atomic it is one step; the lock-free loops of claims, capacities, identifiers and circuit
  admission are also step relations of any number of threads. A client that calls a store several times takes the
  functions by which other tasks change it in between.

  \<^bold>\<open>Loops, fuel and bounds.\<close> Loops over data are structural recursions or have termination proofs. A loop that reads a
  store other tasks append to takes the list of states its reads observe, and answers \<^const>\<open>None\<close> when it wants to
  read on: the theorems say how many observations are enough, one per page of the final history. Recovery sweeps and
  scan loops take one entry per round in the same way. Concurrent branches and deliveries run one after another in an
  arbitrary completion order, each from its own copy of the state.

  \<^bold>\<open>What is proved.\<close>
  \<^item> Outbox: a claim returns the oldest eligible messages, excludes other workers until it expires, and a token dies
    with its claim; a processor scan settles every message it claimed; capacity and indexes stay exact.
  \<^item> Inbox and idempotency: at most one successful execution per key, duplicates are excluded while a call runs, a
    superseded claim changes nothing; the interleaved claim records refine the sequential ones.
  \<^item> Event sourcing: appends are optimistic and atomic, loads replay the whole stream under concurrent appends, saves
    round-trip, snapshots do not change what time travel returns, upgrades commute with loading; projections and
    subscriptions handle each event once, in order, and resume after a failure.
  \<^item> Codecs: decoding inverts encoding within the budgets, for errors, envelopes, checkpoint frames and every wire type.
  \<^item> Flows: the outcome of a durable flow is final, sweeps end, a run with compensation is a saga, parallel branches are
    isolated, checkpoint records are well typed over any store that keeps its contract, a finished flow stays
    finished, a failed run of plain steps continues where it stopped, and a wait decides by the first report of each
    child in whatever order they arrive.
  \<^item> Identifiers are unique and increasing across threads; retries and circuit breakers do exactly what their options say.
  \<^item> Some theorems exhibit runs in which the code does not do what it documents: a delayed owner overwrites a claim, two
    probes pass a circuit, an envelope or a final state is written that cannot be read, a checkpointed branch skips
    the second of two conditionals, and a loop in a branch cannot be resumed.

  \<^bold>\<open>Interfaces.\<close> Each contract is a locale whose laws the in-memory store discharges in an interpretation: \<open>admission\<close>,
  \<open>processing_store\<close>, \<open>delivery_store\<close>, \<open>event_history\<close>, \<open>event_streams\<close>, \<open>snapshot_source\<close>, \<open>snapshot_archive\<close>,
  \<open>repository\<close>, \<open>archive\<close>, \<open>flow_store\<close>, \<open>progress_contract\<close>, and \<open>wire\<close> for the binary forms.

  \<^bold>\<open>Not modelled.\<close> The runtime, scheduler and state machines of suspended flows (\<open>flow/runtime.rs\<close>,
  \<open>flow/scheduler.rs\<close>, \<open>flow/state_machine\<close>) with their in-memory stores. Mediator, registry, pipeline dispatch and
  host lifecycle, which move boxed trait objects between handlers of unrelated types. Counters, spans and log output.
  The object-reference table of the codec. The adapters in the other crates: their operations are statements and
  scripts that a NATS, Redis, SQL or RobustMQ server executes, requests of the axum and rustls libraries, or calls of
  the raft library. Procedural macros run in the compiler; of these only the code generated for structs is modelled.
  Cancellation of a future between two awaits is modelled only where the source has a drop guard for it.
\<close>

end
